(* ===== verification/Prelude.thy ===== *)
theory Prelude
  imports Main "HOL-Library.AList"
begin

text \<open>
  Shared vocabulary of the development: results that carry the exception a function of the
  program throws, folds over an append-only event log, insertion-ordered maps, and the two
  interfaces most components rely on.

  A TypeScript function that may throw is a function into \<open>'x + 'a\<close>: \<open>Inl\<close> is
  the thrown error and \<open>Inr\<close> the returned value. A \<open>Map\<close> of the program is an
  association list in insertion order, with the operations of \<open>HOL-Library.AList\<close>:
  \<open>Map.prototype.set\<close> overwrites in place or appends at the end, as
  \<open>AList.update\<close> does.
\<close>

section \<open>Results\<close>

named_theorems result_simps \<open>equations and inversions of results\<close>

fun and_then :: "'x + 'a \<Rightarrow> ('a \<Rightarrow> 'x + 'b) \<Rightarrow> 'x + 'b" where
  "and_then (Inl e) f = Inl e"
| "and_then (Inr a) f = f a"

lemma and_then_Inr_iff [result_simps]:
  "and_then m f = Inr b \<longleftrightarrow> (\<exists>a. m = Inr a \<and> f a = Inr b)"
  by (cases m) auto

lemma and_then_Inl_iff [result_simps]:
  "and_then m f = Inl e \<longleftrightarrow> m = Inl e \<or> (\<exists>a. m = Inr a \<and> f a = Inl e)"
  by (cases m) auto

definition returns :: "'x + 'a \<Rightarrow> bool" where
  "returns m \<longleftrightarrow> (case m of Inl _ \<Rightarrow> False | Inr _ \<Rightarrow> True)"

lemma returns_Inr [simp]: "returns (Inr a)"
  and returns_Inl [simp]: "\<not> returns (Inl e)"
  by (simp_all add: returns_def)

lemma returns_iff: "returns m \<longleftrightarrow> (\<exists>a. m = Inr a)"
  by (cases m) auto

text \<open>\<open>Array.prototype.map\<close> with a callback that may throw.\<close>

fun traverse :: "('a \<Rightarrow> 'x + 'b) \<Rightarrow> 'a list \<Rightarrow> 'x + 'b list" where
  "traverse f [] = Inr []"
| "traverse f (a # as) = and_then (f a) (\<lambda>b. and_then (traverse f as) (\<lambda>bs. Inr (b # bs)))"

lemma traverse_Inr: "traverse f as = Inr bs \<Longrightarrow> list_all2 (\<lambda>a b. f a = Inr b) as bs"
  by (induction as arbitrary: bs) (auto simp: result_simps)

section \<open>Folds over a log\<close>

fun fold_result :: "('s \<Rightarrow> 'e \<Rightarrow> 'x + 's) \<Rightarrow> 's \<Rightarrow> 'e list \<Rightarrow> 'x + 's" where
  "fold_result f s [] = Inr s"
| "fold_result f s (e # es) = and_then (f s e) (\<lambda>s'. fold_result f s' es)"

lemma fold_result_append:
  "fold_result f s (es @ fs) = and_then (fold_result f s es) (\<lambda>s'. fold_result f s' fs)"
proof (induction es arbitrary: s)
  case Nil
  then show ?case by simp
next
  case (Cons e es)
  then show ?case by (cases "f s e") simp_all
qed

lemma fold_result_appendI:
  "fold_result f s es = Inr s' \<Longrightarrow> fold_result f s' fs = r \<Longrightarrow> fold_result f s (es @ fs) = r"
  by (simp add: fold_result_append)

lemma fold_result_append_Inr:
  "fold_result f s (es @ fs) = Inr t \<longleftrightarrow>
     (\<exists>s'. fold_result f s es = Inr s' \<and> fold_result f s' fs = Inr t)"
  by (simp add: fold_result_append result_simps)

lemma fold_result_take:
  assumes "fold_result f s es = Inr t"
  shows "\<exists>s'. fold_result f s (take n es) = Inr s' \<and> fold_result f s' (drop n es) = Inr t"
  using assms fold_result_append_Inr [of f s "take n es" "drop n es" t] by simp

lemma fold_result_invariant:
  assumes "fold_result f s es = Inr t" and "P s"
    and "\<And>s e s'. P s \<Longrightarrow> e \<in> set es \<Longrightarrow> f s e = Inr s' \<Longrightarrow> P s'"
  shows "P t"
  using assms
proof (induction es arbitrary: s)
  case Nil
  then show ?case by simp
next
  case (Cons e es)
  from Cons.prems(1) obtain u where u: "f s e = Inr u" "fold_result f u es = Inr t"
    by (auto simp: result_simps)
  have "P u" by (rule Cons.prems(3) [OF Cons.prems(2) _ u(1)]) simp
  then show ?case
  proof (rule Cons.IH [OF u(2)])
    fix s e s'
    assume "P s" "e \<in> set es" "f s e = Inr s'"
    then show "P s'" by (intro Cons.prems(3) [of s e s']) simp_all
  qed
qed

text \<open>A total step is a step that never throws.\<close>

lemma fold_result_total: "fold_result (\<lambda>s e. Inr (g s e)) s es = Inr (foldl g s es)"
  by (induction es arbitrary: s) auto

section \<open>Lists\<close>

lemma take_length_append [simp]: "n \<le> length xs \<Longrightarrow> take n (xs @ ys) = take n xs"
  by simp

lemma nth_append_lt: "i < length xs \<Longrightarrow> (xs @ ys) ! i = xs ! i"
  by (simp add: nth_append)

text \<open>\<open>Array.prototype.slice(i, j + 1)\<close> and \<open>splice(i, j - i + 1, x)\<close> for indices in range.\<close>

definition slice_incl :: "nat \<Rightarrow> nat \<Rightarrow> 'a list \<Rightarrow> 'a list" where
  "slice_incl i j xs = take (Suc j - i) (drop i xs)"

definition splice_one :: "nat \<Rightarrow> nat \<Rightarrow> 'a \<Rightarrow> 'a list \<Rightarrow> 'a list" where
  "splice_one i j x xs = take i xs @ [x] @ drop (Suc j) xs"

lemma slice_decomp:
  assumes "i \<le> j"
  shows "xs = take i xs @ slice_incl i j xs @ drop (Suc j) xs"
proof -
  have "drop (Suc j - i) (drop i xs) = drop (Suc j) xs" using assms by simp
  then have "drop i xs = slice_incl i j xs @ drop (Suc j) xs"
    using append_take_drop_id [of "Suc j - i" "drop i xs"] by (simp add: slice_incl_def)
  then show ?thesis using append_take_drop_id [of i xs] by simp
qed

lemma set_splice_one:
  assumes "i \<le> j"
  shows "set (splice_one i j x xs) \<union> set (slice_incl i j xs) = insert x (set xs)"
proof -
  have "set xs = set (take i xs @ slice_incl i j xs @ drop (Suc j) xs)"
    using slice_decomp [OF assms, of xs] by (rule arg_cong)
  then show ?thesis by (auto simp: splice_one_def)
qed

lemma set_slice_incl_subset: "set (slice_incl i j xs) \<subseteq> set xs"
  unfolding slice_incl_def by (meson set_drop_subset set_take_subset subset_trans)

lemma distinct_splice_one:
  assumes "distinct xs" "x \<notin> set xs" "i \<le> j"
  shows "distinct (splice_one i j x xs)"
proof -
  have "distinct (take i xs @ slice_incl i j xs @ drop (Suc j) xs)"
    using assms(1) slice_decomp [OF assms(3), of xs] by simp
  then have "distinct (take i xs)" "distinct (drop (Suc j) xs)"
    "set (take i xs) \<inter> set (drop (Suc j) xs) = {}" by auto
  moreover have "x \<notin> set (take i xs)" "x \<notin> set (drop (Suc j) xs)"
    using assms(2) by (meson in_set_takeD, meson in_set_dropD)
  ultimately show ?thesis by (auto simp: splice_one_def)
qed

lemma splice_disjoint_slice:
  assumes "distinct xs" "x \<notin> set xs" "i \<le> j"
  shows "set (splice_one i j x xs) \<inter> set (slice_incl i j xs) = {}"
proof -
  have "distinct (take i xs @ slice_incl i j xs @ drop (Suc j) xs)"
    using assms(1) slice_decomp [OF assms(3), of xs] by simp
  moreover have "x \<notin> set (slice_incl i j xs)"
    using assms(2) set_slice_incl_subset by fastforce
  ultimately show ?thesis by (auto simp: splice_one_def)
qed

text \<open>\<open>Array.prototype.indexOf\<close>: \<open>None\<close> is the result \<open>-1\<close>.\<close>

fun index_of :: "'a \<Rightarrow> 'a list \<Rightarrow> nat option" where
  "index_of x [] = None"
| "index_of x (y # ys) = (if x = y then Some 0 else map_option Suc (index_of x ys))"

lemma index_of_Some: "index_of x xs = Some i \<Longrightarrow> i < length xs \<and> xs ! i = x"
  by (induction xs arbitrary: i) (auto split: if_splits)

lemma index_of_None [simp]: "index_of x xs = None \<longleftrightarrow> x \<notin> set xs"
  by (induction xs) auto

lemma index_of_nth: "distinct xs \<Longrightarrow> i < length xs \<Longrightarrow> index_of (xs ! i) xs = Some i"
proof (induction xs arbitrary: i)
  case Nil
  then show ?case by simp
next
  case (Cons y ys)
  then show ?case by (cases i) auto
qed

section \<open>Insertion-ordered maps\<close>

text \<open>
  What the program uses of \<open>Map\<close>: \<open>get\<close>, \<open>set\<close>, \<open>delete\<close> and iteration in
  insertion order.
\<close>

locale ordered_map =
  fixes get :: "'m \<Rightarrow> 'k \<Rightarrow> 'v option"
    and put :: "'k \<Rightarrow> 'v \<Rightarrow> 'm \<Rightarrow> 'm"
    and remove :: "'k \<Rightarrow> 'm \<Rightarrow> 'm"
    and keys :: "'m \<Rightarrow> 'k list"
    and good :: "'m \<Rightarrow> bool"
  assumes get_put: "get (put k v m) k' = (if k' = k then Some v else get m k')"
    and get_remove: "get (remove k m) k' = (if k' = k then None else get m k')"
    and keys_put: "keys (put k v m) = (if k \<in> set (keys m) then keys m else keys m @ [k])"
    and keys_remove: "keys (remove k m) = filter (\<lambda>k'. k' \<noteq> k) (keys m)"
    and good_keys: "good m \<Longrightarrow> distinct (keys m) \<and> set (keys m) = {k. get m k \<noteq> None}"
    and good_put: "good m \<Longrightarrow> good (put k v m)"
    and good_remove: "good m \<Longrightarrow> good (remove k m)"
begin

lemma put_fresh_last: "good m \<Longrightarrow> get m k = None \<Longrightarrow> keys (put k v m) = keys m @ [k]"
  using good_keys [of m] by (auto simp: keys_put)

lemma put_keeps_order: "good m \<Longrightarrow> get m k \<noteq> None \<Longrightarrow> keys (put k v m) = keys m"
  using good_keys [of m] by (auto simp: keys_put)

lemma remove_gone: "k \<notin> set (keys (remove k m))"
  by (simp add: keys_remove)

end

definition good_map :: "('k \<times> 'v) list \<Rightarrow> bool" where
  "good_map m \<longleftrightarrow> distinct (map fst m)"

lemma keys_update:
  "map fst (AList.update k v m) = (if k \<in> fst ` set m then map fst m else map fst m @ [k])"
  by (induction m) auto

lemma keys_delete: "map fst (AList.delete k m) = filter (\<lambda>k'. k' \<noteq> k) (map fst m)"
  by (induction m) (auto simp: AList.delete_eq)

lemma map_of_delete: "map_of (AList.delete k m) k' = (if k' = k then None else map_of m k')"
  by (induction m) (auto simp: AList.delete_eq)

lemma map_of_update: "map_of (AList.update k v m) k' = (if k' = k then Some v else map_of m k')"
  by (induction m) auto

lemma good_map_Nil [simp]: "good_map []"
  by (simp add: good_map_def)

lemma good_map_update [simp]: "good_map m \<Longrightarrow> good_map (AList.update k v m)"
  by (auto simp: good_map_def keys_update)

lemma good_map_delete [simp]: "good_map m \<Longrightarrow> good_map (AList.delete k m)"
  by (simp add: good_map_def keys_delete)

lemma good_map_keys:
  "good_map m \<Longrightarrow> distinct (map fst m) \<and> set (map fst m) = {k. map_of m k \<noteq> None}"
  by (simp add: good_map_def flip: dom_map_of_conv_image_fst) (simp add: dom_def)

interpretation js_map: ordered_map
  "\<lambda>m k. map_of m k" AList.update AList.delete "map fst" good_map
proof (unfold_locales, goal_cases)
  case (5 m)
  then show ?case by (rule good_map_keys)
qed (simp_all add: map_of_update map_of_delete keys_update keys_delete)

section \<open>Incremental folds\<close>

text \<open>
  Several components keep a cached fold of the log and, when it is read, process only the
  events appended since the last read. The contract is that catching up equals folding the
  missing suffix; the lemmas of the locale turn it into equality with a fold of the whole log.
\<close>

locale incremental_fold =
  fixes step :: "'s \<Rightarrow> 'e \<Rightarrow> 'x + 's"
    and init :: "'s"
    and position :: "'c \<Rightarrow> nat"
    and state :: "'c \<Rightarrow> 's"
    and catch_up :: "'c \<Rightarrow> 'e list \<Rightarrow> 'x + 'c"
  assumes catch_up_sound:
    "position c \<le> length log \<Longrightarrow> catch_up c log = Inr c' \<Longrightarrow>
       position c' = length log \<and>
       fold_result step (state c) (drop (position c) log) = Inr (state c')"
    and catch_up_complete:
    "position c \<le> length log \<Longrightarrow> fold_result step (state c) (drop (position c) log) = Inr s \<Longrightarrow>
       \<exists>c'. catch_up c log = Inr c'"
begin

definition coherent :: "'c \<Rightarrow> 'e list \<Rightarrow> bool" where
  "coherent c log \<longleftrightarrow> position c \<le> length log \<and>
     fold_result step init (take (position c) log) = Inr (state c)"

lemma coherent_append: "coherent c log \<Longrightarrow> coherent c (log @ es)"
  by (simp add: coherent_def)

lemma coherent_catch_up:
  assumes "coherent c log" and "catch_up c log = Inr c'"
  shows "coherent c' log" and "fold_result step init log = Inr (state c')"
proof -
  have c: "position c \<le> length log" "fold_result step init (take (position c) log) = Inr (state c)"
    using assms(1) by (simp_all add: coherent_def)
  have s: "position c' = length log"
    "fold_result step (state c) (drop (position c) log) = Inr (state c')"
    using catch_up_sound [OF c(1) assms(2)] by simp_all
  show f: "fold_result step init log = Inr (state c')"
    using fold_result_appendI [OF c(2) s(2)] by simp
  show "coherent c' log" using f s(1) by (simp add: coherent_def)
qed

lemma coherent_succeeds:
  assumes "coherent c log" and "fold_result step init log = Inr s"
  shows "\<exists>c'. catch_up c log = Inr c' \<and> state c' = s"
proof -
  have c: "position c \<le> length log" "fold_result step init (take (position c) log) = Inr (state c)"
    using assms(1) by (simp_all add: coherent_def)
  have "fold_result step (state c) (drop (position c) log) = Inr s"
    using fold_result_take [OF assms(2), of "position c"] c(2) by auto
  then obtain c' where "catch_up c log = Inr c'"
    using catch_up_complete [OF c(1)] by blast
  then show ?thesis using coherent_catch_up(2) [OF assms(1)] assms(2) by auto
qed

end

section \<open>Canonical encodings\<close>

text \<open>
  A strict reader accepts exactly what its printer writes: the contract of the components that
  store a value as text and refuse every other spelling of it.
\<close>

locale codec =
  fixes encode :: "'a \<Rightarrow> 'b"
    and decode :: "'b \<Rightarrow> 'a option"
    and encodable :: "'a \<Rightarrow> bool"
  assumes decode_encode: "encodable a \<Longrightarrow> decode (encode a) = Some a"
    and decode_sound: "decode b = Some a \<Longrightarrow> encodable a \<and> encode a = b"
begin

lemma decode_iff: "decode b = Some a \<longleftrightarrow> encodable a \<and> encode a = b"
  using decode_encode decode_sound by blast

lemma decodes_iff: "decode b \<noteq> None \<longleftrightarrow> (\<exists>a. encodable a \<and> encode a = b)"
  using decode_iff by (metis not_None_eq)

lemma encode_inj: "encodable a \<Longrightarrow> encodable a' \<Longrightarrow> encode a = encode a' \<Longrightarrow> a = a'"
  using decode_encode by (metis option.inject)

lemma decode_inj: "decode b = Some a \<Longrightarrow> decode b' = Some a \<Longrightarrow> b = b'"
  using decode_sound by blast

end

section \<open>Numbered names\<close>

text \<open>
  Identities made from a prefix and a counter. A search for the next unused one ends, because
  only finitely many names are taken.
\<close>

locale numbered_names =
  fixes name :: "nat \<Rightarrow> 'k"
  assumes name_inj: "name m = name n \<Longrightarrow> m = n"
begin

definition names_above :: "'k set \<Rightarrow> nat \<Rightarrow> nat set" where
  "names_above used c = {n. c < n \<and> name n \<in> used}"

lemma finite_names_above: "finite used \<Longrightarrow> finite (names_above used c)"
proof -
  assume "finite used"
  moreover have "name ` names_above used c \<subseteq> used" by (auto simp: names_above_def)
  ultimately have "finite (name ` names_above used c)" by (rule rev_finite_subset)
  then show ?thesis by (rule finite_imageD) (auto intro: inj_onI name_inj)
qed

lemma search_shrinks:
  assumes "finite used" and "name (Suc c) \<in> used"
  shows "card (names_above used (Suc c)) < card (names_above used c)"
proof -
  have "Suc c \<in> names_above used c" using assms(2) by (simp add: names_above_def)
  moreover have "names_above used (Suc c) \<subseteq> names_above used c" by (auto simp: names_above_def)
  moreover have "Suc c \<notin> names_above used (Suc c)" by (simp add: names_above_def)
  ultimately have "names_above used (Suc c) \<subset> names_above used c" by blast
  then show ?thesis by (rule psubset_card_mono [OF finite_names_above [OF assms(1)]])
qed

lemma name_less_neq: "m < n \<Longrightarrow> name m \<noteq> name n"
  using name_inj by blast

end

end
