(* ===== verification/Js_Values.thy ===== *)
theory Js_Values
  imports Prelude Complex_Main "HOL-Library.Log_Nat" "HOL-Library.Char_ord"
    "HOL-Library.List_Lexorder"
begin

text \<open>
  The part of the language the components use: numbers, JSON-shaped values, strings and
  their standard-library operations.

  A JavaScript number is an integral double (\<open>NInt\<close>), another finite double
  (\<open>NFrac\<close>), negative zero or an infinity. NaN has no constructor: no value the modelled
  code reads can be NaN, because event data is lossless JSON and \<open>JSON.parse\<close> never
  returns it. Sums, differences and products of integers are rounded to 53 significant bits
  by \<open>round_double\<close>. A JSON-shaped value (\<open>jv\<close>) is a finite tree; an object is
  the list of its own enumerable properties in enumeration order. A string is the list of
  its code units below 256.
\<close>

section \<open>Numbers\<close>

datatype jnum =
    NInt int
  | NFrac rat
  | NNegZero
  | NInf bool

definition max_safe :: int where
  "max_safe = 9007199254740991"

definition safe_int :: "int \<Rightarrow> bool" where
  "safe_int n \<longleftrightarrow> - max_safe \<le> n \<and> n \<le> max_safe"

text \<open>\<open>Number.isSafeInteger\<close>.\<close>

fun is_safe_integer :: "jnum \<Rightarrow> bool" where
  "is_safe_integer (NInt n) = safe_int n"
| "is_safe_integer NNegZero = True"
| "is_safe_integer _ = False"

text \<open>The mathematical value of an integral number.\<close>

fun num_int :: "jnum \<Rightarrow> int" where
  "num_int (NInt n) = n"
| "num_int _ = 0"

text \<open>\<open>===\<close> on numbers: the two zeros are equal.\<close>

fun num_eq :: "jnum \<Rightarrow> jnum \<Rightarrow> bool" where
  "num_eq NNegZero (NInt n) = (n = 0)"
| "num_eq (NInt n) NNegZero = (n = 0)"
| "num_eq a b = (a = b)"

lemma num_eq_refl [simp]: "num_eq a a"
  by (cases a) auto

lemma num_eq_sym: "num_eq a b = num_eq b a"
  by (cases a; cases b) auto

text \<open>\<open>Object.is\<close>-lossless JSON numbers: finite and not negative zero.\<close>

fun num_lossless :: "jnum \<Rightarrow> bool" where
  "num_lossless NNegZero = False"
| "num_lossless (NInf _) = False"
| "num_lossless _ = True"

text \<open>Rounding of an exact integer result to the nearest double, ties to even.\<close>

definition round_nat :: "nat \<Rightarrow> nat" where
  "round_nat n =
     (if n \<le> 2 ^ 53 then n
      else
        let m = 2 ^ (floorlog 2 n - 53); q = n div m; r = n mod m
        in if 2 * r < m \<or> (2 * r = m \<and> even q) then q * m else Suc q * m)"

definition round_double :: "int \<Rightarrow> int" where
  "round_double n = (if 0 \<le> n then int (round_nat (nat n)) else - int (round_nat (nat (- n))))"

lemma round_nat_small: "n \<le> 2 ^ 53 \<Longrightarrow> round_nat n = n"
  by (simp add: round_nat_def)

lemma round_nat_large:
  assumes "2 ^ 53 < n"
  shows "2 ^ 53 \<le> round_nat n"
proof -
  let ?k = "floorlog 2 n - 53"
  let ?m = "2 ^ ?k :: nat"
  have fl: "54 \<le> floorlog 2 n"
  proof -
    have "floorlog 2 (2 ^ 53 :: nat) \<le> floorlog 2 n"
      using assms by (intro floorlog_mono) auto
    moreover have "floorlog 2 (2 ^ 53 :: nat) = 54"
      using floorlog_power [of "1::nat" 2 53] by (simp add: compute_floorlog)
    ultimately show ?thesis by simp
  qed
  have "2 ^ (floorlog 2 n - 1) \<le> n"
    using assms floorlog_bounds [of n 2] by simp
  moreover have "2 ^ (floorlog 2 n - 1) = (2 ^ 52 :: nat) * ?m"
  proof -
    have "floorlog 2 n - 1 = 52 + ?k" using fl by simp
    then show ?thesis by (simp only: power_add)
  qed
  ultimately have "2 ^ 52 * ?m \<le> n" by simp
  then have "2 ^ 52 \<le> n div ?m" by (simp add: less_eq_div_iff_mult_less_eq)
  moreover have "2 \<le> ?m"
    using fl power_increasing [of 1 ?k "2::nat"] by simp
  ultimately have "2 ^ 52 * 2 \<le> (n div ?m) * ?m"
    using mult_le_mono by blast
  moreover have "(n div ?m) * ?m \<le> round_nat n"
    using assms by (simp add: round_nat_def Let_def)
  ultimately show ?thesis by simp
qed

text \<open>The only integer above the exact range that rounds down into it.\<close>

lemma round_nat_gt:
  assumes "2 ^ 53 + 2 \<le> n"
  shows "2 ^ 53 < round_nat n"
proof -
  let ?k = "floorlog 2 n - 53"
  let ?m = "2 ^ ?k :: nat"
  have le: "(n div ?m) * ?m \<le> round_nat n"
    using assms by (simp add: round_nat_def Let_def)
  have b: "2 ^ (floorlog 2 n - 1) \<le> n" "n < 2 ^ floorlog 2 n"
    using assms floorlog_bounds [of n 2] by simp_all
  have "2 ^ 53 < (2::nat) ^ floorlog 2 n" using b(2) assms by linarith
  then have fl: "54 \<le> floorlog 2 n" by (simp only: power_strict_increasing_iff)
  show ?thesis
  proof (cases "floorlog 2 n = 54")
    case True
    then have "2 ^ 53 < (n div ?m) * ?m" using assms by simp
    then show ?thesis using le by linarith
  next
    case False
    then have k: "?k = Suc (Suc (floorlog 2 n - 55))" using fl by simp
    then have "4 \<le> ?m" by simp
    moreover have "floorlog 2 n - 1 = 52 + ?k" using fl by simp
    then have "2 ^ 52 * ?m \<le> n" using b(1) by (simp only: power_add)
    then have "2 ^ 52 \<le> n div ?m" by (simp add: less_eq_div_iff_mult_less_eq)
    ultimately have "2 ^ 52 * 4 \<le> (n div ?m) * ?m" using mult_le_mono by blast
    then show ?thesis using le by simp
  qed
qed

lemma round_double_le_limit: "round_double n \<le> 2 ^ 53 \<Longrightarrow> n \<le> 2 ^ 53 + 1"
proof (rule ccontr)
  assume le: "round_double n \<le> 2 ^ 53" and "\<not> n \<le> 2 ^ 53 + 1"
  then have "2 ^ 53 + 2 \<le> nat n" and "0 \<le> n" by simp_all
  then show False using le round_nat_gt [of "nat n"] by (simp add: round_double_def)
qed

lemma round_double_exact: "- (2 ^ 53) \<le> n \<Longrightarrow> n \<le> 2 ^ 53 \<Longrightarrow> round_double n = n"
  by (auto simp: round_double_def round_nat_small)

text \<open>For evaluation: integers in the exact range need no logarithm.\<close>

lemma round_double_code [code]:
  "round_double n =
     (if \<bar>n\<bar> \<le> 9007199254740992 then n
      else if 0 \<le> n then int (round_nat (nat n)) else - int (round_nat (nat (- n))))"
  using round_double_exact [of n] by (simp add: round_double_def)

lemma round_double_safe [simp]: "safe_int n \<Longrightarrow> round_double n = n"
  by (auto simp: round_double_def safe_int_def max_safe_def round_nat_small)

text \<open>Rounding never turns an unsafe exact result into a safe one.\<close>

lemma safe_round_double [simp]: "safe_int (round_double n) \<longleftrightarrow> safe_int n"
proof (cases "safe_int n")
  case True
  then show ?thesis by simp
next
  case False
  show ?thesis
  proof (cases "0 \<le> n")
    case True
    then have n: "2 ^ 53 \<le> nat n" using False by (auto simp: safe_int_def max_safe_def)
    then have "2 ^ 53 \<le> round_nat (nat n)"
      using round_nat_large [of "nat n"] round_nat_small [of "nat n"]
      by (cases "2 ^ 53 < nat n") auto
    then show ?thesis using True False
      by (auto simp: round_double_def safe_int_def max_safe_def)
  next
    case neg: False
    then have n: "2 ^ 53 \<le> nat (- n)" using False by (auto simp: safe_int_def max_safe_def)
    then have "2 ^ 53 \<le> round_nat (nat (- n))"
      using round_nat_large [of "nat (- n)"] round_nat_small [of "nat (- n)"]
      by (cases "2 ^ 53 < nat (- n)") auto
    then show ?thesis using neg False
      by (auto simp: round_double_def safe_int_def max_safe_def)
  qed
qed

text \<open>\<open>+\<close> and \<open>-\<close> on safe integers.\<close>

definition num_add :: "jnum \<Rightarrow> jnum \<Rightarrow> jnum" where
  "num_add a b =
     (if a = NNegZero \<and> b = NNegZero then NNegZero
      else NInt (round_double (num_int a + num_int b)))"

definition num_sub :: "jnum \<Rightarrow> jnum \<Rightarrow> jnum" where
  "num_sub a b =
     (if a = NNegZero \<and> b = NInt 0 then NNegZero
      else NInt (round_double (num_int a - num_int b)))"

section \<open>JSON-shaped values\<close>

datatype jv =
    JNull
  | JBool bool
  | JNum jnum
  | JStr string
  | JArr "jv list"
  | JObj "(string \<times> jv) list"

text \<open>
  Property reads with optional chaining: \<open>None\<close> is \<open>undefined\<close>. Keys of an
  object are distinct (\<open>jv_wf\<close>).
\<close>

fun jprop :: "jv \<Rightarrow> string \<Rightarrow> jv option" where
  "jprop (JObj kvs) k = map_of kvs k"
| "jprop _ k = None"

text \<open>\<open>typeof v === 'object' && v !== null && !Array.isArray(v)\<close>.\<close>

fun is_record :: "jv \<Rightarrow> bool" where
  "is_record (JObj _) = True"
| "is_record _ = False"

text \<open>\<open>Object.keys\<close> of a record.\<close>

fun jkeys :: "jv \<Rightarrow> string list" where
  "jkeys (JObj kvs) = map fst kvs"
| "jkeys _ = []"

fun jv_wf :: "jv \<Rightarrow> bool" where
  "jv_wf (JArr xs) = list_all jv_wf xs"
| "jv_wf (JObj kvs) = (distinct (map fst kvs) \<and> list_all (\<lambda>kv. jv_wf (snd kv)) kvs)"
| "jv_wf _ = True"

text \<open>What \<open>isJsonValue\<close> accepts among finite trees.\<close>

fun json_lossless :: "jv \<Rightarrow> bool" where
  "json_lossless (JNum n) = num_lossless n"
| "json_lossless (JArr xs) = list_all json_lossless xs"
| "json_lossless (JObj kvs) =
     (distinct (map fst kvs) \<and> list_all (\<lambda>kv. json_lossless (snd kv)) kvs)"
| "json_lossless _ = True"

lemma json_lossless_wf: "json_lossless v \<Longrightarrow> jv_wf v"
  by (induction v rule: jv_wf.induct) (auto simp: list_all_iff)

definition has_exact_keys :: "jv \<Rightarrow> string list \<Rightarrow> bool" where
  "has_exact_keys v ks \<longleftrightarrow>
     is_record v \<and> length (jkeys v) = length ks \<and> list_all (\<lambda>k. jprop v k \<noteq> None) ks"

lemma has_exact_keys_set:
  assumes "jv_wf v" and "distinct ks" and "has_exact_keys v ks"
  shows "set (jkeys v) = set ks"
proof -
  obtain kvs where v: "v = JObj kvs"
    using assms(3) by (cases v) (auto simp: has_exact_keys_def)
  have d: "distinct (map fst kvs)" using assms(1) v by simp
  have "set ks \<subseteq> set (map fst kvs)"
  proof
    fix k assume "k \<in> set ks"
    then have "map_of kvs k \<noteq> None" using assms(3) v by (auto simp: has_exact_keys_def list_all_iff)
    then show "k \<in> set (map fst kvs)" by (auto simp: map_of_eq_None_iff)
  qed
  moreover have "card (set (map fst kvs)) = card (set ks)"
    using d assms(2,3) v by (simp add: has_exact_keys_def distinct_card del: set_map)
  ultimately have "set ks = set (map fst kvs)" by (intro card_subset_eq) simp_all
  then show ?thesis using v by simp
qed

text \<open>Type tests of one property.\<close>

definition prop_num :: "jv \<Rightarrow> string \<Rightarrow> jnum option" where
  "prop_num v k = (case jprop v k of Some (JNum n) \<Rightarrow> Some n | _ \<Rightarrow> None)"

definition prop_str :: "jv \<Rightarrow> string \<Rightarrow> string option" where
  "prop_str v k = (case jprop v k of Some (JStr s) \<Rightarrow> Some s | _ \<Rightarrow> None)"

definition prop_arr :: "jv \<Rightarrow> string \<Rightarrow> jv list option" where
  "prop_arr v k = (case jprop v k of Some (JArr xs) \<Rightarrow> Some xs | _ \<Rightarrow> None)"

lemma prop_num_Some [simp]: "prop_num v k = Some n \<longleftrightarrow> jprop v k = Some (JNum n)"
  by (auto simp: prop_num_def split: option.splits jv.splits)

lemma prop_str_Some [simp]: "prop_str v k = Some s \<longleftrightarrow> jprop v k = Some (JStr s)"
  by (auto simp: prop_str_def split: option.splits jv.splits)

lemma prop_arr_Some [simp]: "prop_arr v k = Some s \<longleftrightarrow> jprop v k = Some (JArr s)"
  by (auto simp: prop_arr_def split: option.splits jv.splits)

text \<open>An integral number at a property, with the guards the decoders use.\<close>

definition prop_safe_int :: "jv \<Rightarrow> string \<Rightarrow> jnum option" where
  "prop_safe_int v k =
     (case prop_num v k of Some n \<Rightarrow> if is_safe_integer n then Some n else None | None \<Rightarrow> None)"

lemma prop_safe_int_Some [simp]:
  "prop_safe_int v k = Some n \<longleftrightarrow> jprop v k = Some (JNum n) \<and> is_safe_integer n"
  by (cases "prop_num v k") (auto simp: prop_safe_int_def simp flip: prop_num_Some)

end
