(* ===== verification/Js_Strings.thy ===== *)
theory Js_Strings
  imports Js_Values
begin

text \<open>
  String operations of the standard library that the components use: \<open>trim\<close>, decimal
  printing in template literals, \<open>sort().join(',')\<close> of object keys, the lower-kebab-case
  regular expression, and structural equality of JSON trees.
\<close>

section \<open>Trimming\<close>

text \<open>White space and line terminators among the code units below 256.\<close>

definition is_space :: "char \<Rightarrow> bool" where
  "is_space c \<longleftrightarrow> (of_char c :: nat) \<in> {9, 10, 11, 12, 13, 32, 160}"

definition trim :: "string \<Rightarrow> string" where
  "trim s = rev (dropWhile is_space (rev (dropWhile is_space s)))"

lemma dropWhile_idem: "dropWhile P (dropWhile P xs) = dropWhile P xs"
  by (induction xs) auto

lemma dropWhile_id: "xs = [] \<or> \<not> P (hd xs) \<Longrightarrow> dropWhile P xs = xs"
  by (cases xs) auto

lemma trim_hd: "trim s \<noteq> [] \<Longrightarrow> \<not> is_space (hd (trim s))"
proof -
  let ?u = "dropWhile is_space s"
  assume ne: "trim s \<noteq> []"
  then have u: "?u \<noteq> []" unfolding trim_def by (metis dropWhile.simps(1) rev.simps(1))
  have "rev ?u = takeWhile is_space (rev ?u) @ dropWhile is_space (rev ?u)" by simp
  then have "?u = rev (dropWhile is_space (rev ?u)) @ rev (takeWhile is_space (rev ?u))"
    by (metis rev_append rev_rev_ident)
  then have "hd ?u = hd (trim s)" using ne unfolding trim_def by (metis hd_append2)
  then show "\<not> is_space (hd (trim s))" using hd_dropWhile [OF u] by metis
qed

lemma trim_idem [simp]: "trim (trim s) = trim s"
proof (cases "trim s = []")
  case True
  moreover have "trim [] = []" by (simp add: trim_def)
  ultimately show ?thesis by simp
next
  case False
  then have "dropWhile is_space (trim s) = trim s"
    using trim_hd by (intro dropWhile_id) simp
  moreover have "rev (dropWhile is_space (rev (trim s))) = trim s"
    by (simp only: trim_def rev_rev_ident dropWhile_idem)
  ultimately show ?thesis by (subst trim_def) simp
qed

section \<open>Decimal printing\<close>

definition digit :: "nat \<Rightarrow> char" where
  "digit d = char_of (48 + d)"

fun show_nat :: "nat \<Rightarrow> string" where
  "show_nat n = (if n < 10 then [digit n] else show_nat (n div 10) @ [digit (n mod 10)])"

declare show_nat.simps [simp del]

definition show_int :: "int \<Rightarrow> string" where
  "show_int i = (if i < 0 then ''-'' @ show_nat (nat (- i)) else show_nat (nat i))"

lemma digit_inj: "c < 10 \<Longrightarrow> d < 10 \<Longrightarrow> digit c = digit d \<Longrightarrow> c = d"
proof -
  assume "c < 10" "d < 10" "digit c = digit d"
  then have "of_char (digit c) = (of_char (digit d) :: nat)" by simp
  then have "(48 + c) mod 256 = (48 + d) mod 256"
    by (simp add: digit_def of_char_of take_bit_eq_mod)
  then show "c = d" using \<open>c < 10\<close> \<open>d < 10\<close> by simp
qed

lemma show_nat_inj: "show_nat m = show_nat n \<Longrightarrow> m = n"
proof (induction m arbitrary: n rule: less_induct)
  case (less m)
  have len: "length (show_nat k) = 1 \<longleftrightarrow> k < 10" for k
  proof (cases "k < 10")
    case False
    then have "show_nat (k div 10) \<noteq> []" by (subst show_nat.simps) simp
    then show ?thesis using False by (subst show_nat.simps) (cases "show_nat (k div 10)"; simp)
  qed (simp add: show_nat.simps [of k])
  show ?case
  proof (cases "m < 10")
    case True
    then have "n < 10" using len [of m] len [of n] less.prems by simp
    then show ?thesis
      using True less.prems digit_inj by (simp add: show_nat.simps [of m] show_nat.simps [of n])
  next
    case False
    then have n: "\<not> n < 10" using len [of m] len [of n] less.prems by simp
    have e: "show_nat (m div 10) = show_nat (n div 10)" "digit (m mod 10) = digit (n mod 10)"
      using less.prems False n by (simp_all add: show_nat.simps [of m] show_nat.simps [of n])
    have "m div 10 = n div 10" using less.IH [of "m div 10"] e(1) False by simp
    moreover have "m mod 10 = n mod 10" by (rule digit_inj [OF _ _ e(2)]) simp_all
    ultimately show ?thesis by (metis div_mult_mod_eq)
  qed
qed

section \<open>Sorted key lists\<close>

fun join :: "string \<Rightarrow> string list \<Rightarrow> string" where
  "join sep [] = []"
| "join sep [s] = s"
| "join sep (s # ss) = s @ sep @ join sep ss"

text \<open>\<open>Object.keys(v).sort().join(',')\<close>.\<close>

definition key_signature :: "jv \<Rightarrow> string" where
  "key_signature v = join '','' (sort (jkeys v))"

lemma length_join: "ss \<noteq> [] \<Longrightarrow> length (join '','' ss) + 1 = sum_list (map (\<lambda>s. length s + 1) ss)"
  by (induction "'',''" ss rule: join.induct) auto

text \<open>
  A key containing a comma could forge a signature; it cannot once every expected key is
  known to be present.
\<close>

lemma key_signature_exact:
  assumes "jv_wf v" and "distinct ks" and "ks \<noteq> []" and "set ks \<subseteq> set (jkeys v)"
    and "key_signature v = join '','' (sort ks)"
  shows "set (jkeys v) = set ks"
proof (rule ccontr)
  assume neq: "set (jkeys v) \<noteq> set ks"
  let ?f = "\<lambda>s::string. length s + 1"
  have d: "distinct (jkeys v)" using assms(1) by (cases v) auto
  have ne: "jkeys v \<noteq> []" using assms(3,4) by auto
  have "length (join '','' (sort (jkeys v))) + 1 = sum_list (map ?f (sort (jkeys v)))"
    using ne by (intro length_join) (metis length_0_conv length_sort)
  moreover have "length (join '','' (sort ks)) + 1 = sum_list (map ?f (sort ks))"
    using assms(3) by (intro length_join) (metis length_0_conv length_sort)
  ultimately have "sum_list (map ?f (sort (jkeys v))) = sum_list (map ?f (sort ks))"
    using assms(5) by (simp add: key_signature_def)
  then have "sum ?f (set (jkeys v)) = sum ?f (set ks)"
    using d assms(2) by (metis distinct_sort set_sort sum_list_distinct_conv_sum_set)
  moreover obtain b where "b \<in> set (jkeys v) - set ks" using neq assms(4) by auto
  then have "sum ?f (set ks) < sum ?f (set (jkeys v))"
    using assms(4) by (intro sum_strict_mono2 [where b = b]) auto
  ultimately show False by simp
qed

section \<open>Lower kebab case\<close>

text \<open>The regular expression \<open>/^[a-z][a-z0-9]*(?:-[a-z0-9]+)*$/\<close>.\<close>

definition is_lower :: "char \<Rightarrow> bool" where
  "is_lower c \<longleftrightarrow> (let n = (of_char c :: nat) in 97 \<le> n \<and> n \<le> 122)"

definition is_digit :: "char \<Rightarrow> bool" where
  "is_digit c \<longleftrightarrow> (let n = (of_char c :: nat) in 48 \<le> n \<and> n \<le> 57)"

definition is_lower_digit :: "char \<Rightarrow> bool" where
  "is_lower_digit c \<longleftrightarrow> is_lower c \<or> is_digit c"

text \<open>\<open>kebab_rest True\<close> is inside a non-empty run, \<open>kebab_rest False\<close> right after a dash.\<close>

fun kebab_rest :: "bool \<Rightarrow> string \<Rightarrow> bool" where
  "kebab_rest ok [] = ok"
| "kebab_rest ok (c # cs) =
     (if is_lower_digit c then kebab_rest True cs
      else if ok \<and> c = CHR ''-'' then kebab_rest False cs
      else False)"

fun is_kebab :: "string \<Rightarrow> bool" where
  "is_kebab [] = False"
| "is_kebab (c # cs) = (is_lower c \<and> kebab_rest True cs)"

section \<open>Structural equality of JSON trees\<close>

text \<open>\<open>isDeepEqualJson\<close>: objects are compared without regard to key order.\<close>

function (sequential) deep_equal_json :: "jv \<Rightarrow> jv \<Rightarrow> bool" where
  "deep_equal_json (JArr xs) (JArr ys) =
     (length xs = length ys \<and> list_all (\<lambda>p. deep_equal_json (fst p) (snd p)) (zip xs ys))"
| "deep_equal_json (JObj kvs) (JObj kws) =
     (length kvs = length kws \<and>
      list_all (\<lambda>kv. case map_of kws (fst kv) of None \<Rightarrow> False
                     | Some w \<Rightarrow> deep_equal_json (snd kv) w) kvs)"
| "deep_equal_json (JNum m) (JNum n) = num_eq m n"
| "deep_equal_json a b = (a = b)"
  by pat_completeness auto
termination
proof (relation "measure (\<lambda>(a, b). size a)", goal_cases)
  case (2 xs ys p)
  then have "fst p \<in> set xs" by (metis prod.collapse set_zip_leftD)
  then have "size (fst p) \<le> size_list size xs" by (rule size_list_estimation') simp
  then show ?case by (simp add: case_prod_beta)
next
  case (3 kvs kws kv w)
  then have "size (snd kv) < Suc (size_list (size_prod (\<lambda>_. 0) size) kvs)"
    by (induction kvs) auto
  then show ?case by simp
qed auto

lemma deep_equal_json_refl: "jv_wf v \<Longrightarrow> deep_equal_json v v"
proof (induction v rule: jv_wf.induct)
  case (1 xs)
  then have "\<forall>x \<in> set xs. deep_equal_json x x" by (auto simp: list_all_iff)
  then have "list_all (\<lambda>p. deep_equal_json (fst p) (snd p)) (zip xs xs)"
    by (auto simp: list_all_iff in_set_zip)
  then show ?case by simp
next
  case (2 kvs)
  then have "\<forall>kv \<in> set kvs. deep_equal_json (snd kv) (snd kv)" by (auto simp: list_all_iff)
  moreover have "\<forall>kv \<in> set kvs. map_of kvs (fst kv) = Some (snd kv)"
    using 2 by (auto intro: map_of_is_SomeI)
  ultimately show ?case by (auto simp: list_all_iff)
qed auto

section \<open>JSON text\<close>

definition hex_digit :: "nat \<Rightarrow> char" where
  "hex_digit n = ''0123456789abcdef'' ! n"

text \<open>\<open>JSON.stringify\<close> of a string.\<close>

definition json_escape :: "char \<Rightarrow> string" where
  "json_escape c =
     (let n = (of_char c :: nat) in
      if n = 34 then [char_of (92 :: nat), char_of (34 :: nat)]
      else if n = 92 then [char_of (92 :: nat), char_of (92 :: nat)]
      else if n = 8 then char_of (92 :: nat) # ''b''
      else if n = 9 then char_of (92 :: nat) # ''t''
      else if n = 10 then char_of (92 :: nat) # ''n''
      else if n = 12 then char_of (92 :: nat) # ''f''
      else if n = 13 then char_of (92 :: nat) # ''r''
      else if n < 32 then char_of (92 :: nat) # ''u00'' @ [hex_digit (n div 16), hex_digit (n mod 16)]
      else [c])"

definition json_quote :: "string \<Rightarrow> string" where
  "json_quote s = CHR 0x22 # concat (map json_escape s) @ [CHR 0x22]"

text \<open>
  The text of a number. The shortest decimal digits of a double that is not an integer below
  \<open>10^21\<close> are the argument \<open>digits\<close>.
\<close>

fun number_text :: "(jnum \<Rightarrow> string) \<Rightarrow> jnum \<Rightarrow> string" where
  "number_text digits (NInt n) = (if \<bar>n\<bar> < 10 ^ 21 then show_int n else digits (NInt n))"
| "number_text digits (NFrac r) = digits (NFrac r)"
| "number_text digits NNegZero = ''0''"
| "number_text digits (NInf negative) = (if negative then ''-Infinity'' else ''Infinity'')"

text \<open>\<open>JSON.stringify\<close> of a tree.\<close>

fun json_text :: "(jnum \<Rightarrow> string) \<Rightarrow> jv \<Rightarrow> string" where
  "json_text digits JNull = ''null''"
| "json_text digits (JBool b) = (if b then ''true'' else ''false'')"
| "json_text digits (JNum n) = (case n of NInf _ \<Rightarrow> ''null'' | _ \<Rightarrow> number_text digits n)"
| "json_text digits (JStr s) = json_quote s"
| "json_text digits (JArr xs) = ''['' @ join '','' (map (json_text digits) xs) @ '']''"
| "json_text digits (JObj kvs) =
     ''{'' @ join '','' (map (\<lambda>(k, v). json_quote k @ '':'' @ json_text digits v) kvs) @ ''}''"

end
