(* ===== verification/Session_Types.thy ===== *)
theory Session_Types
  imports Js_Strings
begin

text \<open>
  The vocabulary of the session log: messages and content blocks of
  \<^verbatim>\<open>packages/llm/llm\<close>, and the events of
  \<^verbatim>\<open>packages/core/session/src/types.ts\<close>.

  The event payloads carry the fields of \<open>SessionEventMap\<close>; types that plugins merge into
  that map are \<open>PluginEvent\<close>. An event's surface marker and source list are kept as
  arbitrary JSON, because the surface layer reads them as \<open>unknown\<close> and validates them. The
  \<open>_json\<close> functions give the JSON object a value is in the running program.
\<close>

section \<open>Messages\<close>

record llm_failure =
  failure_message :: string
  failure_code :: string
  failure_status :: "jnum option"
  failure_retry_after_ms :: "jnum option"
  failure_request_id :: "string option"

text \<open>An image block's attachment reference belongs to the attachment service.\<close>

datatype content_block =
    TextBlock string
  | ReasoningBlock string
  | ImageBlock jv
  | ToolCallBlock string string string
  | ToolResultBlock string "content_block list" "bool option"

record token_usage =
  input_tokens :: jnum
  output_tokens :: jnum
  cache_read_tokens :: "jnum option"
  cache_write_tokens :: "jnum option"
  reasoning_tokens :: "jnum option"

datatype stream_chunk =
    BlockStart jnum string
  | TextDelta jnum string
  | ReasoningDelta jnum string
  | ToolCallDelta jnum string "string option" string
  | BlockEnd jnum content_block
  | UsageChunk token_usage
  | FinishChunk jv "jv option"

text \<open>
  Message sources. The plugin variant carries whether its model role is the assistant's and
  the remaining form fields; \<open>GoalSource\<close> is the variant the goal package merges in.
\<close>

datatype message_source =
    UserSource
  | PluginSource string bool "(string \<times> jv) list"
  | ModelSource string string "jv option"
  | ToolSource string
  | GoalSource string jnum jnum
  | OtherSource string "(string \<times> jv) list"

datatype role = SystemRole | UserRole | AssistantRole

record message =
  msg_id :: string
  msg_role :: role
  msg_content :: "content_block list"
  msg_source :: message_source

section \<open>Events\<close>

datatype cancel_cause =
    CancelUser
  | CancelParent
  | CancelHook string
  | CancelDisposed
  | CancelLegacy

datatype turn_end_reason =
    Completed
  | Aborted cancel_cause
  | Blocked
  | Failed llm_failure
  | MaxTokens
  | Interrupted

record todo_item =
  todo_content :: string
  todo_status :: string

record call_config =
  cfg_provider :: string
  cfg_model :: string
  cfg_effort :: "string option"
  cfg_temperature :: "jnum option"
  cfg_max_tokens :: "jnum option"
  cfg_stop :: "string list option"

text \<open>Which config fields the adapter supplied; the code stores the marker \<open>true\<close>.\<close>

record adapter_defaults =
  default_effort :: bool
  default_max_tokens :: bool

record epoch_header =
  hdr_config :: call_config
  hdr_defaults :: "adapter_defaults option"
  hdr_system :: "string option"
  hdr_tools :: "jv list option"

record request_context =
  ctx_provider :: string
  ctx_model :: string
  ctx_window :: "jnum option"

datatype event_data =
    TurnStart int
  | TurnEnd int turn_end_reason
  | StepStart int int
  | StepEnd int int
  | UserMessage message
  | AssistantChunk int int stream_chunk
  | AssistantMessage int int message "token_usage option" bool
  | ToolCall int int string string string
  | ToolResult int int message "(string \<times> string) option" "jv option"
  | TodoWrite "todo_item list"
  | RequestHeader epoch_header string
  | RequestContext request_context
  | EndSeed
  | PluginEvent string jv

fun event_type :: "event_data \<Rightarrow> string" where
  "event_type (TurnStart _) = ''turn/start''"
| "event_type (TurnEnd _ _) = ''turn/end''"
| "event_type (StepStart _ _) = ''step/start''"
| "event_type (StepEnd _ _) = ''step/end''"
| "event_type (UserMessage _) = ''user/message''"
| "event_type (AssistantChunk _ _ _) = ''assistant/chunk''"
| "event_type (AssistantMessage _ _ _ _ _) = ''assistant/message''"
| "event_type (ToolCall _ _ _ _ _) = ''tool/call''"
| "event_type (ToolResult _ _ _ _ _) = ''tool/result''"
| "event_type (TodoWrite _) = ''todo/write''"
| "event_type (RequestHeader _ _) = ''request/header''"
| "event_type (RequestContext _) = ''request/context''"
| "event_type EndSeed = ''session/end-seed''"
| "event_type (PluginEvent t _) = t"

definition core_event_types :: "string list" where
  "core_event_types =
     [''turn/start'', ''turn/end'', ''step/start'', ''step/end'', ''user/message'',
      ''assistant/chunk'', ''assistant/message'', ''tool/call'', ''tool/result'',
      ''todo/write'', ''request/header'', ''request/context'', ''session/end-seed'']"

text \<open>A merged event type never reuses a core tag.\<close>

fun plugin_tag_ok :: "event_data \<Rightarrow> bool" where
  "plugin_tag_ok (PluginEvent t _) = (t \<notin> set core_event_types)"
| "plugin_tag_ok _ = True"

record session_event =
  ev_data :: event_data
  ev_seq :: int
  ev_time :: int
  ev_surface_op :: "jv option"
  ev_sources :: "jv option"
  ev_ignorable :: bool

abbreviation ev_type :: "session_event \<Rightarrow> string" where
  "ev_type e \<equiv> event_type (ev_data e)"

text \<open>The two shapes of \<open>SurfaceOp\<close>.\<close>

definition append_op :: jv where
  "append_op = JStr ''append''"

definition replace_op :: "int \<Rightarrow> int \<Rightarrow> jv" where
  "replace_op s e =
     JObj [(''op'', JStr ''replace''), (''start'', JNum (NInt s)), (''end'', JNum (NInt e))]"

record session_header =
  sh_version :: jnum
  sh_id :: string
  sh_created_at :: jnum
  sh_cwd :: "string option"
  sh_parent :: "string option"
  sh_seed_length :: "jnum option"
  sh_origin :: "string option"
  sh_depth :: "jnum option"
  sh_preset :: "string option"
  sh_ephemeral :: "bool option"

definition SESSION_FORMAT_VERSION :: jnum where
  "SESSION_FORMAT_VERSION = NInt 0"

section \<open>JSON form\<close>

definition opt_field :: "string \<Rightarrow> ('a \<Rightarrow> jv) \<Rightarrow> 'a option \<Rightarrow> (string \<times> jv) list" where
  "opt_field k f x = (case x of None \<Rightarrow> [] | Some a \<Rightarrow> [(k, f a)])"

definition flag_field :: "string \<Rightarrow> bool \<Rightarrow> (string \<times> jv) list" where
  "flag_field k b = (if b then [(k, JBool True)] else [])"

lemma opt_field_simps [simp]:
  "opt_field k f None = []" "opt_field k f (Some a) = [(k, f a)]"
  by (simp_all add: opt_field_def)

lemma map_of_opt_field: "map_of (opt_field k f x) k' = (if k' = k then map_option f x else None)"
  by (cases x) auto

lemma map_of_flag_field:
  "map_of (flag_field k b) k' = (if k' = k \<and> b then Some (JBool True) else None)"
  by (auto simp: flag_field_def)

abbreviation jint :: "int \<Rightarrow> jv" where
  "jint n \<equiv> JNum (NInt n)"

definition failure_json :: "llm_failure \<Rightarrow> jv" where
  "failure_json f = JObj
     ([(''message'', JStr (failure_message f)), (''code'', JStr (failure_code f))]
      @ opt_field ''status'' JNum (failure_status f)
      @ opt_field ''providerRetryAfterMs'' JNum (failure_retry_after_ms f)
      @ opt_field ''requestId'' JStr (failure_request_id f))"

fun block_json :: "content_block \<Rightarrow> jv" where
  "block_json (TextBlock s) = JObj [(''type'', JStr ''text''), (''text'', JStr s)]"
| "block_json (ReasoningBlock s) = JObj [(''type'', JStr ''reasoning''), (''text'', JStr s)]"
| "block_json (ImageBlock a) = JObj [(''type'', JStr ''image''), (''attachment'', a)]"
| "block_json (ToolCallBlock i n a) = JObj
     [(''type'', JStr ''tool-call''), (''id'', JStr i), (''name'', JStr n), (''arguments'', JStr a)]"
| "block_json (ToolResultBlock i c e) = JObj
     ([(''type'', JStr ''tool-result''), (''toolCallId'', JStr i),
       (''content'', JArr (map block_json c))] @ opt_field ''isError'' JBool e)"

fun source_json :: "message_source \<Rightarrow> jv" where
  "source_json UserSource = JObj [(''kind'', JStr ''user'')]"
| "source_json (PluginSource p a fs) = JObj
     ([(''kind'', JStr ''plugin''), (''plugin'', JStr p)]
      @ opt_field ''modelRole'' JStr (if a then Some ''assistant'' else None) @ fs)"
| "source_json (ModelSource p m r) = JObj
     ([(''kind'', JStr ''model''), (''provider'', JStr p), (''model'', JStr m)]
      @ opt_field ''replayState'' id r)"
| "source_json (ToolSource c) = JObj [(''kind'', JStr ''tool''), (''callId'', JStr c)]"
| "source_json (GoalSource g r n) = JObj
     [(''kind'', JStr ''goal''), (''goalId'', JStr g), (''revision'', JNum r), (''round'', JNum n)]"
| "source_json (OtherSource k fs) = JObj ((''kind'', JStr k) # fs)"

fun role_json :: "role \<Rightarrow> jv" where
  "role_json SystemRole = JStr ''system''"
| "role_json UserRole = JStr ''user''"
| "role_json AssistantRole = JStr ''assistant''"

definition message_json :: "message \<Rightarrow> jv" where
  "message_json m = JObj
     [(''id'', JStr (msg_id m)), (''role'', role_json (msg_role m)),
      (''content'', JArr (map block_json (msg_content m))),
      (''source'', source_json (msg_source m))]"

definition usage_json :: "token_usage \<Rightarrow> jv" where
  "usage_json u = JObj
     ([(''inputTokens'', JNum (input_tokens u)), (''outputTokens'', JNum (output_tokens u))]
      @ opt_field ''cacheReadTokens'' JNum (cache_read_tokens u)
      @ opt_field ''cacheWriteTokens'' JNum (cache_write_tokens u)
      @ opt_field ''reasoningTokens'' JNum (reasoning_tokens u))"

fun chunk_json :: "stream_chunk \<Rightarrow> jv" where
  "chunk_json (BlockStart i t) = JObj
     [(''type'', JStr ''block-start''), (''index'', JNum i), (''blockType'', JStr t)]"
| "chunk_json (TextDelta i s) = JObj
     [(''type'', JStr ''text-delta''), (''index'', JNum i), (''text'', JStr s)]"
| "chunk_json (ReasoningDelta i s) = JObj
     [(''type'', JStr ''reasoning-delta''), (''index'', JNum i), (''text'', JStr s)]"
| "chunk_json (ToolCallDelta i c n a) = JObj
     ([(''type'', JStr ''tool-call-delta''), (''index'', JNum i), (''id'', JStr c)]
      @ opt_field ''name'' JStr n @ [(''argumentsDelta'', JStr a)])"
| "chunk_json (BlockEnd i b) = JObj
     [(''type'', JStr ''block-end''), (''index'', JNum i), (''block'', block_json b)]"
| "chunk_json (UsageChunk u) = JObj [(''type'', JStr ''usage''), (''usage'', usage_json u)]"
| "chunk_json (FinishChunk r s) = JObj
     ([(''type'', JStr ''finish''), (''reason'', r)] @ opt_field ''replayState'' id s)"

fun cancel_json :: "cancel_cause \<Rightarrow> jv" where
  "cancel_json CancelUser = JObj [(''kind'', JStr ''user'')]"
| "cancel_json CancelParent = JObj [(''kind'', JStr ''parent'')]"
| "cancel_json (CancelHook r) = JObj [(''kind'', JStr ''hook''), (''reason'', JStr r)]"
| "cancel_json CancelDisposed = JObj [(''kind'', JStr ''disposed'')]"
| "cancel_json CancelLegacy = JObj [(''kind'', JStr ''legacy'')]"

fun reason_json :: "turn_end_reason \<Rightarrow> jv" where
  "reason_json Completed = JObj [(''kind'', JStr ''completed'')]"
| "reason_json (Aborted c) = JObj [(''kind'', JStr ''aborted''), (''reason'', cancel_json c)]"
| "reason_json Blocked = JObj [(''kind'', JStr ''blocked'')]"
| "reason_json (Failed f) = JObj [(''kind'', JStr ''error''), (''error'', failure_json f)]"
| "reason_json MaxTokens = JObj [(''kind'', JStr ''max-tokens'')]"
| "reason_json Interrupted = JObj [(''kind'', JStr ''interrupted'')]"

definition config_json :: "call_config \<Rightarrow> jv" where
  "config_json c = JObj
     ([(''provider'', JStr (cfg_provider c)), (''model'', JStr (cfg_model c))]
      @ opt_field ''reasoningEffort'' JStr (cfg_effort c)
      @ opt_field ''temperature'' JNum (cfg_temperature c)
      @ opt_field ''maxTokens'' JNum (cfg_max_tokens c)
      @ opt_field ''stop'' (\<lambda>ss. JArr (map JStr ss)) (cfg_stop c))"

definition defaults_json :: "adapter_defaults \<Rightarrow> jv" where
  "defaults_json d = JObj
     (flag_field ''reasoningEffort'' (default_effort d)
      @ flag_field ''maxTokens'' (default_max_tokens d))"

definition epoch_header_json :: "epoch_header \<Rightarrow> jv" where
  "epoch_header_json h = JObj
     ([(''config'', config_json (hdr_config h))]
      @ opt_field ''adapterDefaults'' defaults_json (hdr_defaults h)
      @ opt_field ''system'' JStr (hdr_system h)
      @ opt_field ''tools'' JArr (hdr_tools h))"

definition request_context_json :: "request_context \<Rightarrow> jv" where
  "request_context_json c = JObj
     ([(''provider'', JStr (ctx_provider c)), (''model'', JStr (ctx_model c))]
      @ opt_field ''contextWindow'' JNum (ctx_window c))"

fun data_json :: "event_data \<Rightarrow> jv" where
  "data_json (TurnStart t) = JObj [(''turn'', jint t)]"
| "data_json (TurnEnd t r) = JObj [(''turn'', jint t), (''reason'', reason_json r)]"
| "data_json (StepStart t s) = JObj [(''turn'', jint t), (''step'', jint s)]"
| "data_json (StepEnd t s) = JObj [(''turn'', jint t), (''step'', jint s)]"
| "data_json (UserMessage m) = message_json m"
| "data_json (AssistantChunk t s c) = JObj
     [(''turn'', jint t), (''step'', jint s), (''chunk'', chunk_json c)]"
| "data_json (AssistantMessage t s m u i) = JObj
     ([(''turn'', jint t), (''step'', jint s), (''message'', message_json m)]
      @ opt_field ''usage'' usage_json u @ flag_field ''interrupted'' i)"
| "data_json (ToolCall t s c n a) = JObj
     [(''turn'', jint t), (''step'', jint s), (''callId'', JStr c), (''name'', JStr n),
      (''arguments'', JStr a)]"
| "data_json (ToolResult t s m e x) = JObj
     ([(''turn'', jint t), (''step'', jint s), (''message'', message_json m)]
      @ opt_field ''error'' (\<lambda>(n, c). JObj [(''name'', JStr n), (''code'', JStr c)]) e
      @ opt_field ''meta'' id x)"
| "data_json (TodoWrite ts) = JObj
     [(''todos'', JArr (map (\<lambda>t. JObj [(''content'', JStr (todo_content t)),
                                      (''status'', JStr (todo_status t))]) ts))]"
| "data_json (RequestHeader h r) = JObj [(''header'', epoch_header_json h), (''reason'', JStr r)]"
| "data_json (RequestContext c) = request_context_json c"
| "data_json EndSeed = JObj []"
| "data_json (PluginEvent _ d) = d"

definition event_json :: "session_event \<Rightarrow> jv" where
  "event_json e = JObj
     ([(''type'', JStr (ev_type e)), (''seq'', jint (ev_seq e)), (''time'', jint (ev_time e)),
       (''data'', data_json (ev_data e))]
      @ opt_field ''sourceEventSeqs'' id (ev_sources e)
      @ opt_field ''surfaceOp'' id (ev_surface_op e)
      @ flag_field ''ignorable'' (ev_ignorable e))"

definition header_json :: "session_header \<Rightarrow> jv" where
  "header_json h = JObj
     ([(''version'', JNum (sh_version h)), (''id'', JStr (sh_id h)),
       (''createdAt'', JNum (sh_created_at h))]
      @ opt_field ''cwd'' JStr (sh_cwd h)
      @ opt_field ''parentSession'' JStr (sh_parent h)
      @ opt_field ''seedLength'' JNum (sh_seed_length h)
      @ opt_field ''origin'' JStr (sh_origin h)
      @ opt_field ''delegationDepth'' JNum (sh_depth h)
      @ opt_field ''agentPreset'' JStr (sh_preset h)
      @ opt_field ''ephemeral'' JBool (sh_ephemeral h))"

section \<open>Sample events\<close>

text \<open>Concrete messages and events, for the instances of the theorems.\<close>

definition example_prompt :: "string \<Rightarrow> message" where
  "example_prompt i = \<lparr>msg_id = i, msg_role = UserRole, msg_content = [TextBlock ''hello''], msg_source = UserSource\<rparr>"

definition example_event :: "event_data \<Rightarrow> int \<Rightarrow> jv option \<Rightarrow> jv option \<Rightarrow> session_event" where
  "example_event d n op sources =
     \<lparr>ev_data = d, ev_seq = n, ev_time = 1000 + n, ev_surface_op = op, ev_sources = sources, ev_ignorable = False\<rparr>"

definition example_reply :: "string \<Rightarrow> content_block list \<Rightarrow> message" where
  "example_reply i bs = \<lparr>msg_id = i, msg_role = AssistantRole, msg_content = bs, msg_source = ModelSource ''p'' ''m'' None\<rparr>"

end
