(* ===== verification/Chunk_Rows.thy ===== *)
theory Chunk_Rows
  imports Session_Types
begin

text \<open>
  Storage packing of streamed deltas, \<^verbatim>\<open>packages/core/session/src/chunk-rows.ts\<close>: a run
  of consecutive delta chunks of one block becomes one storage row, and decoding a row gives the
  events back. Both directions read parsed JSON, so records are \<open>jv\<close> values here. The lemmas
  show that decoding a packed batch returns the batch (objects up to property order, the two zeros
  identified), that packing never stores more records than events, and which rows the decoder
  accepts.
\<close>

section \<open>Reading properties\<close>

text \<open>A property that a preceding check has shown to be present, and one shown to be a number.\<close>

definition jget :: "jv \<Rightarrow> string \<Rightarrow> jv" where
  "jget v k = (case jprop v k of Some x \<Rightarrow> x | None \<Rightarrow> JNull)"

definition jnum_at :: "jv \<Rightarrow> string \<Rightarrow> jnum" where
  "jnum_at v k = (case jprop v k of Some (JNum n) \<Rightarrow> n | _ \<Rightarrow> NInt 0)"

lemma jget_Some [simp]: "jprop v k = Some x \<Longrightarrow> jget v k = x"
  by (simp add: jget_def)

lemma jnum_at_Some [simp]: "jprop v k = Some (JNum n) \<Longrightarrow> jnum_at v k = n"
  by (simp add: jnum_at_def)

definition has_own :: "jv \<Rightarrow> string \<Rightarrow> bool" where
  "has_own v k \<longleftrightarrow> jprop v k \<noteq> None"

definition is_num_at :: "jv \<Rightarrow> string \<Rightarrow> bool" where
  "is_num_at v k \<longleftrightarrow> prop_num v k \<noteq> None"

definition is_str_at :: "jv \<Rightarrow> string \<Rightarrow> bool" where
  "is_str_at v k \<longleftrightarrow> prop_str v k \<noteq> None"

definition is_safe_at :: "jv \<Rightarrow> string \<Rightarrow> bool" where
  "is_safe_at v k \<longleftrightarrow> prop_safe_int v k \<noteq> None"

lemma is_num_at_iff [simp]: "is_num_at v k \<longleftrightarrow> (\<exists>n. jprop v k = Some (JNum n))"
  by (simp add: is_num_at_def)

lemma is_str_at_iff [simp]: "is_str_at v k \<longleftrightarrow> (\<exists>s. jprop v k = Some (JStr s))"
  by (simp add: is_str_at_def)

lemma is_safe_at_iff [simp]:
  "is_safe_at v k \<longleftrightarrow> (\<exists>n. jprop v k = Some (JNum n) \<and> is_safe_integer n)"
  by (simp add: is_safe_at_def)

text \<open>\<open>typeof value === 'object' && value !== null\<close>, which arrays satisfy too.\<close>

fun is_object :: "jv \<Rightarrow> bool" where
  "is_object (JObj _) = True"
| "is_object (JArr _) = True"
| "is_object _ = False"

section \<open>Packing\<close>

datatype delta_kind = TextKind | ReasoningKind | ToolCallKind

fun kind_tag :: "delta_kind \<Rightarrow> string" where
  "kind_tag TextKind = ''text-delta''"
| "kind_tag ReasoningKind = ''reasoning-delta''"
| "kind_tag ToolCallKind = ''tool-call-delta''"

fun row_tag :: "delta_kind \<Rightarrow> string" where
  "row_tag TextKind = ''text-chunks''"
| "row_tag ReasoningKind = ''reasoning-chunks''"
| "row_tag ToolCallKind = ''tool-call-chunks''"

definition MIN_RUN :: nat where
  "MIN_RUN = 3"

definition chunk_of :: "jv \<Rightarrow> jv" where
  "chunk_of e = jget (jget e ''data'') ''chunk''"

definition classify_chunk :: "jv \<Rightarrow> delta_kind option" where
  "classify_chunk chunk =
     (if jprop chunk ''type'' = Some (JStr ''text-delta'') then
        if has_exact_keys chunk [''type'', ''index'', ''text''] \<and> is_str_at chunk ''text''
        then Some TextKind else None
      else if jprop chunk ''type'' = Some (JStr ''reasoning-delta'') then
        if has_exact_keys chunk [''type'', ''index'', ''text''] \<and> is_str_at chunk ''text''
        then Some ReasoningKind else None
      else if jprop chunk ''type'' = Some (JStr ''tool-call-delta'') then
        let shape_ok =
          has_exact_keys chunk [''type'', ''index'', ''id'', ''argumentsDelta''] \<or>
          (has_exact_keys chunk [''type'', ''index'', ''id'', ''name'', ''argumentsDelta''] \<and>
           is_str_at chunk ''name'')
        in if shape_ok \<and> is_str_at chunk ''id'' \<and> is_str_at chunk ''argumentsDelta''
           then Some ToolCallKind else None
      else None)"

definition classify :: "jv \<Rightarrow> delta_kind option" where
  "classify e =
     (if jprop e ''type'' \<noteq> Some (JStr ''assistant/chunk'') then None
      else if \<not> has_exact_keys e [''type'', ''seq'', ''time'', ''data''] then None
      else if \<not> is_safe_at e ''seq'' \<or> num_int (jnum_at e ''seq'') < 0 \<or> \<not> is_safe_at e ''time''
      then None
      else let data = jget e ''data'' in
        if \<not> is_object data \<or> \<not> has_exact_keys data [''turn'', ''step'', ''chunk''] then None
        else if \<not> is_num_at data ''turn'' \<or> \<not> is_num_at data ''step'' then None
        else let chunk = jget data ''chunk'' in
          if \<not> is_object chunk \<or> \<not> is_num_at chunk ''index'' then None
          else classify_chunk chunk)"

definition index_num :: "jv \<Rightarrow> jnum" where
  "index_num e = jnum_at (chunk_of e) ''index''"

definition turn_num :: "jv \<Rightarrow> jnum" where
  "turn_num e = jnum_at (jget e ''data'') ''turn''"

definition step_num :: "jv \<Rightarrow> jnum" where
  "step_num e = jnum_at (jget e ''data'') ''step''"

definition continues :: "jv \<Rightarrow> jv \<Rightarrow> delta_kind \<Rightarrow> bool" where
  "continues prev nxt kind \<longleftrightarrow>
     num_eq (jnum_at nxt ''seq'') (num_add (jnum_at prev ''seq'') (NInt 1)) \<and>
     is_safe_integer (num_sub (jnum_at nxt ''time'') (jnum_at prev ''time'')) \<and>
     num_eq (turn_num nxt) (turn_num prev) \<and> num_eq (step_num nxt) (step_num prev) \<and>
     num_eq (index_num nxt) (index_num prev) \<and>
     (kind \<noteq> ToolCallKind \<or>
       (let a = chunk_of prev; b = chunk_of nxt in
         jprop a ''id'' = jprop b ''id'' \<and> has_own a ''name'' = has_own b ''name'' \<and>
         jprop a ''name'' = jprop b ''name''))"

text \<open>The gaps between consecutive members.\<close>

fun time_gaps :: "jv list \<Rightarrow> jv list" where
  "time_gaps (a # b # es) =
     JNum (num_sub (jnum_at b ''time'') (jnum_at a ''time'')) # time_gaps (b # es)"
| "time_gaps _ = []"

definition build_row :: "delta_kind \<Rightarrow> jv list \<Rightarrow> jv" where
  "build_row kind run =
     (let first = hd run;
          base = [(''turn'', JNum (turn_num first)), (''step'', JNum (step_num first)),
                  (''index'', JNum (index_num first)), (''dt'', JArr (time_gaps run))];
          row = (\<lambda>data. JObj [(''type'', JStr (row_tag kind)), (''seq0'', jget first ''seq''),
                              (''time0'', jget first ''time''), (''data'', JObj data)])
      in if kind = ToolCallKind then
           let call = chunk_of first in
           row (base @ [(''id'', jget call ''id'')]
             @ (if has_own call ''name'' then [(''name'', jget call ''name'')] else [])
             @ [(''args'', JArr (map (\<lambda>e. jget (chunk_of e) ''argumentsDelta'') run))])
         else row (base @ [(''texts'', JArr (map (\<lambda>e. jget (chunk_of e) ''text'') run))]))"

record pack_state =
  pk_out :: "jv list"
  pk_kind :: "delta_kind option"
  pk_run :: "jv list"

definition pack_flush :: "pack_state \<Rightarrow> pack_state" where
  "pack_flush st =
     \<lparr>pk_out = pk_out st @
        (case pk_kind st of
           Some kind \<Rightarrow> if MIN_RUN \<le> length (pk_run st) then [build_row kind (pk_run st)] else pk_run st
         | None \<Rightarrow> pk_run st),
      pk_kind = None, pk_run = []\<rparr>"

definition pack_step :: "pack_state \<Rightarrow> jv \<Rightarrow> pack_state" where
  "pack_step st e =
     (case classify e of
        None \<Rightarrow> let st' = pack_flush st in st'\<lparr>pk_out := pk_out st' @ [e]\<rparr>
      | Some k \<Rightarrow>
          if pk_kind st = Some k \<and> pk_run st \<noteq> [] \<and> continues (last (pk_run st)) e k
          then st\<lparr>pk_run := pk_run st @ [e]\<rparr>
          else (pack_flush st)\<lparr>pk_kind := Some k, pk_run := [e]\<rparr>)"

definition pack_init :: pack_state where
  "pack_init = \<lparr>pk_out = [], pk_kind = None, pk_run = []\<rparr>"

definition pack_chunk_runs :: "jv list \<Rightarrow> jv list" where
  "pack_chunk_runs events = pk_out (pack_flush (foldl pack_step pack_init events))"

section \<open>Decoding\<close>

datatype row_error =
    DataNumbers
  | PayloadStrings
  | DtSafeIntegers
  | DtLength
  | EnvelopeKeys
  | Seq0Invalid
  | Time0Invalid
  | DataNotObject
  | DataKeys
  | IdNameStrings
  | SeqsUnsafe
  | TimesUnsafe

fun is_jstr :: "jv \<Rightarrow> bool" where
  "is_jstr (JStr _) = True"
| "is_jstr _ = False"

fun is_jsafe :: "jv \<Rightarrow> bool" where
  "is_jsafe (JNum n) = is_safe_integer n"
| "is_jsafe _ = False"

fun jnum_of :: "jv \<Rightarrow> jnum" where
  "jnum_of (JNum n) = n"
| "jnum_of _ = NInt 0"

definition validate_run_data :: "jv \<Rightarrow> string \<Rightarrow> row_error + jv list" where
  "validate_run_data data payload_key =
     (if \<not> is_num_at data ''turn'' \<or> \<not> is_num_at data ''step'' \<or> \<not> is_num_at data ''index''
      then Inl DataNumbers
      else case prop_arr data payload_key of
        None \<Rightarrow> Inl PayloadStrings
      | Some payload \<Rightarrow>
          if payload = [] \<or> \<not> list_all is_jstr payload then Inl PayloadStrings
          else case prop_arr data ''dt'' of
            None \<Rightarrow> Inl DtSafeIntegers
          | Some dt \<Rightarrow>
              if \<not> list_all is_jsafe dt then Inl DtSafeIntegers
              else if int (length dt) \<noteq> int (length payload) - 1 then Inl DtLength
              else Inr payload)"

fun times_safe :: "jnum \<Rightarrow> jv list \<Rightarrow> bool" where
  "times_safe time [] = True"
| "times_safe time (gap # gaps) =
     (let time' = num_add time (jnum_of gap) in is_safe_integer time' \<and> times_safe time' gaps)"

definition row_payload :: "string \<Rightarrow> jv \<Rightarrow> row_error + jv list" where
  "row_payload tag data =
     (if tag = ''tool-call-chunks'' then
        let with_name = has_exact_keys data
              [''turn'', ''step'', ''index'', ''id'', ''name'', ''dt'', ''args'']
        in if \<not> with_name \<and>
              \<not> has_exact_keys data [''turn'', ''step'', ''index'', ''id'', ''dt'', ''args'']
           then Inl DataKeys
           else if \<not> is_str_at data ''id'' \<or> (with_name \<and> \<not> is_str_at data ''name'')
           then Inl IdNameStrings
           else validate_run_data data ''args''
      else if \<not> has_exact_keys data [''turn'', ''step'', ''index'', ''dt'', ''texts'']
      then Inl DataKeys
      else validate_run_data data ''texts'')"

definition validate_row :: "jv \<Rightarrow> string \<Rightarrow> row_error + jv" where
  "validate_row v tag =
     (if \<not> has_exact_keys v [''type'', ''seq0'', ''time0'', ''data''] then Inl EnvelopeKeys
      else if \<not> is_safe_at v ''seq0'' \<or> num_int (jnum_at v ''seq0'') < 0 then Inl Seq0Invalid
      else if \<not> is_safe_at v ''time0'' then Inl Time0Invalid
      else let data = jget v ''data'' in
        if \<not> is_object data then Inl DataNotObject
        else and_then (row_payload tag data) (\<lambda>payload.
          if \<not> is_safe_integer
                 (num_sub (num_add (jnum_at v ''seq0'') (NInt (int (length payload)))) (NInt 1))
          then Inl SeqsUnsafe
          else case prop_arr data ''dt'' of
            None \<Rightarrow> Inl DtSafeIntegers
          | Some dt \<Rightarrow>
              if times_safe (jnum_at v ''time0'') dt then Inr v else Inl TimesUnsafe))"

definition member_chunk :: "string \<Rightarrow> jv \<Rightarrow> jv \<Rightarrow> jv" where
  "member_chunk tag data member =
     (if tag = ''text-chunks'' then
        JObj [(''type'', JStr ''text-delta''), (''index'', jget data ''index''), (''text'', member)]
      else if tag = ''reasoning-chunks'' then
        JObj [(''type'', JStr ''reasoning-delta''), (''index'', jget data ''index''),
              (''text'', member)]
      else
        JObj ([(''type'', JStr ''tool-call-delta''), (''index'', jget data ''index''),
               (''id'', jget data ''id'')]
          @ (if has_own data ''name'' then [(''name'', jget data ''name'')] else [])
          @ [(''argumentsDelta'', member)]))"

definition member_event :: "string \<Rightarrow> jv \<Rightarrow> jnum \<Rightarrow> jnum \<Rightarrow> jv \<Rightarrow> jv" where
  "member_event tag data seq time member =
     JObj [(''type'', JStr ''assistant/chunk''), (''seq'', JNum seq), (''time'', JNum time),
           (''data'', JObj [(''turn'', jget data ''turn''), (''step'', jget data ''step''),
                            (''chunk'', member_chunk tag data member)])]"

text \<open>The loop over the members, from member \<open>k\<close> with the time of the member before it.\<close>

fun expand_from ::
  "string \<Rightarrow> jv \<Rightarrow> jnum \<Rightarrow> jv list \<Rightarrow> nat \<Rightarrow> jnum \<Rightarrow> jv list \<Rightarrow> jv list" where
  "expand_from tag data seq0 dt k time [] = []"
| "expand_from tag data seq0 dt k time (m # ms) =
     (let time' = (if 0 < k then num_add time (jnum_of (dt ! (k - 1))) else time)
      in member_event tag data (num_add seq0 (NInt (int k))) time' m
           # expand_from tag data seq0 dt (Suc k) time' ms)"

definition jarr_at :: "jv \<Rightarrow> string \<Rightarrow> jv list" where
  "jarr_at v k = (case prop_arr v k of Some xs \<Rightarrow> xs | None \<Rightarrow> [])"

definition expand_row :: "jv \<Rightarrow> string \<Rightarrow> jv list" where
  "expand_row row tag =
     (let data = jget row ''data'';
          members = (if tag = ''tool-call-chunks'' then jarr_at data ''args'' else jarr_at data ''texts'')
      in expand_from tag data (jnum_at row ''seq0'') (jarr_at data ''dt'') 0 (jnum_at row ''time0'')
           members)"

definition row_tag_of :: "jv \<Rightarrow> string option" where
  "row_tag_of v =
     (if \<not> is_object v then None
      else case jprop v ''type'' of
        Some (JStr tag) \<Rightarrow>
          if tag = ''text-chunks'' \<or> tag = ''reasoning-chunks'' \<or> tag = ''tool-call-chunks''
          then Some tag else None
      | _ \<Rightarrow> None)"

definition decode_storage_record :: "jv \<Rightarrow> row_error + jv list" where
  "decode_storage_record v =
     (case row_tag_of v of
        None \<Rightarrow> Inr [v]
      | Some tag \<Rightarrow> and_then (validate_row v tag) (\<lambda>row. Inr (expand_row row tag)))"

text \<open>A whole stored log, as a reader decodes it line by line.\<close>

definition decode_records :: "jv list \<Rightarrow> row_error + jv list" where
  "decode_records rs = and_then (traverse decode_storage_record rs) (\<lambda>ess. Inr (concat ess))"

section \<open>Whitelisted events\<close>

lemma jprop_wf: "jv_wf v \<Longrightarrow> jprop v k = Some w \<Longrightarrow> jv_wf w"
  by (cases v) (auto simp: list_all_iff dest!: map_of_SomeD)

lemma deep_equal_objI:
  assumes "jv_wf v" and "has_exact_keys v (map fst kws)" and "distinct (map fst kws)"
    and "\<And>k w. (k, w) \<in> set kws \<Longrightarrow> deep_equal_json (jget v k) w"
  shows "deep_equal_json v (JObj kws)"
proof -
  obtain kvs where v: "v = JObj kvs"
    using assms(2) by (cases v) (auto simp: has_exact_keys_def)
  have keys: "set (map fst kvs) = set (map fst kws)"
    using has_exact_keys_set [OF assms(1,3,2)] v by simp
  have "case map_of kws (fst kv) of None \<Rightarrow> False | Some w \<Rightarrow> deep_equal_json (snd kv) w"
    if "kv \<in> set kvs" for kv
  proof -
    have kv: "map_of kvs (fst kv) = Some (snd kv)"
      using assms(1) v that by (auto intro: map_of_is_SomeI)
    have "fst kv \<in> set (map fst kws)" using keys that by auto
    then obtain w where w: "map_of kws (fst kv) = Some w"
      by (metis list.set_map map_of_eq_None_iff not_None_eq)
    have "deep_equal_json (jget v (fst kv)) w"
      using assms(4) map_of_SomeD [OF w] by blast
    then show ?thesis using kv v w by simp
  qed
  moreover have "length kvs = length kws" using assms(2) v by (simp add: has_exact_keys_def)
  ultimately show ?thesis using v by (simp add: list_all_iff)
qed

lemma has_exact_keys_Some: "has_exact_keys v ks \<Longrightarrow> k \<in> set ks \<Longrightarrow> \<exists>x. jprop v k = Some x"
  by (auto simp: has_exact_keys_def list_all_iff)

lemma deep_equal_num: "is_safe_integer a \<Longrightarrow> is_safe_integer b \<Longrightarrow> num_eq a b \<longleftrightarrow> num_int a = num_int b"
  by (cases a; cases b) auto

lemma num_eq_trans: "num_eq a b \<Longrightarrow> num_eq b c \<Longrightarrow> num_eq a c"
  by (cases a; cases b; cases c) auto

lemma safe_int_0 [simp]: "safe_int 0"
  by (simp add: safe_int_def max_safe_def)

lemma safe_num_add:
  "safe_int (num_int a + num_int b) \<Longrightarrow> num_int (num_add a b) = num_int a + num_int b"
  "is_safe_integer (num_add a b) \<longleftrightarrow> safe_int (num_int a + num_int b)"
  by (auto simp: num_add_def)

lemma safe_num_sub:
  "safe_int (num_int a - num_int b) \<Longrightarrow> num_int (num_sub a b) = num_int a - num_int b"
  "is_safe_integer (num_sub a b) \<longleftrightarrow> safe_int (num_int a - num_int b)"
  by (auto simp: num_sub_def)

lemma safe_int_num: "is_safe_integer a \<Longrightarrow> safe_int (num_int a)"
  by (cases a) auto

lemma classify_envelope:
  assumes "classify e = Some k"
  obtains seq time data turn step chunk index where
    "has_exact_keys e [''type'', ''seq'', ''time'', ''data'']"
    "jprop e ''type'' = Some (JStr ''assistant/chunk'')"
    "jprop e ''seq'' = Some (JNum seq)" "is_safe_integer seq" "0 \<le> num_int seq"
    "jprop e ''time'' = Some (JNum time)" "is_safe_integer time"
    "jprop e ''data'' = Some data" "has_exact_keys data [''turn'', ''step'', ''chunk'']"
    "jprop data ''turn'' = Some (JNum turn)" "jprop data ''step'' = Some (JNum step)"
    "jprop data ''chunk'' = Some chunk" "jprop chunk ''index'' = Some (JNum index)"
    "classify_chunk chunk = Some k"
proof -
  have 1: "jprop e ''type'' = Some (JStr ''assistant/chunk'')"
    "has_exact_keys e [''type'', ''seq'', ''time'', ''data'']"
    "is_safe_at e ''seq''" "\<not> num_int (jnum_at e ''seq'') < 0" "is_safe_at e ''time''"
    using assms unfolding classify_def by (auto split: if_splits)
  obtain data where d: "jprop e ''data'' = Some data"
    using has_exact_keys_Some [OF 1(2), of "''data''"] by auto
  have 2: "has_exact_keys data [''turn'', ''step'', ''chunk'']"
    "is_num_at data ''turn''" "is_num_at data ''step''"
    using assms 1 d unfolding classify_def by (auto simp: Let_def split: if_splits)
  obtain chunk where c: "jprop data ''chunk'' = Some chunk"
    using has_exact_keys_Some [OF 2(1), of "''chunk''"] by auto
  have 3: "is_num_at chunk ''index''" "classify_chunk chunk = Some k"
    using assms 1 d 2 c unfolding classify_def by (auto simp: Let_def split: if_splits)
  show thesis using that 1 d 2 c 3 by auto
qed

lemma exact_keys_absent:
  assumes "jv_wf v" and "distinct ks" and "has_exact_keys v ks" and "k \<notin> set ks"
  shows "jprop v k = None"
  using has_exact_keys_set [OF assms(1-3)] assms(3,4)
  by (cases v) (auto simp: has_exact_keys_def map_of_eq_None_iff)

lemma classify_chunk_type:
  "classify_chunk chunk = Some k \<Longrightarrow> jprop chunk ''type'' = Some (JStr (kind_tag k))"
  by (simp add: classify_chunk_def Let_def split: if_splits; clarsimp)

lemma classify_chunk_text:
  "classify_chunk chunk = Some k \<Longrightarrow> k \<noteq> ToolCallKind \<Longrightarrow>
     has_exact_keys chunk [''type'', ''index'', ''text''] \<and> is_str_at chunk ''text''"
  by (simp add: classify_chunk_def Let_def split: if_splits)

lemma classify_chunk_call:
  assumes "classify_chunk chunk = Some ToolCallKind" and "jv_wf chunk"
  shows "is_str_at chunk ''id''" "is_str_at chunk ''argumentsDelta''"
    "has_exact_keys chunk
       (if has_own chunk ''name'' then [''type'', ''index'', ''id'', ''name'', ''argumentsDelta'']
        else [''type'', ''index'', ''id'', ''argumentsDelta''])"
    "has_own chunk ''name'' \<Longrightarrow> is_str_at chunk ''name''"
proof -
  have c: "(has_exact_keys chunk [''type'', ''index'', ''id'', ''argumentsDelta''] \<or>
      has_exact_keys chunk [''type'', ''index'', ''id'', ''name'', ''argumentsDelta''] \<and>
      is_str_at chunk ''name'') \<and> is_str_at chunk ''id'' \<and> is_str_at chunk ''argumentsDelta''"
    using assms(1) by (simp add: classify_chunk_def Let_def del: is_str_at_iff split: if_splits)
  then show "is_str_at chunk ''id''" "is_str_at chunk ''argumentsDelta''" by blast+
  have absent: "has_exact_keys chunk [''type'', ''index'', ''id'', ''argumentsDelta''] \<Longrightarrow>
      \<not> has_own chunk ''name''"
    using exact_keys_absent [OF assms(2), of "[''type'', ''index'', ''id'', ''argumentsDelta'']" "''name''"]
    by (simp add: has_own_def)
  have present: "has_exact_keys chunk [''type'', ''index'', ''id'', ''name'', ''argumentsDelta''] \<Longrightarrow>
      has_own chunk ''name''"
    using has_exact_keys_Some [of chunk _ "''name''"] by (auto simp: has_own_def)
  show "has_exact_keys chunk
       (if has_own chunk ''name'' then [''type'', ''index'', ''id'', ''name'', ''argumentsDelta'']
        else [''type'', ''index'', ''id'', ''argumentsDelta''])"
    using c absent present by (cases "has_own chunk ''name''") (simp_all del: is_str_at_iff, blast+)
  show "has_own chunk ''name'' \<Longrightarrow> is_str_at chunk ''name''"
    using c absent by blast
qed


section \<open>Runs\<close>

definition run_ok :: "delta_kind \<Rightarrow> jv list \<Rightarrow> bool" where
  "run_ok k run \<longleftrightarrow>
     run \<noteq> [] \<and> list_all (\<lambda>e. jv_wf e \<and> classify e = Some k) run \<and>
     successively (\<lambda>a b. continues a b k) run"

lemma run_ok_snoc:
  "run_ok k run \<Longrightarrow> jv_wf e \<Longrightarrow> classify e = Some k \<Longrightarrow> continues (last run) e k \<Longrightarrow>
     run_ok k (run @ [e])"
  by (auto simp: run_ok_def successively_append_iff)

lemma run_ok_single: "jv_wf e \<Longrightarrow> classify e = Some k \<Longrightarrow> run_ok k [e]"
  by (simp add: run_ok_def)

abbreviation seq_num :: "jv \<Rightarrow> jnum" where
  "seq_num e \<equiv> jnum_at e ''seq''"

abbreviation time_num :: "jv \<Rightarrow> jnum" where
  "time_num e \<equiv> jnum_at e ''time''"

text \<open>What every member of a run shares with the first.\<close>

definition same_block :: "delta_kind \<Rightarrow> jv \<Rightarrow> jv \<Rightarrow> bool" where
  "same_block k a b \<longleftrightarrow>
     num_eq (turn_num b) (turn_num a) \<and> num_eq (step_num b) (step_num a) \<and>
     num_eq (index_num b) (index_num a) \<and>
     (k \<noteq> ToolCallKind \<or>
       (jprop (chunk_of a) ''id'' = jprop (chunk_of b) ''id'' \<and>
        jprop (chunk_of a) ''name'' = jprop (chunk_of b) ''name''))"

lemma continues_block: "continues a b k \<Longrightarrow> same_block k a b"
  by (auto simp: continues_def same_block_def Let_def)

lemma same_block_refl [simp]: "same_block k a a"
  by (simp add: same_block_def)

lemma same_block_trans: "same_block k a b \<Longrightarrow> same_block k b c \<Longrightarrow> same_block k a c"
  unfolding same_block_def
  using num_eq_trans [of "turn_num c" "turn_num b" "turn_num a"]
    num_eq_trans [of "step_num c" "step_num b" "step_num a"]
    num_eq_trans [of "index_num c" "index_num b" "index_num a"]
  by (elim conjE disjE) simp_all

lemma classify_nums:
  assumes "classify e = Some k"
  shows "is_safe_integer (seq_num e)" "0 \<le> num_int (seq_num e)" "is_safe_integer (time_num e)"
    "jprop e ''seq'' = Some (JNum (seq_num e))" "jprop e ''time'' = Some (JNum (time_num e))"
  using assms by (auto elim!: classify_envelope)

lemma continues_nums:
  assumes "continues a b k" and "classify a = Some k'" and "classify b = Some k"
  shows "num_int (seq_num b) = num_int (seq_num a) + 1"
    and "safe_int (num_int (time_num b) - num_int (time_num a))"
proof -
  have "num_eq (seq_num b) (num_add (seq_num a) (NInt 1))"
    using assms(1) by (simp add: continues_def)
  moreover have "num_add (seq_num a) (NInt 1) = NInt (round_double (num_int (seq_num a) + 1))"
    by (simp add: num_add_def)
  ultimately have e: "num_int (seq_num b) = round_double (num_int (seq_num a) + 1)"
    by (cases "seq_num b") auto
  have "safe_int (num_int (seq_num b))" using safe_int_num classify_nums(1) [OF assms(3)] by blast
  then have "safe_int (num_int (seq_num a) + 1)" using e by simp
  then show "num_int (seq_num b) = num_int (seq_num a) + 1" using e by simp
  show "safe_int (num_int (time_num b) - num_int (time_num a))"
    using assms(1) safe_num_sub(2) by (simp add: continues_def)
qed

lemma run_ok_nth:
  assumes "run_ok k run" and "i < length run"
  shows "jv_wf (run ! i)" "classify (run ! i) = Some k"
    "Suc i < length run \<Longrightarrow> continues (run ! i) (run ! Suc i) k"
    "same_block k (run ! 0) (run ! i)"
    "num_int (seq_num (run ! i)) = num_int (seq_num (run ! 0)) + int i"
proof -
  have all: "jv_wf (run ! i)" "classify (run ! i) = Some k" if "i < length run" for i
    using assms(1) that by (auto simp: run_ok_def list_all_length)
  have cont: "continues (run ! i) (run ! Suc i) k" if "Suc i < length run" for i
    using assms(1) that by (simp add: run_ok_def successively_conv_nth)
  show "jv_wf (run ! i)" "classify (run ! i) = Some k"
    "Suc i < length run \<Longrightarrow> continues (run ! i) (run ! Suc i) k"
    using all [OF assms(2)] cont by simp_all
  show "same_block k (run ! 0) (run ! i)"
    using assms(2)
  proof (induction i)
    case (Suc i)
    then show ?case using same_block_trans continues_block cont by (metis Suc_lessD)
  qed simp
  show "num_int (seq_num (run ! i)) = num_int (seq_num (run ! 0)) + int i"
    using assms(2)
  proof (induction i)
    case (Suc i)
    then show ?case using continues_nums(1) [OF cont all(2) all(2)] by simp
  qed simp
qed

lemma length_time_gaps [simp]: "length (time_gaps es) = length es - 1"
  by (induction es rule: time_gaps.induct) auto

lemma nth_time_gaps:
  "Suc i < length es \<Longrightarrow> time_gaps es ! i = JNum (num_sub (time_num (es ! Suc i)) (time_num (es ! i)))"
proof (induction es arbitrary: i rule: time_gaps.induct)
  case (1 a b es)
  then show ?case by (cases i) auto
qed auto

definition payload_of :: "delta_kind \<Rightarrow> jv \<Rightarrow> jv" where
  "payload_of k e =
     jget (chunk_of e) (if k = ToolCallKind then ''argumentsDelta'' else ''text'')"

definition row_data :: "delta_kind \<Rightarrow> jv list \<Rightarrow> jv" where
  "row_data k run = jget (build_row k run) ''data''"

lemma build_row_props:
  "jprop (build_row k run) ''type'' = Some (JStr (row_tag k))"
  "jprop (build_row k run) ''seq0'' = Some (jget (hd run) ''seq'')"
  "jprop (build_row k run) ''time0'' = Some (jget (hd run) ''time'')"
  "jprop (build_row k run) ''data'' = Some (row_data k run)"
  "has_exact_keys (build_row k run) [''type'', ''seq0'', ''time0'', ''data'']"
  "is_object (build_row k run)"
  by (auto simp: build_row_def Let_def has_exact_keys_def row_data_def)

lemma row_data_props:
  "is_object (row_data k run)"
  "jprop (row_data k run) ''turn'' = Some (JNum (turn_num (hd run)))"
  "jprop (row_data k run) ''step'' = Some (JNum (step_num (hd run)))"
  "jprop (row_data k run) ''index'' = Some (JNum (index_num (hd run)))"
  "jprop (row_data k run) ''dt'' = Some (JArr (time_gaps run))"
  "jprop (row_data k run) (if k = ToolCallKind then ''args'' else ''texts'') =
     Some (JArr (map (payload_of k) run))"
  by (auto simp: build_row_def Let_def row_data_def payload_of_def)

lemma row_data_call:
  "jprop (row_data ToolCallKind run) ''id'' = Some (jget (chunk_of (hd run)) ''id'')"
  "jprop (row_data ToolCallKind run) ''name'' =
     (if has_own (chunk_of (hd run)) ''name'' then Some (jget (chunk_of (hd run)) ''name'') else None)"
  "has_exact_keys (row_data ToolCallKind run)
     (if has_own (chunk_of (hd run)) ''name''
      then [''turn'', ''step'', ''index'', ''id'', ''name'', ''dt'', ''args'']
      else [''turn'', ''step'', ''index'', ''id'', ''dt'', ''args''])"
  by (auto simp: build_row_def Let_def row_data_def has_exact_keys_def)

lemma row_data_text:
  "k \<noteq> ToolCallKind \<Longrightarrow>
     has_exact_keys (row_data k run) [''turn'', ''step'', ''index'', ''dt'', ''texts'']"
  by (auto simp: build_row_def Let_def row_data_def has_exact_keys_def)


text \<open>Stepping through the gaps gives each member's time exactly.\<close>

lemma gap_step:
  assumes "run_ok k run" and "Suc i < length run" and "num_int t = num_int (time_num (run ! i))"
  shows "num_int (num_add t (jnum_of (time_gaps run ! i))) = num_int (time_num (run ! Suc i))"
    and "is_safe_integer (num_add t (jnum_of (time_gaps run ! i)))"
proof -
  have c: "classify (run ! i) = Some k" "classify (run ! Suc i) = Some k"
    "continues (run ! i) (run ! Suc i) k"
    using run_ok_nth [OF assms(1)] assms(2) by simp_all
  let ?a = "time_num (run ! i)" and ?b = "time_num (run ! Suc i)"
  have gap: "num_int (num_sub ?b ?a) = num_int ?b - num_int ?a"
    using safe_num_sub(1) continues_nums(2) [OF c(3,1,2)] by blast
  have b: "safe_int (num_int ?b)" using safe_int_num classify_nums(3) [OF c(2)] by blast
  show "num_int (num_add t (jnum_of (time_gaps run ! i))) = num_int ?b"
    using assms(2,3) gap b safe_num_add(1) [of t "num_sub ?b ?a"] by (simp add: nth_time_gaps)
  show "is_safe_integer (num_add t (jnum_of (time_gaps run ! i)))"
    using assms(2,3) gap b safe_num_add(2) [of t "num_sub ?b ?a"] by (simp add: nth_time_gaps)
qed

lemma times_safe_gaps:
  assumes "run_ok k run"
  shows "i < length run \<Longrightarrow> num_int t = num_int (time_num (run ! i)) \<Longrightarrow>
    times_safe t (drop i (time_gaps run))"
proof (induction "length run - i" arbitrary: i t)
  case 0
  then show ?case by simp
next
  case (Suc n)
  show ?case
  proof (cases "Suc i < length run")
    case False
    then show ?thesis by simp
  next
    case True
    have "drop i (time_gaps run) = time_gaps run ! i # drop (Suc i) (time_gaps run)"
      using True by (intro Cons_nth_drop_Suc [symmetric]) simp
    then show ?thesis
      using gap_step [OF assms True Suc.prems(2)] Suc.hyps(1) [of "Suc i"] Suc.hyps(2) True
      by (simp add: Let_def)
  qed
qed

lemma gaps_jsafe:
  assumes "run_ok k run"
  shows "list_all is_jsafe (time_gaps run)"
  unfolding list_all_length
proof (intro allI impI)
  fix i assume "i < length (time_gaps run)"
  then have i: "Suc i < length run" by simp
  then have "continues (run ! i) (run ! Suc i) k" using run_ok_nth(3) [OF assms] by simp
  then show "is_jsafe (time_gaps run ! i)" using i by (simp add: nth_time_gaps continues_def)
qed

lemma chunk_of_member:
  assumes "jv_wf e" and "classify e = Some k"
  shows "jv_wf (chunk_of e)" "classify_chunk (chunk_of e) = Some k"
    "jprop (chunk_of e) ''index'' = Some (JNum (index_num e))"
    "jprop (jget e ''data'') ''chunk'' = Some (chunk_of e)"
proof -
  obtain data chunk index where *: "jprop e ''data'' = Some data"
    "jprop data ''chunk'' = Some chunk" "jprop chunk ''index'' = Some (JNum index)"
    "classify_chunk chunk = Some k"
    using classify_envelope [OF assms(2)] by metis
  then have "chunk_of e = chunk" by (simp add: chunk_of_def)
  then show "classify_chunk (chunk_of e) = Some k"
    "jprop (chunk_of e) ''index'' = Some (JNum (index_num e))"
    "jprop (jget e ''data'') ''chunk'' = Some (chunk_of e)"
    using * by (simp_all add: index_num_def)
  show "jv_wf (chunk_of e)"
    using jprop_wf [OF jprop_wf [OF assms(1) *(1)] *(2)] \<open>chunk_of e = chunk\<close> by simp
qed

lemma payload_is_str:
  assumes "jv_wf e" and "classify e = Some k"
  shows "is_jstr (payload_of k e)"
  using chunk_of_member [OF assms] classify_chunk_text [of "chunk_of e" k]
    classify_chunk_call [of "chunk_of e"]
  by (cases "k = ToolCallKind") (auto simp: payload_of_def)

lemma run_hd: "run_ok k run \<Longrightarrow> hd run = run ! 0 \<and> 0 < length run"
  by (cases run) (auto simp: run_ok_def)

lemma validate_run_data_row:
  assumes "run_ok k run"
  shows "validate_run_data (row_data k run) (if k = ToolCallKind then ''args'' else ''texts'') =
    Inr (map (payload_of k) run)"
proof -
  let ?k = "if k = ToolCallKind then ''args'' else ''texts''"
  have "list_all is_jstr (map (payload_of k) run)"
    using assms payload_is_str by (auto simp: run_ok_def list_all_iff)
  moreover have "run \<noteq> []" using assms by (simp add: run_ok_def)
  moreover have "prop_arr (row_data k run) ''dt'' = Some (time_gaps run)"
    "prop_arr (row_data k run) ?k = Some (map (payload_of k) run)"
    using row_data_props(5,6) [of k run] by (simp_all only: prop_arr_Some)
  moreover have "is_num_at (row_data k run) ''turn''" "is_num_at (row_data k run) ''step''"
    "is_num_at (row_data k run) ''index''"
    using row_data_props(2-4) [of k run] by simp_all
  ultimately show ?thesis
    using gaps_jsafe [OF assms]
    by (simp add: validate_run_data_def of_nat_diff Suc_le_eq del: prop_arr_Some is_num_at_iff
        split del: if_split)
qed

lemma row_payload_row:
  assumes "run_ok k run"
  shows "row_payload (row_tag k) (row_data k run) = Inr (map (payload_of k) run)"
proof (cases "k = ToolCallKind")
  case False
  then have "row_tag k \<noteq> ''tool-call-chunks''" by (cases k) auto
  then show ?thesis
    using validate_run_data_row [OF assms] row_data_text [OF False] False
    by (simp add: row_payload_def)
next
  case True
  let ?c = "chunk_of (hd run)" and ?d = "row_data ToolCallKind run"
  let ?n = "[''turn'', ''step'', ''index'', ''id'', ''name'', ''dt'', ''args'']"
  have hd: "jv_wf (hd run)" "classify (hd run) = Some ToolCallKind"
    using run_ok_nth(1,2) [OF assms, of 0] run_hd [OF assms] True by auto
  note call = classify_chunk_call [OF chunk_of_member(2) [OF hd] chunk_of_member(1) [OF hd]]
  have id: "is_str_at ?d ''id''" using call(1) row_data_call(1) [of run] by auto
  have nm: "has_own ?c ''name'' \<Longrightarrow> is_str_at ?d ''name''"
    using call(4) row_data_call(2) [of run] by auto
  have wn: "has_exact_keys ?d ?n \<Longrightarrow> has_own ?c ''name''"
    using has_exact_keys_Some [of ?d ?n "''name''"] row_data_call(2) [of run] by (auto split: if_splits)
  show ?thesis
    using validate_run_data_row [OF assms] row_data_call(3) [of run] id nm wn True
    by (cases "has_own ?c ''name''") (auto simp: row_payload_def simp del: is_str_at_iff)
qed

lemma validate_built_row:
  assumes "run_ok k run"
  shows "validate_row (build_row k run) (row_tag k) = Inr (build_row k run)"
proof -
  let ?n = "length run"
  have pos: "0 < ?n" and hd: "hd run = run ! 0" using run_hd [OF assms] by auto
  have c0: "classify (run ! 0) = Some k" using run_ok_nth(2) [OF assms pos] .
  have cl: "classify (run ! (?n - 1)) = Some k" using run_ok_nth(2) [OF assms, of "?n - 1"] pos by simp
  let ?s = "seq_num (run ! 0)" and ?t = "time_num (run ! 0)"
  have props: "jprop (build_row k run) ''seq0'' = Some (JNum ?s)"
    "jprop (build_row k run) ''time0'' = Some (JNum ?t)"
    unfolding build_row_props(2,3) hd
    using classify_nums(4,5) [OF c0] by (simp_all only: jget_Some)
  have last: "safe_int (num_int ?s + int ?n - 1)"
    using run_ok_nth(5) [OF assms, of "?n - 1"] safe_int_num [OF classify_nums(1) [OF cl]] pos
    by (simp add: of_nat_diff Suc_le_eq add_diff_eq)
  have "round_double (num_int ?s + int ?n) = num_int ?s + int ?n"
    using last classify_nums(2) [OF c0]
    by (intro round_double_exact) (auto simp: safe_int_def max_safe_def)
  then have seqs: "is_safe_integer (num_sub (num_add ?s (NInt (int ?n))) (NInt 1))"
    using last safe_num_sub(2) by (simp add: num_add_def)
  have times: "times_safe ?t (time_gaps run)"
    using times_safe_gaps [OF assms pos, of ?t] by simp
  have p: "is_safe_at (build_row k run) ''seq0''" "is_safe_at (build_row k run) ''time0''"
    "jnum_at (build_row k run) ''seq0'' = ?s" "jnum_at (build_row k run) ''time0'' = ?t"
    "jget (build_row k run) ''data'' = row_data k run"
    using props build_row_props(4) [of k run] classify_nums(1,3) [OF c0] by simp_all
  have dt: "prop_arr (row_data k run) ''dt'' = Some (time_gaps run)"
    using row_data_props(5) [of k run] by (simp only: prop_arr_Some)
  have s0: "\<not> num_int ?s < 0" using classify_nums(2) [OF c0] by simp
  show ?thesis
    unfolding validate_row_def Let_def p(3-5) row_payload_row [OF assms]
    by (simp add: build_row_props(5) p(1,2) s0 row_data_props(1) seqs dt times
        del: prop_arr_Some is_safe_at_iff)
qed


section \<open>Expansion inverts packing\<close>

lemma deep_equal_numI: "num_eq m n \<Longrightarrow> deep_equal_json (JNum m) (JNum n)"
  by simp

lemma member_chunk_equal:
  assumes "jv_wf e" "classify e = Some k" "same_block k a e" "jv_wf a" "classify a = Some k"
    and "hd run = a"
  shows "deep_equal_json (chunk_of e) (member_chunk (row_tag k) (row_data k run) (payload_of k e))"
proof (cases "k = ToolCallKind")
  case False
  have keys: "has_exact_keys (chunk_of e) [''type'', ''index'', ''text'']"
    using classify_chunk_text [OF chunk_of_member(2) [OF assms(1,2)] False] by blast
  have m: "member_chunk (row_tag k) (row_data k run) (payload_of k e) =
      JObj [(''type'', JStr (kind_tag k)), (''index'', JNum (index_num a)), (''text'', payload_of k e)]"
    using False assms(6) row_data_props(4) [of k run] by (cases k) (simp_all add: member_chunk_def)
  have pw: "jv_wf (payload_of k e)"
    using payload_is_str [OF assms(1,2)] by (cases "payload_of k e") auto
  have "num_eq (index_num e) (index_num a)" using assms(3) by (simp add: same_block_def)
  then show ?thesis
    unfolding m
    using chunk_of_member(1,3) [OF assms(1,2)] keys deep_equal_json_refl [OF pw]
      classify_chunk_type [OF chunk_of_member(2) [OF assms(1,2)]] False
    by (intro deep_equal_objI) (auto simp: payload_of_def)
next
  case True
  let ?c = "chunk_of e"
  have e: "classify e = Some ToolCallKind" using assms(2) True by simp
  note call = classify_chunk_call [OF chunk_of_member(2) [OF assms(1) e] chunk_of_member(1) [OF assms(1,2)]]
  have same: "jprop (chunk_of a) ''id'' = jprop ?c ''id''" "jprop (chunk_of a) ''name'' = jprop ?c ''name''"
    "num_eq (index_num e) (index_num a)"
    using assms(3) True by (auto simp: same_block_def)
  have m: "member_chunk (row_tag k) (row_data k run) (payload_of k e) =
      JObj ([(''type'', JStr (kind_tag k)), (''index'', JNum (index_num a)), (''id'', jget ?c ''id'')]
        @ (if has_own ?c ''name'' then [(''name'', jget ?c ''name'')] else [])
        @ [(''argumentsDelta'', jget ?c ''argumentsDelta'')])"
    using True assms(6) row_data_props(4) [of k run] row_data_call(1,2) [of run] same(1,2)
    by (simp add: member_chunk_def payload_of_def has_own_def jget_def)
  show ?thesis
    unfolding m
    using chunk_of_member(1,3) [OF assms(1,2)] call same(3)
      classify_chunk_type [OF chunk_of_member(2) [OF assms(1,2)]]
    by (intro deep_equal_objI) (auto split: if_splits)
qed

lemma member_event_equal:
  assumes "jv_wf e" "classify e = Some k" "same_block k a e" "jv_wf a" "classify a = Some k"
    and "hd run = a" "num_eq (seq_num e) seq" "num_eq (time_num e) time"
  shows "deep_equal_json e (member_event (row_tag k) (row_data k run) seq time (payload_of k e))"
proof -
  obtain data turn step chunk where d: "has_exact_keys e [''type'', ''seq'', ''time'', ''data'']"
    "jprop e ''type'' = Some (JStr ''assistant/chunk'')"
    "jprop e ''data'' = Some data" "has_exact_keys data [''turn'', ''step'', ''chunk'']"
    "jprop data ''turn'' = Some (JNum turn)" "jprop data ''step'' = Some (JNum step)"
    "jprop data ''chunk'' = Some chunk"
    using classify_envelope [OF assms(2)] by metis
  have c: "chunk_of e = chunk" "turn_num e = turn" "step_num e = step"
    using d by (simp_all add: chunk_of_def turn_num_def step_num_def)
  let ?ch = "member_chunk (row_tag k) (row_data k run) (payload_of k e)"
  have "deep_equal_json data (JObj [(''turn'', JNum (turn_num a)), (''step'', JNum (step_num a)),
      (''chunk'', ?ch)])"
    using d(4-7) jprop_wf [OF assms(1) d(3)] assms(3) c member_chunk_equal [OF assms(1-6)]
    by (intro deep_equal_objI) (auto simp: same_block_def)
  moreover have "jget (row_data k run) ''turn'' = JNum (turn_num a)"
    "jget (row_data k run) ''step'' = JNum (step_num a)"
    using row_data_props(2,3) [of k run] assms(6) by simp_all
  moreover have "jget e ''seq'' = JNum (seq_num e)" "jget e ''time'' = JNum (time_num e)"
    using jget_Some [OF classify_nums(4) [OF assms(2)]] jget_Some [OF classify_nums(5) [OF assms(2)]]
    by blast+
  ultimately show ?thesis
    unfolding member_event_def
    using assms(1,7,8) d(1-3) by (intro deep_equal_objI) auto
qed

lemma expand_from_run:
  assumes "run_ok k run"
  shows "i \<le> length run \<Longrightarrow>
    num_int t = num_int (time_num (run ! (i - 1))) \<Longrightarrow> is_safe_integer t \<Longrightarrow>
    list_all2 deep_equal_json (drop i run)
      (expand_from (row_tag k) (row_data k run) (seq_num (run ! 0)) (time_gaps run) i t
        (map (payload_of k) (drop i run)))"
proof (induction "length run - i" arbitrary: i t)
  case 0
  then show ?case by simp
next
  case (Suc n)
  have i: "i < length run" using Suc.hyps(2) by simp
  have pos: "0 < length run" using i by linarith
  note nth = run_ok_nth [OF assms i] and fst = run_ok_nth [OF assms pos]
  let ?e = "run ! i"
  let ?t = "if 0 < i then num_add t (jnum_of (time_gaps run ! (i - 1))) else t"
  have t: "num_int ?t = num_int (time_num ?e) \<and> is_safe_integer ?t"
    using gap_step [OF assms, of "i - 1" t] i Suc.prems(2,3) by (cases "0 < i") auto
  let ?s = "num_add (seq_num (run ! 0)) (NInt (int i))"
  have s: "num_int ?s = num_int (seq_num ?e) \<and> is_safe_integer ?s"
    using safe_num_add [of "seq_num (run ! 0)" "NInt (int i)"] nth(5)
      safe_int_num [OF classify_nums(1) [OF nth(2)]] by simp
  have "deep_equal_json ?e (member_event (row_tag k) (row_data k run) ?s ?t (payload_of k ?e))"
    using nth(1,2,4) fst(1,2) run_hd [OF assms] s t
      deep_equal_num [of "seq_num ?e" ?s] deep_equal_num [of "time_num ?e" ?t]
      classify_nums(1,3) [OF nth(2)]
    by (intro member_event_equal [where a = "run ! 0"]) metis+
  moreover have "list_all2 deep_equal_json (drop (Suc i) run)
      (expand_from (row_tag k) (row_data k run) (seq_num (run ! 0)) (time_gaps run) (Suc i) ?t
        (map (payload_of k) (drop (Suc i) run)))"
    using Suc.hyps i t by (intro Suc.hyps(1)) auto
  ultimately show ?case
    using i by (simp add: Cons_nth_drop_Suc [OF i, symmetric] Let_def)
qed

lemma row_tag_of_row: "row_tag_of (build_row k run) = Some (row_tag k)"
  using build_row_props(1,6) [of k run] by (cases k) (simp_all add: row_tag_of_def)

lemma decode_built_row:
  assumes "run_ok k run"
  shows "\<exists>ds. decode_storage_record (build_row k run) = Inr ds \<and> list_all2 deep_equal_json run ds"
proof -
  have pos: "0 < length run" and hd: "hd run = run ! 0" using run_hd [OF assms] by auto
  note c0 = run_ok_nth(2) [OF assms pos]
  have p: "jnum_at (build_row k run) ''seq0'' = seq_num (run ! 0)"
    "jnum_at (build_row k run) ''time0'' = time_num (run ! 0)"
    "jget (build_row k run) ''data'' = row_data k run"
    using build_row_props(2-4) [of k run] classify_nums(4,5) [OF c0]
    unfolding hd by (metis jget_Some jnum_at_Some)+
  have tag: "(row_tag k = ''tool-call-chunks'') = (k = ToolCallKind)" by (cases k) auto
  have arr: "jarr_at (row_data k run) ''dt'' = time_gaps run"
    "(if row_tag k = ''tool-call-chunks'' then jarr_at (row_data k run) ''args''
      else jarr_at (row_data k run) ''texts'') = map (payload_of k) run"
    using row_data_props(5,6) [of k run] tag by (auto simp: jarr_at_def prop_arr_def)
  have "expand_row (build_row k run) (row_tag k) =
      expand_from (row_tag k) (row_data k run) (seq_num (run ! 0)) (time_gaps run) 0
        (time_num (run ! 0)) (map (payload_of k) run)"
    by (simp only: expand_row_def Let_def p arr)
  then show ?thesis
    using expand_from_run [OF assms, of 0 "time_num (run ! 0)"] classify_nums(3) [OF c0]
      validate_built_row [OF assms] row_tag_of_row
    by (simp add: decode_storage_record_def)
qed

lemma classify_not_row: "classify e = Some k \<Longrightarrow> row_tag_of e = None"
  by (auto simp: row_tag_of_def elim!: classify_envelope)

lemma traverse_append:
  "traverse f (as @ bs) = and_then (traverse f as) (\<lambda>xs. and_then (traverse f bs) (\<lambda>ys. Inr (xs @ ys)))"
proof (induction as)
  case Nil
  then show ?case by (cases "traverse f bs") auto
next
  case (Cons a as)
  then show ?case by (cases "f a"; cases "traverse f as"; cases "traverse f bs") auto
qed

definition decodes_to :: "jv list \<Rightarrow> jv list \<Rightarrow> bool" where
  "decodes_to rs es \<longleftrightarrow> (\<exists>ds. decode_records rs = Inr ds \<and> list_all2 deep_equal_json es ds)"

lemma decodes_to_Nil [simp]: "decodes_to [] []"
  by (simp add: decodes_to_def decode_records_def)

lemma decodes_to_append:
  "decodes_to rs es \<Longrightarrow> decodes_to rs' es' \<Longrightarrow> decodes_to (rs @ rs') (es @ es')"
  by (auto simp: decodes_to_def decode_records_def traverse_append result_simps
      intro!: list_all2_appendI)

lemma decodes_to_row: "run_ok k run \<Longrightarrow> decodes_to [build_row k run] run"
  using decode_built_row [of k run] by (auto simp: decodes_to_def decode_records_def)

lemma decodes_to_verbatim:
  "list_all (\<lambda>e. jv_wf e \<and> row_tag_of e = None) es \<Longrightarrow> decodes_to es es"
proof (induction es)
  case (Cons e es)
  have "decodes_to [e] [e]"
    using Cons.prems deep_equal_json_refl
    by (simp add: decodes_to_def decode_records_def decode_storage_record_def)
  then show ?case using decodes_to_append [of "[e]" "[e]" es es] Cons by simp
qed simp

text \<open>The invariant of the packing loop: what was written decodes to the events before the run.\<close>

definition pack_inv :: "jv list \<Rightarrow> pack_state \<Rightarrow> bool" where
  "pack_inv es st \<longleftrightarrow>
     (\<exists>done. es = done @ pk_run st \<and> decodes_to (pk_out st) done \<and>
        length (pk_out st) \<le> length done) \<and>
     (case pk_kind st of None \<Rightarrow> pk_run st = [] | Some k \<Rightarrow> run_ok k (pk_run st))"

lemma pack_inv_flush: "pack_inv es st \<Longrightarrow> pack_inv es (pack_flush st)"
proof -
  assume inv: "pack_inv es st"
  then obtain dn where d: "es = dn @ pk_run st" "decodes_to (pk_out st) dn"
    "length (pk_out st) \<le> length dn" by (auto simp: pack_inv_def)
  show "pack_inv es (pack_flush st)"
  proof (cases "pk_kind st")
    case None
    then show ?thesis using inv by (auto simp: pack_inv_def pack_flush_def)
  next
    case (Some k)
    have ok: "run_ok k (pk_run st)" using inv Some by (simp add: pack_inv_def)
    then have "decodes_to (pk_run st) (pk_run st)"
      using classify_not_row by (intro decodes_to_verbatim) (auto simp: run_ok_def list_all_iff)
    then have "decodes_to (pk_out (pack_flush st)) (dn @ pk_run st)"
      using decodes_to_append [OF d(2)] decodes_to_row [OF ok] Some by (simp add: pack_flush_def)
    moreover have "length (pk_out (pack_flush st)) \<le> length (dn @ pk_run st)"
      using d(3) Some by (auto simp: pack_flush_def MIN_RUN_def)
    ultimately show ?thesis using d(1) by (simp add: pack_inv_def pack_flush_def)
  qed
qed

lemma pack_inv_step:
  assumes "pack_inv es st" "jv_wf e" "row_tag_of e = None"
  shows "pack_inv (es @ [e]) (pack_step st e)"
proof (cases "classify e")
  case None
  have "decodes_to [e] [e]" using assms(2,3) by (intro decodes_to_verbatim) simp
  moreover obtain "decodes_to (pk_out (pack_flush st)) es" "length (pk_out (pack_flush st)) \<le> length es"
    using pack_inv_flush [OF assms(1)] by (auto simp: pack_inv_def pack_flush_def)
  ultimately show ?thesis
    using None decodes_to_append by (fastforce simp: pack_inv_def pack_step_def Let_def pack_flush_def)
next
  case (Some k)
  have "decodes_to (pk_out (pack_flush st)) es" "length (pk_out (pack_flush st)) \<le> length es"
    using pack_inv_flush [OF assms(1)] by (auto simp: pack_inv_def pack_flush_def)
  then show ?thesis
    using assms(1) run_ok_snoc [OF _ assms(2) Some] run_ok_single [OF assms(2) Some] Some
    by (auto simp: pack_inv_def pack_step_def)
qed

lemma pack_inv_fold:
  "list_all (\<lambda>e. jv_wf e \<and> row_tag_of e = None) es \<Longrightarrow> pack_inv es (foldl pack_step pack_init es)"
proof (induction es rule: rev_induct)
  case Nil
  then show ?case by (simp add: pack_inv_def pack_init_def)
next
  case (snoc e es)
  then show ?case using pack_inv_step by simp
qed

text \<open>C5. Decoding a packed batch, record by record, returns the batch: the same number of events
  in the same order, each equal to the original as a JSON value; and packing never stores more
  records than there are events.\<close>

theorem pack_round_trip:
  assumes "list_all (\<lambda>e. jv_wf e \<and> row_tag_of e = None) es"
  shows "\<exists>ds. decode_records (pack_chunk_runs es) = Inr ds \<and> list_all2 deep_equal_json es ds \<and>
    length (pack_chunk_runs es) \<le> length es"
  using pack_inv_flush [OF pack_inv_fold [OF assms]]
  by (auto simp: pack_inv_def pack_chunk_runs_def decodes_to_def pack_flush_def)


section \<open>What the decoder accepts\<close>

lemma validate_row_Inr:
  assumes "validate_row v tag = Inr row"
  shows "row = v" and "\<exists>n. jprop v ''seq0'' = Some (JNum n) \<and> is_safe_integer n \<and> 0 \<le> num_int n"
    and "\<exists>n. jprop v ''time0'' = Some (JNum n) \<and> is_safe_integer n"
    and "\<exists>payload. row_payload tag (jget v ''data'') = Inr payload \<and>
      is_safe_integer (num_sub (num_add (jnum_at v ''seq0'') (NInt (int (length payload)))) (NInt 1)) \<and>
      times_safe (jnum_at v ''time0'') (jarr_at (jget v ''data'') ''dt'')"
proof -
  have 1: "is_safe_at v ''seq0'' \<and> \<not> num_int (jnum_at v ''seq0'') < 0 \<and> is_safe_at v ''time0''"
    using assms unfolding validate_row_def by (simp del: is_safe_at_iff split: if_splits)
  then show "\<exists>n. jprop v ''seq0'' = Some (JNum n) \<and> is_safe_integer n \<and> 0 \<le> num_int n"
    "\<exists>n. jprop v ''time0'' = Some (JNum n) \<and> is_safe_integer n" by auto
  let ?ok = "\<lambda>payload. is_safe_integer
      (num_sub (num_add (jnum_at v ''seq0'') (NInt (int (length payload)))) (NInt 1))"
  have "and_then (row_payload tag (jget v ''data'')) (\<lambda>payload.
      if \<not> ?ok payload then Inl SeqsUnsafe
      else case prop_arr (jget v ''data'') ''dt'' of
        None \<Rightarrow> Inl DtSafeIntegers
      | Some dt \<Rightarrow> if times_safe (jnum_at v ''time0'') dt then Inr v else Inl TimesUnsafe) = Inr row"
    using assms 1 unfolding validate_row_def Let_def
    by (simp del: prop_arr_Some is_safe_at_iff split: if_splits)
  then obtain payload where p: "row_payload tag (jget v ''data'') = Inr payload"
    and c: "(if \<not> ?ok payload then Inl SeqsUnsafe
      else case prop_arr (jget v ''data'') ''dt'' of
        None \<Rightarrow> Inl DtSafeIntegers
      | Some dt \<Rightarrow> if times_safe (jnum_at v ''time0'') dt then Inr v else Inl TimesUnsafe) = Inr row"
    by (cases "row_payload tag (jget v ''data'')") simp_all
  obtain dt where 2: "row_payload tag (jget v ''data'') = Inr payload" "?ok payload"
    "prop_arr (jget v ''data'') ''dt'' = Some dt" "times_safe (jnum_at v ''time0'') dt" "row = v"
    using p c by (cases "?ok payload"; cases "prop_arr (jget v ''data'') ''dt''")
      (simp_all del: prop_arr_Some split: if_splits)
  then show "row = v" "\<exists>payload. row_payload tag (jget v ''data'') = Inr payload \<and>
      is_safe_integer (num_sub (num_add (jnum_at v ''seq0'') (NInt (int (length payload)))) (NInt 1)) \<and>
      times_safe (jnum_at v ''time0'') (jarr_at (jget v ''data'') ''dt'')"
    by (auto simp: jarr_at_def simp del: prop_arr_Some)
qed

lemma row_payload_Inr:
  assumes "row_payload tag data = Inr payload"
  shows "payload = jarr_at data (if tag = ''tool-call-chunks'' then ''args'' else ''texts'')"
    "payload \<noteq> []" "length (jarr_at data ''dt'') = length payload - 1"
proof -
  have v: "validate_run_data data (if tag = ''tool-call-chunks'' then ''args'' else ''texts'') = Inr payload"
    using assms by (auto simp: row_payload_def Let_def split: if_splits)
  then obtain dt where "prop_arr data (if tag = ''tool-call-chunks'' then ''args'' else ''texts'') = Some payload"
    "payload \<noteq> []" "prop_arr data ''dt'' = Some dt" "int (length dt) = int (length payload) - 1"
    unfolding validate_run_data_def
    by (auto simp del: prop_arr_Some is_num_at_iff split: if_splits option.splits)
  then show "payload = jarr_at data (if tag = ''tool-call-chunks'' then ''args'' else ''texts'')"
    "payload \<noteq> []" "length (jarr_at data ''dt'') = length payload - 1"
    by (auto simp: jarr_at_def simp del: prop_arr_Some)
qed

lemma member_event_props [simp]:
  "jprop (member_event tag data seq time m) ''type'' = Some (JStr ''assistant/chunk'')"
  "jprop (member_event tag data seq time m) ''seq'' = Some (JNum seq)"
  "jprop (member_event tag data seq time m) ''time'' = Some (JNum time)"
  by (simp_all add: member_event_def)

lemma length_expand_from [simp]: "length (expand_from tag data s dt k t ms) = length ms"
  by (induction ms arbitrary: k t) (simp_all add: Let_def)

lemma expand_from_seq:
  "i < length ms \<Longrightarrow>
     jprop (expand_from tag data s dt k t ms ! i) ''seq'' = Some (JNum (num_add s (NInt (int (k + i)))))"
proof (induction ms arbitrary: k t i)
  case (Cons m ms)
  then show ?case by (cases i) (simp_all add: Let_def add.assoc)
qed simp

lemma expand_from_times:
  assumes "is_safe_integer t" and "k + length ms = Suc (length dt)" and "times_safe t (drop (k - 1) dt)"
    and "k = 0 \<Longrightarrow> times_safe t dt"
  shows "i < length ms \<Longrightarrow> is_safe_at (expand_from tag data s dt k t ms ! i) ''time''"
  using assms
proof (induction ms arbitrary: k t i)
  case Nil
  then show ?case by simp
next
  case (Cons m ms)
  show ?case
  proof (cases k)
    case 0
    then show ?thesis using Cons.IH [of "i - 1" t 1] Cons.prems by (cases i) (auto simp: Let_def)
  next
    case (Suc k')
    then have "k' < length dt" using Cons.prems(1,3) by simp
    then have "drop k' dt = dt ! k' # drop k dt" using Suc by (simp add: Cons_nth_drop_Suc)
    then show ?thesis
      using Suc Cons.IH [of "i - 1" "num_add t (jnum_of (dt ! k'))" "Suc k"] Cons.prems
      by (cases i) (auto simp: Let_def)
  qed
qed

text \<open>Whatever row the decoder accepts, the events it yields have the row's sequence numbers in
  order without a gap, none of them beyond two to the 53, and every timestamp is a safe integer.\<close>

theorem decoded_row_contiguous:
  assumes "row_tag_of v = Some tag" and "decode_storage_record v = Inr ds"
  shows "ds \<noteq> [] \<and>
    (\<exists>s0. 0 \<le> s0 \<and> s0 + int (length ds) - 1 \<le> 2 ^ 53 \<and>
       (\<forall>i < length ds. jprop (ds ! i) ''seq'' = Some (jint (s0 + int i)) \<and>
          is_safe_at (ds ! i) ''time''))"
proof -
  obtain row where row: "validate_row v tag = Inr row" "ds = expand_row row tag"
    using assms by (auto simp: decode_storage_record_def result_simps)
  note V = validate_row_Inr [OF row(1)]
  obtain s where s: "jnum_at v ''seq0'' = s" "is_safe_integer s" "0 \<le> num_int s"
    using V(2) by auto
  obtain t where t: "jnum_at v ''time0'' = t" "is_safe_integer t" using V(3) by auto
  obtain payload where p: "row_payload tag (jget v ''data'') = Inr payload"
    "is_safe_integer (num_sub (num_add s (NInt (int (length payload)))) (NInt 1))"
    "times_safe t (jarr_at (jget v ''data'') ''dt'')"
    using V(4) s(1) t(1) by auto
  note P = row_payload_Inr [OF p(1)]
  have ds: "ds = expand_from tag (jget v ''data'') s (jarr_at (jget v ''data'') ''dt'') 0 t payload"
    using row(2) V(1) s(1) t(1) P(1) by (simp add: expand_row_def Let_def)
  have "safe_int (round_double (num_int s + int (length payload)) - 1)"
    using p(2) safe_num_sub(2) by (simp add: num_add_def)
  then have "num_int s + int (length payload) \<le> 2 ^ 53 + 1"
    using round_double_le_limit by (simp add: safe_int_def max_safe_def)
  then have bound: "num_int s + int (length ds) - 1 \<le> 2 ^ 53" using ds by simp
  have "jprop (ds ! i) ''seq'' = Some (jint (num_int s + int i))" if "i < length ds" for i
  proof -
    have "num_add s (NInt (int i)) = NInt (num_int s + int i)"
      using that bound s(3) round_double_exact [of "num_int s + int i"] by (simp add: num_add_def)
    then show ?thesis using expand_from_seq [of i payload] that ds by simp
  qed
  moreover have "is_safe_at (ds ! i) ''time''" if "i < length ds" for i
    using expand_from_times [of t 0 payload "jarr_at (jget v ''data'') ''dt''" i] t(2) P(2,3) p(3)
      that ds by (cases payload) simp_all
  moreover have "ds \<noteq> []" using P(2) ds by (cases payload) (simp_all add: Let_def)
  ultimately show ?thesis using s(3) bound by blast
qed

text \<open>
  The bound check adds the member count before subtracting one, so at the top of the safe range
  the sum rounds: a row whose second member has the unsafe sequence number two to the 53 passes.
\<close>

definition top_row :: jv where
  "top_row = JObj
     [(''type'', JStr ''text-chunks''), (''seq0'', jint 9007199254740991), (''time0'', jint 0),
      (''data'', JObj [(''turn'', jint 1), (''step'', jint 1), (''index'', jint 0),
         (''dt'', JArr [jint 0]), (''texts'', JArr [JStr ''a'', JStr ''b''])])]"

lemma round_top: "round_double 9007199254740993 = 9007199254740992"
proof -
  have "floorlog 2 (9007199254740993 :: nat) = 54" by (simp add: compute_floorlog)
  then show ?thesis by (simp add: round_double_def round_nat_def Let_def)
qed

text \<open>C35. The sequence-number check of the row decoder is off by one at the limit: it accepts a row
  whose last member has a sequence number that is not a safe integer.\<close>

theorem unsafe_member_seq_accepted:
  "\<exists>ds. decode_storage_record top_row = Inr ds \<and> length ds = 2 \<and> \<not> is_safe_at (ds ! 1) ''seq''"
proof -
  have v: "validate_row top_row ''text-chunks'' = Inr top_row"
    by (simp add: validate_row_def top_row_def has_exact_keys_def Let_def row_payload_def
        validate_run_data_def prop_arr_def num_add_def num_sub_def round_top safe_int_def max_safe_def)
  have e: "expand_row top_row ''text-chunks'' =
      [member_event ''text-chunks'' (jget top_row ''data'') (NInt 9007199254740991) (NInt 0) (JStr ''a''),
       member_event ''text-chunks'' (jget top_row ''data'') (NInt 9007199254740992) (NInt 0) (JStr ''b'')]"
    by (simp add: expand_row_def top_row_def jarr_at_def prop_arr_def num_add_def round_double_exact Let_def)
  have "row_tag_of top_row = Some ''text-chunks''" by (simp add: row_tag_of_def top_row_def)
  then show ?thesis
    by (simp add: decode_storage_record_def v e safe_int_def max_safe_def)
qed

section \<open>Instances\<close>

definition example_deltas :: "jv list" where
  "example_deltas =
     [event_json (example_event (AssistantChunk 1 1 (TextDelta (NInt 0) ''a'')) 4 None None),
      event_json (example_event (AssistantChunk 1 1 (TextDelta (NInt 0) ''b'')) 5 None None),
      event_json (example_event (AssistantChunk 1 1 (TextDelta (NInt 0) ''c'')) 6 None None),
      event_json (example_event (StepEnd 1 1) 7 None None)]"

lemma example_deltas_ok: "list_all (\<lambda>e. jv_wf e \<and> row_tag_of e = None) example_deltas"
  by code_simp

theorem pack_round_trip_witness:
  "length (pack_chunk_runs example_deltas) = 2 \<and>
   (\<exists>ds. decode_records (pack_chunk_runs example_deltas) = Inr ds \<and> list_all2 deep_equal_json example_deltas ds)"
proof -
  have "length (pack_chunk_runs example_deltas) = 2" by code_simp
  then show ?thesis using pack_round_trip [OF example_deltas_ok] by auto
qed

theorem decoded_row_contiguous_witness:
  "\<exists>ds s0. decode_storage_record (hd (pack_chunk_runs example_deltas)) = Inr ds \<and> length ds = 3 \<and>
     jprop (ds ! 0) ''seq'' = Some (jint s0) \<and> jprop (ds ! 2) ''seq'' = Some (jint (s0 + 2))"
proof -
  let ?row = "hd (pack_chunk_runs example_deltas)"
  have t: "row_tag_of ?row = Some ''text-chunks''" by code_simp
  have "case decode_storage_record ?row of Inr ds \<Rightarrow> length ds = 3 | Inl _ \<Rightarrow> False" by code_simp
  then obtain ds where ds: "decode_storage_record ?row = Inr ds" "length ds = 3" by (auto split: sum.splits)
  obtain s0 where "\<forall>i < 3. jprop (ds ! i) ''seq'' = Some (jint (s0 + int i))"
    using decoded_row_contiguous [OF t ds(1)] ds(2) by auto
  from this [rule_format, of 0] this [rule_format, of 2] show ?thesis using ds by auto
qed

end
