(* ===== verification/Session_Surface.thy ===== *)
theory Session_Surface
  imports Session_Types
begin

text \<open>
  The surface layer, \<^verbatim>\<open>packages/core/session/src/surface.ts\<close>: which events are visible to
  the model and in which order. \<open>fold_surface\<close> replays a whole log; the
  \<open>surface_manager\<close> operations keep the same result incrementally, planning a candidate
  event before it enters the log. The lemmas show that the node list is duplicate-free and
  refers to surface events only, that no surface event is ever lost (it is a node or was
  shadowed by exactly one replacement), and that the incremental view equals the replay.
\<close>

section \<open>Classification\<close>

definition SURFACE_EVENT_TYPES :: "string list" where
  "SURFACE_EVENT_TYPES = [''user/message'', ''assistant/message'', ''tool/result'']"

definition is_surface_eligible_type :: "string \<Rightarrow> bool" where
  "is_surface_eligible_type t \<longleftrightarrow> t \<in> set SURFACE_EVENT_TYPES"

definition is_surface_event :: "session_event \<Rightarrow> bool" where
  "is_surface_event e \<longleftrightarrow> is_surface_eligible_type (ev_type e) \<and> ev_surface_op e \<noteq> None"

definition is_append_surface_event :: "session_event \<Rightarrow> bool" where
  "is_append_surface_event e \<longleftrightarrow> is_surface_event e \<and> ev_surface_op e = Some append_op"

definition is_replacement_surface_event :: "session_event \<Rightarrow> bool" where
  "is_replacement_surface_event e \<longleftrightarrow> is_surface_event e \<and> ev_surface_op e \<noteq> Some append_op"

text \<open>The message an event derives to; \<open>None\<close> is the code's \<open>null\<close>.\<close>

definition derive_user_message :: "message \<Rightarrow> message" where
  "derive_user_message m =
     (case msg_source m of
        PluginSource _ True _ \<Rightarrow> m\<lparr>msg_role := AssistantRole\<rparr>
      | _ \<Rightarrow> m)"

fun derive_event_message :: "event_data \<Rightarrow> message option" where
  "derive_event_message (UserMessage m) = Some (derive_user_message m)"
| "derive_event_message (AssistantMessage _ _ m _ _) =
     (if length (msg_content m) = 0 then None else Some m)"
| "derive_event_message (ToolResult _ _ m _ _) = Some m"
| "derive_event_message _ = None"

section \<open>Fold state and errors\<close>

datatype surface_error =
    NotContiguous
  | OpOnIneligible
  | SourcesOnIneligible
  | OpMissing
  | OpInvalid
  | ReplaceOpInvalid
  | SourcesNotArray
  | SourcesEmpty
  | SourcesNotSeq
  | SourcesDuplicate
  | SourcesNotEarlier
  | SourcesMissShadowed
  | StartNotFound
  | EndNotFound
  | StartAfterEnd
  | RewriteNotSingle
  | RewriteNotToolResult
  | RewriteChangesMore

record surface_replacement =
  rep_seq :: int
  rep_start :: int
  rep_end :: int
  rep_shadowed :: "int list"

record surface_state =
  nodes :: "int list"
  replace_generation :: nat

datatype surface_op = OpAppend | OpReplace int int

datatype surface_plan =
    PlanAppend int
  | PlanReplace surface_replacement nat nat

definition create_fold_state :: surface_state where
  "create_fold_state = \<lparr>nodes = [], replace_generation = 0\<rparr>"

section \<open>Validation\<close>

fun is_event_seq :: "jv \<Rightarrow> bool" where
  "is_event_seq (JNum n) = (is_safe_integer n \<and> 0 \<le> num_int n)"
| "is_event_seq _ = False"

fun seq_of :: "jv \<Rightarrow> int" where
  "seq_of (JNum n) = num_int n"
| "seq_of _ = 0"

definition is_replace_op :: "jv \<Rightarrow> bool" where
  "is_replace_op v \<longleftrightarrow>
     length (jkeys v) = 3 \<and>
     jprop v ''op'' = Some (JStr ''replace'') \<and>
     (case jprop v ''start'' of Some s \<Rightarrow> is_event_seq s | None \<Rightarrow> False) \<and>
     (case jprop v ''end'' of Some s \<Rightarrow> is_event_seq s | None \<Rightarrow> False)"

definition surface_op_of :: "session_event \<Rightarrow> surface_error + surface_op option" where
  "surface_op_of e =
     (if \<not> is_surface_eligible_type (ev_type e) then
        if ev_surface_op e \<noteq> None then Inl OpOnIneligible
        else if ev_sources e \<noteq> None then Inl SourcesOnIneligible
        else Inr None
      else
        case ev_surface_op e of
          None \<Rightarrow> Inl OpMissing
        | Some op \<Rightarrow>
            if op = append_op then Inr (Some OpAppend)
            else if \<not> is_record op then Inl OpInvalid
            else if \<not> is_replace_op op then Inl ReplaceOpInvalid
            else Inr (Some (OpReplace (seq_of (the (jprop op ''start'')))
                                      (seq_of (the (jprop op ''end''))))))"

definition cited_seqs :: "session_event \<Rightarrow> int list" where
  "cited_seqs e = (case ev_sources e of Some (JArr raw) \<Rightarrow> map seq_of raw | _ \<Rightarrow> [])"

definition assert_provenance :: "session_event \<Rightarrow> int list \<Rightarrow> surface_error + unit" where
  "assert_provenance e shadowed =
     and_then
       (case ev_sources e of
          None \<Rightarrow> Inr ()
        | Some (JArr raw) \<Rightarrow>
            if length raw = 0 \<and> ev_type e \<noteq> ''assistant/message'' then Inl SourcesEmpty
            else if \<not> list_all is_event_seq raw then Inl SourcesNotSeq
            else if \<not> distinct (map seq_of raw) then Inl SourcesDuplicate
            else if list_ex (\<lambda>s. ev_seq e \<le> s) (map seq_of raw) then Inl SourcesNotEarlier
            else Inr ()
        | Some _ \<Rightarrow> Inl SourcesNotArray)
       (\<lambda>_. if filter (\<lambda>s. s \<notin> set (cited_seqs e)) shadowed \<noteq> [] then Inl SourcesMissShadowed
             else Inr ())"

definition replacement_range ::
  "surface_state \<Rightarrow> int \<Rightarrow> int \<Rightarrow> surface_error + (nat \<times> nat \<times> int list)" where
  "replacement_range st s e =
     (case index_of s (nodes st) of
        None \<Rightarrow> Inl StartNotFound
      | Some i \<Rightarrow>
          (case index_of e (nodes st) of
             None \<Rightarrow> Inl EndNotFound
           | Some j \<Rightarrow>
               if j < i then Inl StartAfterEnd
               else Inr (i, j, slice_incl i j (nodes st))))"

text \<open>\<open>{ ...record, key: value }\<close>.\<close>

fun obj_set :: "string \<Rightarrow> jv \<Rightarrow> jv \<Rightarrow> jv" where
  "obj_set k v (JObj kvs) = JObj (AList.update k v kvs)"
| "obj_set k v _ = JObj [(k, v)]"

definition blank_result :: "message \<Rightarrow> jv" where
  "blank_result m =
     obj_set ''content''
       (JArr [obj_set ''content'' JNull
                (case msg_content m of b # _ \<Rightarrow> block_json b | [] \<Rightarrow> JObj [])])
       (message_json m)"

fun tool_result_rest :: "event_data \<Rightarrow> jv" where
  "tool_result_rest (ToolResult t s m e x) =
     obj_set ''message'' (blank_result m) (data_json (ToolResult t s m e x))"
| "tool_result_rest d = data_json d"

fun is_tool_result :: "event_data \<Rightarrow> bool" where
  "is_tool_result (ToolResult _ _ _ _ _) = True"
| "is_tool_result _ = False"

text \<open>\<open>events[seq - baseSeq]\<close>: \<open>None\<close> is \<open>undefined\<close>.\<close>

definition event_at :: "session_event list \<Rightarrow> int \<Rightarrow> int \<Rightarrow> session_event option" where
  "event_at events base seq =
     (if base \<le> seq \<and> nat (seq - base) < length events then Some (events ! nat (seq - base)) else None)"

definition assert_tool_result_rewrite ::
  "session_event \<Rightarrow> int list \<Rightarrow> session_event list \<Rightarrow> int \<Rightarrow> surface_error + unit" where
  "assert_tool_result_rewrite e shadowed events base =
     (if \<not> is_tool_result (ev_data e) then Inr ()
      else case shadowed of
        [seq] \<Rightarrow>
          (case event_at events base seq of
             None \<Rightarrow> Inl RewriteNotToolResult
           | Some original \<Rightarrow>
               if \<not> is_tool_result (ev_data original) then Inl RewriteNotToolResult
               else if \<not> deep_equal_json (tool_result_rest (ev_data original))
                                          (tool_result_rest (ev_data e))
               then Inl RewriteChangesMore
               else Inr ())
      | _ \<Rightarrow> Inl RewriteNotSingle)"

definition plan_surface_event ::
  "surface_state \<Rightarrow> session_event \<Rightarrow> int \<Rightarrow> session_event list \<Rightarrow> int
     \<Rightarrow> surface_error + surface_plan option" where
  "plan_surface_event st e expected events base =
     (if ev_seq e \<noteq> expected then Inl NotContiguous
      else and_then (surface_op_of e) (\<lambda>op.
        case op of
          None \<Rightarrow> Inr None
        | Some OpAppend \<Rightarrow>
            and_then (assert_provenance e []) (\<lambda>_. Inr (Some (PlanAppend (ev_seq e))))
        | Some (OpReplace s t) \<Rightarrow>
            and_then (replacement_range st s t) (\<lambda>(i, j, shadowed).
            and_then (assert_provenance e shadowed) (\<lambda>_.
            and_then (assert_tool_result_rewrite e shadowed events base) (\<lambda>_.
              Inr (Some (PlanReplace
                \<lparr>rep_seq = ev_seq e, rep_start = s, rep_end = t, rep_shadowed = shadowed\<rparr>
                i j)))))))"

fun apply_surface_plan ::
  "surface_state \<Rightarrow> surface_plan option \<Rightarrow> surface_state \<times> surface_replacement option" where
  "apply_surface_plan st None = (st, None)"
| "apply_surface_plan st (Some (PlanAppend seq)) = (st\<lparr>nodes := nodes st @ [seq]\<rparr>, None)"
| "apply_surface_plan st (Some (PlanReplace r i j)) =
     (st\<lparr>nodes := splice_one i j (rep_seq r) (nodes st),
         replace_generation := replace_generation st + 1\<rparr>, Some r)"

definition apply_surface_event ::
  "surface_state \<Rightarrow> session_event \<Rightarrow> int \<Rightarrow> session_event list \<Rightarrow> int
     \<Rightarrow> surface_error + (surface_state \<times> surface_replacement option)" where
  "apply_surface_event st e expected events base =
     and_then (plan_surface_event st e expected events base)
       (\<lambda>plan. Inr (apply_surface_plan st plan))"

section \<open>Replay of a whole log\<close>

text \<open>
  The loop state: the fold state, the replacements so far and the next expected sequence
  number. A log may be a window whose first event has sequence number \<open>base\<close>.
\<close>

type_synonym surface_acc = "surface_state \<times> surface_replacement list \<times> int"

fun surface_step ::
  "session_event list \<Rightarrow> int \<Rightarrow> surface_acc \<Rightarrow> session_event \<Rightarrow> surface_error + surface_acc" where
  "surface_step events base (st, reps, expected) e =
     and_then (apply_surface_event st e expected events base)
       (\<lambda>(st', r). Inr (st', reps @ (case r of None \<Rightarrow> [] | Some x \<Rightarrow> [x]), expected + 1))"

definition fold_window ::
  "int \<Rightarrow> session_event list \<Rightarrow> surface_error + surface_acc" where
  "fold_window base events = fold_result (surface_step events base) (create_fold_state, [], base) events"

definition fold_surface ::
  "session_event list \<Rightarrow> surface_error + (int list \<times> surface_replacement list)" where
  "fold_surface events =
     and_then (fold_window 0 events) (\<lambda>(st, reps, _). Inr (nodes st, reps))"

section \<open>The incremental surface manager\<close>

record surface_manager =
  sm_state :: surface_state
  sm_last :: int
  sm_pending :: "(session_event \<times> int \<times> surface_plan option) option"
  sm_base :: int

definition new_surface_manager :: "int \<Rightarrow> surface_manager" where
  "new_surface_manager base =
     \<lparr>sm_state = create_fold_state, sm_last = base - 1, sm_pending = None, sm_base = base\<rparr>"

text \<open>
  One iteration of \<open>_processDelta\<close>: a candidate planned by \<open>validate_next\<close> for exactly
  this position is committed without planning it again.
\<close>

definition delta_plan ::
  "session_event list \<Rightarrow> surface_manager \<Rightarrow> session_event \<Rightarrow> surface_error + surface_plan option" where
  "delta_plan events m e =
     (let seq = sm_last m + 1 in
      case sm_pending m of
        Some (pe, pseq, plan) \<Rightarrow>
          if pe = e \<and> pseq = seq then Inr plan
          else plan_surface_event (sm_state m) e seq events (sm_base m)
      | None \<Rightarrow> plan_surface_event (sm_state m) e seq events (sm_base m))"

definition delta_commit :: "surface_manager \<Rightarrow> surface_plan option \<Rightarrow> surface_manager" where
  "delta_commit m plan =
     (let seq = sm_last m + 1 in
      m\<lparr>sm_state := fst (apply_surface_plan (sm_state m) plan),
        sm_pending := (case sm_pending m of
                         Some (pe, pseq, p) \<Rightarrow> if pseq \<le> seq then None else sm_pending m
                       | None \<Rightarrow> None),
        sm_last := seq\<rparr>)"

fun process_events ::
  "session_event list \<Rightarrow> surface_manager \<Rightarrow> session_event list
     \<Rightarrow> surface_manager \<times> surface_error option" where
  "process_events events m [] = (m, None)"
| "process_events events m (e # es) =
     (case delta_plan events m e of
        Inl err \<Rightarrow> (m, Some err)
      | Inr plan \<Rightarrow> process_events events (delta_commit m plan) es)"

definition process_delta ::
  "session_event list \<Rightarrow> surface_manager \<Rightarrow> surface_manager \<times> surface_error option" where
  "process_delta events m = process_events events m (drop (nat (sm_last m + 1 - sm_base m)) events)"

text \<open>Validation of the next candidate: the manager after the call, and the thrown error.\<close>

definition validate_next ::
  "session_event list \<Rightarrow> session_event \<Rightarrow> surface_manager
     \<Rightarrow> surface_manager \<times> surface_error option" where
  "validate_next events e m =
     (case process_delta events m of
        (m', Some err) \<Rightarrow> (m', Some err)
      | (m', None) \<Rightarrow>
          let expected = sm_base m' + int (length events) in
          (case plan_surface_event (sm_state m') e expected events (sm_base m') of
             Inl err \<Rightarrow> (m', Some err)
           | Inr plan \<Rightarrow> (m'\<lparr>sm_pending := Some (e, expected, plan)\<rparr>, None)))"

definition sm_nodes ::
  "session_event list \<Rightarrow> surface_manager \<Rightarrow> surface_manager \<times> (surface_error + int list)" where
  "sm_nodes events m =
     (case process_delta events m of
        (m', Some err) \<Rightarrow> (m', Inl err)
      | (m', None) \<Rightarrow> (m', Inr (nodes (sm_state m'))))"

definition sm_replace_generation ::
  "session_event list \<Rightarrow> surface_manager \<Rightarrow> surface_manager \<times> (surface_error + nat)" where
  "sm_replace_generation events m =
     (case process_delta events m of
        (m', Some err) \<Rightarrow> (m', Inl err)
      | (m', None) \<Rightarrow> (m', Inr (replace_generation (sm_state m'))))"

section \<open>What a plan can be\<close>

lemma surface_op_of_Inr:
  "surface_op_of e = Inr None \<Longrightarrow>
     \<not> is_surface_eligible_type (ev_type e) \<and> ev_surface_op e = None \<and> ev_sources e = None"
  "surface_op_of e = Inr (Some OpAppend) \<Longrightarrow> is_append_surface_event e"
  "surface_op_of e = Inr (Some (OpReplace s t)) \<Longrightarrow> is_replacement_surface_event e"
  by (auto simp: surface_op_of_def is_append_surface_event_def is_surface_event_def
      is_replacement_surface_event_def split: if_splits option.splits)

lemma assert_provenance_Inr:
  assumes "assert_provenance e shadowed = Inr u"
  shows "set shadowed \<subseteq> set (cited_seqs e)" "distinct (cited_seqs e)"
    "\<forall>s \<in> set (cited_seqs e). s < ev_seq e"
    "ev_sources e = Some (JArr []) \<Longrightarrow> ev_type e = ''assistant/message''"
  using assms
  by (auto simp: assert_provenance_def cited_seqs_def result_simps list_ex_iff filter_empty_conv
      split: option.splits jv.splits if_splits)

lemma replacement_range_Inr:
  assumes "replacement_range st s t = Inr (i, j, sh)"
  shows "i \<le> j" "j < length (nodes st)" "nodes st ! i = s" "nodes st ! j = t"
    "sh = slice_incl i j (nodes st)"
  using assms index_of_Some [of s "nodes st"] index_of_Some [of t "nodes st"]
  by (auto simp: replacement_range_def split: option.splits if_splits)

lemma plan_surface_event_cases:
  assumes "plan_surface_event st e expected events base = Inr plan"
  obtains (log_only) "ev_seq e = expected" "plan = None" "\<not> is_surface_event e"
  | (append) "ev_seq e = expected" "plan = Some (PlanAppend expected)" "is_append_surface_event e"
      "\<forall>s \<in> set (cited_seqs e). s < expected"
  | (replace) s t i j where "ev_seq e = expected"
      "plan = Some (PlanReplace \<lparr>rep_seq = expected, rep_start = s, rep_end = t,
                                 rep_shadowed = slice_incl i j (nodes st)\<rparr> i j)"
      "is_replacement_surface_event e" "i \<le> j" "j < length (nodes st)"
      "nodes st ! i = s" "nodes st ! j = t"
      "set (slice_incl i j (nodes st)) \<subseteq> set (cited_seqs e)"
      "\<forall>s \<in> set (cited_seqs e). s < expected"
proof -
  have seq: "ev_seq e = expected"
    using assms by (simp add: plan_surface_event_def split: if_splits)
  obtain op where op: "surface_op_of e = Inr op"
    using assms by (auto simp: plan_surface_event_def result_simps split: if_splits)
  show thesis
  proof (cases op)
    case None
    then show thesis
      using log_only seq op assms surface_op_of_Inr(1) [of e]
      by (auto simp: plan_surface_event_def is_surface_event_def)
  next
    case (Some o')
    show thesis
    proof (cases o')
      case OpAppend
      then show thesis
        using append seq op Some assms surface_op_of_Inr(2) [of e]
          assert_provenance_Inr(3) [of e "[]"]
        by (auto simp: plan_surface_event_def result_simps)
    next
      case (OpReplace s t)
      then obtain i j sh u where r: "replacement_range st s t = Inr (i, j, sh)"
        and p: "assert_provenance e sh = Inr u"
        and plan: "plan = Some (PlanReplace \<lparr>rep_seq = expected, rep_start = s, rep_end = t,
                                             rep_shadowed = sh\<rparr> i j)"
        using assms op Some seq by (auto simp: plan_surface_event_def result_simps)
      note rr = replacement_range_Inr [OF r] and pp = assert_provenance_Inr [OF p]
      have rep: "is_replacement_surface_event e"
        using surface_op_of_Inr(3) op Some OpReplace by simp
      show thesis
        using seq plan rep rr(1-4) pp(1,3) unfolding rr(5) by (intro replace) simp_all
    qed
  qed
qed

lemma append_is_surface: "is_append_surface_event e \<Longrightarrow> is_surface_event e"
  and replacement_is_surface: "is_replacement_surface_event e \<Longrightarrow> is_surface_event e"
  by (simp_all add: is_append_surface_event_def is_replacement_surface_event_def)

section \<open>Conservation of surface events\<close>

definition surface_seqs :: "int \<Rightarrow> session_event list \<Rightarrow> int set" where
  "surface_seqs base es =
     (\<lambda>i. base + int i) ` {i. i < length es \<and> is_surface_event (es ! i)}"

lemma surface_seqs_snoc:
  "surface_seqs base (es @ [e]) =
     (if is_surface_event e then insert (base + int (length es)) (surface_seqs base es)
      else surface_seqs base es)"
proof -
  have "{i. i < length (es @ [e]) \<and> is_surface_event ((es @ [e]) ! i)} =
      (if is_surface_event e then insert (length es) {i. i < length es \<and> is_surface_event (es ! i)}
       else {i. i < length es \<and> is_surface_event (es ! i)})"
    by (auto simp: nth_append less_Suc_eq)
  then show ?thesis by (simp add: surface_seqs_def del: length_append)
qed

definition all_shadowed :: "surface_replacement list \<Rightarrow> int list" where
  "all_shadowed reps = concat (map rep_shadowed reps)"

lemma all_shadowed_simps [simp]:
  "all_shadowed [] = []" "all_shadowed (reps @ [r]) = all_shadowed reps @ rep_shadowed r"
  by (simp_all add: all_shadowed_def)

text \<open>
  The accounting invariant: nodes and shadowed entries together are the surface events of the
  processed prefix, each exactly once.
\<close>

fun surface_inv :: "int \<Rightarrow> session_event list \<Rightarrow> surface_acc \<Rightarrow> bool" where
  "surface_inv base es (st, reps, expected) \<longleftrightarrow>
     expected = base + int (length es) \<and>
     distinct (nodes st @ all_shadowed reps) \<and>
     set (nodes st @ all_shadowed reps) = surface_seqs base es \<and>
     replace_generation st = length reps"

lemma surface_seqs_less: "n \<in> surface_seqs base es \<Longrightarrow> base \<le> n \<and> n < base + int (length es)"
  by (auto simp: surface_seqs_def)

lemma surface_inv_nodes:
  "surface_inv base es (st, reps, expected) \<Longrightarrow> n \<in> set (nodes st) \<Longrightarrow>
     base \<le> n \<and> n < base + int (length es)"
  using surface_seqs_less by fastforce

lemma surface_step_Inr:
  "surface_step events base (st, reps, expected) e = Inr acc \<longleftrightarrow>
     (\<exists>plan. plan_surface_event st e expected events base = Inr plan \<and>
        acc = (fst (apply_surface_plan st plan),
               reps @ (case snd (apply_surface_plan st plan) of None \<Rightarrow> [] | Some x \<Rightarrow> [x]),
               expected + 1))"
  by (auto simp: apply_surface_event_def result_simps) (metis prod.collapse)

declare surface_step.simps [simp del]

lemma surface_step_inv:
  assumes inv: "surface_inv base es (st, reps, expected)"
    and step: "surface_step events base (st, reps, expected) e = Inr acc"
  shows "surface_inv base (es @ [e]) acc"
proof -
  obtain plan where plan: "plan_surface_event st e expected events base = Inr plan"
    and acc: "acc = (fst (apply_surface_plan st plan),
                reps @ (case snd (apply_surface_plan st plan) of None \<Rightarrow> [] | Some x \<Rightarrow> [x]),
                expected + 1)"
    using step by (auto simp: surface_step_Inr)
  have exp: "expected = base + int (length es)" using inv by simp
  have fresh: "expected \<notin> set (nodes st @ all_shadowed reps)"
    using inv surface_seqs_less by fastforce
  from plan show ?thesis
  proof (cases rule: plan_surface_event_cases)
    case log_only
    then show ?thesis using inv acc by (auto simp: surface_seqs_snoc)
  next
    case append
    then show ?thesis
      using inv acc fresh append_is_surface exp by (auto simp: surface_seqs_snoc)
  next
    case (replace s t i j)
    let ?new = "splice_one i j expected (nodes st)" and ?sh = "slice_incl i j (nodes st)"
    have d: "distinct (nodes st)" "distinct (all_shadowed reps)"
      "set (nodes st) \<inter> set (all_shadowed reps) = {}" "expected \<notin> set (nodes st)"
      "expected \<notin> set (all_shadowed reps)"
      using inv fresh by auto
    have u: "set ?new \<union> set ?sh = insert expected (set (nodes st))"
      by (rule set_splice_one [OF replace(4)])
    have "distinct ?sh" using d(1) by (simp add: slice_incl_def)
    then have "distinct (?new @ all_shadowed reps @ ?sh)"
      using d u distinct_splice_one [OF d(1,4) replace(4)]
        splice_disjoint_slice [OF d(1,4) replace(4)] by auto
    moreover have "set (?new @ all_shadowed reps @ ?sh) = insert expected (surface_seqs base es)"
      using u inv by auto
    ultimately show ?thesis
      using replace acc inv replacement_is_surface exp by (simp add: surface_seqs_snoc)
  qed
qed

section \<open>Replay, one event at a time\<close>

lemma event_at_prefix:
  "s < base + int (length es) \<Longrightarrow> event_at (es @ xs) base s = event_at es base s"
  by (auto simp: event_at_def nth_append nat_less_iff)

lemma plan_surface_event_prefix:
  assumes "\<forall>n \<in> set (nodes st). n < base + int (length es)"
  shows "plan_surface_event st e expected (es @ xs) base = plan_surface_event st e expected es base"
proof -
  have "assert_tool_result_rewrite e sh (es @ xs) base = assert_tool_result_rewrite e sh es base"
    if "set sh \<subseteq> set (nodes st)" for sh
    using that assms
    by (auto simp: assert_tool_result_rewrite_def event_at_prefix split: list.splits)
  moreover have "set (slice_incl i j (nodes st)) \<subseteq> set (nodes st)" for i j
    by (rule set_slice_incl_subset)
  ultimately show ?thesis
    by (auto simp: plan_surface_event_def replacement_range_def
        split: option.splits surface_op.splits intro!: arg_cong [where f = "and_then _"])
qed

lemma surface_step_prefix:
  assumes "surface_inv base es (st, reps, expected)"
  shows "surface_step (es @ xs) base (st, reps, expected) e
         = surface_step es base (st, reps, expected) e"
  using plan_surface_event_prefix [of st base es e expected xs] surface_inv_nodes [OF assms]
  by (simp add: surface_step.simps apply_surface_event_def)

lemma fold_window_gen:
  "fold_result (surface_step (es @ xs) base) (create_fold_state, [], base) es
     = fold_window base es \<and>
   (\<forall>acc. fold_window base es = Inr acc \<longrightarrow> surface_inv base es acc)"
proof (induction es arbitrary: xs rule: rev_induct)
  case Nil
  show ?case by (auto simp: fold_window_def create_fold_state_def surface_seqs_def)
next
  case (snoc e es)
  let ?init = "(create_fold_state, [], base)"
  have same: "fold_result (surface_step (es @ ys) base) ?init es = fold_window base es" for ys
    using snoc.IH by blast
  have one: "fold_result (surface_step (es @ [e] @ ys) base) ?init (es @ [e]) =
      and_then (fold_window base es) (\<lambda>acc. surface_step es base acc e)" for ys
  proof (cases "fold_window base es")
    case (Inl err)
    then show ?thesis using same [of "[e] @ ys"] by (simp add: fold_result_append)
  next
    case (Inr acc)
    obtain st reps expected where acc: "acc = (st, reps, expected)" by (cases acc)
    have inv: "surface_inv base es (st, reps, expected)" using snoc.IH Inr acc by blast
    have "surface_step (es @ [e] @ ys) base acc e = surface_step es base acc e"
      using surface_step_prefix [OF inv, of "[e] @ ys" e] acc by simp
    then show ?thesis
      using same [of "[e] @ ys"] Inr
      by (cases "surface_step es base acc e") (simp_all add: fold_result_append)
  qed
  have eq: "fold_window base (es @ [e]) =
      and_then (fold_window base es) (\<lambda>acc. surface_step es base acc e)"
    using one [of "[]"] by (simp add: fold_window_def)
  moreover have "surface_inv base (es @ [e]) acc" if f: "fold_window base (es @ [e]) = Inr acc" for acc
  proof -
    obtain acc0 where a0: "fold_window base es = Inr acc0" "surface_step es base acc0 e = Inr acc"
      using f unfolding eq and_then_Inr_iff by blast
    obtain st reps expected where "acc0 = (st, reps, expected)" by (cases acc0)
    then show ?thesis using surface_step_inv a0 snoc.IH by blast
  qed
  ultimately show ?case using one [of xs] by simp
qed

lemma fold_window_inv: "fold_window base es = Inr acc \<Longrightarrow> surface_inv base es acc"
  using fold_window_gen by blast

text \<open>The replay of an extended log: only the new event is planned, against the old log.\<close>

lemma fold_window_snoc:
  "fold_window base (es @ [e]) =
     and_then (fold_window base es) (\<lambda>acc. surface_step es base acc e)"
proof -
  have "fold_window base (es @ [e]) =
      and_then (fold_result (surface_step (es @ [e]) base) (create_fold_state, [], base) es)
        (\<lambda>acc. surface_step (es @ [e]) base acc e)"
    by (cases "fold_result (surface_step (es @ [e]) base) (create_fold_state, [], base) es";
        cases "surface_step (es @ [e]) base
          (projr (fold_result (surface_step (es @ [e]) base) (create_fold_state, [], base) es)) e")
      (simp_all add: fold_window_def fold_result_append)
  also have "\<dots> = and_then (fold_window base es) (\<lambda>acc. surface_step (es @ [e]) base acc e)"
    using fold_window_gen [of es "[e]" base] by simp
  also have "\<dots> = and_then (fold_window base es) (\<lambda>acc. surface_step es base acc e)"
  proof (cases "fold_window base es")
    case (Inr acc)
    obtain st reps expected where acc: "acc = (st, reps, expected)" by (cases acc)
    show ?thesis
      using surface_step_prefix [of base es st reps expected "[e]" e]
        fold_window_inv [OF Inr] acc Inr by simp
  qed simp
  finally show ?thesis .
qed

lemma fold_window_Nil [simp]: "fold_window base [] = Inr (create_fold_state, [], base)"
  by (simp add: fold_window_def)

lemma fold_window_prefix:
  "fold_window base (es @ xs) = Inr acc \<Longrightarrow> \<exists>acc'. fold_window base es = Inr acc'"
  by (induction xs arbitrary: acc rule: rev_induct)
    (auto simp: fold_window_snoc result_simps simp flip: append_assoc)

section \<open>The manager agrees with the replay\<close>

definition manager_at :: "nat \<Rightarrow> surface_manager \<Rightarrow> session_event list \<Rightarrow> bool" where
  "manager_at k m es \<longleftrightarrow>
     k \<le> length es \<and> sm_last m + 1 = sm_base m + int k \<and>
     (\<exists>reps. fold_window (sm_base m) (take k es) = Inr (sm_state m, reps, sm_base m + int k)) \<and>
     (\<forall>pe ps plan. sm_pending m = Some (pe, ps, plan) \<longrightarrow>
        ps = sm_base m + int k \<and>
        plan_surface_event (sm_state m) pe ps (take k es) (sm_base m) = Inr plan)"

text \<open>The manager has folded some prefix of the log, and its pending plan is current.\<close>

definition manager_ok :: "surface_manager \<Rightarrow> session_event list \<Rightarrow> bool" where
  "manager_ok m es \<longleftrightarrow> (\<exists>k. manager_at k m es)"

lemma manager_ok_new: "manager_ok (new_surface_manager base) []"
  by (auto simp: manager_ok_def manager_at_def new_surface_manager_def)

lemma manager_at_append: "manager_at k m es \<Longrightarrow> manager_at k m (es @ xs)"
  by (auto simp: manager_at_def)

lemma manager_ok_append: "manager_ok m es \<Longrightarrow> manager_ok m (es @ xs)"
  using manager_at_append unfolding manager_ok_def by blast

lemma manager_at_nodes:
  assumes "manager_at k m es"
  shows "\<forall>n \<in> set (nodes (sm_state m)). n < sm_base m + int (length (take k es))"
proof -
  obtain reps where r: "fold_window (sm_base m) (take k es) = Inr (sm_state m, reps, sm_base m + int k)"
    using assms by (auto simp: manager_at_def)
  show ?thesis using surface_inv_nodes [OF fold_window_inv [OF r]] by blast
qed

lemma delta_plan_eq:
  assumes "manager_at k m es" and "k < length es"
  shows "delta_plan es m (es ! k) =
     plan_surface_event (sm_state m) (es ! k) (sm_base m + int k) (take k es) (sm_base m)"
proof -
  have split: "es = take k es @ drop k es" by simp
  have plan: "plan_surface_event (sm_state m) e x es (sm_base m)
      = plan_surface_event (sm_state m) e x (take k es) (sm_base m)" for e x
    using plan_surface_event_prefix [OF manager_at_nodes [OF assms(1)], of e x "drop k es"] by simp
  have seq: "sm_last m + 1 = sm_base m + int k" using assms(1) by (simp add: manager_at_def)
  show ?thesis
  proof (cases "sm_pending m")
    case None
    then show ?thesis by (simp add: delta_plan_def plan seq Let_def)
  next
    case (Some p)
    obtain pe ps pl where p: "p = (pe, ps, pl)" by (cases p)
    have "plan_surface_event (sm_state m) pe ps (take k es) (sm_base m) = Inr pl"
      using assms(1) Some unfolding manager_at_def p by blast
    then show ?thesis using Some p by (auto simp: delta_plan_def plan seq Let_def)
  qed
qed

lemma fold_window_take_Suc:
  "k < length es \<Longrightarrow> fold_window base (take (Suc k) es) =
     and_then (fold_window base (take k es)) (\<lambda>acc. surface_step (take k es) base acc (es ! k))"
  by (simp add: take_Suc_conv_app_nth fold_window_snoc)

lemma sm_base_delta_commit [simp]: "sm_base (delta_commit m plan) = sm_base m"
  by (simp add: delta_commit_def Let_def)

lemma delta_commit_at:
  assumes at: "manager_at k m es" and k: "k < length es"
    and plan: "delta_plan es m (es ! k) = Inr plan"
  shows "manager_at (Suc k) (delta_commit m plan) es"
proof -
  obtain reps where r: "fold_window (sm_base m) (take k es) = Inr (sm_state m, reps, sm_base m + int k)"
    using at by (auto simp: manager_at_def)
  have "fold_window (sm_base m) (take (Suc k) es) =
      surface_step (take k es) (sm_base m) (sm_state m, reps, sm_base m + int k) (es ! k)"
    using fold_window_take_Suc [OF k] r by simp
  also have "\<dots> = Inr (fst (apply_surface_plan (sm_state m) plan),
      reps @ (case snd (apply_surface_plan (sm_state m) plan) of None \<Rightarrow> [] | Some x \<Rightarrow> [x]),
      sm_base m + int (Suc k))"
    using delta_plan_eq [OF at k, symmetric] plan by (simp add: surface_step_Inr)
  finally show ?thesis
    using at k by (auto simp: manager_at_def delta_commit_def Let_def split: option.splits)
qed

lemma process_events_replay:
  assumes "manager_at k m es" and "process_events es m (drop k es) = (m', r)"
  shows "manager_ok m' es \<and> sm_base m' = sm_base m \<and>
    (case r of
       None \<Rightarrow> manager_at (length es) m' es
     | Some err \<Rightarrow> fold_window (sm_base m) es = Inl err)"
  using assms
proof (induction "length es - k" arbitrary: k m)
  case 0
  then have "k = length es" by (simp add: manager_at_def)
  then show ?case using 0 by (auto simp: manager_ok_def)
next
  case (Suc n)
  then have k: "k < length es" by simp
  then have drop: "drop k es = es ! k # drop (Suc k) es" by (simp add: Cons_nth_drop_Suc)
  show ?case
  proof (cases "delta_plan es m (es ! k)")
    case (Inl err)
    obtain reps where rr: "fold_window (sm_base m) (take k es) = Inr (sm_state m, reps, sm_base m + int k)"
      using Suc.prems(1) by (auto simp: manager_at_def)
    have "fold_window (sm_base m) (take (Suc k) es) = Inl err"
      using fold_window_take_Suc [OF k, of "sm_base m"] rr
        delta_plan_eq [OF Suc.prems(1) k, symmetric] Inl
      by (simp add: surface_step.simps apply_surface_event_def)
    then have "fold_window (sm_base m) (take (Suc k) es @ xs) = Inl err" for xs
      by (induction xs rule: rev_induct) (simp_all add: fold_window_snoc flip: append_assoc)
    then have "fold_window (sm_base m) es = Inl err"
      by (metis append_take_drop_id)
    then show ?thesis using Suc.prems Inl drop by (auto simp: manager_ok_def)
  next
    case (Inr plan)
    have "manager_at (Suc k) (delta_commit m plan) es"
      by (rule delta_commit_at [OF Suc.prems(1) k Inr])
    then show ?thesis
      using Suc.hyps(1) [of "Suc k" "delta_commit m plan", unfolded sm_base_delta_commit]
        Suc.hyps(2) Suc.prems(2) drop Inr k
      by simp
  qed
qed

lemma process_delta_replay:
  assumes "manager_ok m es" and "process_delta es m = (m', r)"
  shows "manager_ok m' es \<and> sm_base m' = sm_base m \<and>
    (case r of
       None \<Rightarrow> manager_at (length es) m' es
     | Some err \<Rightarrow> fold_window (sm_base m) es = Inl err)"
proof -
  obtain k where k: "manager_at k m es" using assms(1) by (auto simp: manager_ok_def)
  then have "nat (sm_last m + 1 - sm_base m) = k" by (simp add: manager_at_def)
  then show ?thesis using process_events_replay [OF k] assms(2) by (simp add: process_delta_def)
qed

lemma process_delta_state:
  assumes "manager_ok m es" and "fold_window (sm_base m) es = Inr (st, reps, x)"
  obtains m' where "process_delta es m = (m', None)" "manager_at (length es) m' es"
    "sm_state m' = st" "sm_base m' = sm_base m"
proof -
  obtain m' r where p: "process_delta es m = (m', r)" by fastforce
  note pr = process_delta_replay [OF assms(1) p]
  have "r = None" using pr assms(2) by (cases r) auto
  then have "manager_at (length es) m' es" "sm_base m' = sm_base m" using pr by auto
  moreover from this have "sm_state m' = st" using assms(2) by (auto simp: manager_at_def)
  ultimately show thesis using that p \<open>r = None\<close> by blast
qed

text \<open>A candidate passes exactly when the extended log replays, and fails with the same error.\<close>

lemma validate_next_replay:
  assumes ok: "manager_ok m es" and fold: "fold_window (sm_base m) es = Inr acc"
    and v: "validate_next es e m = (m', r)"
  shows "manager_ok m' es \<and> sm_base m' = sm_base m \<and>
    (case r of
       None \<Rightarrow> returns (fold_window (sm_base m) (es @ [e])) \<and> manager_ok m' (es @ [e])
     | Some err \<Rightarrow> fold_window (sm_base m) (es @ [e]) = Inl err)"
proof -
  obtain st reps x where acc: "acc = (st, reps, x)" by (cases acc)
  obtain m1 where m1: "process_delta es m = (m1, None)" "manager_at (length es) m1 es"
    "sm_state m1 = st" "sm_base m1 = sm_base m"
    using process_delta_state [OF ok] fold acc by blast
  have x: "x = sm_base m + int (length es)"
    using fold_window_inv [OF fold] acc by simp
  have snoc: "fold_window (sm_base m) (es @ [e]) = surface_step es (sm_base m) (st, reps, x) e"
    using fold acc by (simp add: fold_window_snoc)
  show ?thesis
  proof (cases "plan_surface_event st e x es (sm_base m)")
    case (Inl err)
    then have "m' = m1" "r = Some err"
      using v m1 x by (auto simp: validate_next_def Let_def)
    then show ?thesis
      using m1 Inl snoc by (auto simp: manager_ok_def surface_step.simps apply_surface_event_def)
  next
    case (Inr plan)
    then have m': "m' = m1\<lparr>sm_pending := Some (e, x, plan)\<rparr>" "r = None"
      using v m1 x by (auto simp: validate_next_def Let_def)
    then have "manager_at (length es) m' es"
      using m1 Inr x by (simp add: manager_at_def)
    then show ?thesis
      using m' Inr snoc m1(4) manager_ok_append [of m' es "[e]"]
      by (auto simp: manager_ok_def surface_step.simps apply_surface_event_def case_prod_unfold)
  qed
qed

section \<open>Properties\<close>

lemma fold_surface_Inr:
  "fold_surface es = Inr (ns, reps) \<longleftrightarrow>
     (\<exists>st x. fold_window 0 es = Inr (st, reps, x) \<and> ns = nodes st)"
  by (auto simp: fold_surface_def result_simps)

text \<open>C32. Every surface event of a replayed log is accounted for exactly once: it is a node of
  the surface or it was shadowed by one replacement, and nothing else is on the surface.\<close>

theorem surface_conservation:
  assumes "fold_surface es = Inr (ns, reps)"
  shows "distinct (ns @ all_shadowed reps) \<and>
    set (ns @ all_shadowed reps) = {int i | i. i < length es \<and> is_surface_event (es ! i)}"
proof -
  obtain st x where f: "fold_window 0 es = Inr (st, reps, x)" "ns = nodes st"
    using assms by (auto simp: fold_surface_Inr)
  have inv: "surface_inv 0 es (st, reps, x)" by (rule fold_window_inv [OF f(1)])
  have "distinct (ns @ all_shadowed reps)" using inv f(2) by simp
  moreover have
    "set (ns @ all_shadowed reps) = {int i | i. i < length es \<and> is_surface_event (es ! i)}"
    using inv f(2) by (auto simp: surface_seqs_def)
  ultimately show ?thesis ..
qed

text \<open>
  A step that succeeds only appends to the list of replacements; the last one is the new event's
  own.
\<close>

lemma fold_window_replacements:
  assumes "fold_window base es = Inr (st, reps, x)" and "r \<in> set reps"
  shows "\<exists>i < length es. rep_seq r = base + int i \<and> is_replacement_surface_event (es ! i) \<and>
    set (rep_shadowed r) \<subseteq> set (cited_seqs (es ! i)) \<and>
    (\<forall>s \<in> set (cited_seqs (es ! i)). s < rep_seq r)"
  using assms
proof (induction es arbitrary: st reps x rule: rev_induct)
  case Nil
  then show ?case by simp
next
  case (snoc e es)
  obtain st0 reps0 x0 where f: "fold_window base es = Inr (st0, reps0, x0)"
    and s: "surface_step es base (st0, reps0, x0) e = Inr (st, reps, x)"
    using snoc.prems(1) by (auto simp: fold_window_snoc result_simps)
  have x0: "x0 = base + int (length es)" using fold_window_inv [OF f] by simp
  obtain plan where plan: "plan_surface_event st0 e x0 es base = Inr plan"
    and reps: "reps = reps0 @ (case snd (apply_surface_plan st0 plan) of None \<Rightarrow> [] | Some y \<Rightarrow> [y])"
    using s by (auto simp: surface_step_Inr)
  show ?case
  proof (cases "r \<in> set reps0")
    case True
    then show ?thesis using snoc.IH [OF f True] by (auto simp: nth_append)
  next
    case False
    then have r: "snd (apply_surface_plan st0 plan) = Some r"
      using reps snoc.prems(2) by (auto split: option.splits)
    from plan show ?thesis
    proof (cases rule: plan_surface_event_cases)
      case (replace s t i j)
      then show ?thesis using r x0 by (auto intro!: exI [of _ "length es"])
    qed (use r in auto)
  qed
qed

text \<open>A replacement cites, as earlier events, every surface entry it shadows.\<close>

theorem replacement_cites_shadowed:
  assumes "fold_surface es = Inr (ns, reps)" and "r \<in> set reps"
  shows "\<exists>i < length es. rep_seq r = int i \<and> is_replacement_surface_event (es ! i) \<and>
    set (rep_shadowed r) \<subseteq> set (cited_seqs (es ! i)) \<and>
    (\<forall>s \<in> set (rep_shadowed r). s < int i)"
proof -
  obtain st x where "fold_window 0 es = Inr (st, reps, x)"
    using assms(1) by (auto simp: fold_surface_Inr)
  then show ?thesis using fold_window_replacements assms(2) by fastforce
qed

lemma fold_window_append_only:
  assumes "fold_window base es = Inr (st, [], x)"
  shows "nodes st = map (\<lambda>i. base + int i) (filter (\<lambda>i. is_surface_event (es ! i)) [0..<length es])"
  using assms
proof (induction es arbitrary: st x rule: rev_induct)
  case Nil
  then show ?case by (auto simp: create_fold_state_def)
next
  case (snoc e es)
  obtain st0 x0 where f: "fold_window base es = Inr (st0, [], x0)"
    and s: "surface_step es base (st0, [], x0) e = Inr (st, [], x)"
    using snoc.prems by (auto simp: fold_window_snoc result_simps surface_step_Inr)
  have x0: "x0 = base + int (length es)" using fold_window_inv [OF f] by simp
  obtain plan where plan: "plan_surface_event st0 e x0 es base = Inr plan"
    and st: "st = fst (apply_surface_plan st0 plan)"
    and none: "snd (apply_surface_plan st0 plan) = None"
    using s by (auto simp: surface_step_Inr split: option.splits)
  have old: "filter (\<lambda>i. is_surface_event ((es @ [e]) ! i)) [0..<length es]
      = filter (\<lambda>i. is_surface_event (es ! i)) [0..<length es]"
    by (intro filter_cong) (auto simp: nth_append)
  from plan show ?case
  proof (cases rule: plan_surface_event_cases)
    case log_only
    then show ?thesis using snoc.IH [OF f] st old by simp
  next
    case append
    then show ?thesis using snoc.IH [OF f] st old append_is_surface x0 by simp
  qed (use none in auto)
qed

text \<open>Without replacements the surface is the log's surface events in log order.\<close>

theorem append_only_surface:
  assumes "fold_surface es = Inr (ns, [])"
  shows "ns = map int (filter (\<lambda>i. is_surface_event (es ! i)) [0..<length es])"
proof -
  obtain st x where "fold_window 0 es = Inr (st, [], x)" "ns = nodes st"
    using assms by (auto simp: fold_surface_Inr)
  then show ?thesis using fold_window_append_only [of 0 es st x] by simp
qed

section \<open>Instances\<close>

text \<open>Two prompts compacted into one node.\<close>

definition example_compaction :: "session_event list" where
  "example_compaction =
     [example_event (UserMessage (example_prompt ''m0'')) 0 (Some append_op) None,
      example_event (TurnStart 1) 1 None None,
      example_event (UserMessage (example_prompt ''m1'')) 2 (Some append_op) None,
      example_event (UserMessage (example_prompt ''m2'')) 3 (Some (replace_op 0 2)) (Some (JArr [jint 0, jint 2]))]"

lemma example_compaction_fold: "fold_surface example_compaction =
    Inr ([3], [\<lparr>rep_seq = 3, rep_start = 0, rep_end = 2, rep_shadowed = [0, 2]\<rparr>])"
  by code_simp

theorem surface_conservation_witness:
  "distinct [3, 0, 2 :: int] \<and> {3, 0, 2} = {int i | i. i < length example_compaction \<and> is_surface_event (example_compaction ! i)}"
  using surface_conservation [OF example_compaction_fold] by (simp add: all_shadowed_def)

theorem replacement_cites_shadowed_witness:
  "\<exists>i < length example_compaction. 3 = int i \<and> {0, 2} \<subseteq> set (cited_seqs (example_compaction ! i))"
  using replacement_cites_shadowed [OF example_compaction_fold, of "\<lparr>rep_seq = 3, rep_start = 0, rep_end = 2, rep_shadowed = [0, 2]\<rparr>"]
  by auto

lemma example_append_only_fold: "fold_surface (take 3 example_compaction) = Inr ([0, 2], [])"
  by code_simp

theorem append_only_surface_witness:
  "[0, 2] = map int (filter (\<lambda>i. is_surface_event (take 3 example_compaction ! i)) [0..<length (take 3 example_compaction)])"
  using append_only_surface [OF example_append_only_fold] .

end
