(* ===== verification/Session_Trace.thy ===== *)
theory Session_Trace
  imports Session_Surface
begin

text \<open>
  The relational log checks of \<^verbatim>\<open>packages/core/session/src/invariant.ts\<close>: the numbering
  and bracketing of turns and steps, and the pairing of tool results with tool calls. An event is
  validated against the trace before it commits and the trace advances afterwards; replaying a
  log folds the two. The lemmas give the shape of every accepted log.
\<close>

datatype trace_error =
    SeqNotIncreasing
  | TurnAlreadyOpen
  | TurnNumberWrong
  | TurnEndMismatch
  | TurnEndStepOpen
  | StepWrongTurn
  | StepAlreadyOpen
  | StepNumberWrong
  | NotInOpenStep
  | RewriteOutsideTurn
  | ResultWithoutCall
  | OutsideTurn

record trace_scalars =
  tr_last_seq :: int
  tr_open_turn :: "int option"
  tr_open_step :: "int option"
  tr_next_turn :: int
  tr_next_step :: int

record session_trace = trace_scalars +
  tr_pending :: "string set"

datatype pending_change = NoChange | AddCall string | DeleteCall string | ClearCalls

definition TOOL_NOT_STARTED :: string where
  "TOOL_NOT_STARTED = ''TOOL_NOT_STARTED''"

definition require_open_step :: "session_trace \<Rightarrow> int \<Rightarrow> int \<Rightarrow> trace_error + unit" where
  "require_open_step tr turn step =
     (if tr_open_turn tr \<noteq> Some turn \<or> tr_open_step tr \<noteq> Some step then Inl NotInOpenStep
      else Inr ())"

text \<open>\<open>message.source.callId\<close> and \<open>message.content[0].isError === true\<close> of a tool result.\<close>

definition source_call_id :: "message \<Rightarrow> string option" where
  "source_call_id m = (case msg_source m of ToolSource c \<Rightarrow> Some c | _ \<Rightarrow> None)"

definition first_block_is_error :: "message \<Rightarrow> bool" where
  "first_block_is_error m =
     (case msg_content m of ToolResultBlock _ _ (Some b) # _ \<Rightarrow> b | _ \<Rightarrow> False)"

definition trace_scalars_of :: "session_trace \<Rightarrow> trace_scalars" where
  "trace_scalars_of tr = trace_scalars.truncate tr"

definition step_checked ::
  "session_trace \<Rightarrow> trace_scalars \<Rightarrow> int \<Rightarrow> int \<Rightarrow> pending_change
     \<Rightarrow> trace_error + (trace_scalars \<times> pending_change)" where
  "step_checked tr sc turn step p = and_then (require_open_step tr turn step) (\<lambda>_. Inr (sc, p))"

text \<open>
  \<open>validateEvent\<close>: the scalars and pending-call change of the accepted event. \<open>sc\<close> is the
  trace with the event's sequence number.
\<close>

definition validate_event ::
  "session_trace \<Rightarrow> session_event \<Rightarrow> trace_error + (trace_scalars \<times> pending_change)" where
  "validate_event tr e =
     (if ev_seq e \<le> tr_last_seq tr then Inl SeqNotIncreasing
      else let sc = (trace_scalars_of tr)\<lparr>tr_last_seq := ev_seq e\<rparr> in
      case ev_data e of
        TurnStart turn \<Rightarrow>
          if tr_open_turn tr \<noteq> None then Inl TurnAlreadyOpen
          else if turn \<noteq> tr_next_turn tr then Inl TurnNumberWrong
          else Inr (sc\<lparr>tr_open_turn := Some turn, tr_next_step := 1\<rparr>, NoChange)
      | TurnEnd turn reason \<Rightarrow>
          if tr_open_turn tr \<noteq> Some turn then Inl TurnEndMismatch
          else if tr_open_step tr \<noteq> None then Inl TurnEndStepOpen
          else Inr (sc\<lparr>tr_open_turn := None, tr_next_turn := tr_next_turn tr + 1\<rparr>, NoChange)
      | StepStart turn step \<Rightarrow>
          if tr_open_turn tr \<noteq> Some turn then Inl StepWrongTurn
          else if tr_open_step tr \<noteq> None then Inl StepAlreadyOpen
          else if step \<noteq> tr_next_step tr then Inl StepNumberWrong
          else Inr (sc\<lparr>tr_open_step := Some step\<rparr>, NoChange)
      | StepEnd turn step \<Rightarrow>
          step_checked tr (sc\<lparr>tr_open_step := None, tr_next_step := tr_next_step tr + 1\<rparr>)
            turn step ClearCalls
      | AssistantChunk turn step chunk \<Rightarrow> step_checked tr sc turn step NoChange
      | AssistantMessage turn step m u i \<Rightarrow> step_checked tr sc turn step NoChange
      | ToolCall turn step call_id n a \<Rightarrow> step_checked tr sc turn step (AddCall call_id)
      | ToolResult turn step m err meta \<Rightarrow>
          if ev_surface_op e \<noteq> Some append_op then
            (if tr_open_turn tr = None then Inl RewriteOutsideTurn else Inr (sc, NoChange))
          else and_then (require_open_step tr turn step) (\<lambda>_.
            let synthetic = first_block_is_error m \<and> map_option snd err = Some TOOL_NOT_STARTED in
            case source_call_id m of
              Some c \<Rightarrow>
                if c \<notin> tr_pending tr \<and> \<not> synthetic then Inl ResultWithoutCall
                else Inr (sc, DeleteCall c)
            | None \<Rightarrow> if \<not> synthetic then Inl ResultWithoutCall else Inr (sc, NoChange))
      | TodoWrite ts \<Rightarrow> if tr_open_turn tr = None then Inl OutsideTurn else Inr (sc, NoChange)
      | RequestHeader h r \<Rightarrow> if tr_open_turn tr = None then Inl OutsideTurn else Inr (sc, NoChange)
      | RequestContext c \<Rightarrow> if tr_open_turn tr = None then Inl OutsideTurn else Inr (sc, NoChange)
      | _ \<Rightarrow> Inr (sc, NoChange))"

fun apply_pending :: "pending_change \<Rightarrow> string set \<Rightarrow> string set" where
  "apply_pending NoChange s = s"
| "apply_pending (AddCall c) s = insert c s"
| "apply_pending (DeleteCall c) s = s - {c}"
| "apply_pending ClearCalls s = {}"

fun apply_transition ::
  "session_trace \<Rightarrow> trace_scalars \<times> pending_change \<Rightarrow> session_trace" where
  "apply_transition tr (sc, p) =
     trace_scalars.extend sc (session_trace.fields (apply_pending p (tr_pending tr)))"

definition fresh_trace :: session_trace where
  "fresh_trace =
     \<lparr>tr_last_seq = -1, tr_open_turn = None, tr_open_step = None, tr_next_turn = 1,
      tr_next_step = 1, tr_pending = {}\<rparr>"

definition trace_step :: "session_trace \<Rightarrow> session_event \<Rightarrow> trace_error + session_trace" where
  "trace_step tr e = and_then (validate_event tr e) (\<lambda>t. Inr (apply_transition tr t))"

definition seed_session :: "session_event list \<Rightarrow> trace_error + session_trace" where
  "seed_session events = fold_result trace_step fresh_trace events"

section \<open>Step lemmas\<close>

lemma trace_fields [simp]:
  "tr_last_seq (apply_transition tr (sc, p)) = tr_last_seq sc"
  "tr_open_turn (apply_transition tr (sc, p)) = tr_open_turn sc"
  "tr_open_step (apply_transition tr (sc, p)) = tr_open_step sc"
  "tr_next_turn (apply_transition tr (sc, p)) = tr_next_turn sc"
  "tr_next_step (apply_transition tr (sc, p)) = tr_next_step sc"
  "tr_pending (apply_transition tr (sc, p)) = apply_pending p (tr_pending tr)"
  by (simp_all add: trace_scalars.defs session_trace.defs)

lemma trace_scalars_of_fields [simp]:
  "tr_last_seq (trace_scalars_of tr) = tr_last_seq tr"
  "tr_open_turn (trace_scalars_of tr) = tr_open_turn tr"
  "tr_open_step (trace_scalars_of tr) = tr_open_step tr"
  "tr_next_turn (trace_scalars_of tr) = tr_next_turn tr"
  "tr_next_step (trace_scalars_of tr) = tr_next_step tr"
  by (simp_all add: trace_scalars_of_def trace_scalars.defs)

declare apply_transition.simps [simp del]

lemma step_checked_Inr [simp]:
  "step_checked tr sc turn step p = Inr r \<longleftrightarrow>
     tr_open_turn tr = Some turn \<and> tr_open_step tr = Some step \<and> r = (sc, p)"
  by (auto simp: step_checked_def require_open_step_def)

lemma require_open_step_Inr [simp]:
  "require_open_step tr turn step = Inr u \<longleftrightarrow>
     tr_open_turn tr = Some turn \<and> tr_open_step tr = Some step"
  by (auto simp: require_open_step_def)

lemma trace_step_Inr:
  "trace_step tr e = Inr tr' \<longleftrightarrow> (\<exists>t. validate_event tr e = Inr t \<and> tr' = apply_transition tr t)"
  by (auto simp: trace_step_def result_simps)

lemmas validate_event_splits = if_splits event_data.splits option.splits

section \<open>Accepted logs\<close>

text \<open>A step is open only inside a turn, and the open turn is the next unfinished one.\<close>

definition trace_inv :: "session_trace \<Rightarrow> bool" where
  "trace_inv tr \<longleftrightarrow>
     (tr_open_turn tr = None \<longrightarrow> tr_open_step tr = None) \<and>
     (\<forall>t. tr_open_turn tr = Some t \<longrightarrow> t = tr_next_turn tr) \<and>
     (\<forall>s. tr_open_step tr = Some s \<longrightarrow> s = tr_next_step tr) \<and>
     (tr_open_step tr = None \<longrightarrow> tr_pending tr = {}) \<and>
     1 \<le> tr_next_turn tr"

lemma trace_inv_fresh: "trace_inv fresh_trace"
  by (simp add: trace_inv_def fresh_trace_def)

lemma trace_inv_step:
  assumes "trace_inv tr" and "trace_step tr e = Inr tr'"
  shows "trace_inv tr'"
  using assms
  by (auto simp: trace_step_Inr validate_event_def Let_def trace_inv_def result_simps
      split: validate_event_splits)

lemma seed_session_inv: "seed_session es = Inr tr \<Longrightarrow> trace_inv tr"
  using fold_result_invariant [of trace_step fresh_trace es tr trace_inv] trace_inv_fresh
    trace_inv_step unfolding seed_session_def by blast

lemma seed_session_snoc:
  "seed_session (es @ [e]) = and_then (seed_session es) (\<lambda>tr. trace_step tr e)"
  by (cases "seed_session es"; cases "trace_step (projr (seed_session es)) e")
    (simp_all add: seed_session_def fold_result_append)

lemma seed_session_append:
  "seed_session (es @ fs) = and_then (seed_session es) (\<lambda>tr. fold_result trace_step tr fs)"
  by (simp add: seed_session_def fold_result_append)

fun turn_starts :: "session_event list \<Rightarrow> int list" where
  "turn_starts [] = []"
| "turn_starts (e # es) = (case ev_data e of TurnStart t \<Rightarrow> t # turn_starts es | _ \<Rightarrow> turn_starts es)"

fun turn_ends :: "session_event list \<Rightarrow> int list" where
  "turn_ends [] = []"
| "turn_ends (e # es) = (case ev_data e of TurnEnd t _ \<Rightarrow> t # turn_ends es | _ \<Rightarrow> turn_ends es)"

lemma turn_starts_append [simp]: "turn_starts (es @ fs) = turn_starts es @ turn_starts fs"
  by (induction es) (auto split: event_data.splits)

lemma turn_ends_append [simp]: "turn_ends (es @ fs) = turn_ends es @ turn_ends fs"
  by (induction es) (auto split: event_data.splits)

lemma upto_snoc: "1 \<le> n \<Longrightarrow> [1..n] = [1..n - 1] @ [n]" for n :: int
  using upto_rec2 [of 1 n] by simp

text \<open>In every accepted log the turns are opened as 1, 2, 3, \<dots> and closed in the same order,
  at most one being open.\<close>

theorem accepted_turns_numbered:
  assumes "seed_session es = Inr tr"
  shows "turn_ends es = [1..tr_next_turn tr - 1] \<and>
    turn_starts es =
      (case tr_open_turn tr of None \<Rightarrow> turn_ends es | Some t \<Rightarrow> turn_ends es @ [t]) \<and>
    (\<forall>t. tr_open_turn tr = Some t \<longrightarrow> t = tr_next_turn tr)"
  using assms
proof (induction es arbitrary: tr rule: rev_induct)
  case Nil
  then show ?case by (auto simp: seed_session_def fresh_trace_def)
next
  case (snoc e es)
  obtain tr0 where s: "seed_session es = Inr tr0" "trace_step tr0 e = Inr tr"
    using snoc.prems by (auto simp: seed_session_snoc result_simps)
  have inv: "trace_inv tr0" by (rule seed_session_inv [OF s(1)])
  note IH = snoc.IH [OF s(1)]
  have up: "[1..tr_next_turn tr0] = [1..tr_next_turn tr0 - 1] @ [tr_next_turn tr0]"
    using inv upto_snoc by (simp add: trace_inv_def)
  show ?case
    using s(2) IH up
    by (auto simp: trace_step_Inr validate_event_def Let_def result_simps
        split: validate_event_splits)
qed

section \<open>Instances\<close>

text \<open>A finished turn and one cut off between its two tool calls.\<close>

definition example_turns :: "session_event list" where
  "example_turns =
     [example_event (TurnStart 1) 0 None None, example_event (TurnEnd 1 Completed) 1 None None,
      example_event (TurnStart 2) 2 None None, example_event (StepStart 2 1) 3 None None,
      example_event (AssistantMessage 2 1
        (example_reply ''a0'' [ToolCallBlock ''c1'' ''read'' ''{}'', ToolCallBlock ''c2'' ''write'' ''{}'']) None False)
        4 (Some append_op) None,
      example_event (ToolCall 2 1 ''c1'' ''read'' ''{}'') 5 None None]"


definition example_turns_trace :: session_trace where
  "example_turns_trace = \<lparr>tr_last_seq = 5, tr_open_turn = Some 2, tr_open_step = Some 1, tr_next_turn = 2,
      tr_next_step = 1, tr_pending = {''c1''}\<rparr>"

lemma example_turns_accepted: "seed_session example_turns = Inr example_turns_trace"
  by code_simp

theorem accepted_turns_numbered_witness:
  "turn_ends example_turns = [1] \<and> turn_starts example_turns = [1, 2]"
  using accepted_turns_numbered [OF example_turns_accepted] by (simp add: example_turns_trace_def)

end
