(* ===== verification/Session_Repair.thy ===== *)
theory Session_Repair
  imports Session_Trace
begin

text \<open>
  Crash recovery of an interrupted log, \<^verbatim>\<open>packages/core/session/src/repair.ts\<close>:
  \<open>interrupted_turn_closers\<close> scans a log and returns the synthetic events that close its
  open tail turn. The lemmas show that the repaired log is accepted by the relational checks and
  by the surface replay, and that it needs no further repair.
\<close>

definition TOOL_OUTCOME_UNKNOWN :: string where
  "TOOL_OUTCOME_UNKNOWN = ''TOOL_OUTCOME_UNKNOWN''"

definition TEXT_OUTCOME_UNKNOWN :: string where
  "TEXT_OUTCOME_UNKNOWN =
     ''The tool call was interrupted after it was recorded, but no result was durably recorded. '' @
     ''Its outcome is unknown. Decide whether to retry from the tool semantics: retry only if the '' @
     ''operation is read-only or idempotent; if it may have side effects, first verify external '' @
     ''state or ask the user. Do not retry blindly.''"

definition TEXT_NOT_STARTED :: string where
  "TEXT_NOT_STARTED =
     ''The tool call was interrupted before the Harness recorded it as started. '' @
     ''Retry it if it is still needed.''"

section \<open>The scan\<close>

text \<open>A pending call: its step and, once recorded, the sequence number of its \<open>tool/call\<close>.\<close>

type_synonym pending_calls = "(string \<times> (int \<times> int option)) list"

record repair_state =
  rp_turn :: "int option"
  rp_step :: "int option"
  rp_calls :: pending_calls

definition repair_init :: repair_state where
  "repair_init = \<lparr>rp_turn = None, rp_step = None, rp_calls = []\<rparr>"

fun register_blocks :: "int \<Rightarrow> content_block list \<Rightarrow> pending_calls \<Rightarrow> pending_calls" where
  "register_blocks step [] m = m"
| "register_blocks step (ToolCallBlock i n a # bs) m =
     register_blocks step bs (AList.update i (step, None) m)"
| "register_blocks step (_ # bs) m = register_blocks step bs m"

definition note_call :: "string \<Rightarrow> int \<Rightarrow> pending_calls \<Rightarrow> pending_calls" where
  "note_call c seq m =
     (case map_of m c of Some (step, _) \<Rightarrow> AList.update c (step, Some seq) m | None \<Rightarrow> m)"

definition drop_call :: "string option \<Rightarrow> pending_calls \<Rightarrow> pending_calls" where
  "drop_call c m = (case c of Some c' \<Rightarrow> AList.delete c' m | None \<Rightarrow> m)"

definition repair_step :: "repair_state \<Rightarrow> session_event \<Rightarrow> repair_state" where
  "repair_step st e =
     (case ev_data e of
        TurnStart turn \<Rightarrow> \<lparr>rp_turn = Some turn, rp_step = None, rp_calls = []\<rparr>
      | TurnEnd _ _ \<Rightarrow> \<lparr>rp_turn = None, rp_step = None, rp_calls = []\<rparr>
      | StepStart _ step \<Rightarrow> st\<lparr>rp_step := Some step\<rparr>
      | StepEnd _ _ \<Rightarrow> st\<lparr>rp_step := None, rp_calls := []\<rparr>
      | AssistantMessage _ step m _ _ \<Rightarrow>
          st\<lparr>rp_calls := register_blocks step (msg_content m) (rp_calls st)\<rparr>
      | ToolCall _ _ c _ _ \<Rightarrow> st\<lparr>rp_calls := note_call c (ev_seq e) (rp_calls st)\<rparr>
      | ToolResult _ _ m _ _ \<Rightarrow> st\<lparr>rp_calls := drop_call (source_call_id m) (rp_calls st)\<rparr>
      | _ \<Rightarrow> st)"

definition repair_scan :: "session_event list \<Rightarrow> repair_state" where
  "repair_scan events = foldl repair_step repair_init events"

section \<open>The closers\<close>

definition interrupted_result_id :: "string \<Rightarrow> int \<Rightarrow> string" where
  "interrupted_result_id c seq = ''interrupted-tool-result-'' @ c @ ''-'' @ show_int seq"

definition interrupted_result_message :: "string \<Rightarrow> int \<Rightarrow> bool \<Rightarrow> message" where
  "interrupted_result_message c seq started =
     \<lparr>msg_id = interrupted_result_id c seq,
      msg_role = UserRole,
      msg_content =
        [ToolResultBlock c
           [TextBlock (if started then TEXT_OUTCOME_UNKNOWN else TEXT_NOT_STARTED)] (Some True)],
      msg_source = ToolSource c\<rparr>"

definition call_closer ::
  "int \<Rightarrow> int \<Rightarrow> int \<Rightarrow> string \<times> (int \<times> int option) \<Rightarrow> session_event" where
  "call_closer turn time seq call =
     (case call of (c, (step, call_seq)) \<Rightarrow>
        let started = (call_seq \<noteq> None) in
        \<lparr>ev_data = ToolResult turn step (interrupted_result_message c seq started)
           (Some (if started then (''ToolOutcomeUnknownError'', TOOL_OUTCOME_UNKNOWN)
                  else (''ToolNotStartedError'', TOOL_NOT_STARTED))) None,
         ev_seq = seq, ev_time = time, ev_surface_op = Some append_op,
         ev_sources = map_option (\<lambda>s. JArr [jint s]) call_seq, ev_ignorable = False\<rparr>)"

definition log_only_event :: "event_data \<Rightarrow> int \<Rightarrow> int \<Rightarrow> session_event" where
  "log_only_event d seq time =
     \<lparr>ev_data = d, ev_seq = seq, ev_time = time, ev_surface_op = None, ev_sources = None,
      ev_ignorable = False\<rparr>"

fun call_closers :: "int \<Rightarrow> int \<Rightarrow> int \<Rightarrow> pending_calls \<Rightarrow> session_event list" where
  "call_closers turn time seq [] = []"
| "call_closers turn time seq (c # cs) =
     call_closer turn time seq c # call_closers turn time (seq + 1) cs"

definition boundary_closers ::
  "int \<Rightarrow> int option \<Rightarrow> int \<Rightarrow> int \<Rightarrow> session_event list" where
  "boundary_closers turn open_step seq time =
     (case open_step of
        None \<Rightarrow> [log_only_event (TurnEnd turn Interrupted) seq time]
      | Some step \<Rightarrow>
          [log_only_event (StepEnd turn step) seq time,
           log_only_event (TurnEnd turn Interrupted) (seq + 1) time])"

definition interrupted_turn_closers :: "session_event list \<Rightarrow> session_event list" where
  "interrupted_turn_closers events =
     (let st = repair_scan events in
      case rp_turn st of
        None \<Rightarrow> []
      | Some turn \<Rightarrow>
          if events = [] then []
          else
            let seq = ev_seq (last events) + 1; time = ev_time (last events) in
            call_closers turn time seq (rp_calls st)
            @ boundary_closers turn (rp_step st) (seq + int (length (rp_calls st))) time)"

section \<open>The scan follows the relational trace\<close>

lemma repair_scan_snoc: "repair_scan (es @ [e]) = repair_step (repair_scan es) e"
  by (simp add: repair_scan_def)

lemma repair_scan_append: "repair_scan (es @ fs) = foldl repair_step (repair_scan es) fs"
  by (simp add: repair_scan_def)

lemma register_blocks_good: "good_map m \<Longrightarrow> good_map (register_blocks step bs m)"
  by (induction step bs m rule: register_blocks.induct) auto

lemma register_blocks_get:
  "map_of (register_blocks step bs m) c = Some v \<Longrightarrow> v = (step, None) \<or> map_of m c = Some v"
  by (induction step bs m rule: register_blocks.induct)
    (auto simp: js_map.get_put split: if_splits)

lemma note_call_get:
  "map_of (note_call c seq m) c' = Some (s, cs) \<Longrightarrow>
     (\<exists>cs0. map_of m c' = Some (s, cs0) \<and> (cs = cs0 \<or> (cs = Some seq \<and> c' = c)))"
  by (auto simp: note_call_def js_map.get_put split: option.splits if_splits)

lemma note_call_good: "good_map m \<Longrightarrow> good_map (note_call c seq m)"
  by (auto simp: note_call_def split: option.splits)

lemma drop_call_get: "map_of (drop_call c m) c' = Some v \<Longrightarrow> map_of m c' = Some v \<and> c \<noteq> Some c'"
  by (auto simp: drop_call_def js_map.get_remove split: option.splits if_splits)

lemma drop_call_good: "good_map m \<Longrightarrow> good_map (drop_call c m)"
  by (auto simp: drop_call_def split: option.splits)

lemmas pending_good = register_blocks_good note_call_good drop_call_good

text \<open>
  The coupling: the same open turn and step; every pending call belongs to the open step, and a
  call with a recorded start is pending in the trace too.
\<close>

definition repair_coupled :: "repair_state \<Rightarrow> session_trace \<Rightarrow> bool" where
  "repair_coupled st tr \<longleftrightarrow>
     rp_turn st = tr_open_turn tr \<and> rp_step st = tr_open_step tr \<and> good_map (rp_calls st) \<and>
     (\<forall>c s cs. map_of (rp_calls st) c = Some (s, cs) \<longrightarrow>
        tr_open_step tr = Some s \<and> (cs \<noteq> None \<longrightarrow> c \<in> tr_pending tr))"

lemma repair_coupled_init: "repair_coupled repair_init fresh_trace"
  by (simp add: repair_coupled_def repair_init_def fresh_trace_def)

lemma repair_coupled_step:
  assumes "repair_coupled st tr" and "trace_inv tr" and "trace_step tr e = Inr tr'"
  shows "repair_coupled (repair_step st e) tr'"
  using assms
  by (auto simp: repair_coupled_def repair_step_def trace_step_Inr validate_event_def Let_def
      trace_inv_def result_simps pending_good
      dest!: register_blocks_get note_call_get drop_call_get split: validate_event_splits)

lemma repair_coupled_scan:
  "seed_session es = Inr tr \<Longrightarrow> repair_coupled (repair_scan es) tr"
proof (induction es arbitrary: tr rule: rev_induct)
  case Nil
  then show ?case
    using repair_coupled_init by (simp add: seed_session_def repair_scan_def)
next
  case (snoc e es)
  then obtain tr0 where "seed_session es = Inr tr0" "trace_step tr0 e = Inr tr"
    by (auto simp: seed_session_snoc result_simps)
  then show ?case
    using snoc.IH repair_coupled_step seed_session_inv by (simp add: repair_scan_snoc)
qed

lemma seed_session_last_seq:
  "seed_session es = Inr tr \<Longrightarrow> es \<noteq> [] \<Longrightarrow> tr_last_seq tr = ev_seq (last es)"
proof (induction es arbitrary: tr rule: rev_induct)
  case (snoc e es)
  then obtain tr0 where "trace_step tr0 e = Inr tr"
    by (auto simp: seed_session_snoc result_simps)
  then show ?case
    by (auto simp: trace_step_Inr validate_event_def Let_def result_simps
        split: validate_event_splits)
qed simp

section \<open>Acceptance of the closers\<close>

lemma call_closer_accepted:
  assumes "tr_open_turn tr = Some turn" "tr_open_step tr = Some step" "tr_last_seq tr < seq"
    and "cs \<noteq> None \<Longrightarrow> c \<in> tr_pending tr"
  shows "\<exists>tr'. trace_step tr (call_closer turn time seq (c, (step, cs))) = Inr tr' \<and>
    tr_open_turn tr' = Some turn \<and> tr_open_step tr' = Some step \<and> tr_last_seq tr' = seq \<and>
    tr_pending tr' = tr_pending tr - {c}"
  using assms
  by (auto simp: trace_step_def validate_event_def call_closer_def Let_def require_open_step_def
      source_call_id_def first_block_is_error_def interrupted_result_message_def)

lemma call_closers_accepted:
  assumes "tr_open_turn tr = Some turn" "tr_open_step tr = Some step" "tr_last_seq tr < seq"
    and "distinct (map fst calls)"
    and "\<forall>(c, s, cs) \<in> set calls. s = step \<and> (cs \<noteq> None \<longrightarrow> c \<in> tr_pending tr)"
  shows "\<exists>tr'. fold_result trace_step tr (call_closers turn time seq calls) = Inr tr' \<and>
    tr_open_turn tr' = Some turn \<and> tr_open_step tr' = Some step \<and>
    tr_last_seq tr' < seq + int (length calls)"
  using assms
proof (induction calls arbitrary: tr seq)
  case Nil
  then show ?case by simp
next
  case (Cons call calls)
  obtain c s cs where call: "call = (c, (s, cs))" by (metis prod.exhaust)
  have s: "s = step" using Cons.prems(5) call by simp
  obtain tr1 where tr1: "trace_step tr (call_closer turn time seq call) = Inr tr1"
    "tr_open_turn tr1 = Some turn" "tr_open_step tr1 = Some step" "tr_last_seq tr1 = seq"
    "tr_pending tr1 = tr_pending tr - {c}"
    using call_closer_accepted [OF Cons.prems(1-3), of cs c] Cons.prems(5) call s by auto
  have "\<forall>(c', s, cs) \<in> set calls. s = step \<and> (cs \<noteq> None \<longrightarrow> c' \<in> tr_pending tr1)"
    using Cons.prems(4,5) tr1(5) call by (force simp: image_iff)
  then obtain tr' where "fold_result trace_step tr1 (call_closers turn time (seq + 1) calls) = Inr tr'"
    "tr_open_turn tr' = Some turn" "tr_open_step tr' = Some step"
    "tr_last_seq tr' < seq + 1 + int (length calls)"
    using Cons.IH [of tr1 "seq + 1"] tr1 Cons.prems(4) by auto
  then show ?case using tr1(1) by (auto simp: algebra_simps)
qed

lemma boundary_closers_accepted:
  assumes "tr_open_turn tr = Some turn" "tr_open_step tr = st" "tr_last_seq tr < seq"
    and "trace_inv tr"
  shows "\<exists>tr'. fold_result trace_step tr (boundary_closers turn st seq time) = Inr tr' \<and>
    tr_open_turn tr' = None \<and> tr_open_step tr' = None \<and> tr_pending tr' = {}"
  using assms
  by (cases st)
    (auto simp: boundary_closers_def trace_step_def validate_event_def log_only_event_def
      step_checked_def require_open_step_def trace_inv_def Let_def)

lemma fold_trace_inv:
  "fold_result trace_step tr es = Inr tr' \<Longrightarrow> trace_inv tr \<Longrightarrow> trace_inv tr'"
  using fold_result_invariant [of trace_step tr es tr' trace_inv] trace_inv_step by blast

text \<open>C3. Appending the closers to any log the relational checks accept gives a log they accept,
  with no turn, step or tool call left open.\<close>

theorem repaired_log_accepted:
  assumes "seed_session es = Inr tr"
  shows "\<exists>tr'. seed_session (es @ interrupted_turn_closers es) = Inr tr' \<and>
    tr_open_turn tr' = None \<and> tr_open_step tr' = None \<and> tr_pending tr' = {}"
proof -
  let ?st = "repair_scan es"
  note cp = repair_coupled_scan [OF assms, unfolded repair_coupled_def]
  have inv: "trace_inv tr" by (rule seed_session_inv [OF assms])
  show ?thesis
  proof (cases "rp_turn ?st")
    case None
    then have "interrupted_turn_closers es = []" "tr_open_turn tr = None"
      using cp by (simp_all add: interrupted_turn_closers_def Let_def)
    then show ?thesis using assms inv by (auto simp: trace_inv_def)
  next
    case (Some turn)
    have turn: "tr_open_turn tr = Some turn" using Some cp by simp
    have ne: "es \<noteq> []" using Some by (auto simp: repair_scan_def repair_init_def)
    have last: "tr_last_seq tr = ev_seq (last es)" by (rule seed_session_last_seq [OF assms ne])
    let ?seq = "ev_seq (last es) + 1" and ?time = "ev_time (last es)"
    let ?cc = "call_closers turn ?time ?seq (rp_calls ?st)"
    have closers: "interrupted_turn_closers es =
        ?cc @ boundary_closers turn (rp_step ?st) (?seq + int (length (rp_calls ?st))) ?time"
      using Some ne by (simp add: interrupted_turn_closers_def Let_def)
    have "\<exists>tr1. fold_result trace_step tr ?cc = Inr tr1 \<and> tr_open_turn tr1 = Some turn \<and>
        tr_open_step tr1 = rp_step ?st \<and> tr_last_seq tr1 < ?seq + int (length (rp_calls ?st))"
    proof (cases "tr_open_step tr")
      case None
      then have "rp_calls ?st = []" using cp by (cases "rp_calls ?st") (auto split: if_splits)
      then show ?thesis using turn last cp by simp
    next
      case (Some step)
      have "\<forall>(c, s, cs) \<in> set (rp_calls ?st). s = step \<and> (cs \<noteq> None \<longrightarrow> c \<in> tr_pending tr)"
        using cp Some by (auto simp: good_map_def dest!: map_of_is_SomeI)
      then show ?thesis
        using call_closers_accepted [OF turn Some, of ?seq "rp_calls ?st" ?time] last cp Some
        by (auto simp: good_map_def)
    qed
    then obtain tr1 where tr1: "fold_result trace_step tr ?cc = Inr tr1"
      "tr_open_turn tr1 = Some turn" "tr_open_step tr1 = rp_step ?st"
      "tr_last_seq tr1 < ?seq + int (length (rp_calls ?st))" by blast
    show ?thesis
      using boundary_closers_accepted [OF tr1(2-4) fold_trace_inv [OF tr1(1) inv], of ?time]
        closers assms tr1(1)
      by (auto simp: seed_session_append fold_result_append)
  qed
qed

section \<open>Instances\<close>

theorem repaired_log_accepted_witness:
  "\<exists>tr'. seed_session (example_turns @ interrupted_turn_closers example_turns) = Inr tr' \<and>
    tr_open_turn tr' = None \<and> length (interrupted_turn_closers example_turns) = 4"
proof -
  have "length (interrupted_turn_closers example_turns) = 4" by code_simp
  then show ?thesis using repaired_log_accepted [OF example_turns_accepted] by auto
qed

end
