(* ===== verification/Request_Header.thy ===== *)
theory Request_Header
  imports Session_Types
begin

text \<open>
  Request headers, \<^verbatim>\<open>packages/core/session/src/request-header.ts\<close> and
  \<open>callConfigEquals\<close> of \<^verbatim>\<open>packages/llm/llm/src/call-config.ts\<close>: canonical form,
  field-wise equality, and the fold of a log into the header in force. The lemmas show that the
  equality is an equivalence on the values compared, and that the fold is the canonical form of the
  last header event, from any intermediate position.
\<close>

section \<open>Equality of call configurations\<close>

fun opt_num_eq :: "jnum option \<Rightarrow> jnum option \<Rightarrow> bool" where
  "opt_num_eq None None = True"
| "opt_num_eq (Some a) (Some b) = num_eq a b"
| "opt_num_eq _ _ = False"

definition call_config_equals :: "call_config \<Rightarrow> call_config \<Rightarrow> bool" where
  "call_config_equals a b =
     (if cfg_provider a \<noteq> cfg_provider b \<or> cfg_model a \<noteq> cfg_model b \<or> cfg_effort a \<noteq> cfg_effort b
        \<or> \<not> opt_num_eq (cfg_temperature a) (cfg_temperature b)
        \<or> \<not> opt_num_eq (cfg_max_tokens a) (cfg_max_tokens b)
      then False
      else case (cfg_stop a, cfg_stop b) of
        (Some s, Some t) \<Rightarrow>
          length s = length t \<and> list_all (\<lambda>(x, y). x = y) (zip s t)
      | (x, y) \<Rightarrow> x = y)"

section \<open>Equality of headers\<close>

text \<open>
  \<open>JSON.stringify\<close> writes negative zero as \<open>0\<close> and an infinity as \<open>null\<close>, and is otherwise
  injective on JSON trees with a fixed property order; comparing the texts is comparing the trees
  it distinguishes.
\<close>

fun stringify_tree :: "jv \<Rightarrow> jv" where
  "stringify_tree (JNum NNegZero) = JNum (NInt 0)"
| "stringify_tree (JNum (NInf _)) = JNull"
| "stringify_tree (JArr xs) = JArr (map stringify_tree xs)"
| "stringify_tree (JObj kvs) = JObj (map (\<lambda>(k, v). (k, stringify_tree v)) kvs)"
| "stringify_tree v = v"

definition same_schema :: "jv \<Rightarrow> jv \<Rightarrow> bool" where
  "same_schema a b \<longleftrightarrow> stringify_tree a = stringify_tree b"

definition default_marker :: "(adapter_defaults \<Rightarrow> bool) \<Rightarrow> epoch_header \<Rightarrow> bool" where
  "default_marker f h = (case hdr_defaults h of Some d \<Rightarrow> f d | None \<Rightarrow> False)"

definition canonical_header :: "epoch_header \<Rightarrow> epoch_header" where
  "canonical_header h =
     \<lparr>hdr_config = hdr_config h,
      hdr_defaults =
        (if default_marker default_effort h \<or> default_marker default_max_tokens h
         then hdr_defaults h else None),
      hdr_system = (case hdr_system h of Some s \<Rightarrow> if 0 < length s then Some s else None | None \<Rightarrow> None),
      hdr_tools = (case hdr_tools h of Some t \<Rightarrow> if 0 < length t then Some t else None | None \<Rightarrow> None)\<rparr>"

definition tools_or_empty :: "epoch_header \<Rightarrow> jv list" where
  "tools_or_empty h = (case hdr_tools h of Some t \<Rightarrow> t | None \<Rightarrow> [])"

definition header_equals :: "epoch_header \<Rightarrow> epoch_header \<Rightarrow> bool" where
  "header_equals a b =
     (if \<not> call_config_equals (hdr_config a) (hdr_config b)
        \<or> default_marker default_effort a \<noteq> default_marker default_effort b
        \<or> default_marker default_max_tokens a \<noteq> default_marker default_max_tokens b
        \<or> hdr_system a \<noteq> hdr_system b
      then False
      else let ats = tools_or_empty a; bts = tools_or_empty b in
        length ats = length bts \<and> list_all (\<lambda>(x, y). same_schema x y) (zip ats bts))"

section \<open>The fold\<close>

definition header_step :: "epoch_header option \<Rightarrow> session_event \<Rightarrow> epoch_header option" where
  "header_step st e = (case ev_data e of RequestHeader h _ \<Rightarrow> Some (canonical_header h) | _ \<Rightarrow> st)"

definition fold_request_header ::
  "session_event list \<Rightarrow> epoch_header option \<Rightarrow> epoch_header option" where
  "fold_request_header events start = foldl header_step start events"

section \<open>Lemmas\<close>

lemma list_all_zip_eq: "length s = length t \<Longrightarrow> list_all (\<lambda>(x, y). x = y) (zip s t) \<longleftrightarrow> s = t"
  by (induction s t rule: list_induct2) auto

lemma list_all_zip_map:
  "length s = length t \<and> list_all (\<lambda>(x, y). f x = f y) (zip s t) \<longleftrightarrow> map f s = map f t"
proof (cases "length s = length t")
  case True
  then show ?thesis by (induction s t rule: list_induct2) auto
next
  case False
  then show ?thesis using map_eq_imp_length_eq by auto
qed

lemma call_config_equals_iff:
  "call_config_equals a b \<longleftrightarrow>
     cfg_provider a = cfg_provider b \<and> cfg_model a = cfg_model b \<and> cfg_effort a = cfg_effort b \<and>
     opt_num_eq (cfg_temperature a) (cfg_temperature b) \<and>
     opt_num_eq (cfg_max_tokens a) (cfg_max_tokens b) \<and> cfg_stop a = cfg_stop b"
  by (auto simp: call_config_equals_def list_all_zip_eq split: option.splits)

lemma header_equals_iff:
  "header_equals a b \<longleftrightarrow>
     call_config_equals (hdr_config a) (hdr_config b) \<and>
     default_marker default_effort a = default_marker default_effort b \<and>
     default_marker default_max_tokens a = default_marker default_max_tokens b \<and>
     hdr_system a = hdr_system b \<and>
     map stringify_tree (tools_or_empty a) = map stringify_tree (tools_or_empty b)"
  unfolding header_equals_def same_schema_def Let_def list_all_zip_map by argo

lemma opt_num_eq_equiv:
  "opt_num_eq a a" "opt_num_eq a b \<Longrightarrow> opt_num_eq b a"
  "opt_num_eq a b \<Longrightarrow> opt_num_eq b c \<Longrightarrow> opt_num_eq a c"
proof -
  have t: "num_eq x y \<Longrightarrow> num_eq y z \<Longrightarrow> num_eq x z" for x y z
    by (cases x; cases y; cases z) auto
  show "opt_num_eq a a" by (cases a) auto
  show "opt_num_eq a b \<Longrightarrow> opt_num_eq b a" by (cases a; cases b) (auto simp: num_eq_sym)
  show "opt_num_eq a b \<Longrightarrow> opt_num_eq b c \<Longrightarrow> opt_num_eq a c"
    by (cases a; cases b; cases c) (auto intro: t)
qed

lemma call_config_equals_equiv:
  "call_config_equals a a" "call_config_equals a b \<Longrightarrow> call_config_equals b a"
  "call_config_equals a b \<Longrightarrow> call_config_equals b c \<Longrightarrow> call_config_equals a c"
  by (auto simp: call_config_equals_iff intro: opt_num_eq_equiv)

lemma default_marker_canonical [simp]:
  "default_marker default_effort (canonical_header h) = default_marker default_effort h"
  "default_marker default_max_tokens (canonical_header h) = default_marker default_max_tokens h"
  by (auto simp: canonical_header_def default_marker_def split: option.splits)

lemma canonical_header_idem [simp]: "canonical_header (canonical_header h) = canonical_header h"
  by (auto simp: canonical_header_def default_marker_def split: option.splits)

lemma fold_request_header_append:
  "fold_request_header (es @ fs) st = fold_request_header fs (fold_request_header es st)"
  by (simp add: fold_request_header_def)

lemma fold_request_header_canonical:
  "fold_request_header es None = Some h \<Longrightarrow> canonical_header h = h"
  by (induction es arbitrary: h rule: rev_induct)
    (auto simp: fold_request_header_def header_step_def split: event_data.splits)

fun logged_headers :: "session_event list \<Rightarrow> epoch_header list" where
  "logged_headers [] = []"
| "logged_headers (e # es) =
     (case ev_data e of RequestHeader h _ \<Rightarrow> h # logged_headers es | _ \<Rightarrow> logged_headers es)"

lemma logged_headers_append [simp]:
  "logged_headers (es @ fs) = logged_headers es @ logged_headers fs"
  by (induction es) (auto split: event_data.splits)

lemma fold_request_header_last:
  "fold_request_header es None =
     (if logged_headers es = [] then None else Some (canonical_header (last (logged_headers es))))"
  by (induction es rule: rev_induct)
    (auto simp: fold_request_header_def header_step_def split: event_data.splits)

text \<open>The equality that decides whether a request header is logged again is an equivalence
  relation, and two headers with the same canonical form are equal under it after canonicalization
  only if nothing a request is built from differs: configuration, adapter-supplied fields, system
  prompt and the tools as they are serialized.\<close>

theorem header_equality_sound:
  "header_equals a a \<and> (header_equals a b \<longrightarrow> header_equals b a) \<and>
   (header_equals a b \<and> header_equals b c \<longrightarrow> header_equals a c) \<and>
   (header_equals (canonical_header a) (canonical_header b) \<longleftrightarrow>
      call_config_equals (hdr_config a) (hdr_config b) \<and>
      default_marker default_effort a = default_marker default_effort b \<and>
      default_marker default_max_tokens a = default_marker default_max_tokens b \<and>
      (hdr_system a = hdr_system b \<or>
        hdr_system a \<in> {None, Some ''''} \<and> hdr_system b \<in> {None, Some ''''}) \<and>
      map stringify_tree (tools_or_empty a) = map stringify_tree (tools_or_empty b))"
proof (intro conjI)
  have t: "tools_or_empty (canonical_header h) = tools_or_empty h" for h
    by (auto simp: tools_or_empty_def canonical_header_def split: option.splits)
  have s: "hdr_system (canonical_header a) = hdr_system (canonical_header b) \<longleftrightarrow>
      hdr_system a = hdr_system b \<or>
      hdr_system a \<in> {None, Some ''''} \<and> hdr_system b \<in> {None, Some ''''}"
    by (auto simp: canonical_header_def split: option.splits)
  have c: "hdr_config (canonical_header h) = hdr_config h" for h by (simp add: canonical_header_def)
  show "header_equals (canonical_header a) (canonical_header b) \<longleftrightarrow>
      call_config_equals (hdr_config a) (hdr_config b) \<and>
      default_marker default_effort a = default_marker default_effort b \<and>
      default_marker default_max_tokens a = default_marker default_max_tokens b \<and>
      (hdr_system a = hdr_system b \<or>
        hdr_system a \<in> {None, Some ''''} \<and> hdr_system b \<in> {None, Some ''''}) \<and>
      map stringify_tree (tools_or_empty a) = map stringify_tree (tools_or_empty b)"
    unfolding header_equals_iff t s c by simp
qed (auto simp: header_equals_iff intro: call_config_equals_equiv)

section \<open>Instances\<close>

definition example_header :: "string option \<Rightarrow> epoch_header" where
  "example_header system =
     \<lparr>hdr_config = \<lparr>cfg_provider = ''p'', cfg_model = ''m'', cfg_effort = None, cfg_temperature = None,
                    cfg_max_tokens = Some (NInt 100), cfg_stop = None\<rparr>,
      hdr_defaults = None, hdr_system = system, hdr_tools = Some []\<rparr>"

theorem header_equality_sound_witness:
  "header_equals (canonical_header (example_header (Some []))) (canonical_header (example_header None)) \<and>
   header_equals (canonical_header (example_header None)) (canonical_header (example_header (Some [])))"
proof -
  have "call_config_equals (hdr_config (example_header (Some []))) (hdr_config (example_header None))"
    by code_simp
  then have "header_equals (canonical_header (example_header (Some []))) (canonical_header (example_header None))"
    using header_equality_sound [of "example_header (Some [])" "example_header None"]
    by (simp add: example_header_def default_marker_def tools_or_empty_def)
  then show ?thesis using header_equality_sound by blast
qed

end
