(* ===== verification/Session_Seed.thy ===== *)
theory Session_Seed
  imports Chunk_Rows
begin

text \<open>
  Validation of what enters a session from outside, the first part of
  \<^verbatim>\<open>packages/core/session/src/index.ts\<close>: the creation header, the fixed event envelope,
  and the shapes of the message-producing events. The checks read untyped JSON, so they are functions
  on \<open>jv\<close>; the lemmas apply them to the JSON form of typed headers and events. Paths follow
  the POSIX form of \<open>node:path\<close>.
\<close>

section \<open>The creation header\<close>

datatype seed_error =
    HeaderNotRecord
  | HeaderNotLossless
  | HeaderVersion
  | HeaderId
  | HeaderCreatedAt
  | HeaderCwdType
  | HeaderCwdRelative
  | HeaderParent
  | HeaderSeedLength
  | HeaderOrigin
  | HeaderDepth
  | HeaderPreset
  | HeaderEphemeral
  | LegacyHeaderDelta
  | LegacyFallbackReason
  | EnvelopeInvalid
  | LacksProviderModel
  | InvalidEffort
  | InvalidAdapterDefaults
  | LacksMessage
  | WrongRole
  | InvalidSource
  | InvalidContent
  | NotModelSource
  | NotToolSource
  | NotOneToolResult
  | MismatchedCallIds

definition is_absolute :: "string \<Rightarrow> bool" where
  "is_absolute p \<longleftrightarrow> p \<noteq> [] \<and> hd p = CHR ''/''"

definition nonneg_safe_at :: "jv \<Rightarrow> string \<Rightarrow> bool" where
  "nonneg_safe_at v k \<longleftrightarrow> is_safe_at v k \<and> 0 \<le> num_int (jnum_at v k)"

fun is_jbool :: "jv \<Rightarrow> bool" where
  "is_jbool (JBool _) = True"
| "is_jbool _ = False"

definition validate_session_header :: "string \<Rightarrow> jv \<Rightarrow> seed_error + unit" where
  "validate_session_header sid v =
     (if \<not> is_record v then Inl HeaderNotRecord
      else if \<not> (case jprop v ''version'' of Some (JNum n) \<Rightarrow> num_eq n SESSION_FORMAT_VERSION | _ \<Rightarrow> False)
      then Inl HeaderVersion
      else if jprop v ''id'' \<noteq> Some (JStr sid) then Inl HeaderId
      else if \<not> nonneg_safe_at v ''createdAt'' then Inl HeaderCreatedAt
      else if has_own v ''cwd'' \<and> \<not> is_str_at v ''cwd'' then Inl HeaderCwdType
      else if has_own v ''cwd'' \<and> \<not> (case prop_str v ''cwd'' of Some p \<Rightarrow> is_absolute p | None \<Rightarrow> False)
      then Inl HeaderCwdRelative
      else if has_own v ''parentSession'' \<and> \<not> is_str_at v ''parentSession'' then Inl HeaderParent
      else if has_own v ''seedLength'' \<and> \<not> nonneg_safe_at v ''seedLength'' then Inl HeaderSeedLength
      else if has_own v ''origin'' \<and> jprop v ''origin'' \<noteq> Some (JStr ''subagent'') then Inl HeaderOrigin
      else if has_own v ''delegationDepth'' \<and> \<not> nonneg_safe_at v ''delegationDepth'' then Inl HeaderDepth
      else if has_own v ''agentPreset'' \<and> \<not> is_str_at v ''agentPreset'' then Inl HeaderPreset
      else if has_own v ''ephemeral'' \<and> \<not> is_jbool (jget v ''ephemeral'') then Inl HeaderEphemeral
      else Inr ())"

text \<open>
  \<open>snapshotSessionHeader\<close>, for a header that was given; the synthesized one has the current
  version, the session's id and the clock.
\<close>

definition snapshot_session_header :: "string \<Rightarrow> jv \<Rightarrow> seed_error + unit" where
  "snapshot_session_header sid v =
     (if \<not> json_lossless v then Inl HeaderNotLossless else validate_session_header sid v)"

definition synthesized_header :: "string \<Rightarrow> int \<Rightarrow> session_header" where
  "synthesized_header sid now =
     \<lparr>sh_version = SESSION_FORMAT_VERSION, sh_id = sid, sh_created_at = NInt now, sh_cwd = None,
      sh_parent = None, sh_seed_length = None, sh_origin = None, sh_depth = None, sh_preset = None,
      sh_ephemeral = None\<rparr>"

section \<open>Event envelopes\<close>

definition nonempty_str_at :: "jv \<Rightarrow> string \<Rightarrow> bool" where
  "nonempty_str_at v k = (case prop_str v k of Some s \<Rightarrow> 0 < length s | None \<Rightarrow> False)"

definition has_provider_model :: "jv option \<Rightarrow> bool" where
  "has_provider_model v =
     (case v of
        Some p \<Rightarrow> is_object p \<and> nonempty_str_at p ''provider'' \<and> nonempty_str_at p ''model''
      | None \<Rightarrow> False)"

definition allowed_adapter_keys :: "string list" where
  "allowed_adapter_keys = [''reasoningEffort'', ''maxTokens'']"

definition assert_adapter_defaults :: "jv option \<Rightarrow> jv \<Rightarrow> seed_error + unit" where
  "assert_adapter_defaults value config =
     (case value of
        None \<Rightarrow> Inr ()
      | Some d \<Rightarrow>
          if \<not> is_record d then Inl InvalidAdapterDefaults
          else if list_ex (\<lambda>k. k \<notin> set allowed_adapter_keys) (jkeys d)
            \<or> list_ex (\<lambda>k. jprop d k \<noteq> Some (JBool True)) (jkeys d)
            \<or> (jprop d ''reasoningEffort'' = Some (JBool True) \<and> \<not> has_own config ''reasoningEffort'')
            \<or> (jprop d ''maxTokens'' = Some (JBool True) \<and> \<not> has_own config ''maxTokens'')
          then Inl InvalidAdapterDefaults
          else Inr ())"

text \<open>\<open>record?.[key]\<close> on a value that may be absent or no object.\<close>

definition oprop :: "jv option \<Rightarrow> string \<Rightarrow> jv option" where
  "oprop v k = (case v of Some x \<Rightarrow> jprop x k | None \<Rightarrow> None)"

definition message_event_types :: "string list" where
  "message_event_types = [''user/message'', ''assistant/message'', ''tool/result'']"

definition assert_tool_result_shape :: "jv \<Rightarrow> jv list \<Rightarrow> seed_error + unit" where
  "assert_tool_result_shape source content =
     (if jprop source ''kind'' \<noteq> Some (JStr ''tool'') \<or> \<not> nonempty_str_at source ''callId''
      then Inl NotToolSource
      else case content of
        [block] \<Rightarrow>
          if \<not> is_object block \<or> jprop block ''type'' \<noteq> Some (JStr ''tool-result'')
            \<or> prop_arr block ''content'' = None
          then Inl NotOneToolResult
          else if jprop block ''toolCallId'' \<noteq> jprop source ''callId'' then Inl MismatchedCallIds
          else Inr ()
      | _ \<Rightarrow> Inl NotOneToolResult)"

definition assert_message_shape :: "string \<Rightarrow> jv \<Rightarrow> seed_error + unit" where
  "assert_message_shape type m =
     (if \<not> is_object m \<or> \<not> nonempty_str_at m ''id'' then Inl LacksMessage
      else if jprop m ''role''
          \<noteq> Some (JStr (if type = ''assistant/message'' then ''assistant'' else ''user''))
      then Inl WrongRole
      else let source = jget m ''source'' in
        if \<not> is_object source \<or> \<not> nonempty_str_at source ''kind'' then Inl InvalidSource
        else case prop_arr m ''content'' of
          None \<Rightarrow> Inl InvalidContent
        | Some content \<Rightarrow>
            if type = ''assistant/message'' then
              (if jprop source ''kind'' \<noteq> Some (JStr ''model'') \<or> \<not> has_provider_model (Some source)
               then Inl NotModelSource else Inr ())
            else if type \<noteq> ''tool/result'' then Inr ()
            else assert_tool_result_shape source content)"

definition assert_message_event_shape :: "jv \<Rightarrow> seed_error + unit" where
  "assert_message_event_shape e =
     (case prop_str e ''type'' of
        None \<Rightarrow> Inr ()
      | Some type \<Rightarrow>
          if type \<notin> set message_event_types then Inr ()
          else case (if type = ''user/message'' then jprop e ''data''
                     else oprop (jprop e ''data'') ''message'') of
            None \<Rightarrow> Inl LacksMessage
          | Some m \<Rightarrow> assert_message_shape type m)"

definition assert_current_llm_shape :: "jv \<Rightarrow> seed_error + unit" where
  "assert_current_llm_shape e =
     and_then
       (if jprop e ''type'' = Some (JStr ''request/header'') then
          let header = oprop (jprop e ''data'') ''header'';
              config = oprop header ''config'' in
          if \<not> has_provider_model config then Inl LacksProviderModel
          else let c = jget (the header) ''config'' in
            if has_own c ''reasoningEffort'' \<and> \<not> nonempty_str_at c ''reasoningEffort''
            then Inl InvalidEffort
            else assert_adapter_defaults (oprop header ''adapterDefaults'') c
        else Inr ())
       (\<lambda>_. assert_message_event_shape e)"

definition envelope_keys :: "string list" where
  "envelope_keys =
     [''type'', ''seq'', ''time'', ''data'', ''surfaceOp'', ''sourceEventSeqs'', ''ignorable'']"

definition shape_checked_types :: "string list" where
  "shape_checked_types =
     [''request/header'', ''user/message'', ''assistant/message'', ''tool/result'']"

definition assert_session_event_envelope :: "jv \<Rightarrow> seed_error + unit" where
  "assert_session_event_envelope e =
     (if jprop e ''type'' = Some (JStr ''request/header-delta'') then Inl LegacyHeaderDelta
      else if list_ex (\<lambda>k. k \<notin> set envelope_keys) (jkeys e) then Inl EnvelopeInvalid
      else case prop_str e ''type'' of
        None \<Rightarrow> Inl EnvelopeInvalid
      | Some type \<Rightarrow>
          if \<not> nonneg_safe_at e ''seq'' \<or> \<not> is_safe_at e ''time'' \<or> \<not> has_own e ''data''
            \<or> (has_own e ''ignorable'' \<and> jprop e ''ignorable'' \<noteq> Some (JBool True))
          then Inl EnvelopeInvalid
          else if type \<in> set shape_checked_types then assert_current_llm_shape e
          else Inr ())"

definition assert_supported_request_header :: "string \<Rightarrow> jv \<Rightarrow> seed_error + unit" where
  "assert_supported_request_header type data =
     (if type = ''request/header-delta'' then Inl LegacyHeaderDelta
      else if type = ''request/header'' \<and> jprop data ''reason'' = Some (JStr ''fallback'')
      then Inl LegacyFallbackReason
      else Inr ())"

section \<open>What the header check accepts\<close>

lemma header_json_props:
  "is_record (header_json h)"
  "jprop (header_json h) ''version'' = Some (JNum (sh_version h))"
  "jprop (header_json h) ''id'' = Some (JStr (sh_id h))"
  "jprop (header_json h) ''createdAt'' = Some (JNum (sh_created_at h))"
  "jprop (header_json h) ''cwd'' = map_option JStr (sh_cwd h)"
  "jprop (header_json h) ''parentSession'' = map_option JStr (sh_parent h)"
  "jprop (header_json h) ''seedLength'' = map_option JNum (sh_seed_length h)"
  "jprop (header_json h) ''origin'' = map_option JStr (sh_origin h)"
  "jprop (header_json h) ''delegationDepth'' = map_option JNum (sh_depth h)"
  "jprop (header_json h) ''agentPreset'' = map_option JStr (sh_preset h)"
  "jprop (header_json h) ''ephemeral'' = map_option JBool (sh_ephemeral h)"
  by (simp_all add: header_json_def map_of_opt_field map_add_def option.case_eq_if)

definition count_ok :: "jnum \<Rightarrow> bool" where
  "count_ok n \<longleftrightarrow> is_safe_integer n \<and> 0 \<le> num_int n"

lemma count_at:
  "jprop v k = Some (JNum n) \<Longrightarrow> nonneg_safe_at v k \<longleftrightarrow> count_ok n"
  by (simp add: nonneg_safe_at_def count_ok_def)

lemma opt_count_at:
  "jprop v k = map_option JNum x \<Longrightarrow>
     (has_own v k \<longrightarrow> nonneg_safe_at v k) \<longleftrightarrow> (\<forall>n. x = Some n \<longrightarrow> count_ok n)"
  by (cases x) (auto simp: has_own_def count_at)

lemma opt_str_at:
  "jprop v k = map_option JStr x \<Longrightarrow> (has_own v k \<longrightarrow> is_str_at v k) \<longleftrightarrow> True"
  "jprop v k = map_option JStr x \<Longrightarrow>
     (has_own v k \<longrightarrow> (case prop_str v k of Some p \<Rightarrow> P p | None \<Rightarrow> False)) \<longleftrightarrow> (\<forall>p. x = Some p \<longrightarrow> P p)"
  "jprop v k = map_option JStr x \<Longrightarrow>
     (has_own v k \<longrightarrow> jprop v k = Some (JStr s)) \<longleftrightarrow> (\<forall>p. x = Some p \<longrightarrow> p = s)"
  by (cases x; auto simp: has_own_def prop_str_def)+

lemma opt_bool_at:
  "jprop v k = map_option JBool x \<Longrightarrow> (has_own v k \<longrightarrow> is_jbool (jget v k)) \<longleftrightarrow> True"
  by (cases x) (auto simp: has_own_def)

lemma validate_session_header_iff:
  "validate_session_header sid v = Inr u \<longleftrightarrow>
     is_record v \<and>
     (case jprop v ''version'' of Some (JNum n) \<Rightarrow> num_eq n SESSION_FORMAT_VERSION | _ \<Rightarrow> False) \<and>
     jprop v ''id'' = Some (JStr sid) \<and> nonneg_safe_at v ''createdAt'' \<and>
     (has_own v ''cwd'' \<longrightarrow> is_str_at v ''cwd'') \<and>
     (has_own v ''cwd'' \<longrightarrow> (case prop_str v ''cwd'' of Some p \<Rightarrow> is_absolute p | None \<Rightarrow> False)) \<and>
     (has_own v ''parentSession'' \<longrightarrow> is_str_at v ''parentSession'') \<and>
     (has_own v ''seedLength'' \<longrightarrow> nonneg_safe_at v ''seedLength'') \<and>
     (has_own v ''origin'' \<longrightarrow> jprop v ''origin'' = Some (JStr ''subagent'')) \<and>
     (has_own v ''delegationDepth'' \<longrightarrow> nonneg_safe_at v ''delegationDepth'') \<and>
     (has_own v ''agentPreset'' \<longrightarrow> is_str_at v ''agentPreset'') \<and>
     (has_own v ''ephemeral'' \<longrightarrow> is_jbool (jget v ''ephemeral''))"
  unfolding validate_session_header_def by (simp del: is_str_at_iff)

lemmas header_fields = header_json_props(2-4) count_at [OF header_json_props(4)]
  opt_str_at(1,2) [OF header_json_props(5)] opt_str_at(1) [OF header_json_props(6)]
  opt_count_at [OF header_json_props(7)] opt_str_at(3) [OF header_json_props(8)]
  opt_count_at [OF header_json_props(9)] opt_str_at(1) [OF header_json_props(10)]
  opt_bool_at [OF header_json_props(11)]

text \<open>A creation header is accepted exactly when it has the current version and the session's
  id, its creation time, seed length and delegation depth are non-negative safe integers, its
  working directory is absolute and its origin, when given, is the subagent origin.\<close>

theorem header_accepted_iff:
  "validate_session_header sid (header_json h) = Inr () \<longleftrightarrow>
     num_eq (sh_version h) SESSION_FORMAT_VERSION \<and> sh_id h = sid \<and> count_ok (sh_created_at h) \<and>
     (\<forall>p. sh_cwd h = Some p \<longrightarrow> is_absolute p) \<and>
     (\<forall>n. sh_seed_length h = Some n \<longrightarrow> count_ok n) \<and>
     (\<forall>s. sh_origin h = Some s \<longrightarrow> s = ''subagent'') \<and>
     (\<forall>n. sh_depth h = Some n \<longrightarrow> count_ok n)"
  unfolding validate_session_header_iff header_fields by (simp add: header_json_props(1))

section \<open>What the envelope check accepts\<close>

lemma event_json_props:
  "is_record (event_json e)"
  "jprop (event_json e) ''type'' = Some (JStr (ev_type e))"
  "jprop (event_json e) ''seq'' = Some (jint (ev_seq e))"
  "jprop (event_json e) ''time'' = Some (jint (ev_time e))"
  "jprop (event_json e) ''data'' = Some (data_json (ev_data e))"
  "jprop (event_json e) ''ignorable'' = (if ev_ignorable e then Some (JBool True) else None)"
  by (simp_all add: event_json_def map_of_opt_field map_of_flag_field map_add_def option.case_eq_if)

lemma message_json_props:
  "is_object (message_json m)"
  "jprop (message_json m) ''id'' = Some (JStr (msg_id m))"
  "jprop (message_json m) ''role'' = Some (role_json (msg_role m))"
  "jprop (message_json m) ''content'' = Some (JArr (map block_json (msg_content m)))"
  "jprop (message_json m) ''source'' = Some (source_json (msg_source m))"
  by (simp_all add: message_json_def)

text \<open>A merged message source never reuses the tag of a core one.\<close>

fun source_tag_ok :: "message_source \<Rightarrow> bool" where
  "source_tag_ok (OtherSource k _) =
     (k \<notin> {''user'', ''plugin'', ''model'', ''tool'', ''goal''})"
| "source_tag_ok _ = True"

lemma source_json_tool:
  assumes "source_tag_ok src" and "jprop (source_json src) ''kind'' = Some (JStr ''tool'')"
  obtains c where "src = ToolSource c"
  using assms by (cases src) auto

lemma source_json_model:
  assumes "source_tag_ok src" and "jprop (source_json src) ''kind'' = Some (JStr ''model'')"
  obtains p m r where "src = ModelSource p m r"
  using assms by (cases src) auto

lemma block_json_result:
  assumes "jprop (block_json b) ''type'' = Some (JStr ''tool-result'')"
  obtains c bs err where "b = ToolResultBlock c bs err"
  using assms by (cases b) auto

lemma nonempty_str_at_Some: "jprop v k = Some (JStr s) \<Longrightarrow> nonempty_str_at v k \<longleftrightarrow> s \<noteq> []"
  by (simp add: nonempty_str_at_def prop_str_def)

lemma role_json_inj: "role_json r = role_json r' \<longleftrightarrow> r = r'"
  by (cases r; cases r') auto

lemma envelope_shape:
  assumes "assert_session_event_envelope v = Inr u" and "jprop v ''type'' = Some (JStr type)"
  shows "type \<in> set shape_checked_types \<Longrightarrow> \<exists>u. assert_current_llm_shape v = Inr u"
    and "nonneg_safe_at v ''seq''" "is_safe_at v ''time''" "type \<noteq> ''request/header-delta''"
  using assms by (auto simp: assert_session_event_envelope_def prop_str_def simp del: is_safe_at_iff
      split: if_splits)

lemma current_shape_message:
  "assert_current_llm_shape v = Inr u \<Longrightarrow> \<exists>u. assert_message_event_shape v = Inr u"
  by (auto simp: assert_current_llm_shape_def result_simps)

lemma event_message_shape:
  assumes "assert_session_event_envelope (event_json e) = Inr u"
    and "ev_type e \<in> set message_event_types"
  shows "\<exists>u. assert_message_event_shape (event_json e) = Inr u"
proof -
  have "ev_type e \<in> set shape_checked_types" using assms(2) by (auto simp: shape_checked_types_def message_event_types_def)
  then show ?thesis
    using envelope_shape(1) [OF assms(1) event_json_props(2)] current_shape_message by blast
qed

fun carried_message :: "event_data \<Rightarrow> message option" where
  "carried_message (UserMessage m) = Some m"
| "carried_message (AssistantMessage _ _ m _ _) = Some m"
| "carried_message (ToolResult _ _ m _ _) = Some m"
| "carried_message _ = None"

lemma message_location:
  assumes "carried_message d = Some m"
  shows "(if event_type d = ''user/message'' then Some (data_json d)
          else oprop (Some (data_json d)) ''message'') = Some (message_json m)"
    and "event_type d \<in> set message_event_types"
  using assms by (cases d; simp add: oprop_def message_event_types_def)+

lemma message_shape_common:
  assumes "assert_message_event_shape (event_json e) = Inr u"
    and "carried_message (ev_data e) = Some m"
  shows "msg_id m \<noteq> []"
    and "role_json (msg_role m) =
      JStr (if ev_type e = ''assistant/message'' then ''assistant'' else ''user'')"
    and "ev_type e = ''assistant/message'' \<Longrightarrow>
      jprop (source_json (msg_source m)) ''kind'' = Some (JStr ''model'') \<and>
      has_provider_model (Some (source_json (msg_source m)))"
    and "ev_type e = ''tool/result'' \<Longrightarrow>
      jprop (source_json (msg_source m)) ''kind'' = Some (JStr ''tool'') \<and>
      nonempty_str_at (source_json (msg_source m)) ''callId'' \<and>
      (\<exists>b. msg_content m = [b] \<and> jprop (block_json b) ''type'' = Some (JStr ''tool-result'') \<and>
         jprop (block_json b) ''toolCallId'' = jprop (source_json (msg_source m)) ''callId'')"
proof -
  have "prop_str (event_json e) ''type'' = Some (ev_type e)"
    using event_json_props(2) by (simp only: prop_str_Some)
  then have shape: "assert_message_shape (ev_type e) (message_json m) = Inr u"
    using assms(1) message_location [OF assms(2)]
    unfolding assert_message_event_shape_def event_json_props(5)
    by (simp del: prop_str_Some split del: if_split)
  have arr: "prop_arr (message_json m) ''content'' = Some (map block_json (msg_content m))"
    using message_json_props(4) by (simp only: prop_arr_Some)
  have src: "jget (message_json m) ''source'' = source_json (msg_source m)"
    using message_json_props(5) by (simp only: jget_Some)
  note shape = shape [unfolded assert_message_shape_def Let_def arr src option.case
      message_json_props(1,3) option.inject jv.inject]
  show "msg_id m \<noteq> []"
    using shape nonempty_str_at_Some [OF message_json_props(2), of m] by (simp split: if_splits)
  show "role_json (msg_role m) =
      JStr (if ev_type e = ''assistant/message'' then ''assistant'' else ''user'')"
    using shape by (simp split: if_splits)
  show "ev_type e = ''assistant/message'' \<Longrightarrow>
      jprop (source_json (msg_source m)) ''kind'' = Some (JStr ''model'') \<and>
      has_provider_model (Some (source_json (msg_source m)))"
    using shape by (simp split: if_splits)
  show "ev_type e = ''tool/result'' \<Longrightarrow>
      jprop (source_json (msg_source m)) ''kind'' = Some (JStr ''tool'') \<and>
      nonempty_str_at (source_json (msg_source m)) ''callId'' \<and>
      (\<exists>b. msg_content m = [b] \<and> jprop (block_json b) ''type'' = Some (JStr ''tool-result'') \<and>
         jprop (block_json b) ''toolCallId'' = jprop (source_json (msg_source m)) ''callId'')"
    using shape by (auto simp: assert_tool_result_shape_def split: if_splits list.splits)
qed

text \<open>A tool result admitted from a stored or forked log carries exactly one result block, and
  that block and the message source name the same non-empty call id; an admitted assistant message
  names its provider and model. Every admitted message has an id and the role its event implies.\<close>

theorem admitted_message_shape:
  assumes "assert_session_event_envelope (event_json e) = Inr u"
    and "carried_message (ev_data e) = Some m" and "source_tag_ok (msg_source m)"
  shows "msg_id m \<noteq> [] \<and>
    msg_role m = (if ev_type e = ''assistant/message'' then AssistantRole else UserRole) \<and>
    (ev_type e = ''tool/result'' \<longrightarrow>
      (\<exists>c bs flag. c \<noteq> [] \<and> msg_source m = ToolSource c \<and> msg_content m = [ToolResultBlock c bs flag])) \<and>
    (ev_type e = ''assistant/message'' \<longrightarrow>
      (\<exists>p n r. msg_source m = ModelSource p n r \<and> p \<noteq> [] \<and> n \<noteq> []))"
proof -
  obtain u' where shape: "assert_message_event_shape (event_json e) = Inr u'"
    using event_message_shape [OF assms(1) message_location(2) [OF assms(2)]] by blast
  note S = message_shape_common [OF shape assms(2)]
  have "\<exists>c bs flag. c \<noteq> [] \<and> msg_source m = ToolSource c \<and> msg_content m = [ToolResultBlock c bs flag]"
    if ty: "ev_type e = ''tool/result''"
  proof -
    obtain c where c: "msg_source m = ToolSource c" using source_json_tool [OF assms(3)] S(4) ty by blast
    obtain b where b: "msg_content m = [b]" "jprop (block_json b) ''type'' = Some (JStr ''tool-result'')"
      "jprop (block_json b) ''toolCallId'' = jprop (source_json (msg_source m)) ''callId''"
      using S(4) ty by blast
    have "c \<noteq> []" using S(4) [OF ty] c by (simp add: nonempty_str_at_def prop_str_def)
    then show ?thesis using b c by (auto elim!: block_json_result)
  qed
  moreover have "\<exists>p n r. msg_source m = ModelSource p n r \<and> p \<noteq> [] \<and> n \<noteq> []"
    if ty: "ev_type e = ''assistant/message''"
  proof -
    obtain p n r where s: "msg_source m = ModelSource p n r"
      using source_json_model [OF assms(3)] S(3) ty by blast
    then show ?thesis
      using S(3) [OF ty] by (simp add: has_provider_model_def nonempty_str_at_def prop_str_def)
  qed
  moreover have "msg_role m = (if ev_type e = ''assistant/message'' then AssistantRole else UserRole)"
    using S(2) role_json_inj [of "msg_role m" AssistantRole] role_json_inj [of "msg_role m" UserRole]
    by (simp split: if_splits)
  ultimately show ?thesis using S(1) by blast
qed

section \<open>Instances\<close>

definition example_session_header :: session_header where
  "example_session_header = (synthesized_header ''s1'' 1000)\<lparr>sh_cwd := Some ''/work'', sh_seed_length := Some (NInt 2)\<rparr>"

theorem header_accepted_iff_witness:
  "validate_session_header ''s1'' (header_json example_session_header) = Inr () \<and>
   validate_session_header ''s1'' (header_json (example_session_header\<lparr>sh_cwd := Some ''work''\<rparr>)) \<noteq> Inr ()"
  unfolding header_accepted_iff
  by (simp add: example_session_header_def synthesized_header_def count_ok_def is_absolute_def
      safe_int_def max_safe_def SESSION_FORMAT_VERSION_def)

definition example_result :: "string \<Rightarrow> session_event" where
  "example_result c = example_event
     (ToolResult 1 1 \<lparr>msg_id = ''r1'', msg_role = UserRole, msg_content = [ToolResultBlock c [TextBlock ''ok''] None],
                      msg_source = ToolSource c\<rparr> None None) 3 (Some append_op) None"

theorem admitted_message_shape_witness:
  "\<exists>c bs flag. c \<noteq> [] \<and> msg_content (the (carried_message (ev_data (example_result ''c1'')))) = [ToolResultBlock c bs flag]"
proof -
  have a: "assert_session_event_envelope (event_json (example_result ''c1'')) = Inr ()" by code_simp
  have b: "carried_message (ev_data (example_result ''c1'')) = Some (the (carried_message (ev_data (example_result ''c1''))))"
    by code_simp
  have c: "source_tag_ok (msg_source (the (carried_message (ev_data (example_result ''c1'')))))" by code_simp
  have "ev_type (example_result ''c1'') = ''tool/result''" by code_simp
  then show ?thesis using admitted_message_shape [OF a b c] by blast
qed

end
