(* ===== verification/Session_Log.thy ===== *)
theory Session_Log
  imports Session_Repair Request_Header Session_Seed
begin

text \<open>
  The event-sourced session, class \<open>Session\<close> of
  \<^verbatim>\<open>packages/core/session/src/index.ts\<close>: construction from a seed, the append path, and the
  three cached folds a session keeps of its own log (the request header, the request context and the
  derived message history). The lemmas show that a rejected append leaves the log alone, that the
  surface manager accepts exactly what a replay of the log accepts, that every cached read equals the
  fold of the whole log, and that reopening a session's log changes nothing.

  The clock is an argument. An attached session appends through its store entry: whether another
  append of the same session is being published, and whether resolving the listeners throws, are
  arguments of \<open>append\<close> here and come from the entry in the theory of the store.
\<close>

section \<open>State\<close>

type_synonym 's fold_cache = "'s option \<times> nat"

record session_obj =
  ss_log :: "session_event list"
  ss_surface :: surface_manager
  ss_header :: session_header
  ss_first_live :: nat
  ss_snapshot :: "session_event list option"
  ss_header_fold :: "epoch_header fold_cache"
  ss_context_fold :: "request_context fold_cache"
  ss_derived :: "message list"
  ss_derived_nodes :: nat
  ss_derived_generation :: nat

datatype session_error =
    DataNotLossless
  | MetadataNotLossless
  | UnsupportedHeader seed_error
  | Reentrant
  | SurfaceRejected surface_error
  | DispatchFailed
  | SeedNotLossless nat
  | SeedInvalid nat seed_error
  | SeedSeqMismatch nat
  | SeedSurfaceInvalid nat surface_error
  | HeaderInvalid seed_error

definition blank_session :: "session_header \<Rightarrow> session_obj" where
  "blank_session h =
     \<lparr>ss_log = [], ss_surface = new_surface_manager 0, ss_header = h, ss_first_live = 0,
      ss_snapshot = None, ss_header_fold = (None, 0), ss_context_fold = (None, 0),
      ss_derived = [], ss_derived_nodes = 0, ss_derived_generation = 0\<rparr>"

section \<open>Append\<close>

text \<open>The surface metadata of an append: \<open>sourceEventSeqs\<close> and \<open>surfaceOp\<close>.\<close>

type_synonym surface_intent = "jv option \<times> jv option"

definition opt_lossless :: "jv option \<Rightarrow> bool" where
  "opt_lossless v = (case v of None \<Rightarrow> True | Some x \<Rightarrow> json_lossless x)"

definition build_event ::
  "session_event list \<Rightarrow> event_data \<Rightarrow> surface_intent \<Rightarrow> int \<Rightarrow> session_event" where
  "build_event log_so_far d intent now =
     \<lparr>ev_data = d, ev_seq = int (length log_so_far), ev_time = now, ev_surface_op = snd intent,
      ev_sources = fst intent, ev_ignorable = False\<rparr>"

text \<open>The accepted event enters the log and drops the public snapshot.\<close>

definition push_event :: "session_obj \<Rightarrow> session_event \<Rightarrow> session_obj" where
  "push_event s e = s\<lparr>ss_log := ss_log s @ [e], ss_snapshot := None\<rparr>"

definition accept_event ::
  "bool \<Rightarrow> session_event \<Rightarrow> session_obj \<Rightarrow> session_obj \<times> (session_error + session_event)" where
  "accept_event dispatch_ok e s =
     (case validate_next (ss_log s) e (ss_surface s) of
        (m, Some err) \<Rightarrow> (s\<lparr>ss_surface := m\<rparr>, Inl (SurfaceRejected err))
      | (m, None) \<Rightarrow>
          if \<not> dispatch_ok then (s\<lparr>ss_surface := m\<rparr>, Inl DispatchFailed)
          else (push_event (s\<lparr>ss_surface := m\<rparr>) e, Inr e))"

definition append_event ::
  "bool \<Rightarrow> bool \<Rightarrow> int \<Rightarrow> event_data \<Rightarrow> surface_intent \<Rightarrow> session_obj
     \<Rightarrow> session_obj \<times> (session_error + session_event)" where
  "append_event appending dispatch_ok now d intent s =
     (if \<not> json_lossless (data_json d) then (s, Inl DataNotLossless)
      else case assert_supported_request_header (event_type d) (data_json d) of
        Inl err \<Rightarrow> (s, Inl (UnsupportedHeader err))
      | Inr _ \<Rightarrow>
        if \<not> opt_lossless (fst intent) \<or> \<not> opt_lossless (snd intent)
        then (s, Inl MetadataNotLossless)
        else if appending then (s, Inl Reentrant)
        else accept_event dispatch_ok (build_event (ss_log s) d intent now) s)"

text \<open>A detached session has no entry: nothing is being published and nothing is dispatched.\<close>

abbreviation append_detached ::
  "int \<Rightarrow> event_data \<Rightarrow> surface_intent \<Rightarrow> session_obj \<Rightarrow> session_obj \<times> (session_error + session_event)" where
  "append_detached \<equiv> append_event False True"

section \<open>Construction\<close>

datatype construct_mode = Snapshot | Restore

definition seed_one ::
  "construct_mode \<Rightarrow> nat \<Rightarrow> session_event \<Rightarrow> session_obj \<Rightarrow> session_error + session_obj" where
  "seed_one mode i e s =
     (if mode = Snapshot \<and> \<not> json_lossless (event_json e) then Inl (SeedNotLossless i)
      else case assert_session_event_envelope (event_json e) of
        Inl err \<Rightarrow> Inl (SeedInvalid i err)
      | Inr _ \<Rightarrow>
        (case assert_supported_request_header (ev_type e) (data_json (ev_data e)) of
          Inl err \<Rightarrow> Inl (SeedInvalid i err)
        | Inr _ \<Rightarrow>
          if ev_seq e \<noteq> int i then Inl (SeedSeqMismatch i)
          else case validate_next (ss_log s) e (ss_surface s) of
            (m, Some err) \<Rightarrow> Inl (SeedSurfaceInvalid i err)
          | (m, None) \<Rightarrow> Inr (s\<lparr>ss_surface := m, ss_log := ss_log s @ [e]\<rparr>)))"

fun seed_loop ::
  "construct_mode \<Rightarrow> nat \<Rightarrow> session_event list \<Rightarrow> session_obj \<Rightarrow> session_error + session_obj" where
  "seed_loop mode i [] s = Inr s"
| "seed_loop mode i (e # es) s =
     and_then (seed_one mode i e s) (\<lambda>s'. seed_loop mode (Suc i) es s')"

definition ends_with_end_seed :: "session_event list \<Rightarrow> bool" where
  "ends_with_end_seed es \<longleftrightarrow> es \<noteq> [] \<and> ev_type (last es) = ''session/end-seed''"

definition header_check ::
  "construct_mode \<Rightarrow> string \<Rightarrow> session_header \<Rightarrow> session_error + unit" where
  "header_check mode sid h =
     (case (if mode = Restore then validate_session_header sid (header_json h)
            else snapshot_session_header sid (header_json h)) of
        Inl err \<Rightarrow> Inl (HeaderInvalid err)
      | Inr u \<Rightarrow> Inr u)"

definition mark_end_seed :: "int \<Rightarrow> session_obj \<Rightarrow> session_error + session_obj" where
  "mark_end_seed now s =
     (case append_detached now EndSeed (None, None) s of
        (s', Inl err) \<Rightarrow> Inl err
      | (s', Inr e) \<Rightarrow> Inr s')"

definition seed_log ::
  "construct_mode \<Rightarrow> session_event list option \<Rightarrow> session_header \<Rightarrow> session_error + session_obj" where
  "seed_log mode seed h =
     (case seed of None \<Rightarrow> Inr (blank_session h) | Some es \<Rightarrow> seed_loop mode 0 es (blank_session h))"

definition construct_session ::
  "construct_mode \<Rightarrow> string \<Rightarrow> session_event list option \<Rightarrow> session_header \<Rightarrow> int
     \<Rightarrow> session_error + session_obj" where
  "construct_session mode sid seed h now =
     and_then (if mode = Restore then header_check Restore sid h else Inr ()) (\<lambda>_.
     and_then (seed_log mode seed h) (\<lambda>s.
     and_then (if mode = Restore then Inr () else header_check Snapshot sid h) (\<lambda>_.
       let s' = s\<lparr>ss_first_live := length (ss_log s)\<rparr> in
       if seed \<noteq> None \<and> \<not> ends_with_end_seed (ss_log s') then mark_end_seed now s'
       else Inr s')))"

text \<open>
  \<open>Session.create\<close>: without a header one is synthesized, with the clock's value then; the seed
  marker is stamped with a second reading.
\<close>

definition create_session ::
  "string \<Rightarrow> session_event list option \<Rightarrow> session_header option \<Rightarrow> int \<Rightarrow> int
     \<Rightarrow> session_error + session_obj" where
  "create_session sid seed h created now =
     construct_session Snapshot sid seed
       (case h of Some x \<Rightarrow> x | None \<Rightarrow> synthesized_header sid created) now"

definition restore_session ::
  "string \<Rightarrow> session_event list \<Rightarrow> session_header \<Rightarrow> int \<Rightarrow> session_error + session_obj" where
  "restore_session sid seed h now = construct_session Restore sid (Some seed) h now"

section \<open>Reads\<close>

definition session_seq :: "session_obj \<Rightarrow> nat" where
  "session_seq s = length (ss_log s)"

definition session_events :: "session_obj \<Rightarrow> session_obj \<times> session_event list" where
  "session_events s =
     (case ss_snapshot s of
        Some es \<Rightarrow> (s, es)
      | None \<Rightarrow> (s\<lparr>ss_snapshot := Some (ss_log s)\<rparr>, ss_log s))"

definition catch_up_header ::
  "epoch_header fold_cache \<Rightarrow> session_event list \<Rightarrow> epoch_header fold_cache" where
  "catch_up_header c es =
     (if snd c < length es then (fold_request_header (drop (snd c) es) (fst c), length es) else c)"

definition request_header :: "session_obj \<Rightarrow> session_obj \<times> epoch_header option" where
  "request_header s =
     (let c = catch_up_header (ss_header_fold s) (ss_log s) in (s\<lparr>ss_header_fold := c\<rparr>, fst c))"

definition context_step ::
  "request_context option \<Rightarrow> session_event \<Rightarrow> request_context option" where
  "context_step st e = (case ev_data e of RequestContext c \<Rightarrow> Some c | _ \<Rightarrow> st)"

definition catch_up_context ::
  "request_context fold_cache \<Rightarrow> session_event list \<Rightarrow> request_context fold_cache" where
  "catch_up_context c es =
     (if snd c < length es then (foldl context_step (fst c) (drop (snd c) es), length es) else c)"

definition request_context_of :: "session_obj \<Rightarrow> session_obj \<times> request_context option" where
  "request_context_of s =
     (let c = catch_up_context (ss_context_fold s) (ss_log s) in (s\<lparr>ss_context_fold := c\<rparr>, fst c))"

definition project_nodes :: "session_event list \<Rightarrow> int list \<Rightarrow> message list" where
  "project_nodes es ns = List.map_filter (\<lambda>n. derive_event_message (ev_data (es ! nat n))) ns"

definition derive_messages :: "session_obj \<Rightarrow> session_obj \<times> (surface_error + message list)" where
  "derive_messages s =
     (case sm_nodes (ss_log s) (ss_surface s) of
        (m, Inl err) \<Rightarrow> (s\<lparr>ss_surface := m\<rparr>, Inl err)
      | (m, Inr ns) \<Rightarrow>
        (case sm_replace_generation (ss_log s) m of
           (m', Inl err) \<Rightarrow> (s\<lparr>ss_surface := m'\<rparr>, Inl err)
         | (m', Inr generation) \<Rightarrow>
             let (derived, start) =
                   (if generation \<noteq> ss_derived_generation s then ([], 0)
                    else (ss_derived s, ss_derived_nodes s));
                 derived' = derived @ project_nodes (ss_log s) (drop start ns)
             in (s\<lparr>ss_surface := m', ss_derived := derived', ss_derived_nodes := length ns,
                   ss_derived_generation := generation\<rparr>, Inr derived')))"

text \<open>
  \<open>session.surface\<close> with its two getters: the current nodes and the replacement
  generation, each after catching up with the log.
\<close>

definition read_surface :: "session_obj \<Rightarrow> session_obj \<times> (surface_error + int list \<times> nat)" where
  "read_surface s =
     (case sm_nodes (ss_log s) (ss_surface s) of
        (m, Inl err) \<Rightarrow> (s\<lparr>ss_surface := m\<rparr>, Inl err)
      | (m, Inr ns) \<Rightarrow>
        (case sm_replace_generation (ss_log s) m of
           (m', Inl err) \<Rightarrow> (s\<lparr>ss_surface := m'\<rparr>, Inl err)
         | (m', Inr generation) \<Rightarrow> (s\<lparr>ss_surface := m'\<rparr>, Inr (ns, generation))))"

section \<open>The cached folds are incremental folds\<close>

interpretation header_view: incremental_fold
  "\<lambda>st e. Inr (header_step st e)" None snd fst "\<lambda>c es. Inr (catch_up_header c es)"
  by unfold_locales
    (auto simp: catch_up_header_def fold_result_total fold_request_header_def split: if_splits)

interpretation context_view: incremental_fold
  "\<lambda>st e. Inr (context_step st e)" None snd fst "\<lambda>c es. Inr (catch_up_context c es)"
  by unfold_locales (auto simp: catch_up_context_def fold_result_total split: if_splits)


section \<open>The session invariant\<close>

text \<open>Ground truth: the replay of the whole log.\<close>

definition replay :: "session_event list \<Rightarrow> surface_error + surface_acc" where
  "replay es = fold_window 0 es"

definition derived_ok :: "session_obj \<Rightarrow> bool" where
  "derived_ok s \<longleftrightarrow>
     (\<forall>st reps x. replay (ss_log s) = Inr (st, reps, x) \<longrightarrow>
        ss_derived_generation s \<le> replace_generation st \<and>
        (ss_derived_generation s = replace_generation st \<longrightarrow>
           ss_derived_nodes s \<le> length (nodes st) \<and>
           ss_derived s = project_nodes (ss_log s) (take (ss_derived_nodes s) (nodes st))))"

definition session_ok :: "session_obj \<Rightarrow> bool" where
  "session_ok s \<longleftrightarrow>
     returns (replay (ss_log s)) \<and>
     manager_ok (ss_surface s) (ss_log s) \<and> sm_base (ss_surface s) = 0 \<and>
     header_view.coherent TYPE(unit) (ss_header_fold s) (ss_log s) \<and>
     context_view.coherent TYPE(unit) (ss_context_fold s) (ss_log s) \<and>
     derived_ok s \<and>
     (\<forall>es. ss_snapshot s = Some es \<longrightarrow> es = ss_log s) \<and>
     ss_first_live s \<le> length (ss_log s)"


lemma replay_snoc:
  assumes "replay (es @ [e]) = Inr (st', reps', x')"
  obtains st reps x ys where "replay es = Inr (st, reps, x)"
    "replace_generation st \<le> replace_generation st'"
    "replace_generation st = replace_generation st' \<Longrightarrow> nodes st' = nodes st @ ys"
proof -
  obtain st reps x where f: "fold_window 0 es = Inr (st, reps, x)"
    and s: "surface_step es 0 (st, reps, x) e = Inr (st', reps', x')"
    using assms by (auto simp: replay_def fold_window_snoc result_simps)
  obtain plan where plan: "plan_surface_event st e x es 0 = Inr plan"
    and st': "st' = fst (apply_surface_plan st plan)"
    using s by (auto simp: surface_step_Inr)
  from plan have "replace_generation st \<le> replace_generation st' \<and>
      (replace_generation st = replace_generation st' \<longrightarrow> (\<exists>ys. nodes st' = nodes st @ ys))"
    by (cases rule: plan_surface_event_cases) (auto simp: st')
  then show thesis using that f by (auto simp: replay_def)
qed

lemma replay_nodes_less:
  "replay es = Inr (st, reps, x) \<Longrightarrow> n \<in> set (nodes st) \<Longrightarrow> 0 \<le> n \<and> nat n < length es"
  using surface_inv_nodes [OF fold_window_inv] unfolding replay_def by fastforce

lemma map_filter_cong: "(\<And>x. x \<in> set xs \<Longrightarrow> f x = g x) \<Longrightarrow> List.map_filter f xs = List.map_filter g xs"
  by (induction xs) (auto simp: List.map_filter_def)

lemma map_filter_append: "List.map_filter f (xs @ ys) = List.map_filter f xs @ List.map_filter f ys"
  by (simp add: List.map_filter_def)

lemma project_nodes_snoc:
  "(\<And>n. n \<in> set ns \<Longrightarrow> nat n < length es) \<Longrightarrow> project_nodes (es @ [e]) ns = project_nodes es ns"
  unfolding project_nodes_def by (intro map_filter_cong) (simp add: nth_append)

lemma derived_ok_snoc:
  assumes "derived_ok s" and "ss_log s' = ss_log s @ [e]"
    and "ss_derived s' = ss_derived s" "ss_derived_nodes s' = ss_derived_nodes s"
    "ss_derived_generation s' = ss_derived_generation s"
  shows "derived_ok s'"
  unfolding derived_ok_def
proof (intro allI impI)
  fix st' reps' x'
  assume "replay (ss_log s') = Inr (st', reps', x')"
  then obtain st reps x ys where r: "replay (ss_log s) = Inr (st, reps, x)"
    "replace_generation st \<le> replace_generation st'"
    "replace_generation st = replace_generation st' \<Longrightarrow> nodes st' = nodes st @ ys"
    using replay_snoc assms(2) by metis
  have old: "ss_derived_generation s \<le> replace_generation st"
    "ss_derived_generation s = replace_generation st \<Longrightarrow>
       ss_derived_nodes s \<le> length (nodes st) \<and>
       ss_derived s = project_nodes (ss_log s) (take (ss_derived_nodes s) (nodes st))"
    using assms(1) r(1) by (auto simp: derived_ok_def)
  have proj: "project_nodes (ss_log s') (take k (nodes st)) = project_nodes (ss_log s) (take k (nodes st))" for k
    unfolding assms(2)
    by (intro project_nodes_snoc) (meson in_set_takeD replay_nodes_less [OF r(1)])
  show "ss_derived_generation s' \<le> replace_generation st' \<and>
      (ss_derived_generation s' = replace_generation st' \<longrightarrow>
        ss_derived_nodes s' \<le> length (nodes st') \<and>
        ss_derived s' = project_nodes (ss_log s') (take (ss_derived_nodes s') (nodes st')))"
    using old r(2,3) proj assms(3-5) by auto
qed

lemma session_ok_extend:
  assumes "session_ok s" and "validate_next (ss_log s) e (ss_surface s) = (m, None)"
    and "ss_log s' = ss_log s @ [e]" "ss_surface s' = m" "ss_snapshot s' = None"
    "ss_first_live s' = ss_first_live s" "ss_header_fold s' = ss_header_fold s"
    "ss_context_fold s' = ss_context_fold s" "ss_derived s' = ss_derived s"
    "ss_derived_nodes s' = ss_derived_nodes s" "ss_derived_generation s' = ss_derived_generation s"
  shows "session_ok s'"
proof -
  obtain acc where acc: "fold_window 0 (ss_log s) = Inr acc"
    using assms(1) by (auto simp: session_ok_def replay_def returns_iff)
  have m: "manager_ok (ss_surface s) (ss_log s)" "sm_base (ss_surface s) = 0"
    using assms(1) by (simp_all add: session_ok_def)
  have f: "fold_window (sm_base (ss_surface s)) (ss_log s) = Inr acc" using acc m(2) by simp
  have v: "manager_ok m (ss_log s @ [e])" "sm_base m = 0"
    "returns (fold_window 0 (ss_log s @ [e]))"
    using validate_next_replay [OF m(1) f assms(2)] m(2) by simp_all
  have d: "derived_ok s'"
    using derived_ok_snoc [OF _ assms(3,9-11)] assms(1) by (simp add: session_ok_def)
  have h: "header_view.coherent TYPE(unit) (ss_header_fold s) (ss_log s)"
    and c: "context_view.coherent TYPE(unit) (ss_context_fold s) (ss_log s)"
    using assms(1) by (simp_all add: session_ok_def)
  moreover have "header_view.coherent TYPE(unit) (ss_header_fold s') (ss_log s')"
    "context_view.coherent TYPE(unit) (ss_context_fold s') (ss_log s')"
    unfolding assms(3,7,8)
    by (rule header_view.coherent_append [OF h], rule context_view.coherent_append [OF c])
  moreover have "ss_first_live s' \<le> length (ss_log s')"
    using assms(1) unfolding assms(3,6) by (simp add: session_ok_def)
  ultimately show ?thesis
    using v d unfolding session_ok_def replay_def assms(4,5) by (simp add: assms(3))
qed

lemma session_ok_surface:
  assumes "session_ok s" and "manager_ok m (ss_log s)" "sm_base m = 0"
  shows "session_ok (s\<lparr>ss_surface := m\<rparr>)"
  using assms by (auto simp: session_ok_def derived_ok_def)

lemma validate_next_ok:
  assumes "session_ok s" and "validate_next (ss_log s) e (ss_surface s) = (m, r)"
  shows "manager_ok m (ss_log s)" "sm_base m = 0"
    "r = None \<longleftrightarrow> returns (replay (ss_log s @ [e]))"
    "r = Some err \<Longrightarrow> replay (ss_log s @ [e]) = Inl err"
proof -
  obtain acc where acc: "fold_window 0 (ss_log s) = Inr acc"
    using assms(1) by (auto simp: session_ok_def replay_def returns_iff)
  have m: "manager_ok (ss_surface s) (ss_log s)" "sm_base (ss_surface s) = 0"
    using assms(1) by (simp_all add: session_ok_def)
  have f: "fold_window (sm_base (ss_surface s)) (ss_log s) = Inr acc" using acc m(2) by simp
  have "manager_ok m (ss_log s) \<and> sm_base m = 0 \<and>
      (case r of None \<Rightarrow> returns (fold_window 0 (ss_log s @ [e]))
       | Some err \<Rightarrow> fold_window 0 (ss_log s @ [e]) = Inl err)"
    using validate_next_replay [OF m(1) f assms(2)] m(2) by (simp split: option.splits)
  then show "manager_ok m (ss_log s)" "sm_base m = 0"
    "r = None \<longleftrightarrow> returns (replay (ss_log s @ [e]))"
    "r = Some err \<Longrightarrow> replay (ss_log s @ [e]) = Inl err"
    by (auto simp: replay_def split: option.splits)
qed

text \<open>The four outcomes of an append.\<close>

lemma append_event_cases:
  assumes "append_event appending dispatch now d intent s = (s', r)"
  obtains (early) err where "s' = s" "r = Inl err"
  | (surface) m err where "validate_next (ss_log s) (build_event (ss_log s) d intent now) (ss_surface s) = (m, Some err)"
      "s' = s\<lparr>ss_surface := m\<rparr>" "r = Inl (SurfaceRejected err)"
  | (dispatch) m where "validate_next (ss_log s) (build_event (ss_log s) d intent now) (ss_surface s) = (m, None)"
      "s' = s\<lparr>ss_surface := m\<rparr>" "r = Inl DispatchFailed"
  | (accepted) m e where "e = build_event (ss_log s) d intent now"
      "validate_next (ss_log s) e (ss_surface s) = (m, None)"
      "s' = push_event (s\<lparr>ss_surface := m\<rparr>) e" "r = Inr e"
      "json_lossless (data_json d)" "\<not> appending"
proof -
  let ?e = "build_event (ss_log s) d intent now"
  show thesis
  proof (cases "json_lossless (data_json d) \<and>
      returns (assert_supported_request_header (event_type d) (data_json d)) \<and>
      opt_lossless (fst intent) \<and> opt_lossless (snd intent) \<and> \<not> appending")
    case False
    then have "s' = s \<and> (\<exists>err. r = Inl err)"
      using assms unfolding append_event_def
      by (cases "assert_supported_request_header (event_type d) (data_json d)") (auto split: if_splits)
    then show thesis using early by blast
  next
    case True
    then have a: "accept_event dispatch ?e s = (s', r)" "json_lossless (data_json d)" "\<not> appending"
      using assms by (auto simp: append_event_def returns_iff)
    obtain m v where v: "validate_next (ss_log s) ?e (ss_surface s) = (m, v)" by fastforce
    show thesis
    proof (cases v)
      case (Some err)
      then show thesis using surface [of m err] a(1) v by (simp add: accept_event_def)
    next
      case None
      then show thesis
        using dispatch [of m] accepted [of ?e m] a v by (cases dispatch) (simp_all add: accept_event_def)
    qed
  qed
qed

lemma session_ok_append:
  assumes "session_ok s" and "append_event appending dispatch now d intent s = (s', r)"
  shows "session_ok s'"
  using assms(2)
proof (cases rule: append_event_cases)
  case (surface m err)
  then show ?thesis using session_ok_surface [OF assms(1)] validate_next_ok(1,2) [OF assms(1)] by blast
next
  case (dispatch m)
  then show ?thesis using session_ok_surface [OF assms(1)] validate_next_ok(1,2) [OF assms(1)] by blast
next
  case (accepted m e)
  then show ?thesis
    by (intro session_ok_extend [OF assms(1) accepted(2)]) (simp_all add: push_event_def)
qed (use assms(1) in simp)

text \<open>An append as its caller sees it.\<close>

lemma append_log_cases:
  assumes "session_ok s" and a: "append_event appending dispatch now d intent s = (s', r)"
  obtains (refused) err where "r = Inl err" "ss_log s' = ss_log s" "session_ok s'" "ss_header s' = ss_header s"
  | (appended) e where "r = Inr e" "e = build_event (ss_log s) d intent now"
      "ss_log s' = ss_log s @ [e]" "session_ok s'" "ss_header s' = ss_header s"
      "json_lossless (data_json d)"
  using a
proof (cases rule: append_event_cases)
  case (accepted m e)
  then show ?thesis using session_ok_append [OF assms(1) a] appended by (simp add: push_event_def)
qed (use session_ok_append [OF assms(1) a] refused in auto)

text \<open>When an append is accepted.\<close>

definition append_admitted ::
  "bool \<Rightarrow> bool \<Rightarrow> int \<Rightarrow> event_data \<Rightarrow> surface_intent \<Rightarrow> session_event list \<Rightarrow> bool" where
  "append_admitted appending dispatch now d intent es \<longleftrightarrow>
     json_lossless (data_json d) \<and> opt_lossless (fst intent) \<and> opt_lossless (snd intent) \<and>
     returns (assert_supported_request_header (event_type d) (data_json d)) \<and> \<not> appending \<and> dispatch \<and>
     returns (replay (es @ [build_event es d intent now]))"

lemma append_returns_iff:
  assumes "session_ok s" and "append_event appending dispatch now d intent s = (s', r)"
  shows "returns r \<longleftrightarrow> append_admitted appending dispatch now d intent (ss_log s)"
proof -
  let ?e = "build_event (ss_log s) d intent now"
  show ?thesis
  proof (cases "json_lossless (data_json d) \<and>
      returns (assert_supported_request_header (event_type d) (data_json d)) \<and>
      opt_lossless (fst intent) \<and> opt_lossless (snd intent) \<and> \<not> appending")
    case False
    then have "\<not> returns r"
      using assms(2) unfolding append_event_def
      by (cases "assert_supported_request_header (event_type d) (data_json d)") (auto split: if_splits)
    then show ?thesis using False by (auto simp: append_admitted_def)
  next
    case True
    then have a: "accept_event dispatch ?e s = (s', r)"
      using assms(2) by (auto simp: append_event_def returns_iff)
    obtain m v where v: "validate_next (ss_log s) ?e (ss_surface s) = (m, v)" by fastforce
    have "returns r \<longleftrightarrow> v = None \<and> dispatch" using a v by (cases v) (auto simp: accept_event_def split: if_splits)
    then show ?thesis using True validate_next_ok(3) [OF assms(1) v] by (auto simp: append_admitted_def)
  qed
qed

lemma session_ok_blank: "session_ok (blank_session h)"
  using manager_ok_new [of 0]
  by (auto simp: session_ok_def blank_session_def replay_def header_view.coherent_def
      context_view.coherent_def derived_ok_def create_fold_state_def project_nodes_def
      new_surface_manager_def List.map_filter_def)

definition unread :: "session_obj \<Rightarrow> bool" where
  "unread s \<longleftrightarrow> ss_snapshot s = None \<and> ss_first_live s = 0"

lemma seed_one_Inr:
  assumes "seed_one mode i e s = Inr s'"
  obtains m where "validate_next (ss_log s) e (ss_surface s) = (m, None)"
    "s' = s\<lparr>ss_surface := m, ss_log := ss_log s @ [e]\<rparr>" "ev_seq e = int i"
    "mode = Snapshot \<Longrightarrow> json_lossless (event_json e)"
    "assert_session_event_envelope (event_json e) = Inr ()"
    "assert_supported_request_header (ev_type e) (data_json (ev_data e)) = Inr ()"
  using assms
  by (auto simp: seed_one_def split: if_splits sum.splits prod.splits option.splits)

lemma seed_one_ok:
  assumes "session_ok s" "unread s" "seed_one mode i e s = Inr s'"
  shows "session_ok s' \<and> unread s' \<and> ss_log s' = ss_log s @ [e] \<and> ss_header s' = ss_header s"
  using assms(3)
proof (rule seed_one_Inr)
  fix m
  assume v: "validate_next (ss_log s) e (ss_surface s) = (m, None)"
    and s': "s' = s\<lparr>ss_surface := m, ss_log := ss_log s @ [e]\<rparr>"
  have "session_ok s'"
    using assms(2) s' by (intro session_ok_extend [OF assms(1) v]) (simp_all add: unread_def)
  then show ?thesis using assms(2) s' by (simp add: unread_def)
qed

lemma seed_loop_ok:
  assumes "seed_loop mode i es s = Inr s'" "session_ok s" "unread s"
  shows "session_ok s' \<and> unread s' \<and> ss_log s' = ss_log s @ es \<and> ss_header s' = ss_header s"
  using assms
proof (induction es arbitrary: i s)
  case Nil
  then show ?case by simp
next
  case (Cons e es)
  then obtain s1 where "seed_one mode i e s = Inr s1" "seed_loop mode (Suc i) es s1 = Inr s'"
    by (auto simp: result_simps)
  then show ?case using Cons.IH seed_one_ok [OF Cons.prems(2,3)] by fastforce
qed

lemma session_ok_first_live:
  "session_ok s \<Longrightarrow> session_ok (s\<lparr>ss_first_live := length (ss_log s)\<rparr>)"
  by (simp add: session_ok_def derived_ok_def)

text \<open>Marking the end of the seed never fails: the marker is not a surface event.\<close>

lemma end_seed_plan:
  assumes "session_ok s"
  shows "\<exists>m. validate_next (ss_log s) (build_event (ss_log s) EndSeed (None, None) now) (ss_surface s) = (m, None)"
proof -
  let ?e = "build_event (ss_log s) EndSeed (None, None) now"
  obtain st reps x where r: "replay (ss_log s) = Inr (st, reps, x)"
    using assms by (auto simp: session_ok_def returns_iff)
  have "x = int (length (ss_log s))" using fold_window_inv r by (fastforce simp: replay_def)
  then have "plan_surface_event st ?e x (ss_log s) 0 = Inr None"
    by (simp add: plan_surface_event_def surface_op_of_def build_event_def is_surface_eligible_type_def
        SURFACE_EVENT_TYPES_def)
  then have "returns (replay (ss_log s @ [?e]))"
    using r by (simp add: replay_def fold_window_snoc returns_iff surface_step_Inr)
  moreover obtain m res where v: "validate_next (ss_log s) ?e (ss_surface s) = (m, res)" by fastforce
  ultimately show ?thesis using validate_next_ok(3) [OF assms v] by auto
qed

lemma mark_end_seed_ok:
  assumes "session_ok s"
  obtains s' where "mark_end_seed now s = Inr s'" "session_ok s'"
    "ss_log s' = ss_log s @ [build_event (ss_log s) EndSeed (None, None) now]"
    "ss_header s' = ss_header s" "ss_first_live s' = ss_first_live s"
proof -
  let ?e = "build_event (ss_log s) EndSeed (None, None) now"
  obtain m where "validate_next (ss_log s) ?e (ss_surface s) = (m, None)"
    using end_seed_plan [OF assms] by blast
  then have a: "append_detached now EndSeed (None, None) s = (push_event (s\<lparr>ss_surface := m\<rparr>) ?e, Inr ?e)"
    by (simp add: append_event_def accept_event_def assert_supported_request_header_def opt_lossless_def)
  then show thesis
    using that [of "push_event (s\<lparr>ss_surface := m\<rparr>) ?e"] session_ok_append [OF assms a]
    by (simp add: mark_end_seed_def push_event_def)
qed

lemma seed_log_ok:
  assumes "seed_log mode seed h = Inr s"
  shows "session_ok s" "unread s" "ss_header s = h"
    "ss_log s = (case seed of None \<Rightarrow> [] | Some es \<Rightarrow> es)"
proof -
  have b: "session_ok (blank_session h)" "unread (blank_session h)" "ss_log (blank_session h) = []"
    "ss_header (blank_session h) = h"
    using session_ok_blank by (simp_all add: unread_def blank_session_def)
  show "session_ok s" "unread s" "ss_header s = h"
    "ss_log s = (case seed of None \<Rightarrow> [] | Some es \<Rightarrow> es)"
    using assms b seed_loop_ok [of mode 0 _ "blank_session h" s]
    by (cases seed; simp add: seed_log_def)+
qed

lemma construct_session_Inr:
  assumes "construct_session mode sid seed h now = Inr s"
  obtains s1 where "seed_log mode seed h = Inr s1" "header_check mode sid h = Inr ()"
    "(if seed \<noteq> None \<and> \<not> ends_with_end_seed (ss_log s1)
      then mark_end_seed now (s1\<lparr>ss_first_live := length (ss_log s1)\<rparr>)
      else Inr (s1\<lparr>ss_first_live := length (ss_log s1)\<rparr>)) = Inr s"
proof -
  obtain s1 where "seed_log mode seed h = Inr s1"
    using assms by (auto simp: construct_session_def result_simps)
  then show thesis
    using assms that [of s1] unfolding construct_session_def Let_def
    by (cases mode; cases "header_check mode sid h") simp_all
qed

lemma construct_session_ok:
  assumes "construct_session mode sid seed h now = Inr s"
  shows "session_ok s" "ss_header s = h"
    "ss_first_live s = length (case seed of None \<Rightarrow> [] | Some es \<Rightarrow> es)"
    "ss_log s = (case seed of None \<Rightarrow> []
                 | Some es \<Rightarrow> if ends_with_end_seed es then es
                              else es @ [build_event es EndSeed (None, None) now])"
proof -
  obtain s1 where s1: "seed_log mode seed h = Inr s1" "header_check mode sid h = Inr ()"
    "(if seed \<noteq> None \<and> \<not> ends_with_end_seed (ss_log s1)
      then mark_end_seed now (s1\<lparr>ss_first_live := length (ss_log s1)\<rparr>)
      else Inr (s1\<lparr>ss_first_live := length (ss_log s1)\<rparr>)) = Inr s"
    using construct_session_Inr [OF assms] .
  note L = seed_log_ok [OF s1(1)]
  let ?s = "s1\<lparr>ss_first_live := length (ss_log s1)\<rparr>"
  have ok: "session_ok ?s" by (rule session_ok_first_live [OF L(1)])
  obtain s2 where s2: "mark_end_seed now ?s = Inr s2" "session_ok s2"
    "ss_log s2 = ss_log ?s @ [build_event (ss_log ?s) EndSeed (None, None) now]"
    "ss_header s2 = ss_header ?s" "ss_first_live s2 = ss_first_live ?s"
    using mark_end_seed_ok [OF ok] .
  have s: "s = s2 \<and> seed \<noteq> None \<and> \<not> ends_with_end_seed (ss_log s1) \<or>
      s = ?s \<and> (seed = None \<or> ends_with_end_seed (ss_log s1))"
    using s1(3) s2(1) by (cases "seed \<noteq> None \<and> \<not> ends_with_end_seed (ss_log s1)") auto
  show "session_ok s" "ss_header s = h"
    "ss_first_live s = length (case seed of None \<Rightarrow> [] | Some es \<Rightarrow> es)"
    using s s2(2,4,5) ok L(3,4) by auto
  show "ss_log s = (case seed of None \<Rightarrow> []
                 | Some es \<Rightarrow> if ends_with_end_seed es then es
                              else es @ [build_event es EndSeed (None, None) now])"
    using s s2(3) L(4) by (cases seed) auto
qed


section \<open>Reads\<close>

lemma session_ok_views:
  assumes "session_ok s"
  shows "header_view.coherent TYPE(unit) (ss_header_fold s) (ss_log s)"
    "context_view.coherent TYPE(unit) (ss_context_fold s) (ss_log s)"
    "derived_ok s" "returns (replay (ss_log s))"
    "manager_ok (ss_surface s) (ss_log s)" "sm_base (ss_surface s) = 0"
  using assms by (simp_all add: session_ok_def)

lemma request_header_fold:
  assumes "session_ok s" and "request_header s = (s', h)"
  shows "h = fold_request_header (ss_log s) None" and "session_ok s'" and "ss_log s' = ss_log s"
proof -
  let ?c = "catch_up_header (ss_header_fold s) (ss_log s)"
  note C = header_view.coherent_catch_up [OF session_ok_views(1) [OF assms(1)] refl]
  have s': "s' = s\<lparr>ss_header_fold := ?c\<rparr>" "h = fst ?c"
    using assms(2) by (auto simp: request_header_def Let_def)
  show "h = fold_request_header (ss_log s) None"
    using C(2) s'(2) by (simp add: fold_result_total fold_request_header_def)
  show "session_ok s'" "ss_log s' = ss_log s"
    using assms(1) C(1) s'(1) by (simp_all add: session_ok_def derived_ok_def)
qed

lemma request_context_fold:
  assumes "session_ok s" and "request_context_of s = (s', c)"
  shows "c = foldl context_step None (ss_log s)" and "session_ok s'" and "ss_log s' = ss_log s"
proof -
  let ?c = "catch_up_context (ss_context_fold s) (ss_log s)"
  note C = context_view.coherent_catch_up [OF session_ok_views(2) [OF assms(1)] refl]
  have s': "s' = s\<lparr>ss_context_fold := ?c\<rparr>" "c = fst ?c"
    using assms(2) by (auto simp: request_context_of_def Let_def)
  show "c = foldl context_step None (ss_log s)"
    using C(2) s'(2) by (simp add: fold_result_total)
  show "session_ok s'" "ss_log s' = ss_log s"
    using assms(1) C(1) s'(1) by (simp_all add: session_ok_def derived_ok_def)
qed

lemma session_events_log:
  assumes "session_ok s" and "session_events s = (s', es)"
  shows "es = ss_log s" and "session_ok s'" and "ss_log s' = ss_log s"
  using assms by (auto simp: session_events_def session_ok_def derived_ok_def split: option.splits)

lemma plugin_append:
  assumes "session_ok s" and "json_lossless d" and "t \<notin> set SURFACE_EVENT_TYPES" and "t \<noteq> ''request/header''"
    and "t \<noteq> ''request/header-delta''"
  obtains s' where "append_event False True now (PluginEvent t d) (None, None) s =
      (s', Inr (build_event (ss_log s) (PluginEvent t d) (None, None) now))"
    "ss_log s' = ss_log s @ [build_event (ss_log s) (PluginEvent t d) (None, None) now]" "session_ok s'"
proof -
  let ?e = "build_event (ss_log s) (PluginEvent t d) (None, None) now"
  obtain st reps x where r: "replay (ss_log s) = Inr (st, reps, x)"
    using assms(1) by (auto simp: session_ok_def returns_iff)
  have "x = int (length (ss_log s))" using fold_window_inv r by (fastforce simp: replay_def)
  then have "plan_surface_event st ?e x (ss_log s) 0 = Inr None"
    using assms(3)
    by (simp add: plan_surface_event_def surface_op_of_def build_event_def is_surface_eligible_type_def)
  then have rt: "returns (replay (ss_log s @ [?e]))"
    using r by (simp add: replay_def fold_window_snoc returns_iff surface_step_Inr)
  obtain m res where v: "validate_next (ss_log s) ?e (ss_surface s) = (m, res)" by fastforce
  then have "res = None" using validate_next_ok(3) [OF assms(1) v] rt by auto
  then have a: "append_event False True now (PluginEvent t d) (None, None) s =
      (push_event (s\<lparr>ss_surface := m\<rparr>) ?e, Inr ?e)"
    using v assms(2,4,5)
    by (simp add: append_event_def accept_event_def assert_supported_request_header_def opt_lossless_def)
  then show thesis using that session_ok_append [OF assms(1) a] by (simp add: push_event_def)
qed

lemma sm_reads:
  assumes "manager_ok m es" "sm_base m = 0" and "replay es = Inr (st, reps, x)"
  shows "\<exists>m'. sm_nodes es m = (m', Inr (nodes st)) \<and> manager_ok m' es \<and> sm_base m' = 0"
    and "\<exists>m'. sm_replace_generation es m = (m', Inr (replace_generation st)) \<and>
      manager_ok m' es \<and> sm_base m' = 0"
proof -
  have f: "fold_window (sm_base m) es = Inr (st, reps, x)" using assms(2,3) by (simp add: replay_def)
  obtain m' where m': "process_delta es m = (m', None)" "manager_at (length es) m' es"
    "sm_state m' = st" "sm_base m' = sm_base m"
    using process_delta_state [OF assms(1) f] .
  then have "manager_ok m' es" by (auto simp: manager_ok_def)
  then show "\<exists>m'. sm_nodes es m = (m', Inr (nodes st)) \<and> manager_ok m' es \<and> sm_base m' = 0"
    "\<exists>m'. sm_replace_generation es m = (m', Inr (replace_generation st)) \<and>
      manager_ok m' es \<and> sm_base m' = 0"
    using m' assms(2) by (simp_all add: sm_nodes_def sm_replace_generation_def)
qed

lemma read_surface_replay:
  assumes "session_ok s" and "replay (ss_log s) = Inr (st, reps, x)"
  obtains s' where "read_surface s = (s', Inr (nodes st, replace_generation st))" "session_ok s'"
    "ss_log s' = ss_log s" "ss_header s' = ss_header s"
proof -
  note V = session_ok_views [OF assms(1)]
  obtain m where m: "sm_nodes (ss_log s) (ss_surface s) = (m, Inr (nodes st))"
    "manager_ok m (ss_log s)" "sm_base m = 0"
    using sm_reads(1) [OF V(5,6) assms(2)] by blast
  obtain m' where m': "sm_replace_generation (ss_log s) m = (m', Inr (replace_generation st))"
    "manager_ok m' (ss_log s)" "sm_base m' = 0"
    using sm_reads(2) [OF m(2,3) assms(2)] by blast
  show thesis
    using m(1) m'(1) session_ok_surface [OF assms(1) m'(2,3)]
    by (intro that [of "s\<lparr>ss_surface := m'\<rparr>"]) (simp_all add: read_surface_def)
qed

lemma replay_seqs: "replay es = Inr acc \<Longrightarrow> i < length es \<Longrightarrow> ev_seq (es ! i) = int i"
proof (induction es arbitrary: acc rule: rev_induct)
  case (snoc e es)
  obtain st reps x where f: "replay es = Inr (st, reps, x)"
    and s: "surface_step es 0 (st, reps, x) e = Inr acc"
    using snoc.prems(1) by (auto simp: replay_def fold_window_snoc result_simps)
  have x: "x = int (length es)" using fold_window_inv f by (fastforce simp: replay_def)
  have "ev_seq e = x"
    using s by (auto simp: surface_step_Inr plan_surface_event_def split: if_splits)
  then show ?case using snoc.IH [OF f] snoc.prems(2) x by (auto simp: nth_append less_Suc_eq)
qed simp

lemma project_nodes_append: "project_nodes es (ns @ ms) = project_nodes es ns @ project_nodes es ms"
  by (simp add: project_nodes_def map_filter_append)

lemma derive_messages_projection:
  assumes "session_ok s" and "derive_messages s = (s', r)"
  obtains st reps x where "replay (ss_log s) = Inr (st, reps, x)"
    "r = Inr (project_nodes (ss_log s) (nodes st))" "session_ok s'" "ss_log s' = ss_log s"
proof -
  note V = session_ok_views [OF assms(1)]
  obtain st reps x where f: "replay (ss_log s) = Inr (st, reps, x)"
    using V(4) by (auto simp: returns_iff)
  obtain m where m: "sm_nodes (ss_log s) (ss_surface s) = (m, Inr (nodes st))"
    "manager_ok m (ss_log s)" "sm_base m = 0"
    using sm_reads(1) [OF V(5,6) f] by blast
  obtain m' where m': "sm_replace_generation (ss_log s) m = (m', Inr (replace_generation st))"
    "manager_ok m' (ss_log s)" "sm_base m' = 0"
    using sm_reads(2) [OF m(2,3) f] by blast
  let ?same = "replace_generation st = ss_derived_generation s"
  let ?d = "if ?same then ss_derived s else []" and ?n = "if ?same then ss_derived_nodes s else 0"
  let ?d' = "?d @ project_nodes (ss_log s) (drop ?n (nodes st))"
  have s': "s' = s\<lparr>ss_surface := m', ss_derived := ?d', ss_derived_nodes := length (nodes st),
      ss_derived_generation := replace_generation st\<rparr>" "r = Inr ?d'"
    using assms(2) m(1) m'(1) by (auto simp: derive_messages_def Let_def split: if_splits)
  have full: "?d' = project_nodes (ss_log s) (nodes st)"
  proof (cases ?same)
    case True
    then have "ss_derived s = project_nodes (ss_log s) (take (ss_derived_nodes s) (nodes st))"
      using V(3) f by (auto simp: derived_ok_def)
    then show ?thesis using True by (simp flip: project_nodes_append)
  next
    case False
    then show ?thesis by simp
  qed
  have "session_ok s'"
    using assms(1) m'(2,3) f unfolding s'(1) full by (auto simp: session_ok_def derived_ok_def)
  then show thesis using that f s' full by simp
qed

section \<open>What one event does to the surface\<close>

lemma replay_prefix: "replay (es @ xs) = Inr acc \<Longrightarrow> \<exists>st reps x. replay es = Inr (st, reps, x)"
  unfolding replay_def using fold_window_prefix by (metis prod_cases3)

lemma replay_snoc_plan:
  assumes "replay (es @ [e]) = Inr (st', reps', x')" and "replay es = Inr (st, reps, x)"
  obtains plan where "plan_surface_event st e (int (length es)) es 0 = Inr plan"
    "st' = fst (apply_surface_plan st plan)"
proof -
  have "x = int (length es)" using fold_window_inv assms(2) by (fastforce simp: replay_def)
  then show thesis
    using assms that by (auto simp: replay_def fold_window_snoc surface_step_Inr)
qed

text \<open>An accepted event is off the surface, joins its end, or replaces a span of it.\<close>

lemma replay_surface_cases:
  assumes "replay (es @ [e]) = Inr (st', reps', x')" and "replay es = Inr (st, reps, x)"
  obtains (off) "\<not> is_surface_event e" "nodes st' = nodes st"
  | (joined) "is_surface_event e" "ev_surface_op e = Some append_op" "nodes st' = nodes st @ [int (length es)]"
  | (spliced) op i j where "is_surface_event e" "ev_surface_op e = Some op" "op \<noteq> append_op" "is_replace_op op"
      "i \<le> j" "j < length (nodes st)" "nodes st ! i = seq_of (the (jprop op ''start''))"
      "nodes st ! j = seq_of (the (jprop op ''end''))"
      "nodes st' = splice_one i j (int (length es)) (nodes st)"
  using assms
proof (cases rule: replay_snoc_plan)
  case (1 plan)
  have seq: "ev_seq e = int (length es)" using 1(1) by (auto simp: plan_surface_event_def split: if_splits)
  obtain op where op: "surface_op_of e = Inr op" using 1(1) by (auto simp: plan_surface_event_def result_simps split: if_splits)
  show thesis
  proof (cases op)
    case None
    then have "\<not> is_surface_event e" using op by (auto simp: surface_op_of_def is_surface_event_def split: if_splits option.splits)
    then show thesis using off 1 op None seq by (simp add: plan_surface_event_def)
  next
    case (Some o')
    then have surf: "is_surface_event e" using op
      by (auto simp: surface_op_of_def is_surface_event_def split: if_splits option.splits)
    show thesis
    proof (cases o')
      case OpAppend
      then have "ev_surface_op e = Some append_op"
        using op Some by (auto simp: surface_op_of_def split: if_splits option.splits)
      then show thesis using joined [OF surf] 1 op Some OpAppend seq
        by (auto simp: plan_surface_event_def result_simps)
    next
      case (OpReplace a b)
      then obtain v where v: "ev_surface_op e = Some v" "v \<noteq> append_op" "is_replace_op v"
        "a = seq_of (the (jprop v ''start''))" "b = seq_of (the (jprop v ''end''))"
        using op Some by (auto simp: surface_op_of_def split: if_splits option.splits)
      obtain i j sh where r: "replacement_range st a b = Inr (i, j, sh)"
        and plan: "plan = Some (PlanReplace \<lparr>rep_seq = ev_seq e, rep_start = a, rep_end = b, rep_shadowed = sh\<rparr> i j)"
        using 1(1) op Some OpReplace by (auto simp: plan_surface_event_def result_simps split: if_splits)
      note R = replacement_range_Inr [OF r]
      show thesis
        by (rule spliced [OF surf v(1-3) R(1,2) R(3) [unfolded v(4)] R(4) [unfolded v(5)]])
          (simp add: 1(2) plan seq)
    qed
  qed
qed

lemma replay_off_surface:
  assumes "replay (es @ [e]) = Inr (st', reps', x')" and "replay es = Inr (st, reps, x)"
    and "ev_type e \<notin> set SURFACE_EVENT_TYPES"
  shows "nodes st' = nodes st"
  using assms(1,2)
proof (cases rule: replay_snoc_plan)
  case (1 plan)
  then have "plan = None"
    using assms(3)
    by (auto simp: plan_surface_event_def surface_op_of_def is_surface_eligible_type_def split: if_splits)
  then show ?thesis using 1 by simp
qed

lemma replay_replacement:
  assumes "replay (es @ [e]) = Inr (st', reps', x')" and "replay es = Inr (st, reps, x)"
    and "ev_type e \<in> set SURFACE_EVENT_TYPES" and "ev_surface_op e = Some (replace_op a b)"
  obtains i j where "i \<le> j" "j < length (nodes st)" "nodes st ! i = a" "nodes st ! j = b"
    "nodes st' = splice_one i j (int (length es)) (nodes st)"
    "replacement_range st a b = Inr (i, j, slice_incl i j (nodes st))"
  using assms(1,2)
proof (cases rule: replay_snoc_plan)
  case (1 plan)
  have op: "surface_op_of e = Inr (Some (OpReplace a b))"
  proof -
    have ev: "\<And>v. is_event_seq v \<Longrightarrow> True" by simp
    have "replace_op a b \<noteq> append_op" "is_record (replace_op a b)"
      by (simp_all add: replace_op_def append_op_def)
    then show ?thesis
      using 1(1) assms(3,4)
      by (auto simp: plan_surface_event_def surface_op_of_def is_surface_eligible_type_def replace_op_def
          result_simps split: if_splits)
  qed
  then obtain i j sh where r: "replacement_range st a b = Inr (i, j, sh)"
    and plan: "plan = Some (PlanReplace \<lparr>rep_seq = ev_seq e, rep_start = a, rep_end = b, rep_shadowed = sh\<rparr> i j)"
    and seq: "ev_seq e = int (length es)"
    using 1(1) by (auto simp: plan_surface_event_def result_simps split: if_splits)
  note R = replacement_range_Inr [OF r]
  show thesis
    using that [OF R(1-4)] r R(5) 1(2) plan seq by simp
qed

section \<open>Properties\<close>

text \<open>C4. Construction, every append (accepted or rejected) and every read keep the session
  well-formed: its log replays, its sequence numbers are the positions of the events, and all its
  caches are folds of a prefix of the log.\<close>

theorem session_invariant:
  "(construct_session mode sid seed h now = Inr s0 \<longrightarrow> session_ok s0) \<and>
   (session_ok s \<longrightarrow>
      session_ok (fst (append_event appending dispatch_ok now d intent s)) \<and>
      session_ok (fst (request_header s)) \<and> session_ok (fst (request_context_of s)) \<and>
      session_ok (fst (session_events s)) \<and> session_ok (fst (derive_messages s)))"
proof -
  have "session_ok (fst (derive_messages s))" if "session_ok s"
    using derive_messages_projection [OF that, of "fst (derive_messages s)" "snd (derive_messages s)"]
    by simp metis
  then show ?thesis
    using construct_session_ok(1) session_ok_append request_header_fold(2) request_context_fold(2)
      session_events_log(2)
    by (metis prod.collapse)
qed

text \<open>C2. An append is accepted exactly when it is not re-entrant (no other append of the session is
  being published), the listeners' dispatch does not fail, the data and the surface intent can be
  stored without loss, it is no legacy header event (a delta,
  or one with the fallback reason), and the surface accepts the
  event at the end of the log. It then adds exactly that one event at the end, with the data, the
  surface intent and the time it was given and its position as sequence number; a rejected append
  leaves the log as it was.\<close>

theorem append_commits_one:
  assumes "session_ok s" and "append_event appending dispatch_ok now d intent s = (s', r)"
  shows "(returns r \<longleftrightarrow>
      \<not> appending \<and> dispatch_ok \<and> json_lossless (data_json d) \<and>
      opt_lossless (fst intent) \<and> opt_lossless (snd intent) \<and>
      returns (assert_supported_request_header (event_type d) (data_json d)) \<and>
      returns (replay (ss_log s @ [build_event (ss_log s) d intent now]))) \<and>
    (case r of
      Inl err \<Rightarrow> ss_log s' = ss_log s
    | Inr e \<Rightarrow> ss_log s' = ss_log s @ [e] \<and> ev_seq e = int (length (ss_log s)) \<and> ev_data e = d \<and>
        ev_time e = now \<and> (ev_sources e, ev_surface_op e) = intent \<and> ev_type e = event_type d \<and>
        json_lossless (data_json d) \<and> \<not> appending \<and> returns (replay (ss_log s @ [e])))"
proof -
  have iff: "returns r \<longleftrightarrow> append_admitted appending dispatch_ok now d intent (ss_log s)"
    by (rule append_returns_iff [OF assms])
  from assms(2) have "case r of
      Inl err \<Rightarrow> ss_log s' = ss_log s
    | Inr e \<Rightarrow> ss_log s' = ss_log s @ [e] \<and> e = build_event (ss_log s) d intent now"
    by (cases rule: append_event_cases) (simp_all add: push_event_def)
  then show ?thesis
    using iff by (cases r) (auto simp: append_admitted_def build_event_def)
qed

text \<open>C1. The derived message history, however the cache got where it is, is the projection of the
  surface of the whole log, in surface order, without the events that derive to no message.\<close>

theorem derive_messages_is_projection:
  assumes "session_ok s"
  shows "\<exists>ns reps. fold_surface (ss_log s) = Inr (ns, reps) \<and>
    snd (derive_messages s) =
      Inr (List.map_filter (\<lambda>n. derive_event_message (ev_data (ss_log s ! nat n))) ns)"
proof -
  obtain s' r where d: "derive_messages s = (s', r)" by fastforce
  obtain st reps x where "replay (ss_log s) = Inr (st, reps, x)"
    "r = Inr (project_nodes (ss_log s) (nodes st))"
    using derive_messages_projection [OF assms d] by metis
  then show ?thesis using d by (auto simp: fold_surface_Inr replay_def project_nodes_def)
qed

text \<open>The incrementally maintained request header and request context are the folds of the whole
  log: the canonical form of the last logged header, and the last logged context.\<close>

theorem cached_request_folds:
  assumes "session_ok s"
  shows "snd (request_header s) =
      (if logged_headers (ss_log s) = [] then None
       else Some (canonical_header (last (logged_headers (ss_log s))))) \<and>
    snd (request_context_of s) = foldl context_step None (ss_log s)"
  using request_header_fold(1) [OF assms] request_context_fold(1) [OF assms]
  by (metis fold_request_header_last prod.collapse)


lemma seed_loop_append:
  "seed_loop mode i (es @ fs) s =
     and_then (seed_loop mode i es s) (\<lambda>s'. seed_loop mode (i + length es) fs s')"
proof (induction es arbitrary: i s)
  case (Cons e es)
  then show ?case by (cases "seed_one mode i e s") simp_all
qed simp

abbreviation seed_marker :: "session_event list \<Rightarrow> int \<Rightarrow> session_event" where
  "seed_marker es now \<equiv> build_event es EndSeed (None, None) now"

lemma seed_marker_json:
  "event_json (seed_marker es now) =
     JObj [(''type'', JStr ''session/end-seed''), (''seq'', jint (int (length es))),
           (''time'', jint now), (''data'', JObj [])]"
  by (simp add: event_json_def build_event_def flag_field_def)

lemma seed_marker_accepted:
  assumes "session_ok s" and "int (length (ss_log s)) \<le> max_safe" and "safe_int now"
  shows "\<exists>s'. seed_one mode (length (ss_log s)) (seed_marker (ss_log s) now) s = Inr s' \<and>
    ss_log s' = ss_log s @ [seed_marker (ss_log s) now] \<and> ss_header s' = ss_header s"
proof -
  let ?e = "seed_marker (ss_log s) now"
  obtain m where m: "validate_next (ss_log s) ?e (ss_surface s) = (m, None)"
    using end_seed_plan [OF assms(1)] by blast
  have seq: "safe_int (int (length (ss_log s)))" using assms(2) by (simp add: safe_int_def max_safe_def)
  have "json_lossless (event_json ?e)" by (simp add: seed_marker_json)
  moreover have "assert_session_event_envelope (event_json ?e) = Inr ()"
    using seq assms(3)
    by (simp add: seed_marker_json assert_session_event_envelope_def envelope_keys_def prop_str_def
        nonneg_safe_at_def has_own_def shape_checked_types_def)
  moreover have "assert_supported_request_header (ev_type ?e) (data_json (ev_data ?e)) = Inr ()"
    by (simp add: build_event_def assert_supported_request_header_def)
  moreover have "ev_seq ?e = int (length (ss_log s))" by (simp add: build_event_def)
  ultimately have "seed_one mode (length (ss_log s)) ?e s =
      Inr (s\<lparr>ss_surface := m, ss_log := ss_log s @ [?e]\<rparr>)"
    using m by (simp add: seed_one_def)
  then show ?thesis by simp
qed

text \<open>Reopening a session from its own log succeeds and yields the same log and header: the
  end-of-seed marker is added when the seed does not end in one and never a second time.\<close>

theorem reopen_keeps_log:
  assumes "construct_session mode sid (Some es) h now = Inr s"
    and "int (length es) \<le> max_safe" and "safe_int now"
  shows "\<exists>s'. construct_session mode sid (Some (ss_log s)) h later = Inr s' \<and>
    ss_log s' = ss_log s \<and> ss_header s' = h"
proof -
  obtain s1 where s1: "seed_log mode (Some es) h = Inr s1" "header_check mode sid h = Inr ()"
    using construct_session_Inr [OF assms(1)] by blast
  note L = seed_log_ok [OF s1(1)]
  have es: "ss_log s1 = es" using L(4) by simp
  have log: "ss_log s = (if ends_with_end_seed es then es else es @ [seed_marker es now])"
    using construct_session_ok(4) [OF assms(1)] by simp
  have "\<exists>s2. seed_log mode (Some (ss_log s)) h = Inr s2 \<and> ss_log s2 = ss_log s \<and> ss_header s2 = h"
  proof (cases "ends_with_end_seed es")
    case True
    then show ?thesis using log s1(1) es L(3) by simp
  next
    case False
    obtain s2 where "seed_one mode (length es) (seed_marker es now) s1 = Inr s2"
      "ss_log s2 = es @ [seed_marker es now]" "ss_header s2 = h"
      using seed_marker_accepted [OF L(1), of now mode] assms(2,3) es L(3) by auto
    then show ?thesis
      using s1(1) log False by (simp add: seed_log_def seed_loop_append)
  qed
  then obtain s2 where s2: "seed_log mode (Some (ss_log s)) h = Inr s2" "ss_log s2 = ss_log s"
    "ss_header s2 = h" by blast
  have "ends_with_end_seed (ss_log s)"
    using log by (auto simp: ends_with_end_seed_def build_event_def)
  then have "construct_session mode sid (Some (ss_log s)) h later =
      Inr (s2\<lparr>ss_first_live := length (ss_log s2)\<rparr>)"
    using s2(1,2) s1(2) by (cases mode) (simp_all add: construct_session_def)
  then show ?thesis using s2 by simp
qed

section \<open>Instances\<close>

text \<open>A session opened from a stored log.\<close>

definition example_log :: "session_event list" where
  "example_log =
     [example_event (UserMessage (example_prompt ''m0'')) 0 (Some append_op) None,
      example_event (RequestHeader (example_header None) ''initial'') 1 None None]"

definition example_opened :: "session_error + session_obj" where
  "example_opened = construct_session Snapshot ''s1'' (Some example_log) (synthesized_header ''s1'' 1000) 2000"

definition example_session :: session_obj where
  "example_session = (case example_opened of Inr s \<Rightarrow> s | Inl _ \<Rightarrow> blank_session (synthesized_header ''s1'' 1000))"

lemma example_session_opened:
  "construct_session Snapshot ''s1'' (Some example_log) (synthesized_header ''s1'' 1000) 2000 = Inr example_session"
proof -
  have "returns example_opened" by code_simp
  then show ?thesis by (auto simp: returns_iff example_session_def example_opened_def)
qed

lemma example_session_ok: "session_ok example_session"
  using construct_session_ok(1) [OF example_session_opened] .

theorem session_invariant_witness:
  "session_ok example_session \<and>
   session_ok (fst (append_event False True 2000 (TurnStart 1) (None, None) example_session)) \<and>
   session_ok (fst (derive_messages example_session))"
  using session_invariant [where mode = Snapshot and sid = "''s1''" and seed = "Some example_log"
      and h = "synthesized_header ''s1'' 1000" and now = 2000 and ?s0.0 = example_session
      and s = example_session and appending = False and dispatch_ok = True and d = "TurnStart 1"
      and intent = "(None, None)"]
    example_session_opened by simp

theorem append_commits_one_witness:
  "(\<exists>s' e. append_event False True 3000 (TurnStart 1) (None, None) example_session = (s', Inr e) \<and>
     ss_log s' = ss_log example_session @ [e] \<and> ev_seq e = 3) \<and>
   \<not> returns (snd (append_event True True 3000 (TurnStart 1) (None, None) example_session))"
proof -
  let ?a = "append_event False True 3000 (TurnStart 1) (None, None) example_session"
  have r: "returns (replay (ss_log example_session @ [build_event (ss_log example_session) (TurnStart 1) (None, None) 3000]))"
    "json_lossless (data_json (TurnStart 1))" "returns (assert_supported_request_header (event_type (TurnStart 1)) (data_json (TurnStart 1)))"
    "opt_lossless None" "length (ss_log example_session) = 3" by code_simp+
  have "returns (snd ?a)"
    using append_commits_one [OF example_session_ok prod.collapse [symmetric], where appending = False
        and dispatch_ok = True and now = 3000 and d = "TurnStart 1" and intent = "(None, None)"] r by simp
  then obtain s' e where a: "?a = (s', Inr e)" by (cases ?a) (auto simp: returns_iff)
  show ?thesis
    using append_commits_one [OF example_session_ok a] a r(5)
      append_commits_one [OF example_session_ok prod.collapse [symmetric], where appending = True
        and dispatch_ok = True and now = 3000 and d = "TurnStart 1" and intent = "(None, None)"] by simp
qed

theorem derive_messages_is_projection_witness:
  "\<exists>ns reps. fold_surface (ss_log example_session) = Inr (ns, reps) \<and>
     snd (derive_messages example_session) = Inr [example_prompt ''m0'']"
proof -
  have "snd (derive_messages example_session) = Inr [example_prompt ''m0'']" by code_simp
  then show ?thesis using derive_messages_is_projection [OF example_session_ok] by auto
qed

theorem cached_request_folds_witness:
  "snd (request_header example_session) = Some (canonical_header (example_header None)) \<and>
   snd (request_context_of example_session) = None"
proof -
  have "logged_headers (ss_log example_session) = [example_header None]"
    "foldl context_step None (ss_log example_session) = None" by code_simp+
  then show ?thesis using cached_request_folds [OF example_session_ok] by simp
qed

theorem reopen_keeps_log_witness:
  "\<exists>s'. construct_session Snapshot ''s1'' (Some (ss_log example_session)) (synthesized_header ''s1'' 1000) 9000
     = Inr s' \<and> ss_log s' = ss_log example_session"
  using reopen_keeps_log [OF example_session_opened, of 9000]
  by (auto simp: example_log_def max_safe_def safe_int_def)

end
