(* ===== verification/Session_Store.thy ===== *)
theory Session_Store
  imports Session_Log
begin

text \<open>
  The in-memory session store, class \<open>SessionStore\<close> of
  \<^verbatim>\<open>packages/core/session/src/index.ts\<close>, and forking. Sessions and store entries are
  mutable objects of the program with an identity, so both live in heaps and are named by their
  position; the store maps session ids to entries and \<open>attachments\<close> maps sessions to entries.

  Announcing a session and appending to an attached one run listeners in the middle. The model
  splits them there: \<open>announce\<close> and \<open>append_live\<close> stop where the listeners would run, any
  other operations may follow, and \<open>announce_end\<close> and \<open>append_end\<close> are the \<open>finally\<close>
  parts. The trace records what is published: the beginning of a creation announcement, the paired
  disposal, and every appended event of an attached session. Whether resolving a listener snapshot
  throws is an argument.
\<close>

section \<open>State\<close>

record session_entry =
  ent_id :: string
  ent_session :: nat
  ent_announced :: bool
  ent_announcing :: bool
  ent_appending :: bool
  ent_detach_requested :: bool
  ent_entered :: bool

datatype publication =
    Created nat
  | Disposed nat
  | Published nat nat session_event

record store_state =
  st_heap :: "session_obj list"
  st_entries :: "session_entry list"
  st_store :: "(string \<times> nat) list"
  st_attach :: "(nat \<times> nat) list"
  st_counter :: nat
  st_trace :: "publication list"

datatype store_error =
    AlreadyExists
  | AlreadyAttached
  | NotLive
  | AlreadyAnnounced
  | AnnounceDispatch
  | ConstructFailed session_error
  | AppendFailed session_error
  | ForkExists
  | ForkNotFound
  | ForkNotLive
  | ForkInvalidBoundary
  | ForkOpenTurn

definition empty_store :: store_state where
  "empty_store =
     \<lparr>st_heap = [], st_entries = [], st_store = [], st_attach = [], st_counter = 0, st_trace = []\<rparr>"

definition entry_of :: "store_state \<Rightarrow> nat \<Rightarrow> session_entry" where
  "entry_of st eh = st_entries st ! eh"

definition update_entry :: "nat \<Rightarrow> (session_entry \<Rightarrow> session_entry) \<Rightarrow> store_state \<Rightarrow> store_state" where
  "update_entry eh f st = st\<lparr>st_entries := (st_entries st)[eh := f (entry_of st eh)]\<rparr>"

definition publish :: "publication \<Rightarrow> store_state \<Rightarrow> store_state" where
  "publish p st = st\<lparr>st_trace := st_trace st @ [p]\<rparr>"

definition has_session :: "store_state \<Rightarrow> string \<Rightarrow> bool" where
  "has_session st sid \<longleftrightarrow> map_of (st_store st) sid \<noteq> None"

section \<open>Lookup\<close>

definition get_session :: "store_state \<Rightarrow> string \<Rightarrow> nat option" where
  "get_session st sid = map_option (\<lambda>eh. ent_session (entry_of st eh)) (map_of (st_store st) sid)"

definition list_sessions :: "store_state \<Rightarrow> nat list" where
  "list_sessions st = map (\<lambda>(sid, eh). ent_session (entry_of st eh)) (st_store st)"

definition live_entry_for :: "store_state \<Rightarrow> nat \<Rightarrow> store_error + nat" where
  "live_entry_for st h =
     (case map_of (st_attach st) h of
        None \<Rightarrow> Inl NotLive
      | Some eh \<Rightarrow>
          if map_of (st_store st) (ent_id (entry_of st eh)) \<noteq> Some eh then Inl NotLive else Inr eh)"

section \<open>Preparation\<close>

definition minted_name :: "nat \<Rightarrow> string" where
  "minted_name n = ''session-'' @ show_nat n"

interpretation minted: numbered_names minted_name
  by unfold_locales (simp add: minted_name_def show_nat_inj)

text \<open>\<open>do sessionId = `session-${++counter}` while (store.has(sessionId))\<close>: the counter after it.\<close>

function mint :: "(string \<times> nat) list \<Rightarrow> nat \<Rightarrow> nat" where
  "mint m counter =
     (let counter' = Suc counter in
      if map_of m (minted_name counter') \<noteq> None then mint m counter' else counter')"
  by pat_completeness auto
termination
proof (relation "measure (\<lambda>(m, c). card (minted.names_above (fst ` set m) c))", goal_cases)
  case 1
  then show ?case by simp
next
  case (2 m counter counter')
  then show ?case using minted.search_shrinks [of "fst ` set m" counter] by (simp add: map_of_eq_None_iff)
qed

declare mint.simps [simp del]

record session_meta =
  meta_created_at :: "jnum option"
  meta_cwd :: "string option"
  meta_parent :: "string option"
  meta_seed_length :: "jnum option"
  meta_origin :: "string option"
  meta_depth :: "jnum option"
  meta_preset :: "string option"
  meta_ephemeral :: "bool option"

definition no_meta :: session_meta where
  "no_meta =
     \<lparr>meta_created_at = None, meta_cwd = None, meta_parent = None, meta_seed_length = None,
      meta_origin = None, meta_depth = None, meta_preset = None, meta_ephemeral = None\<rparr>"

datatype prepare_options =
    Plain "session_event list option" session_meta
  | Persisted "session_event list" session_header

definition header_from_meta :: "string \<Rightarrow> session_meta \<Rightarrow> int \<Rightarrow> session_header" where
  "header_from_meta sid m now =
     \<lparr>sh_version = SESSION_FORMAT_VERSION, sh_id = sid,
      sh_created_at = (case meta_created_at m of Some n \<Rightarrow> n | None \<Rightarrow> NInt now),
      sh_cwd = meta_cwd m, sh_parent = meta_parent m, sh_seed_length = meta_seed_length m,
      sh_origin = meta_origin m, sh_depth = meta_depth m, sh_preset = meta_preset m,
      sh_ephemeral = meta_ephemeral m\<rparr>"

text \<open>Construction from the options: the ownership-transfer path, or a copy with a fresh header.\<close>

definition construct_prepared ::
  "string \<Rightarrow> prepare_options \<Rightarrow> int \<Rightarrow> int \<Rightarrow> session_error + session_obj" where
  "construct_prepared sid opts created now =
     (case opts of
        Persisted seed h \<Rightarrow> restore_session sid seed h now
      | Plain seed meta \<Rightarrow>
          create_session sid seed (Some (header_from_meta sid meta created)) created now)"

definition prepare_session ::
  "string option \<Rightarrow> prepare_options \<Rightarrow> int \<Rightarrow> int \<Rightarrow> store_state \<Rightarrow> store_state \<times> (store_error + nat)" where
  "prepare_session sid_opt opts created now st =
     (let (sid, st1) =
        (case sid_opt of
           None \<Rightarrow> let c = mint (st_store st) (st_counter st) in (minted_name c, st\<lparr>st_counter := c\<rparr>)
         | Some sid \<Rightarrow> (sid, st))
      in if has_session st1 sid then (st1, Inl AlreadyExists)
         else case construct_prepared sid opts created now of
           Inl err \<Rightarrow> (st1, Inl (ConstructFailed err))
         | Inr s \<Rightarrow> (st1\<lparr>st_heap := st_heap st1 @ [s]\<rparr>, Inr (length (st_heap st1))))"

section \<open>Entering, announcing and detaching\<close>

definition session_id :: "store_state \<Rightarrow> nat \<Rightarrow> string" where
  "session_id st h = sh_id (ss_header (st_heap st ! h))"

definition new_entry :: "string \<Rightarrow> nat \<Rightarrow> session_entry" where
  "new_entry sid h =
     \<lparr>ent_id = sid, ent_session = h, ent_announced = False, ent_announcing = False,
      ent_appending = False, ent_detach_requested = False, ent_entered = True\<rparr>"

definition enter_session :: "nat \<Rightarrow> store_state \<Rightarrow> store_state \<times> (store_error + nat)" where
  "enter_session h st =
     (let sid = session_id st h in
      if has_session st sid then (st, Inl AlreadyExists)
      else if map_of (st_attach st) h \<noteq> None then (st, Inl AlreadyAttached)
      else let eh = length (st_entries st) in
        (st\<lparr>st_entries := st_entries st @ [new_entry sid h],
            st_store := AList.update sid eh (st_store st),
            st_attach := AList.update h eh (st_attach st)\<rparr>, Inr eh))"

definition detach_entered :: "nat \<Rightarrow> store_state \<Rightarrow> store_state" where
  "detach_entered eh st =
     (let st1 = update_entry eh (\<lambda>e. e\<lparr>ent_detach_requested := False\<rparr>) st;
          e = entry_of st1 eh
      in if map_of (st_store st1) (ent_id e) \<noteq> Some eh then st1
         else let st2 = st1\<lparr>st_store := AList.delete (ent_id e) (st_store st1),
                            st_attach := AList.delete (ent_session e) (st_attach st1)\<rparr>
           in if ent_announced e then publish (Disposed eh) st2 else st2)"

text \<open>The single-shot detach capability \<open>enter\<close> returns.\<close>

definition detach :: "nat \<Rightarrow> store_state \<Rightarrow> store_state" where
  "detach eh st =
     (if \<not> ent_entered (entry_of st eh) then st
      else let st1 = update_entry eh (\<lambda>e. e\<lparr>ent_entered := False\<rparr>) st; e = entry_of st1 eh in
        if ent_announcing e \<or> ent_appending e
        then update_entry eh (\<lambda>e. e\<lparr>ent_detach_requested := True\<rparr>) st1
        else detach_entered eh st1)"

definition announce_end :: "nat \<Rightarrow> store_state \<Rightarrow> store_state" where
  "announce_end eh st =
     (let st1 = update_entry eh (\<lambda>e. e\<lparr>ent_announcing := False\<rparr>) st; e = entry_of st1 eh in
      if ent_detach_requested e \<and> \<not> ent_appending e then detach_entered eh st1 else st1)"

definition announce ::
  "nat \<Rightarrow> bool \<Rightarrow> store_state \<Rightarrow> store_state \<times> (store_error + nat)" where
  "announce h dispatch_ok st =
     (case live_entry_for st h of
        Inl err \<Rightarrow> (st, Inl err)
      | Inr eh \<Rightarrow>
          let e = entry_of st eh in
          if ent_announced e \<or> ent_announcing e then (st, Inl AlreadyAnnounced)
          else let st1 = publish (Created eh)
                 (update_entry eh (\<lambda>e. e\<lparr>ent_announced := True, ent_announcing := True\<rparr>) st) in
            if dispatch_ok then (st1, Inr eh) else (announce_end eh st1, Inl AnnounceDispatch))"

section \<open>Appending through the store\<close>

definition append_live ::
  "nat \<Rightarrow> bool \<Rightarrow> int \<Rightarrow> event_data \<Rightarrow> surface_intent \<Rightarrow> store_state
     \<Rightarrow> store_state \<times> (store_error + session_event)" where
  "append_live h dispatch_ok now d intent st =
     (let s = st_heap st ! h in
      case map_of (st_attach st) h of
        None \<Rightarrow>
          (case append_detached now d intent s of
             (s', Inl err) \<Rightarrow> (st\<lparr>st_heap := (st_heap st)[h := s']\<rparr>, Inl (AppendFailed err))
           | (s', Inr e) \<Rightarrow> (st\<lparr>st_heap := (st_heap st)[h := s']\<rparr>, Inr e))
      | Some eh \<Rightarrow>
          (case append_event (ent_appending (entry_of st eh)) dispatch_ok now d intent s of
             (s', Inl err) \<Rightarrow> (st\<lparr>st_heap := (st_heap st)[h := s']\<rparr>, Inl (AppendFailed err))
           | (s', Inr e) \<Rightarrow>
               (publish (Published eh h e)
                  (update_entry eh (\<lambda>x. x\<lparr>ent_appending := True\<rparr>)
                     (st\<lparr>st_heap := (st_heap st)[h := s']\<rparr>)), Inr e)))"

definition append_end :: "nat \<Rightarrow> store_state \<Rightarrow> store_state" where
  "append_end eh st =
     (let st1 = update_entry eh (\<lambda>e. e\<lparr>ent_appending := False\<rparr>) st; e = entry_of st1 eh in
      if ent_detach_requested e \<and> \<not> ent_announcing e then detach_entered eh st1 else st1)"

section \<open>Creation as one effect\<close>

text \<open>
  \<open>create\<close> up to the point where the creation listeners run, and its end: a throwing listener
  vetoes and rolls back through the yielded detach.
\<close>

definition create_live ::
  "string option \<Rightarrow> prepare_options \<Rightarrow> int \<Rightarrow> int \<Rightarrow> bool \<Rightarrow> store_state
     \<Rightarrow> store_state \<times> (store_error + nat \<times> nat)" where
  "create_live sid_opt opts created now dispatch_ok st =
     (case prepare_session sid_opt opts created now st of
        (st1, Inl err) \<Rightarrow> (st1, Inl err)
      | (st1, Inr h) \<Rightarrow>
        (case enter_session h st1 of
           (st2, Inl err) \<Rightarrow> (st2, Inl err)
         | (st2, Inr eh) \<Rightarrow>
           (case announce h dispatch_ok st2 of
              (st3, Inl err) \<Rightarrow> (detach eh st3, Inl err)
            | (st3, Inr _) \<Rightarrow> (st3, Inr (h, eh)))))"

definition create_end :: "nat \<Rightarrow> bool \<Rightarrow> store_state \<Rightarrow> store_state" where
  "create_end eh veto st = (let st1 = announce_end eh st in if veto then detach eh st1 else st1)"

section \<open>Forking\<close>

datatype fork_source = ById string | ByObject nat

definition resolve_fork_source :: "store_state \<Rightarrow> fork_source \<Rightarrow> store_error + nat" where
  "resolve_fork_source st src =
     (case src of
        ById sid \<Rightarrow> (case get_session st sid of None \<Rightarrow> Inl ForkNotFound | Some h \<Rightarrow> Inr h)
      | ByObject h \<Rightarrow>
          (case get_session st (session_id st h) of
             None \<Rightarrow> Inl ForkNotFound
           | Some live \<Rightarrow> if live \<noteq> h then Inl ForkNotLive else Inr h))"

fun is_turn_boundary :: "session_event \<Rightarrow> bool" where
  "is_turn_boundary e = (case ev_data e of TurnStart _ \<Rightarrow> True | TurnEnd _ _ \<Rightarrow> True | _ \<Rightarrow> False)"

definition find_last :: "('a \<Rightarrow> bool) \<Rightarrow> 'a list \<Rightarrow> 'a option" where
  "find_last P xs = find P (rev xs)"

definition fork_seed ::
  "session_event list \<Rightarrow> jnum option \<Rightarrow> store_error + session_event list" where
  "fork_seed events requested =
     (if requested = None \<and> events = [] then Inr []
      else let boundary = (case requested of Some b \<Rightarrow> b | None \<Rightarrow> NInt (ev_seq (last events))) in
        if \<not> is_safe_integer boundary \<or> num_int boundary < 0 then Inl ForkInvalidBoundary
        else if int (length events) \<le> num_int boundary then Inl ForkInvalidBoundary
        else let b = nat (num_int boundary) in
          if ev_seq (events ! b) \<noteq> num_int boundary then Inl ForkInvalidBoundary
          else case find_last is_turn_boundary (take (b + 1) events) of
            Some e \<Rightarrow> (case ev_data e of TurnStart _ \<Rightarrow> Inl ForkOpenTurn | _ \<Rightarrow> Inr (take (b + 1) events))
          | None \<Rightarrow> Inr (take (b + 1) events))"

definition fork_options :: "session_obj \<Rightarrow> session_event list \<Rightarrow> prepare_options" where
  "fork_options source seed =
     Plain (Some seed)
       (no_meta\<lparr>meta_cwd := sh_cwd (ss_header source), meta_parent := Some (sh_id (ss_header source)),
                meta_seed_length := Some (NInt (int (length seed)))\<rparr>)"

definition fork_live ::
  "fork_source \<Rightarrow> jnum option \<Rightarrow> string option \<Rightarrow> int \<Rightarrow> int \<Rightarrow> bool \<Rightarrow> store_state
     \<Rightarrow> store_state \<times> (store_error + nat \<times> nat)" where
  "fork_live src boundary child created now dispatch_ok st =
     (if (case child of Some c \<Rightarrow> get_session st c \<noteq> None | None \<Rightarrow> False) then (st, Inl ForkExists)
      else case resolve_fork_source st src of
        Inl err \<Rightarrow> (st, Inl err)
      | Inr h \<Rightarrow>
        (case fork_seed (ss_log (st_heap st ! h)) boundary of
           Inl err \<Rightarrow> (st, Inl err)
         | Inr seed \<Rightarrow>
             create_live child (fork_options (st_heap st ! h) seed) created now dispatch_ok st))"


section \<open>The store invariant\<close>

definition live :: "store_state \<Rightarrow> nat \<Rightarrow> bool" where
  "live st eh \<longleftrightarrow> map_of (st_store st) (ent_id (entry_of st eh)) = Some eh"

fun about_entry :: "nat \<Rightarrow> publication \<Rightarrow> bool" where
  "about_entry eh (Created x) = (x = eh)"
| "about_entry eh (Disposed x) = (x = eh)"
| "about_entry eh (Published _ _ _) = False"

definition lifecycle :: "nat \<Rightarrow> publication list \<Rightarrow> publication list" where
  "lifecycle eh tr = filter (about_entry eh) tr"

lemma lifecycle_snoc [simp]:
  "lifecycle eh (tr @ [p]) = lifecycle eh tr @ (if about_entry eh p then [p] else [])"
  by (simp add: lifecycle_def)

definition entry_ok :: "store_state \<Rightarrow> nat \<Rightarrow> bool" where
  "entry_ok st eh \<longleftrightarrow>
     (let e = entry_of st eh in
      ent_session e < length (st_heap st) \<and> ent_id e = session_id st (ent_session e) \<and>
      (live st eh \<longrightarrow> map_of (st_attach st) (ent_session e) = Some eh) \<and>
      lifecycle eh (st_trace st) =
        (if ent_announced e then Created eh # (if live st eh then [] else [Disposed eh]) else []))"

definition core_inv :: "store_state \<Rightarrow> bool" where
  "core_inv st \<longleftrightarrow>
     good_map (st_store st) \<and> good_map (st_attach st) \<and>
     (\<forall>sid eh. map_of (st_store st) sid = Some eh \<longrightarrow>
        eh < length (st_entries st) \<and> ent_id (entry_of st eh) = sid) \<and>
     (\<forall>h eh. map_of (st_attach st) h = Some eh \<longrightarrow>
        eh < length (st_entries st) \<and> ent_session (entry_of st eh) = h \<and> live st eh) \<and>
     (\<forall>eh < length (st_entries st). entry_ok st eh) \<and>
     (\<forall>eh \<ge> length (st_entries st). lifecycle eh (st_trace st) = []) \<and>
     (\<forall>s \<in> set (st_heap st). session_ok s)"

text \<open>How the flags of an entry relate to its being live.\<close>

definition flags_ok :: "bool \<Rightarrow> session_entry \<Rightarrow> bool" where
  "flags_ok lv e \<longleftrightarrow>
     (ent_announcing e \<longrightarrow> ent_announced e) \<and>
     (ent_announcing e \<or> ent_appending e \<longrightarrow> lv) \<and>
     (\<not> lv \<longrightarrow> \<not> ent_entered e) \<and>
     (ent_detach_requested e \<longleftrightarrow> lv \<and> \<not> ent_entered e) \<and>
     (lv \<and> \<not> ent_entered e \<longrightarrow> ent_announcing e \<or> ent_appending e)"

definition store_inv :: "store_state \<Rightarrow> bool" where
  "store_inv st \<longleftrightarrow>
     core_inv st \<and> (\<forall>eh < length (st_entries st). flags_ok (live st eh) (entry_of st eh))"

section \<open>Flag updates\<close>

definition keeps_identity :: "(session_entry \<Rightarrow> session_entry) \<Rightarrow> bool" where
  "keeps_identity f \<longleftrightarrow>
     (\<forall>e. ent_id (f e) = ent_id e \<and> ent_session (f e) = ent_session e \<and>
        ent_announced (f e) = ent_announced e)"

lemma keeps_identity_flags [simp]:
  "keeps_identity (\<lambda>e. e\<lparr>ent_announcing := b\<rparr>)" "keeps_identity (\<lambda>e. e\<lparr>ent_appending := b\<rparr>)"
  "keeps_identity (\<lambda>e. e\<lparr>ent_detach_requested := b\<rparr>)" "keeps_identity (\<lambda>e. e\<lparr>ent_entered := b\<rparr>)"
  by (simp_all add: keeps_identity_def)

lemma update_entry_fields [simp]:
  "st_heap (update_entry eh f st) = st_heap st" "st_store (update_entry eh f st) = st_store st"
  "st_attach (update_entry eh f st) = st_attach st" "st_trace (update_entry eh f st) = st_trace st"
  "st_counter (update_entry eh f st) = st_counter st"
  "length (st_entries (update_entry eh f st)) = length (st_entries st)"
  by (simp_all add: update_entry_def)

lemma publish_fields [simp]:
  "st_heap (publish p st) = st_heap st" "st_store (publish p st) = st_store st"
  "st_attach (publish p st) = st_attach st" "st_trace (publish p st) = st_trace st @ [p]"
  "st_counter (publish p st) = st_counter st" "st_entries (publish p st) = st_entries st"
  "entry_of (publish p st) eh = entry_of st eh" "live (publish p st) eh = live st eh"
  "session_id (publish p st) h = session_id st h"
  by (simp_all add: publish_def entry_of_def live_def session_id_def)

lemma entry_of_update:
  "eh < length (st_entries st) \<Longrightarrow>
     entry_of (update_entry eh f st) eh' = (if eh' = eh then f (entry_of st eh) else entry_of st eh')"
  by (simp add: update_entry_def entry_of_def)

lemma identity_update:
  assumes "keeps_identity f" "eh < length (st_entries st)"
  shows "ent_id (entry_of (update_entry eh f st) eh') = ent_id (entry_of st eh')"
    "ent_session (entry_of (update_entry eh f st) eh') = ent_session (entry_of st eh')"
    "ent_announced (entry_of (update_entry eh f st) eh') = ent_announced (entry_of st eh')"
    "live (update_entry eh f st) eh' = live st eh'"
    "session_id (update_entry eh f st) h = session_id st h"
  using assms by (simp_all add: keeps_identity_def entry_of_update live_def session_id_def)

lemma core_inv_update:
  assumes "core_inv st" "keeps_identity f" "eh < length (st_entries st)"
  shows "core_inv (update_entry eh f st)"
  using assms(1) unfolding core_inv_def entry_ok_def Let_def
  by (simp add: identity_update [OF assms(2,3)])

text \<open>Removing an entry from the store, whatever its flags.\<close>

definition without_entry :: "nat \<Rightarrow> store_state \<Rightarrow> store_state" where
  "without_entry eh st =
     st\<lparr>st_store := AList.delete (ent_id (entry_of st eh)) (st_store st),
        st_attach := AList.delete (ent_session (entry_of st eh)) (st_attach st)\<rparr>"

lemma without_entry_fields [simp]:
  "st_heap (without_entry eh st) = st_heap st" "st_entries (without_entry eh st) = st_entries st"
  "st_trace (without_entry eh st) = st_trace st" "entry_of (without_entry eh st) x = entry_of st x"
  "session_id (without_entry eh st) h = session_id st h"
  by (simp_all add: without_entry_def entry_of_def session_id_def)

lemma without_entry_live:
  assumes "core_inv st" "live st eh"
  shows "live (without_entry eh st) x \<longleftrightarrow> live st x \<and> x \<noteq> eh"
  using assms by (auto simp: live_def without_entry_def entry_of_def js_map.get_remove)

lemma without_entry_attach:
  "map_of (st_attach (without_entry eh st)) h =
     (if h = ent_session (entry_of st eh) then None else map_of (st_attach st) h)"
  by (simp add: without_entry_def js_map.get_remove)

lemma core_inv_without:
  assumes inv: "core_inv st" and eh: "eh < length (st_entries st)" and lv: "live st eh"
  defines "st' \<equiv> (if ent_announced (entry_of st eh) then publish (Disposed eh) (without_entry eh st)
                   else without_entry eh st)"
  shows "core_inv st'" and "live st' x \<longleftrightarrow> live st x \<and> x \<noteq> eh"
    and "entry_of st' x = entry_of st x" and "length (st_entries st') = length (st_entries st)"
    and "st_heap st' = st_heap st"
proof -
  let ?w = "without_entry eh st"
  show lv': "live st' x \<longleftrightarrow> live st x \<and> x \<noteq> eh" for x
    using without_entry_live [OF inv lv] by (simp add: st'_def)
  show e': "entry_of st' x = entry_of st x" and "length (st_entries st') = length (st_entries st)"
    and "st_heap st' = st_heap st" for x
    by (simp_all add: st'_def)
  have att: "map_of (st_attach st') h =
      (if h = ent_session (entry_of st eh) then None else map_of (st_attach st) h)" for h
    using without_entry_attach by (simp add: st'_def)
  have store: "map_of (st_store st') sid =
      (if sid = ent_id (entry_of st eh) then None else map_of (st_store st) sid)" for sid
    by (simp add: st'_def without_entry_def js_map.get_remove)
  have good: "good_map (st_store st')" "good_map (st_attach st')"
    using inv by (simp_all add: st'_def core_inv_def without_entry_def)
  have attached: "map_of (st_attach st) (ent_session (entry_of st x)) = Some x"
    if "x < length (st_entries st)" "live st x" for x
    using inv that by (auto simp: core_inv_def entry_ok_def Let_def)
  have entries: "entry_ok st' x" if x: "x < length (st_entries st)" for x
  proof -
    have old: "entry_ok st x" using inv x by (simp add: core_inv_def)
    have "ent_session (entry_of st x) \<noteq> ent_session (entry_of st eh)" if "live st x" "x \<noteq> eh"
      using attached [OF eh lv] attached [OF x that(1)] that(2) by auto
    then show ?thesis
      using old lv by (auto simp: entry_ok_def Let_def lv' e' att)
        (auto simp: st'_def split: if_splits)
  qed
  have late: "lifecycle x (st_trace st') = []" if "length (st_entries st) \<le> x" for x
    using inv that eh by (auto simp: core_inv_def st'_def)
  show "core_inv st'"
    unfolding core_inv_def
  proof (intro conjI allI impI)
    fix sid x assume "map_of (st_store st') sid = Some x"
    then have "map_of (st_store st) sid = Some x" using store by (simp split: if_splits)
    then show "x < length (st_entries st')" "ent_id (entry_of st' x) = sid"
      using inv by (auto simp: core_inv_def e') (auto simp: st'_def)
  next
    fix h x assume a: "map_of (st_attach st') h = Some x"
    then have "map_of (st_attach st) h = Some x" "h \<noteq> ent_session (entry_of st eh)"
      using att by (auto split: if_splits)
    then have "x < length (st_entries st)" "ent_session (entry_of st x) = h" "live st x" "x \<noteq> eh"
      using inv by (auto simp: core_inv_def)
    then show "x < length (st_entries st')" "ent_session (entry_of st' x) = h" "live st' x"
      using lv' e' by (auto simp: st'_def)
  next
    show "\<forall>s \<in> set (st_heap st'). session_ok s" using inv by (simp add: core_inv_def st'_def)
  qed (use good entries late eh in \<open>auto simp: st'_def split: if_splits\<close>)
qed

lemma detach_entered_effect:
  assumes inv: "core_inv st" and eh: "eh < length (st_entries st)"
  shows "core_inv (detach_entered eh st)"
    and "entry_of (detach_entered eh st) x =
      (if x = eh then (entry_of st eh)\<lparr>ent_detach_requested := False\<rparr> else entry_of st x)"
    and "live (detach_entered eh st) x \<longleftrightarrow> live st x \<and> x \<noteq> eh"
    and "length (st_entries (detach_entered eh st)) = length (st_entries st)"
    and "st_heap (detach_entered eh st) = st_heap st"
proof -
  let ?u = "update_entry eh (\<lambda>e. e\<lparr>ent_detach_requested := False\<rparr>) st"
  have u: "core_inv ?u" "eh < length (st_entries ?u)"
    using core_inv_update [OF inv _ eh] eh by simp_all
  have lv: "live ?u x \<longleftrightarrow> live st x" for x using identity_update(4) eh by simp
  have e: "entry_of ?u x =
      (if x = eh then (entry_of st eh)\<lparr>ent_detach_requested := False\<rparr> else entry_of st x)" for x
    using entry_of_update [OF eh] by simp
  have d: "detach_entered eh st =
      (if live ?u eh then
         (if ent_announced (entry_of ?u eh) then publish (Disposed eh) (without_entry eh ?u)
          else without_entry eh ?u)
       else ?u)"
    by (simp add: detach_entered_def Let_def live_def without_entry_def)
  show "core_inv (detach_entered eh st)"
    "entry_of (detach_entered eh st) x =
      (if x = eh then (entry_of st eh)\<lparr>ent_detach_requested := False\<rparr> else entry_of st x)"
    "live (detach_entered eh st) x \<longleftrightarrow> live st x \<and> x \<noteq> eh"
    "length (st_entries (detach_entered eh st)) = length (st_entries st)"
    "st_heap (detach_entered eh st) = st_heap st"
    using u core_inv_without [OF u] lv e unfolding d by (cases "live ?u eh"; auto)+
qed


section \<open>Every operation keeps the invariant\<close>

lemma store_invD:
  assumes "store_inv st"
  shows "core_inv st" "eh < length (st_entries st) \<Longrightarrow> flags_ok (live st eh) (entry_of st eh)"
  using assms by (simp_all add: store_inv_def)

lemma store_invI:
  assumes "core_inv st"
    and "\<And>eh. eh < length (st_entries st) \<Longrightarrow> flags_ok (live st eh) (entry_of st eh)"
  shows "store_inv st"
  using assms by (simp add: store_inv_def)

lemma core_inv_entry: "core_inv st \<Longrightarrow> x < length (st_entries st) \<Longrightarrow> entry_ok st x"
  by (simp add: core_inv_def)

text \<open>A flag update followed, under a condition, by the removal of the entry.\<close>

lemma store_inv_update:
  assumes inv: "store_inv st" and eh: "eh < length (st_entries st)" and f: "keeps_identity f"
    and keep: "\<not> rm \<Longrightarrow> flags_ok (live st eh) (f (entry_of st eh))"
    and gone: "rm \<Longrightarrow> flags_ok False ((f (entry_of st eh))\<lparr>ent_detach_requested := False\<rparr>)"
  shows "store_inv (if rm then detach_entered eh (update_entry eh f st) else update_entry eh f st)"
proof -
  let ?u = "update_entry eh f st"
  note I = store_invD [OF inv]
  have u: "core_inv ?u" "eh < length (st_entries ?u)" using core_inv_update [OF I(1) f eh] eh by simp_all
  have lv: "live ?u x = live st x" for x using identity_update(4) [OF f eh] .
  have e: "entry_of ?u x = (if x = eh then f (entry_of st eh) else entry_of st x)" for x
    using entry_of_update [OF eh] .
  show ?thesis
  proof (cases rm)
    case True
    note D = detach_entered_effect [OF u]
    have "store_inv (detach_entered eh ?u)"
    proof (rule store_invI)
      fix x assume "x < length (st_entries (detach_entered eh ?u))"
      then have x: "x < length (st_entries st)" by (simp add: D(4))
      show "flags_ok (live (detach_entered eh ?u) x) (entry_of (detach_entered eh ?u) x)"
        unfolding D(2,3) lv e using I(2) [OF x] gone [OF True] by simp
    qed (rule D(1))
    then show ?thesis using True by simp
  next
    case False
    have "store_inv ?u"
      using u(1) I(2) keep [OF False] by (intro store_invI) (simp_all add: lv e)
    then show ?thesis using False by simp
  qed
qed

lemma store_inv_detach:
  assumes "store_inv st" "eh < length (st_entries st)"
  shows "store_inv (detach eh st)"
proof (cases "ent_entered (entry_of st eh)")
  case False
  then show ?thesis using assms(1) by (simp add: detach_def)
next
  case True
  let ?f = "\<lambda>e. e\<lparr>ent_entered := False\<rparr>" and ?g = "\<lambda>e. e\<lparr>ent_detach_requested := True\<rparr>"
  note F = store_invD(2) [OF assms]
  have e: "entry_of (update_entry eh ?f st) eh = ?f (entry_of st eh)"
    by (simp add: entry_of_update [OF assms(2)])
  show ?thesis
  proof (cases "ent_announcing (entry_of st eh) \<or> ent_appending (entry_of st eh)")
    case False
    then have "detach eh st = (if True then detach_entered eh (update_entry eh ?f st) else update_entry eh ?f st)"
      using True e by (simp add: detach_def Let_def)
    moreover have "store_inv \<dots>"
      using F False True by (intro store_inv_update assms) (auto simp: flags_ok_def)
    ultimately show ?thesis by simp
  next
    case busy: True
    have "update_entry eh ?g (update_entry eh ?f st) = update_entry eh (\<lambda>e. ?g (?f e)) st"
      using assms(2) by (simp add: update_entry_def entry_of_def)
    then have "detach eh st =
        (if False then detach_entered eh (update_entry eh (\<lambda>e. ?g (?f e)) st)
         else update_entry eh (\<lambda>e. ?g (?f e)) st)"
      using True busy e by (simp add: detach_def Let_def)
    moreover have "store_inv \<dots>"
      using F busy True
      by (intro store_inv_update assms) (auto simp: flags_ok_def keeps_identity_def)
    ultimately show ?thesis by simp
  qed
qed

lemma store_inv_announce_end:
  assumes "store_inv st" "eh < length (st_entries st)"
  shows "store_inv (announce_end eh st)"
proof -
  let ?f = "\<lambda>e. e\<lparr>ent_announcing := False\<rparr>"
  let ?rm = "ent_detach_requested (entry_of st eh) \<and> \<not> ent_appending (entry_of st eh)"
  have "announce_end eh st =
      (if ?rm then detach_entered eh (update_entry eh ?f st) else update_entry eh ?f st)"
    by (simp add: announce_end_def Let_def entry_of_update [OF assms(2)])
  moreover have "store_inv \<dots>"
    using store_invD(2) [OF assms] by (intro store_inv_update assms) (auto simp: flags_ok_def)
  ultimately show ?thesis by simp
qed

lemma store_inv_append_end:
  assumes "store_inv st" "eh < length (st_entries st)"
  shows "store_inv (append_end eh st)"
proof -
  let ?f = "\<lambda>e. e\<lparr>ent_appending := False\<rparr>"
  let ?rm = "ent_detach_requested (entry_of st eh) \<and> \<not> ent_announcing (entry_of st eh)"
  have "append_end eh st =
      (if ?rm then detach_entered eh (update_entry eh ?f st) else update_entry eh ?f st)"
    by (simp add: append_end_def Let_def entry_of_update [OF assms(2)])
  moreover have "store_inv \<dots>"
    using store_invD(2) [OF assms] by (intro store_inv_update assms) (auto simp: flags_ok_def)
  ultimately show ?thesis by simp
qed


lemma live_entry_for_Inr:
  assumes "core_inv st" "live_entry_for st h = Inr eh"
  shows "eh < length (st_entries st)" "live st eh" "ent_session (entry_of st eh) = h"
    "map_of (st_attach st) h = Some eh"
  using assms by (auto simp: live_entry_for_def core_inv_def split: option.splits if_splits)

definition begin_announcement :: "nat \<Rightarrow> store_state \<Rightarrow> store_state" where
  "begin_announcement eh st =
     publish (Created eh) (update_entry eh (\<lambda>e. e\<lparr>ent_announced := True, ent_announcing := True\<rparr>) st)"

lemma begin_announcement_fields:
  assumes "eh < length (st_entries st)"
  shows "entry_of (begin_announcement eh st) x =
      (if x = eh then (entry_of st eh)\<lparr>ent_announced := True, ent_announcing := True\<rparr> else entry_of st x)"
    and "live (begin_announcement eh st) x = live st x"
    and "st_heap (begin_announcement eh st) = st_heap st"
    and "length (st_entries (begin_announcement eh st)) = length (st_entries st)"
    and "st_store (begin_announcement eh st) = st_store st"
    and "st_attach (begin_announcement eh st) = st_attach st"
    and "st_trace (begin_announcement eh st) = st_trace st @ [Created eh]"
    and "session_id (begin_announcement eh st) h = session_id st h"
proof -
  show e: "entry_of (begin_announcement eh st) x =
      (if x = eh then (entry_of st eh)\<lparr>ent_announced := True, ent_announcing := True\<rparr> else entry_of st x)" for x
    using entry_of_update [OF assms] by (simp add: begin_announcement_def)
  show "st_store (begin_announcement eh st) = st_store st" by (simp add: begin_announcement_def)
  then show "live (begin_announcement eh st) x = live st x" using e by (simp add: live_def)
qed (simp_all add: begin_announcement_def session_id_def)

lemma store_inv_begin_announcement:
  assumes inv: "store_inv st" and eh: "eh < length (st_entries st)" and lv: "live st eh"
    and fresh: "\<not> ent_announced (entry_of st eh)"
  shows "store_inv (begin_announcement eh st)"
proof (rule store_invI)
  note I = store_invD [OF inv] and F = begin_announcement_fields [OF eh]
  have ids: "ent_id (entry_of (begin_announcement eh st) x) = ent_id (entry_of st x)"
    "ent_session (entry_of (begin_announcement eh st) x) = ent_session (entry_of st x)" for x
    by (simp_all add: F(1))
  have "entry_ok (begin_announcement eh st) x" if "x < length (st_entries st)" for x
  proof -
    have "entry_ok st x" using I(1) that by (simp add: core_inv_def)
    then show ?thesis
      using lv fresh by (auto simp: entry_ok_def Let_def ids F split: if_splits)
  qed
  then show "core_inv (begin_announcement eh st)"
    using I(1) eh unfolding core_inv_def F(2-8) ids by (simp add: F)
  fix x assume "x < length (st_entries (begin_announcement eh st))"
  then show "flags_ok (live (begin_announcement eh st) x) (entry_of (begin_announcement eh st) x)"
    using I(2) [of x] lv unfolding F(1,2,4) by (auto simp: flags_ok_def)
qed

lemma store_inv_announce:
  assumes inv: "store_inv st" and a: "announce h ok st = (st', r)"
  shows "store_inv st'"
proof (cases "live_entry_for st h")
  case (Inl err)
  then show ?thesis using a inv by (simp add: announce_def)
next
  case (Inr eh)
  note L = live_entry_for_Inr [OF store_invD(1) [OF inv] Inr]
  show ?thesis
  proof (cases "ent_announced (entry_of st eh) \<or> ent_announcing (entry_of st eh)")
    case True
    then show ?thesis using a Inr inv by (simp add: announce_def Let_def)
  next
    case False
    then have "st' = (if ok then begin_announcement eh st else announce_end eh (begin_announcement eh st))"
      using a Inr by (simp add: announce_def Let_def begin_announcement_def split: if_splits)
    then show ?thesis
      using store_inv_begin_announcement [OF inv L(1,2)] False L(1)
      by (simp add: store_inv_announce_end begin_announcement_fields)
  qed
qed

lemma session_id_append: "h < length (st_heap st) \<Longrightarrow>
    session_id (st\<lparr>st_heap := st_heap st @ [s]\<rparr>) h = session_id st h"
  by (simp add: session_id_def nth_append)

lemma store_inv_new_session:
  assumes inv: "store_inv st" and s: "session_ok s"
  shows "store_inv (st\<lparr>st_heap := st_heap st @ [s]\<rparr>)"
proof -
  let ?t = "st\<lparr>st_heap := st_heap st @ [s]\<rparr>"
  have e: "entry_of ?t x = entry_of st x" "live ?t x = live st x" for x
    by (simp_all add: entry_of_def live_def)
  have "entry_ok ?t x" if "x < length (st_entries st)" for x
    using core_inv_entry [OF store_invD(1) [OF inv] that]
    by (simp add: entry_ok_def Let_def e session_id_append)
  then show ?thesis
    using inv s by (simp add: store_inv_def core_inv_def e)
qed

lemma store_inv_counter: "store_inv (st\<lparr>st_counter := c\<rparr>) \<longleftrightarrow> store_inv st"
proof -
  have e: "entry_of (st\<lparr>st_counter := c\<rparr>) x = entry_of st x"
    "live (st\<lparr>st_counter := c\<rparr>) x = live st x" "session_id (st\<lparr>st_counter := c\<rparr>) h = session_id st h" for x h
    by (simp_all add: entry_of_def live_def session_id_def)
  show ?thesis by (simp add: store_inv_def core_inv_def entry_ok_def Let_def e)
qed

lemma construct_ok_of_options: "construct_prepared sid opts created now = Inr s \<Longrightarrow> session_ok s"
  by (cases opts) (auto simp: construct_prepared_def restore_session_def create_session_def
      intro: construct_session_ok(1))

lemma store_inv_prepare:
  assumes "store_inv st" and "prepare_session sid opts created now st = (st', r)"
  shows "store_inv st'" and "r = Inr h \<Longrightarrow> h < length (st_heap st')"
    and "length (st_entries st') = length (st_entries st)"
  using assms construct_ok_of_options store_inv_new_session [of st]
    store_inv_new_session [of "st\<lparr>st_counter := mint (st_store st) (st_counter st)\<rparr>"]
  by (auto simp: prepare_session_def Let_def store_inv_counter
      split: option.splits if_splits sum.splits)

lemma store_inv_enter:
  assumes inv: "store_inv st" and h: "h < length (st_heap st)"
    and a: "enter_session h st = (st', r)"
  shows "store_inv st'" and "r = Inr eh \<Longrightarrow> eh < length (st_entries st')"
proof -
  let ?sid = "session_id st h" and ?eh = "length (st_entries st)"
  have "store_inv st' \<and> (r = Inr eh \<longrightarrow> eh < length (st_entries st'))"
  proof (cases "has_session st ?sid \<or> map_of (st_attach st) h \<noteq> None")
    case True
    then show ?thesis using a inv by (auto simp: enter_session_def Let_def split: if_splits)
  next
    case False
    then have st': "st' = st\<lparr>st_entries := st_entries st @ [new_entry ?sid h],
        st_store := AList.update ?sid ?eh (st_store st), st_attach := AList.update h ?eh (st_attach st)\<rparr>"
      and r: "r = Inr ?eh"
      using a by (auto simp: enter_session_def Let_def split: if_splits)
    note I = store_invD [OF inv]
    have e: "entry_of st' x = (if x = ?eh then new_entry ?sid h else entry_of st x)" if "x \<le> ?eh" for x
      using that by (simp add: st' entry_of_def nth_append)
    have fresh: "map_of (st_store st) ?sid = None" "map_of (st_attach st) h = None"
      using False by (simp_all add: has_session_def)
    have store: "map_of (st_store st') x = (if x = ?sid then Some ?eh else map_of (st_store st) x)"
      "map_of (st_attach st') y = (if y = h then Some ?eh else map_of (st_attach st) y)" for x y
      by (simp_all add: st' js_map.get_put)
    have dom: "map_of (st_store st) x = Some y \<Longrightarrow> y < ?eh" "map_of (st_attach st) z = Some y \<Longrightarrow> y < ?eh" for x y z
      using I(1) by (auto simp: core_inv_def)
    have lv: "live st' x \<longleftrightarrow> x = ?eh \<or> live st x \<and> x < ?eh" if "x \<le> ?eh" for x
      using that fresh dom(1) by (auto simp: live_def e store new_entry_def)
    have sid: "session_id st' x = session_id st x" for x by (simp add: st' session_id_def)
    have old: "entry_ok st' x" if "x < ?eh" for x
    proof -
      have "entry_ok st x" using I(1) that by (simp add: core_inv_def)
      moreover have "live st x \<Longrightarrow> ent_session (entry_of st x) \<noteq> h"
        using \<open>entry_ok st x\<close> fresh(2) by (auto simp: entry_ok_def Let_def)
      ultimately show ?thesis
        using that by (auto simp: entry_ok_def Let_def e lv store sid) (simp_all add: st')
    qed
    have new: "entry_ok st' ?eh"
      using h I(1) by (simp add: entry_ok_def Let_def e lv store sid)
        (simp add: st' new_entry_def core_inv_def)
    have len: "length (st_entries st') = Suc ?eh" by (simp add: st')
    have "core_inv st'"
      unfolding core_inv_def
    proof (intro conjI allI impI)
      show "good_map (st_store st')" "good_map (st_attach st')"
        using I(1) by (simp_all add: st' core_inv_def)
    next
      fix x y assume "map_of (st_store st') x = Some y"
      then have "x = ?sid \<and> y = ?eh \<or> map_of (st_store st) x = Some y \<and> y < ?eh"
        using store(1) dom(1) by (auto split: if_splits)
      then show "y < length (st_entries st')" "ent_id (entry_of st' y) = x"
        using I(1) e [of y] by (auto simp: len new_entry_def core_inv_def)
    next
      fix x y assume "map_of (st_attach st') x = Some y"
      then have "x = h \<and> y = ?eh \<or> map_of (st_attach st) x = Some y \<and> y < ?eh"
        using store(2) dom(2) by (auto split: if_splits)
      then show "y < length (st_entries st')" "ent_session (entry_of st' y) = x" "live st' y"
        using I(1) e [of y] lv [of y] by (auto simp: len new_entry_def core_inv_def)
    next
      fix x assume "x < length (st_entries st')"
      then show "entry_ok st' x" using old new len less_Suc_eq by auto
    next
      fix x assume "length (st_entries st') \<le> x"
      then show "lifecycle x (st_trace st') = []" using I(1) len by (simp add: core_inv_def st')
    next
      show "\<forall>s \<in> set (st_heap st'). session_ok s" using I(1) by (simp add: core_inv_def st')
    qed
    moreover have "flags_ok (live st' x) (entry_of st' x)" if "x < Suc ?eh" for x
      using that I(2) [of x] by (cases "x = ?eh") (auto simp: e lv new_entry_def flags_ok_def)
    ultimately show ?thesis using r len by (simp add: store_inv_def)
  qed
  then show "store_inv st'" "r = Inr eh \<Longrightarrow> eh < length (st_entries st')" by blast+
qed


lemma append_event_keeps:
  assumes "append_event appending ok now d intent s = (s', r)"
  shows "ss_header s' = ss_header s" "ss_first_live s' = ss_first_live s"
  using assms by (cases rule: append_event_cases; simp add: push_event_def)+

definition set_session :: "nat \<Rightarrow> session_obj \<Rightarrow> store_state \<Rightarrow> store_state" where
  "set_session h s st = st\<lparr>st_heap := (st_heap st)[h := s]\<rparr>"

lemma set_session_fields [simp]:
  "st_entries (set_session h s st) = st_entries st" "st_store (set_session h s st) = st_store st"
  "st_attach (set_session h s st) = st_attach st" "st_trace (set_session h s st) = st_trace st"
  "st_heap (set_session h s st) = (st_heap st)[h := s]"
  "entry_of (set_session h s st) x = entry_of st x" "live (set_session h s st) x = live st x"
  by (simp_all add: set_session_def entry_of_def live_def)

lemma store_inv_set_session:
  assumes inv: "store_inv st" and s: "session_ok s" and hd: "ss_header s = ss_header (st_heap st ! h)"
  shows "store_inv (set_session h s st)"
proof -
  have sid: "session_id (set_session h s st) x = session_id st x" for x
    using hd by (cases "h < length (st_heap st)")
      (auto simp: session_id_def nth_list_update list_update_beyond)
  have "\<forall>s' \<in> set ((st_heap st)[h := s]). session_ok s'"
    using inv s set_update_subset_insert [of "st_heap st" h s]
    by (auto simp: store_inv_def core_inv_def)
  then show ?thesis
    using inv by (simp add: store_inv_def core_inv_def entry_ok_def Let_def sid)
qed

lemma store_inv_publish:
  assumes "store_inv st" shows "store_inv (publish (Published eh h e) st)"
  using assms by (simp add: store_inv_def core_inv_def entry_ok_def Let_def)

text \<open>The three ways an append through the store can end.\<close>

lemma append_live_cases:
  assumes "append_live h ok now d intent st = (st', r)"
  obtains (failed) s' err appending ok' where
      "append_event appending ok' now d intent (st_heap st ! h) = (s', Inl err)"
      "st' = set_session h s' st" "r = Inl (AppendFailed err)"
  | (unattached) s' e where "map_of (st_attach st) h = None"
      "append_detached now d intent (st_heap st ! h) = (s', Inr e)"
      "st' = set_session h s' st" "r = Inr e"
  | (attached) eh s' e where "map_of (st_attach st) h = Some eh"
      "append_event (ent_appending (entry_of st eh)) ok now d intent (st_heap st ! h) = (s', Inr e)"
      "\<not> ent_appending (entry_of st eh)"
      "st' = publish (Published eh h e)
               (update_entry eh (\<lambda>x. x\<lparr>ent_appending := True\<rparr>) (set_session h s' st))" "r = Inr e"
proof (cases "map_of (st_attach st) h")
  case None
  obtain s' v where v: "append_detached now d intent (st_heap st ! h) = (s', v)" by fastforce
  then show thesis
    using assms None failed unattached
    by (cases v) (auto simp: append_live_def Let_def set_session_def)
next
  case (Some eh)
  obtain s' v where v: "append_event (ent_appending (entry_of st eh)) ok now d intent (st_heap st ! h) = (s', v)"
    by fastforce
  show thesis
  proof (cases v)
    case (Inl err)
    then show thesis using assms Some v failed by (simp add: append_live_def Let_def set_session_def)
  next
    case (Inr e)
    have "\<not> ent_appending (entry_of st eh)"
      using v Inr by (auto elim: append_event_cases)
    then show thesis
      using assms Some v Inr attached by (simp add: append_live_def Let_def set_session_def)
  qed
qed

lemma store_inv_append_live:
  assumes inv: "store_inv st" and h: "h < length (st_heap st)"
    and a: "append_live h ok now d intent st = (st', r)"
  shows "store_inv st'"
proof -
  have s: "session_ok (st_heap st ! h)"
    using inv h by (simp add: store_inv_def core_inv_def)
  have set: "store_inv (set_session h s' st)"
    if "append_event appending ok' now d intent (st_heap st ! h) = (s', v)" for s' appending ok' v
    using store_inv_set_session [OF inv session_ok_append [OF s that]] append_event_keeps [OF that] by simp
  from a show ?thesis
  proof (cases rule: append_live_cases)
    case (attached eh s' e)
    let ?t = "set_session h s' st" and ?f = "\<lambda>x. x\<lparr>ent_appending := True\<rparr>"
    have inv': "store_inv ?t" by (rule set [OF attached(2)])
    have eh: "eh < length (st_entries ?t)" "live st eh"
      using inv attached(1) by (auto simp: store_inv_def core_inv_def)
    have "flags_ok (live ?t eh) (?f (entry_of ?t eh))"
      using store_invD(2) [OF inv' eh(1)] eh(2) by (auto simp: flags_ok_def)
    then have "store_inv (update_entry eh ?f ?t)"
      using store_inv_update [OF inv' eh(1), of ?f False] by simp
    then show ?thesis using attached(4) store_inv_publish by simp
  qed (use set in auto)
qed

lemma announce_eh:
  assumes "announce h ok st = (st', Inr eh')" "core_inv st"
  shows "eh' < length (st_entries st)" "length (st_entries st') = length (st_entries st)"
  using assms live_entry_for_Inr(1) [OF assms(2)]
  by (auto simp: announce_def Let_def split: sum.splits if_splits)

lemma announce_entries: "announce h ok st = (st', r) \<Longrightarrow> core_inv st \<Longrightarrow>
    length (st_entries st') = length (st_entries st)"
proof (cases "live_entry_for st h")
  case (Inr eh)
  assume a: "announce h ok st = (st', r)" and inv: "core_inv st"
  note L = live_entry_for_Inr [OF inv Inr]
  have "length (st_entries (announce_end eh s)) = length (st_entries s)" for s
    by (simp add: announce_end_def Let_def detach_entered_def publish_def)
  then show ?thesis using a Inr by (auto simp: announce_def Let_def split: if_splits)
qed (simp add: announce_def)

lemma store_inv_create:
  assumes inv: "store_inv st" and c: "create_live sid opts created now ok st = (st', r)"
  shows "store_inv st'" and "r = Inr (h, eh) \<Longrightarrow> eh < length (st_entries st')"
proof -
  have "store_inv st' \<and> (r = Inr (h, eh) \<longrightarrow> eh < length (st_entries st'))"
  proof -
    obtain st1 r1 where p: "prepare_session sid opts created now st = (st1, r1)" by fastforce
    note P = store_inv_prepare [OF inv p]
    show ?thesis
    proof (cases r1)
      case (Inl err)
      then show ?thesis using c p P(1) by (auto simp: create_live_def)
    next
      case (Inr h1)
      obtain st2 r2 where e: "enter_session h1 st1 = (st2, r2)" by fastforce
      note E = store_inv_enter [OF P(1) P(2) [OF Inr] e]
      show ?thesis
      proof (cases r2)
        case (Inl err)
        then show ?thesis using c p Inr e E(1) by (auto simp: create_live_def)
      next
        case r2: (Inr eh1)
        obtain st3 r3 where a: "announce h1 ok st2 = (st3, r3)" by fastforce
        have inv3: "store_inv st3" by (rule store_inv_announce [OF E(1) a])
        have eh1: "eh1 < length (st_entries st3)"
          using E(2) [OF r2] announce_entries [OF a] store_invD(1) [OF E(1)] by simp
        show ?thesis
        proof (cases r3)
          case (Inl err)
          then show ?thesis
            using c p Inr e r2 a store_inv_detach [OF inv3 eh1] by (simp add: create_live_def) blast
        next
          case r3: (Inr x)
          then show ?thesis using c p Inr e r2 a inv3 eh1 by (simp add: create_live_def) blast
        qed
      qed
    qed
  qed
  then show "store_inv st'" "r = Inr (h, eh) \<Longrightarrow> eh < length (st_entries st')" by blast+
qed

lemma store_inv_create_end:
  assumes "store_inv st" "eh < length (st_entries st)"
  shows "store_inv (create_end eh veto st)"
proof -
  have "length (st_entries (announce_end eh st)) = length (st_entries st)"
    by (simp add: announce_end_def Let_def detach_entered_def publish_def)
  then show ?thesis
    using store_inv_announce_end [OF assms] store_inv_detach assms(2) by (simp add: create_end_def Let_def)
qed

lemma fork_live_cases:
  assumes "fork_live src b child created now ok st = (st', r)"
  obtains (rejected) err where "st' = st" "r = Inl err"
  | (created) h seed where "resolve_fork_source st src = Inr h"
      "fork_seed (ss_log (st_heap st ! h)) b = Inr seed"
      "create_live child (fork_options (st_heap st ! h) seed) created now ok st = (st', r)"
proof (cases "case child of Some c \<Rightarrow> get_session st c \<noteq> None | None \<Rightarrow> False")
  case True
  then show thesis using assms rejected by (auto simp: fork_live_def)
next
  case fresh: False
  show thesis
  proof (cases "resolve_fork_source st src")
    case (Inl err)
    then show thesis using assms fresh rejected by (auto simp: fork_live_def)
  next
    case h: (Inr h)
    show thesis
    proof (cases "fork_seed (ss_log (st_heap st ! h)) b")
      case (Inl err)
      then show thesis using assms fresh h rejected by (auto simp: fork_live_def)
    next
      case (Inr seed)
      then show thesis using assms fresh h created by (simp add: fork_live_def)
    qed
  qed
qed

lemma store_inv_fork:
  "store_inv st \<Longrightarrow> fork_live src b child created now ok st = (st', r) \<Longrightarrow> store_inv st'"
  by (erule fork_live_cases) (auto intro: store_inv_create(1))

section \<open>Reachable states\<close>

text \<open>
  Any interleaving of the public operations. \<open>AppendEnd\<close> and \<open>AnnounceEnd\<close> end the
  publication that is open; reads update a session's caches.
\<close>

inductive store_step :: "store_state \<Rightarrow> store_state \<Rightarrow> bool" where
  Prepare: "prepare_session sid opts created now st = (st', r) \<Longrightarrow> store_step st st'"
| Enter: "h < length (st_heap st) \<Longrightarrow> enter_session h st = (st', r) \<Longrightarrow> store_step st st'"
| Announce: "h < length (st_heap st) \<Longrightarrow> announce h ok st = (st', r) \<Longrightarrow> store_step st st'"
| AnnounceEnd: "eh < length (st_entries st) \<Longrightarrow> ent_announcing (entry_of st eh) \<Longrightarrow>
    store_step st (announce_end eh st)"
| Create: "create_live sid opts created now ok st = (st', r) \<Longrightarrow> store_step st st'"
| CreateEnd: "eh < length (st_entries st) \<Longrightarrow> ent_announcing (entry_of st eh) \<Longrightarrow>
    store_step st (create_end eh veto st)"
| Detach: "eh < length (st_entries st) \<Longrightarrow> store_step st (detach eh st)"
| Append: "h < length (st_heap st) \<Longrightarrow> append_live h ok now d intent st = (st', r) \<Longrightarrow>
    store_step st st'"
| AppendEnd: "eh < length (st_entries st) \<Longrightarrow> ent_appending (entry_of st eh) \<Longrightarrow>
    store_step st (append_end eh st)"
| Fork: "fork_live src b child created now ok st = (st', r) \<Longrightarrow> store_step st st'"
| ReadEvents: "h < length (st_heap st) \<Longrightarrow>
    store_step st (set_session h (fst (session_events (st_heap st ! h))) st)"
| ReadHeader: "h < length (st_heap st) \<Longrightarrow>
    store_step st (set_session h (fst (request_header (st_heap st ! h))) st)"
| ReadContext: "h < length (st_heap st) \<Longrightarrow>
    store_step st (set_session h (fst (request_context_of (st_heap st ! h))) st)"
| ReadMessages: "h < length (st_heap st) \<Longrightarrow>
    store_step st (set_session h (fst (derive_messages (st_heap st ! h))) st)"

inductive store_reachable :: "store_state \<Rightarrow> bool" where
  Start: "store_reachable empty_store"
| Step: "store_reachable st \<Longrightarrow> store_step st st' \<Longrightarrow> store_reachable st'"

lemma read_headers:
  "ss_header (fst (session_events s)) = ss_header s" "ss_header (fst (request_header s)) = ss_header s"
  "ss_header (fst (request_context_of s)) = ss_header s" "ss_header (fst (derive_messages s)) = ss_header s"
  by (auto simp: session_events_def request_header_def request_context_of_def derive_messages_def Let_def
      split: option.splits sum.splits prod.splits)

lemma read_ok:
  assumes "session_ok s"
  shows "session_ok (fst (session_events s))" "session_ok (fst (request_header s))"
    "session_ok (fst (request_context_of s))" "session_ok (fst (derive_messages s))"
proof -
  show "session_ok (fst (session_events s))" using session_events_log(2) [OF assms] by (metis prod.collapse)
  show "session_ok (fst (request_header s))" using request_header_fold(2) [OF assms] by (metis prod.collapse)
  show "session_ok (fst (request_context_of s))" using request_context_fold(2) [OF assms] by (metis prod.collapse)
  show "session_ok (fst (derive_messages s))"
    using derive_messages_projection [OF assms, of "fst (derive_messages s)" "snd (derive_messages s)"] by simp metis
qed

lemma store_inv_step:
  assumes "store_inv st" "store_step st st'"
  shows "store_inv st'"
proof -
  have s: "session_ok (st_heap st ! h)" if "h < length (st_heap st)" for h
    using assms(1) that by (simp add: store_inv_def core_inv_def)
  from assms(2) show ?thesis
  proof (cases rule: store_step.cases)
    case Prepare then show ?thesis using store_inv_prepare(1) [OF assms(1)] by blast
  next
    case Enter then show ?thesis using store_inv_enter(1) [OF assms(1)] by blast
  next
    case Announce then show ?thesis using store_inv_announce [OF assms(1)] by blast
  next
    case AnnounceEnd then show ?thesis using store_inv_announce_end [OF assms(1)] by blast
  next
    case Create then show ?thesis using store_inv_create(1) [OF assms(1)] by blast
  next
    case CreateEnd then show ?thesis using store_inv_create_end [OF assms(1)] by blast
  next
    case Detach then show ?thesis using store_inv_detach [OF assms(1)] by blast
  next
    case Append then show ?thesis using store_inv_append_live [OF assms(1)] by blast
  next
    case AppendEnd then show ?thesis using store_inv_append_end [OF assms(1)] by blast
  next
    case Fork then show ?thesis using store_inv_fork [OF assms(1)] by blast
  next
    case (ReadEvents h)
    then show ?thesis using store_inv_set_session [OF assms(1) read_ok(1) [OF s] read_headers(1)] by simp
  next
    case (ReadHeader h)
    then show ?thesis using store_inv_set_session [OF assms(1) read_ok(2) [OF s] read_headers(2)] by simp
  next
    case (ReadContext h)
    then show ?thesis using store_inv_set_session [OF assms(1) read_ok(3) [OF s] read_headers(3)] by simp
  next
    case (ReadMessages h)
    then show ?thesis using store_inv_set_session [OF assms(1) read_ok(4) [OF s] read_headers(4)] by simp
  qed
qed

lemma store_inv_empty: "store_inv empty_store"
  by (simp add: store_inv_def core_inv_def empty_store_def lifecycle_def)

lemma reachable_inv: "store_reachable st \<Longrightarrow> store_inv st"
  by (induction rule: store_reachable.induct) (auto intro: store_inv_empty store_inv_step)


section \<open>What is published\<close>

fun published :: "nat \<Rightarrow> publication list \<Rightarrow> session_event list" where
  "published h [] = []"
| "published h (Published eh h' e # ps) = (if h' = h then e # published h ps else published h ps)"
| "published h (_ # ps) = published h ps"

lemma published_append [simp]: "published h (ps @ qs) = published h ps @ published h qs"
proof (induction ps)
  case (Cons p ps)
  then show ?case by (cases p) auto
qed simp

definition pub_inv :: "store_state \<Rightarrow> bool" where
  "pub_inv st \<longleftrightarrow>
     (\<forall>h < length (st_heap st).
        sorted_wrt (<) (map ev_seq (published h (st_trace st))) \<and>
        (\<forall>e \<in> set (published h (st_trace st)). \<exists>i. ev_seq e = int i \<and>
           ss_first_live (st_heap st ! h) \<le> i \<and> i < length (ss_log (st_heap st ! h)) \<and>
           ss_log (st_heap st ! h) ! i = e)) \<and>
     (\<forall>h \<ge> length (st_heap st). published h (st_trace st) = [])"

text \<open>A step that publishes no event and rewrites no log.\<close>

definition extends :: "session_obj \<Rightarrow> session_obj \<Rightarrow> bool" where
  "extends s s' \<longleftrightarrow> ss_first_live s' = ss_first_live s \<and> (\<exists>es. ss_log s' = ss_log s @ es)"

definition quiet :: "store_state \<Rightarrow> store_state \<Rightarrow> bool" where
  "quiet st st' \<longleftrightarrow>
     (\<forall>h. published h (st_trace st') = published h (st_trace st)) \<and>
     length (st_heap st) \<le> length (st_heap st') \<and>
     (\<forall>h < length (st_heap st). extends (st_heap st ! h) (st_heap st' ! h))"

lemma extends_refl [simp]: "extends s s"
  by (simp add: extends_def)

lemma extends_trans: "extends a b \<Longrightarrow> extends b c \<Longrightarrow> extends a c"
  by (auto simp: extends_def)

lemma quiet_refl [simp]: "quiet st st"
  by (simp add: quiet_def)

lemma quietD:
  assumes "quiet st st'"
  shows "published h (st_trace st') = published h (st_trace st)"
    "length (st_heap st) \<le> length (st_heap st')"
    "h < length (st_heap st) \<Longrightarrow> extends (st_heap st ! h) (st_heap st' ! h)"
  using assms unfolding quiet_def by blast+

lemma quietI:
  assumes "\<And>h. published h (st_trace st') = published h (st_trace st)"
    "length (st_heap st) \<le> length (st_heap st')"
    "\<And>h. h < length (st_heap st) \<Longrightarrow> extends (st_heap st ! h) (st_heap st' ! h)"
  shows "quiet st st'"
  using assms unfolding quiet_def by blast

lemma quiet_trans:
  assumes "quiet a b" and "quiet b c"
  shows "quiet a c"
proof (rule quietI)
  show "published h (st_trace c) = published h (st_trace a)" for h
    using quietD(1) [OF assms(1)] quietD(1) [OF assms(2)] by metis
  show "length (st_heap a) \<le> length (st_heap c)"
    using quietD(2) [OF assms(1)] quietD(2) [OF assms(2)] by linarith
  fix h assume h: "h < length (st_heap a)"
  then have "h < length (st_heap b)" using quietD(2) [OF assms(1)] by linarith
  then show "extends (st_heap a ! h) (st_heap c ! h)"
    using extends_trans quietD(3) [OF assms(1) h] quietD(3) [OF assms(2)] by blast
qed

lemma quiet_pub_inv:
  assumes "pub_inv st" "quiet st st'"
  shows "pub_inv st'"
  unfolding pub_inv_def
proof (intro conjI allI impI)
  have pub: "published h (st_trace st') = published h (st_trace st)" for h
    using assms(2) by (simp add: quiet_def)
  fix h assume h: "h < length (st_heap st')"
  show "sorted_wrt (<) (map ev_seq (published h (st_trace st')))"
    using assms(1) pub by (cases "h < length (st_heap st)") (simp_all add: pub_inv_def)
  show "\<forall>e \<in> set (published h (st_trace st')). \<exists>i. ev_seq e = int i \<and>
      ss_first_live (st_heap st' ! h) \<le> i \<and> i < length (ss_log (st_heap st' ! h)) \<and>
      ss_log (st_heap st' ! h) ! i = e"
  proof (cases "h < length (st_heap st)")
    case True
    then obtain es where "ss_log (st_heap st' ! h) = ss_log (st_heap st ! h) @ es"
      "ss_first_live (st_heap st' ! h) = ss_first_live (st_heap st ! h)"
      using assms(2) by (auto simp: quiet_def extends_def)
    then show ?thesis
      using assms(1) True pub by (fastforce simp: pub_inv_def nth_append)
  next
    case False
    then show ?thesis using assms(1) pub by (simp add: pub_inv_def)
  qed
next
  fix h assume "length (st_heap st') \<le> h"
  then show "published h (st_trace st') = []"
    using assms by (simp add: pub_inv_def quiet_def)
qed

lemma quiet_same: "st_heap st' = st_heap st \<Longrightarrow> (\<And>h. published h (st_trace st') = published h (st_trace st)) \<Longrightarrow>
    quiet st st'"
  by (simp add: quiet_def)

lemma quiet_update [simp]: "quiet st (update_entry eh f st)"
  by (rule quiet_same) simp_all

lemma quiet_detach_entered: "quiet st (detach_entered eh st)"
  by (rule quiet_same) (simp_all add: detach_entered_def Let_def publish_def)

lemmas quiet_updates = quiet_update quiet_trans [OF quiet_update quiet_update]
  quiet_trans [OF quiet_update quiet_detach_entered]

lemma quiet_detach: "quiet st (detach eh st)"
  by (simp add: detach_def Let_def quiet_updates)

lemma quiet_announce_end: "quiet st (announce_end eh st)"
  by (simp add: announce_end_def Let_def quiet_updates)

lemma quiet_append_end: "quiet st (append_end eh st)"
  by (simp add: append_end_def Let_def quiet_updates)

lemma quiet_begin: "quiet st (begin_announcement eh st)"
  by (rule quiet_same) (simp_all add: begin_announcement_def)

lemma quiet_announce: "announce h ok st = (st', r) \<Longrightarrow> quiet st st'"
  using quiet_begin quiet_trans [OF quiet_begin quiet_announce_end]
  by (auto simp: announce_def Let_def simp flip: begin_announcement_def split: sum.splits if_splits)

lemma quiet_enter: "enter_session h st = (st', r) \<Longrightarrow> quiet st st'"
  by (auto simp: enter_session_def Let_def split: if_splits intro!: quiet_same)

lemma quiet_prepare: "prepare_session sid opts created now st = (st', r) \<Longrightarrow> quiet st st'"
  by (auto simp: prepare_session_def Let_def quiet_def nth_append
      split: option.splits if_splits sum.splits)

lemma create_live_states:
  assumes "create_live sid opts created now ok st = (st', r)"
  obtains r1 st1 where "prepare_session sid opts created now st = (st1, r1)" "st' = st1"
  | st1 h st2 r2 where "prepare_session sid opts created now st = (st1, Inr h)"
      "enter_session h st1 = (st2, r2)" "st' = st2"
  | st1 h st2 eh st3 r3 where "prepare_session sid opts created now st = (st1, Inr h)"
      "enter_session h st1 = (st2, Inr eh)" "announce h ok st2 = (st3, r3)" "st' = st3 \<or> st' = detach eh st3"
  using assms by (auto simp: create_live_def split: prod.splits sum.splits)

lemma quiet_create: "create_live sid opts created now ok st = (st', r) \<Longrightarrow> quiet st st'"
  by (erule create_live_states)
    (blast intro: quiet_prepare quiet_enter quiet_announce quiet_detach quiet_trans)+

lemma quiet_set_session:
  assumes "extends (st_heap st ! h) s"
  shows "quiet st (set_session h s st)"
proof -
  have "extends (st_heap st ! x) ((st_heap st)[h := s] ! x)" if "x < length (st_heap st)" for x
    using assms that by (cases "x = h") simp_all
  then show ?thesis by (simp add: quiet_def)
qed

lemma read_logs:
  shows "extends s (fst (session_events s))" "extends s (fst (request_header s))"
    "extends s (fst (request_context_of s))" "extends s (fst (derive_messages s))"
  by (auto simp: extends_def session_events_def request_header_def request_context_of_def
      derive_messages_def Let_def split: option.splits sum.splits prod.splits)

lemma append_event_log:
  assumes "append_event appending ok now d intent s = (s', r)"
  shows "(case r of Inl _ \<Rightarrow> ss_log s' = ss_log s
          | Inr e \<Rightarrow> ss_log s' = ss_log s @ [e] \<and> ev_seq e = int (length (ss_log s)))"
  using assms by (cases rule: append_event_cases) (simp_all add: push_event_def build_event_def)

lemma pub_inv_append:
  assumes inv: "pub_inv st" and ok: "store_inv st" and h: "h < length (st_heap st)"
    and a: "append_live h ok' now d intent st = (st', r)"
  shows "pub_inv st'"
  using a
proof (cases rule: append_live_cases)
  case (failed s' err appending ok')
  then have "extends (st_heap st ! h) s'"
    using append_event_keeps(2) [OF failed(1)] append_event_log [OF failed(1)]
    by (simp add: extends_def)
  then show ?thesis using inv quiet_pub_inv quiet_set_session failed(2) by blast
next
  case (unattached s' e)
  then have "extends (st_heap st ! h) s'"
    using append_event_keeps(2) [OF unattached(2)] append_event_log [OF unattached(2)]
    by (simp add: extends_def)
  then show ?thesis using inv quiet_pub_inv quiet_set_session unattached(3) by blast
next
  case (attached eh s' e)
  let ?s = "st_heap st ! h"
  have log: "ss_log s' = ss_log ?s @ [e]" "ev_seq e = int (length (ss_log ?s))"
    "ss_first_live s' = ss_first_live ?s"
    using append_event_log [OF attached(2)] append_event_keeps(2) [OF attached(2)] by simp_all
  then have "extends ?s s'" by (simp add: extends_def)
  then have pre: "pub_inv (update_entry eh (\<lambda>x. x\<lparr>ent_appending := True\<rparr>) (set_session h s' st))" (is "pub_inv ?p")
    using inv quiet_pub_inv quiet_set_session quiet_update by blast
  have fl: "ss_first_live ?s \<le> length (ss_log ?s)"
    using ok h by (simp add: store_inv_def core_inv_def session_ok_def)
  have less: "\<forall>x \<in> set (published h (st_trace st)). ev_seq x < ev_seq e"
    using inv h log(2) by (fastforce simp: pub_inv_def)
  have len: "length (st_heap ?p) = length (st_heap st)" by simp
  show ?thesis
    unfolding attached(4) pub_inv_def
  proof (intro conjI allI impI)
    fix x assume x: "x < length (st_heap (publish (Published eh h e) ?p))"
    show "sorted_wrt (<) (map ev_seq (published x (st_trace (publish (Published eh h e) ?p))))"
      using pre x less by (auto simp: pub_inv_def sorted_wrt_append)
    show "\<forall>y \<in> set (published x (st_trace (publish (Published eh h e) ?p))). \<exists>i. ev_seq y = int i \<and>
        ss_first_live (st_heap (publish (Published eh h e) ?p) ! x) \<le> i \<and>
        i < length (ss_log (st_heap (publish (Published eh h e) ?p) ! x)) \<and>
        ss_log (st_heap (publish (Published eh h e) ?p) ! x) ! i = y"
    proof (cases "x = h")
      case True
      have "\<exists>i. ev_seq e = int i \<and> ss_first_live s' \<le> i \<and> i < length (ss_log s') \<and> ss_log s' ! i = e"
        using log fl by (intro exI [of _ "length (ss_log ?s)"]) simp
      then show ?thesis using pre x h True by (fastforce simp: pub_inv_def)
    next
      case False
      then show ?thesis using inv x by (simp add: pub_inv_def)
    qed
  next
    fix x assume "length (st_heap (publish (Published eh h e) ?p)) \<le> x"
    then show "published x (st_trace (publish (Published eh h e) ?p)) = []"
      using pre h by (auto simp: pub_inv_def)
  qed
qed

lemma pub_inv_step:
  assumes "pub_inv st" "store_inv st" "store_step st st'"
  shows "pub_inv st'"
proof -
  have s: "session_ok (st_heap st ! h)" if "h < length (st_heap st)" for h
    using assms(2) that by (simp add: store_inv_def core_inv_def)
  note Q = quiet_pub_inv [OF assms(1)]
  from assms(3) show ?thesis
  proof (cases rule: store_step.cases)
    case Append then show ?thesis using pub_inv_append [OF assms(1,2)] by blast
  next
    case (CreateEnd eh veto)
    then show ?thesis
      using Q [OF quiet_announce_end] Q [OF quiet_trans [OF quiet_announce_end quiet_detach]]
      by (simp add: create_end_def Let_def)
  next
    case Fork
    then show ?thesis
      by (rule fork_live_cases) (use assms(1) Q [OF quiet_create] in blast)+
  next
    case Prepare then show ?thesis using Q [OF quiet_prepare] by blast
  next
    case Enter then show ?thesis using Q [OF quiet_enter] by blast
  next
    case Announce then show ?thesis using Q [OF quiet_announce] by blast
  next
    case AnnounceEnd then show ?thesis using Q [OF quiet_announce_end] by blast
  next
    case Create then show ?thesis using Q [OF quiet_create] by blast
  next
    case Detach then show ?thesis using Q [OF quiet_detach] by blast
  next
    case AppendEnd then show ?thesis using Q [OF quiet_append_end] by blast
  next
    case ReadEvents then show ?thesis using Q [OF quiet_set_session [OF read_logs(1)]] by blast
  next
    case ReadHeader then show ?thesis using Q [OF quiet_set_session [OF read_logs(2)]] by blast
  next
    case ReadContext then show ?thesis using Q [OF quiet_set_session [OF read_logs(3)]] by blast
  next
    case ReadMessages then show ?thesis using Q [OF quiet_set_session [OF read_logs(4)]] by blast
  qed
qed

lemma reachable_pub_inv: "store_reachable st \<Longrightarrow> pub_inv st"
proof (induction rule: store_reachable.induct)
  case Start
  then show ?case by (simp add: pub_inv_def empty_store_def)
next
  case (Step st st')
  then show ?case using pub_inv_step reachable_inv by blast
qed


section \<open>Properties\<close>

text \<open>C6. In every reachable state of the store, whatever listeners do, a session's creation is
  announced at most once and its disposal is published at most once and only after the
  announcement; the disposal of an announced session has been published exactly when it left the
  store, and that never happens while its creation or an append is still being published.\<close>

theorem lifecycle_paired:
  assumes "store_reachable st" and "eh < length (st_entries st)"
  shows "lifecycle eh (st_trace st) =
      (if ent_announced (entry_of st eh)
       then Created eh # (if map_of (st_store st) (ent_id (entry_of st eh)) = Some eh then [] else [Disposed eh])
       else []) \<and>
    (ent_announcing (entry_of st eh) \<or> ent_appending (entry_of st eh) \<longrightarrow>
       map_of (st_store st) (ent_id (entry_of st eh)) = Some eh \<and>
       map_of (st_attach st) (ent_session (entry_of st eh)) = Some eh)"
proof -
  note inv = reachable_inv [OF assms(1)]
  have "entry_ok st eh" "flags_ok (live st eh) (entry_of st eh)"
    using store_invD [OF inv] assms(2) core_inv_entry by blast+
  then show ?thesis by (auto simp: entry_ok_def flags_ok_def live_def Let_def)
qed

text \<open>A detach requested while listeners run is only deferred: once neither the announcement
  nor an append of the session is in progress, a detached entry is out of the store and out of the
  attachments.\<close>

theorem deferred_detach_happens:
  assumes "store_reachable st" and "eh < length (st_entries st)"
    and "\<not> ent_entered (entry_of st eh)"
    and "\<not> ent_announcing (entry_of st eh)" "\<not> ent_appending (entry_of st eh)"
  shows "(\<forall>sid. map_of (st_store st) sid \<noteq> Some eh) \<and> (\<forall>h. map_of (st_attach st) h \<noteq> Some eh) \<and>
    \<not> ent_detach_requested (entry_of st eh)"
proof -
  note I = store_invD [OF reachable_inv [OF assms(1)]]
  have "\<not> live st eh" "\<not> ent_detach_requested (entry_of st eh)"
    using I(2) [OF assms(2)] assms(3-5) by (auto simp: flags_ok_def)
  then show ?thesis using I(1) by (auto simp: core_inv_def live_def)
qed

text \<open>The store never mixes sessions up: the session found under an id has that id, a live
  session is found under its own id, and no session is listed twice.\<close>

theorem store_lookup_consistent:
  assumes "store_reachable st"
  shows "(\<forall>sid h. get_session st sid = Some h \<longrightarrow>
        h < length (st_heap st) \<and> sh_id (ss_header (st_heap st ! h)) = sid \<and>
        returns (live_entry_for st h)) \<and>
    (\<forall>h eh. live_entry_for st h = Inr eh \<longrightarrow> get_session st (session_id st h) = Some h) \<and>
    distinct (list_sessions st)"
proof -
  note I = store_invD(1) [OF reachable_inv [OF assms]]
  have ok: "eh < length (st_entries st) \<Longrightarrow> live st eh \<Longrightarrow>
      ent_session (entry_of st eh) < length (st_heap st) \<and>
      ent_id (entry_of st eh) = session_id st (ent_session (entry_of st eh)) \<and>
      map_of (st_attach st) (ent_session (entry_of st eh)) = Some eh" for eh
    using core_inv_entry [OF I] by (auto simp: entry_ok_def Let_def)
  have st: "map_of (st_store st) sid = Some eh \<Longrightarrow>
      eh < length (st_entries st) \<and> ent_id (entry_of st eh) = sid \<and> live st eh" for sid eh
    using I by (auto simp: core_inv_def live_def)
  have g: "get_session st sid = Some h \<Longrightarrow>
      h < length (st_heap st) \<and> sh_id (ss_header (st_heap st ! h)) = sid \<and> returns (live_entry_for st h)"
    for sid h
  proof -
    assume "get_session st sid = Some h"
    then obtain eh where eh: "map_of (st_store st) sid = Some eh" "h = ent_session (entry_of st eh)"
      by (auto simp: get_session_def)
    note S = st [OF eh(1)]
    then have o: "h < length (st_heap st)" "sid = session_id st h" "map_of (st_attach st) h = Some eh"
      using ok [of eh] eh(2) by auto
    moreover have "live_entry_for st h = Inr eh" using o(3) S eh(1) by (simp add: live_entry_for_def)
    ultimately show ?thesis by (simp add: session_id_def)
  qed
  have l: "live_entry_for st h = Inr eh \<Longrightarrow> get_session st (session_id st h) = Some h" for h eh
  proof -
    assume "live_entry_for st h = Inr eh"
    note L = live_entry_for_Inr [OF I this]
    then have "map_of (st_store st) (session_id st h) = Some eh"
      using ok [OF L(1,2)] by (simp add: live_def)
    then show ?thesis using L(3) by (simp add: get_session_def)
  qed
  have "inj_on (\<lambda>(sid, eh). ent_session (entry_of st eh)) (set (st_store st))"
  proof (rule inj_onI, clarify)
    fix a x b y
    assume m: "(a, x) \<in> set (st_store st)" "(b, y) \<in> set (st_store st)"
      and e: "ent_session (entry_of st x) = ent_session (entry_of st y)"
    have d: "distinct (map fst (st_store st))" using I by (simp add: core_inv_def good_map_def)
    have "map_of (st_store st) a = Some x" "map_of (st_store st) b = Some y"
      using m d by (auto intro: map_of_is_SomeI)
    note X = st [OF this(1)] and Y = st [OF this(2)]
    have "map_of (st_attach st) (ent_session (entry_of st x)) = Some x" using ok [of x] X by simp
    moreover have "map_of (st_attach st) (ent_session (entry_of st y)) = Some y" using ok [of y] Y by simp
    ultimately have "Some x = Some y" unfolding e by (rule trans [OF sym])
    then have "x = y" by (rule option.inject [THEN iffD1])
    moreover have "a = b"
      using X [THEN conjunct2, THEN conjunct1] Y [THEN conjunct2, THEN conjunct1] \<open>x = y\<close>
      by (metis (no_types))
    ultimately show "a = b \<and> x = y" by simp
  qed
  moreover have "distinct (st_store st)"
    using I by (auto simp: core_inv_def good_map_def distinct_map)
  ultimately have "distinct (list_sessions st)"
    by (auto simp: list_sessions_def distinct_map)
  then show ?thesis using g l by blast
qed

text \<open>Every event published for a session is an event of its log at its own sequence number,
  appended after the session was constructed, and events are published once, in log order.\<close>

theorem published_in_log_order:
  assumes "store_reachable st" and "h < length (st_heap st)"
  shows "sorted_wrt (<) (map ev_seq (published h (st_trace st))) \<and>
    (\<forall>e \<in> set (published h (st_trace st)). \<exists>i. ev_seq e = int i \<and>
       ss_first_live (st_heap st ! h) \<le> i \<and> i < length (ss_log (st_heap st ! h)) \<and>
       ss_log (st_heap st ! h) ! i = e)"
  using reachable_pub_inv [OF assms(1)] assms(2) by (simp add: pub_inv_def)

text \<open>The next unused counter value names no session of the store.\<close>

lemma mint_fresh: "counter < mint m counter \<and> map_of m (minted_name (mint m counter)) = None"
proof (induction m counter rule: mint.induct)
  case (1 m counter)
  then show ?case
    by (cases "map_of m (minted_name (Suc counter))") (auto simp: mint.simps [of m counter] Let_def)
qed

text \<open>Minting an id ends, gives an id no live session has and never the same id twice; so
  preparing a session without an id never reports a duplicate.\<close>

theorem minted_id_fresh:
  "mint m counter > counter \<and> minted_name (mint m counter) \<notin> fst ` set m \<and>
   minted_name (mint m' (mint m counter)) \<noteq> minted_name (mint m counter) \<and>
   snd (prepare_session None opts created now st) \<noteq> Inl AlreadyExists"
proof -
  have "mint m counter < mint m' (mint m counter)" using mint_fresh by blast
  then have "minted_name (mint m' (mint m counter)) \<noteq> minted_name (mint m counter)"
    by (auto dest: minted.name_inj)
  moreover have "snd (prepare_session None opts created now st) \<noteq> Inl AlreadyExists"
    using mint_fresh [of "st_counter st" "st_store st"]
    by (auto simp: prepare_session_def Let_def has_session_def split: sum.splits)
  ultimately show ?thesis
    using mint_fresh [of counter m] by (auto simp: map_of_eq_None_iff)
qed

section \<open>Forks\<close>

lemma find_last_snoc: "find_last P (xs @ [x]) = (if P x then Some x else find_last P xs)"
  by (simp add: find_last_def)

definition boundary_turn :: "session_event list \<Rightarrow> int option" where
  "boundary_turn es =
     (case find_last is_turn_boundary es of
        Some e \<Rightarrow> (case ev_data e of TurnStart t \<Rightarrow> Some t | _ \<Rightarrow> None)
      | None \<Rightarrow> None)"

lemma boundary_turn_snoc:
  "boundary_turn (es @ [e]) =
     (case ev_data e of TurnStart t \<Rightarrow> Some t | TurnEnd _ _ \<Rightarrow> None | _ \<Rightarrow> boundary_turn es)"
  by (cases "ev_data e") (simp_all add: boundary_turn_def find_last_snoc)

text \<open>In an accepted log the last turn boundary tells whether a turn is open.\<close>

lemma open_turn_boundary: "seed_session es = Inr tr \<Longrightarrow> tr_open_turn tr = boundary_turn es"
proof (induction es arbitrary: tr rule: rev_induct)
  case Nil
  then show ?case by (auto simp: seed_session_def fresh_trace_def find_last_def boundary_turn_def)
next
  case (snoc e es)
  obtain tr0 where s: "seed_session es = Inr tr0" "trace_step tr0 e = Inr tr"
    using snoc.prems by (auto simp: seed_session_snoc result_simps)
  show ?case
    using s(2) snoc.IH [OF s(1)]
    by (cases "ev_data e")
      (auto simp: boundary_turn_snoc trace_step_Inr validate_event_def Let_def result_simps
        split: if_splits option.splits)
qed

lemma fork_seed_Inr:
  assumes "fork_seed es b = Inr seed"
  shows "\<exists>n. seed = take n es \<and> n \<le> length es \<and> boundary_turn seed = None"
proof (cases "b = None \<and> es = []")
  case True
  then show ?thesis using assms by (auto simp: fork_seed_def find_last_def boundary_turn_def)
next
  case False
  define k where "k = (case b of Some x \<Rightarrow> x | None \<Rightarrow> NInt (ev_seq (last es)))"
  have "num_int k < int (length es)" "0 \<le> num_int k"
    "(case find_last is_turn_boundary (take (nat (num_int k) + 1) es) of
        Some e \<Rightarrow> (case ev_data e of TurnStart _ \<Rightarrow> Inl ForkOpenTurn | _ \<Rightarrow> Inr (take (nat (num_int k) + 1) es))
      | None \<Rightarrow> Inr (take (nat (num_int k) + 1) es)) = Inr seed"
    using assms False by (auto simp: fork_seed_def Let_def k_def [symmetric] simp del: is_turn_boundary.simps
        split: if_splits)
  then show ?thesis
    by (intro exI [of _ "nat (num_int k) + 1"])
      (auto simp: boundary_turn_def simp del: is_turn_boundary.simps
        split: option.splits event_data.splits)
qed

lemma prepare_heap:
  assumes "prepare_session sid opts created now st = (st', Inr h)"
  shows "h = length (st_heap st) \<and>
    (\<exists>name s. construct_prepared name opts created now = Inr s \<and> st_heap st' = st_heap st @ [s])"
  using assms
  by (auto simp: prepare_session_def Let_def split: option.splits if_splits sum.splits)

lemma enter_heap: "enter_session h st = (st', r) \<Longrightarrow> st_heap st' = st_heap st"
  by (auto simp: enter_session_def Let_def split: if_splits)

lemma announce_heap: "announce h ok st = (st', r) \<Longrightarrow> st_heap st' = st_heap st"
  by (auto simp: announce_def Let_def announce_end_def detach_entered_def publish_def
      split: sum.splits if_splits)

lemma create_live_session:
  assumes "create_live sid opts created now ok st = (st', Inr (h, eh))"
  shows "h = length (st_heap st) \<and>
    (\<exists>name s. construct_prepared name opts created now = Inr s \<and> st_heap st' = st_heap st @ [s])"
proof -
  obtain st1 st2 st3 x where p: "prepare_session sid opts created now st = (st1, Inr h)"
    and "enter_session h st1 = (st2, Inr eh)" "announce h ok st2 = (st3, x)" "st' = st3"
    using assms by (auto simp: create_live_def split: prod.splits sum.splits)
  then have "st_heap st' = st_heap st1" using enter_heap announce_heap by metis
  then show ?thesis using prepare_heap [OF p] by simp
qed

lemma marker_accepted:
  assumes "seed_session es = Inr tr" and "tr_open_turn tr = None"
    and "es \<noteq> [] \<Longrightarrow> ev_seq (last es) < int (length es)"
  shows "\<exists>tr'. seed_session (es @ [seed_marker es now]) = Inr tr' \<and> tr_open_turn tr' = None"
proof -
  have "tr_last_seq tr < int (length es)"
    using assms(1,3) seed_session_last_seq [OF assms(1)]
    by (cases "es = []") (auto simp: seed_session_def fresh_trace_def)
  then show ?thesis
    using assms(1,2)
    by (simp add: seed_session_snoc trace_step_def validate_event_def build_event_def Let_def)
qed

text \<open>C33. A fork copies a prefix of the source's log into a new session and leaves every existing
  session alone: the child's log is that prefix and the end-of-seed marker, its header names the
  source and the length of the prefix, and when the source's log passes the relational checks so
  does the child's, with no turn open.\<close>

theorem fork_copies_closed_prefix:
  assumes "fork_live src b child created now ok st = (st', Inr (h', eh))"
  shows "\<exists>h n. resolve_fork_source st src = Inr h \<and> n \<le> length (ss_log (st_heap st ! h)) \<and>
    (let seed = take n (ss_log (st_heap st ! h)); c = st_heap st' ! h' in
      ss_log c = (if ends_with_end_seed seed then seed else seed @ [seed_marker seed now]) \<and>
      sh_parent (ss_header c) = Some (sh_id (ss_header (st_heap st ! h))) \<and>
      sh_seed_length (ss_header c) = Some (NInt (int n)) \<and>
      (\<forall>tr. seed_session (ss_log (st_heap st ! h)) = Inr tr \<longrightarrow>
        (\<exists>tr'. seed_session (ss_log c) = Inr tr' \<and> tr_open_turn tr' = None))) \<and>
    h' = length (st_heap st) \<and> (\<forall>x < h'. st_heap st' ! x = st_heap st ! x)"
  using assms
proof (cases rule: fork_live_cases)
  case (created h seed)
  let ?src = "st_heap st ! h"
  obtain n where n: "seed = take n (ss_log ?src)" "n \<le> length (ss_log ?src)"
    "boundary_turn seed = None"
    using fork_seed_Inr [OF created(2)] by blast
  obtain name c where c: "construct_prepared name (fork_options ?src seed) created now = Inr c"
    "st_heap st' = st_heap st @ [c]" "h' = length (st_heap st)"
    using create_live_session [OF created(3)] by blast
  obtain hd where con: "construct_session Snapshot name (Some seed) hd now = Inr c"
    "sh_parent hd = Some (sh_id (ss_header ?src))" "sh_seed_length hd = Some (NInt (int (length seed)))"
    using c(1) by (auto simp: construct_prepared_def fork_options_def create_session_def
        header_from_meta_def no_meta_def)
  note C = construct_session_ok [OF con(1)]
  have log: "ss_log c = (if ends_with_end_seed seed then seed else seed @ [seed_marker seed now])"
    using C(4) by simp
  have "\<exists>tr'. seed_session (ss_log c) = Inr tr' \<and> tr_open_turn tr' = None"
    if accepted: "seed_session (ss_log ?src) = Inr tr" for tr
  proof -
    obtain tr' where tr': "seed_session seed = Inr tr'"
      using fold_result_take [OF accepted [unfolded seed_session_def], of n] n(1)
      by (auto simp: seed_session_def)
    have closed: "tr_open_turn tr' = None"
      using open_turn_boundary [OF tr'] n(3) by simp
    obtain acc where "replay (ss_log c) = Inr acc" using C(1) by (auto simp: session_ok_def returns_iff)
    then have "ev_seq (seed ! i) = int i" if "i < length seed" for i
      using that log replay_seqs [of "ss_log c" acc i] by (auto simp: nth_append split: if_splits)
    then have "seed \<noteq> [] \<Longrightarrow> ev_seq (last seed) < int (length seed)" by (simp add: last_conv_nth)
    then show ?thesis using marker_accepted [OF tr' closed] log tr' closed by auto
  qed
  moreover have "length seed = n" using n(1,2) by simp
  ultimately show ?thesis
    using created(1) n(1,2) c(2,3) log con(2,3) C(2) by (intro exI [of _ h] exI [of _ n]) (auto simp: Let_def nth_append)
qed simp

section \<open>Instances\<close>

text \<open>A session created, and detached while an append is being published.\<close>

definition example_store_log :: "session_event list" where
  "example_store_log = [example_event (UserMessage (example_prompt ''m0'')) 0 (Some append_op) None]"
definition example_created :: store_state where
  "example_created = fst (create_live (Some ''a'') (Plain (Some example_store_log) no_meta) 1000 2000 True empty_store)"

definition example_live :: store_state where
  "example_live = create_end 0 False example_created"

definition example_appending :: store_state where
  "example_appending = fst (append_live 0 True 3000 (TurnStart 1) (None, None) example_live)"

definition example_deferred :: store_state where
  "example_deferred = detach 0 example_appending"

definition example_detached :: store_state where
  "example_detached = append_end 0 example_deferred"


lemma reachable_create:
  "store_reachable st \<Longrightarrow> store_reachable (fst (create_live sid opts created now ok st))"
  by (rule store_reachable.Step, assumption, rule store_step.Create, rule prod.collapse [symmetric])

lemma reachable_append:
  "store_reachable st \<Longrightarrow> h < length (st_heap st) \<Longrightarrow> store_reachable (fst (append_live h ok now d intent st))"
  by (rule store_reachable.Step, assumption, rule store_step.Append, assumption, rule prod.collapse [symmetric])

lemma example_live_reachable: "store_reachable example_live"
proof -
  have "store_reachable example_created"
    unfolding example_created_def by (intro reachable_create store_reachable.Start)
  moreover have "0 < length (st_entries example_created)" "ent_announcing (entry_of example_created 0)"
    by code_simp+
  ultimately show ?thesis
    unfolding example_live_def by (blast intro: store_reachable.Step store_step.CreateEnd)
qed

lemma example_detached_reachable: "store_reachable example_detached"
proof -
  have "0 < length (st_heap example_live)" by code_simp
  then have "store_reachable example_appending"
    unfolding example_appending_def by (rule reachable_append [OF example_live_reachable])
  moreover have "0 < length (st_entries example_appending)" by code_simp
  ultimately have "store_reachable example_deferred"
    unfolding example_deferred_def by (blast intro: store_reachable.Step store_step.Detach)
  moreover have "0 < length (st_entries example_deferred)" "ent_appending (entry_of example_deferred 0)"
    by code_simp+
  ultimately show ?thesis
    unfolding example_detached_def by (blast intro: store_reachable.Step store_step.AppendEnd)
qed

theorem lifecycle_paired_witness:
  "lifecycle 0 (st_trace example_detached) = [Created 0, Disposed 0]"
proof -
  have "0 < length (st_entries example_detached)" "ent_announced (entry_of example_detached 0)"
    "st_store example_detached = []" by code_simp+
  then show ?thesis using lifecycle_paired [OF example_detached_reachable, of 0] by simp
qed

theorem deferred_detach_happens_witness:
  "ent_detach_requested (entry_of example_deferred 0) \<and> st_store example_deferred \<noteq> [] \<and>
   (\<forall>sid. map_of (st_store example_detached) sid \<noteq> Some 0)"
proof -
  have "0 < length (st_entries example_detached)" "\<not> ent_entered (entry_of example_detached 0)"
    "\<not> ent_announcing (entry_of example_detached 0)" "\<not> ent_appending (entry_of example_detached 0)"
    "ent_detach_requested (entry_of example_deferred 0)" "st_store example_deferred \<noteq> []" by code_simp+
  then show ?thesis using deferred_detach_happens [OF example_detached_reachable, of 0] by simp
qed

theorem store_lookup_consistent_witness:
  "get_session example_live ''a'' = Some 0 \<and> sh_id (ss_header (st_heap example_live ! 0)) = ''a'' \<and>
   returns (live_entry_for example_live 0)"
proof -
  have "get_session example_live ''a'' = Some 0" by code_simp
  then show ?thesis using store_lookup_consistent [OF example_live_reachable] by blast
qed

theorem published_in_log_order_witness:
  "\<exists>e. published 0 (st_trace example_detached) = [e] \<and> ev_seq e = 2 \<and>
     ss_first_live (st_heap example_detached ! 0) \<le> 2 \<and> ss_log (st_heap example_detached ! 0) ! 2 = e"
proof -
  have l: "0 < length (st_heap example_detached)" "map ev_seq (published 0 (st_trace example_detached)) = [2]"
    by code_simp+
  then obtain e where e: "published 0 (st_trace example_detached) = [e]" "ev_seq e = 2" by auto
  then show ?thesis using published_in_log_order [OF example_detached_reachable l(1)] by auto
qed

theorem fork_copies_closed_prefix_witness:
  "\<exists>st' h' eh. fork_live (ById ''a'') None (Some ''b'') 4000 5000 True example_live = (st', Inr (h', eh)) \<and>
     h' = 1 \<and> sh_parent (ss_header (st_heap st' ! 1)) = Some ''a''"
proof -
  let ?f = "fork_live (ById ''a'') None (Some ''b'') 4000 5000 True example_live"
  have "returns (snd ?f)" "length (st_heap example_live) = 1" by code_simp+
  then obtain st' h' eh where f: "?f = (st', Inr (h', eh))"
    by (cases ?f) (auto simp: returns_iff)
  have "resolve_fork_source example_live (ById ''a'') = Inr 0" "sh_id (ss_header (st_heap example_live ! 0)) = ''a''"
    by code_simp+
  then show ?thesis
    using fork_copies_closed_prefix [OF f] f \<open>length (st_heap example_live) = 1\<close> by (auto simp: Let_def)
qed

end
