(* ===== verification/Goal_Fold.thy ===== *)
theory Goal_Fold
  imports Session_Log
begin

text \<open>
  The durable goal stream, \<^verbatim>\<open>packages/goal/goal/src/fold.ts\<close> with the types of
  \<^verbatim>\<open>types.ts\<close> and \<^verbatim>\<open>domain.ts\<close>: the strict decoder of goal changes, the
  transition rules, the replay fold of a session log, and the last-wins projection of
  \<^verbatim>\<open>index.ts\<close>. The lemmas show that encoding and decoding are inverse, that the decoder
  loses nothing of what it accepts, the invariant of the fold, that every accepted log numbers the
  revisions and the rounds of a goal consecutively, and that the projection agrees with the fold.

  Counters and times are decoded only when they are safe integers, so they are \<open>int\<close> here.
\<close>

section \<open>Types\<close>

datatype goal_phase = PhaseActive | PhasePaused | PhaseBlocked | PhaseComplete

datatype goal_operation = OpCreate | OpEdit | OpPause | OpResume | OpComplete | OpBlock

record goal_ref =
  gr_id :: string
  gr_revision :: int

record goal_block_reason =
  br_code :: string
  br_message :: string

record goal_snapshot =
  gs_id :: string
  gs_revision :: int
  gs_objective :: string
  gs_phase :: goal_phase
  gs_blocked :: "goal_block_reason option"
  gs_max_rounds :: int

datatype goal_change =
    SnapshotChange goal_operation goal_snapshot int int int
  | ClearChange goal_ref int

record goal_fold_state =
  gf_goal :: "goal_snapshot option"
  gf_rounds :: int
  gf_created :: "int option"
  gf_updated :: "int option"
  gf_last_ref :: "goal_ref option"
  gf_seen :: "string set"

definition empty_goal_fold_state :: goal_fold_state where
  "empty_goal_fold_state =
     \<lparr>gf_goal = None, gf_rounds = 0, gf_created = None, gf_updated = None, gf_last_ref = None,
      gf_seen = {}\<rparr>"

fun phase_text :: "goal_phase \<Rightarrow> string" where
  "phase_text PhaseActive = ''active''"
| "phase_text PhasePaused = ''paused''"
| "phase_text PhaseBlocked = ''blocked''"
| "phase_text PhaseComplete = ''complete''"

definition phase_of :: "string \<Rightarrow> goal_phase option" where
  "phase_of s =
     (if s = ''active'' then Some PhaseActive
      else if s = ''paused'' then Some PhasePaused
      else if s = ''blocked'' then Some PhaseBlocked
      else if s = ''complete'' then Some PhaseComplete
      else None)"

fun operation_text :: "goal_operation \<Rightarrow> string" where
  "operation_text OpCreate = ''create''"
| "operation_text OpEdit = ''edit''"
| "operation_text OpPause = ''pause''"
| "operation_text OpResume = ''resume''"
| "operation_text OpComplete = ''complete''"
| "operation_text OpBlock = ''block''"

definition operation_of :: "string \<Rightarrow> goal_operation option" where
  "operation_of s =
     (if s = ''create'' then Some OpCreate
      else if s = ''edit'' then Some OpEdit
      else if s = ''pause'' then Some OpPause
      else if s = ''resume'' then Some OpResume
      else if s = ''complete'' then Some OpComplete
      else if s = ''block'' then Some OpBlock
      else None)"

lemma phase_of_Some [simp]: "phase_of s = Some p \<longleftrightarrow> s = phase_text p"
  by (cases p) (auto simp: phase_of_def)

lemma operation_of_Some [simp]: "operation_of s = Some p \<longleftrightarrow> s = operation_text p"
  by (cases p) (auto simp: operation_of_def)

section \<open>Decoding\<close>

datatype goal_fault =
    NotPositive string
  | NotNonNegative string
  | ReasonKeys
  | ReasonCode
  | ReasonMessage
  | GoalNotRecord
  | GoalIdInvalid
  | ObjectiveInvalid
  | PhaseInvalid
  | GoalKeys
  | RefKeys
  | RefIdInvalid
  | VersionUnsupported
  | ClearKeys
  | OperationInvalid
  | SnapshotKeys
  | UpdatedBeforeCreated
  | SourceInvalid
  | DefinitionChanged
  | RevisionNotNext
  | FoldLacksUpdatedAt
  | CountersNotPreserved
  | EditChangesPhase
  | BadPhaseTransition goal_operation
  | CreateAsTransition
  | NoCurrentGoal
  | ClearTooEarly
  | CreateNotFresh
  | ChangeKindInvalid
  | RoundNotNext

definition positive_integer :: "jv \<Rightarrow> string \<Rightarrow> string \<Rightarrow> goal_fault + int" where
  "positive_integer v k field =
     (if \<not> is_safe_at v k \<or> num_int (jnum_at v k) < 1 then Inl (NotPositive field)
      else Inr (num_int (jnum_at v k)))"

definition non_negative_integer :: "jv \<Rightarrow> string \<Rightarrow> string \<Rightarrow> goal_fault + int" where
  "non_negative_integer v k field =
     (if \<not> is_safe_at v k \<or> num_int (jnum_at v k) < 0 then Inl (NotNonNegative field)
      else Inr (num_int (jnum_at v k)))"

text \<open>A string with content and without surrounding white space.\<close>

definition normalized :: "string \<Rightarrow> bool" where
  "normalized s \<longleftrightarrow> trim s \<noteq> [] \<and> s = trim s"

definition decode_block_reason :: "jv \<Rightarrow> goal_fault + goal_block_reason" where
  "decode_block_reason v =
     (if \<not> is_record v \<or> key_signature v \<noteq> ''code,message'' then Inl ReasonKeys
      else case prop_str v ''code'' of
        None \<Rightarrow> Inl ReasonCode
      | Some code \<Rightarrow>
          if \<not> is_kebab code then Inl ReasonCode
          else case prop_str v ''message'' of
            None \<Rightarrow> Inl ReasonMessage
          | Some message \<Rightarrow>
              if \<not> normalized message then Inl ReasonMessage
              else Inr \<lparr>br_code = code, br_message = message\<rparr>)"

definition snapshot_keys :: "goal_phase \<Rightarrow> string" where
  "snapshot_keys phase =
     (if phase = PhaseBlocked then ''blockedReason,id,maxGoalRounds,objective,phase,revision''
      else ''id,maxGoalRounds,objective,phase,revision'')"

definition decode_snapshot :: "jv \<Rightarrow> goal_fault + goal_snapshot" where
  "decode_snapshot v =
     (if \<not> is_record v then Inl GoalNotRecord
      else case prop_str v ''id'' of
        None \<Rightarrow> Inl GoalIdInvalid
      | Some gid \<Rightarrow>
        if length gid = 0 then Inl GoalIdInvalid
        else case prop_str v ''objective'' of
          None \<Rightarrow> Inl ObjectiveInvalid
        | Some objective \<Rightarrow>
          if \<not> normalized objective then Inl ObjectiveInvalid
          else case (case prop_str v ''phase'' of None \<Rightarrow> None | Some s \<Rightarrow> phase_of s) of
            None \<Rightarrow> Inl PhaseInvalid
          | Some phase \<Rightarrow>
            if key_signature v \<noteq> snapshot_keys phase then Inl GoalKeys
            else
              and_then (positive_integer v ''revision'' ''goal.revision'') (\<lambda>revision.
              and_then (positive_integer v ''maxGoalRounds'' ''goal.maxGoalRounds'') (\<lambda>rounds.
              and_then (if phase = PhaseBlocked
                        then and_then (decode_block_reason (jget v ''blockedReason'')) (\<lambda>r. Inr (Some r))
                        else Inr None) (\<lambda>blocked.
                Inr \<lparr>gs_id = gid, gs_revision = revision, gs_objective = objective, gs_phase = phase,
                     gs_blocked = blocked, gs_max_rounds = rounds\<rparr>))))"

definition decode_ref :: "jv \<Rightarrow> goal_fault + goal_ref" where
  "decode_ref v =
     (if \<not> is_record v \<or> key_signature v \<noteq> ''id,revision'' then Inl RefKeys
      else case prop_str v ''id'' of
        None \<Rightarrow> Inl RefIdInvalid
      | Some gid \<Rightarrow>
          if length gid = 0 then Inl RefIdInvalid
          else and_then (positive_integer v ''revision'' ''cleared.revision'')
                 (\<lambda>revision. Inr \<lparr>gr_id = gid, gr_revision = revision\<rparr>))"

definition GOAL_CHANGE_VERSION :: jnum where
  "GOAL_CHANGE_VERSION = NInt 1"

definition decode_clear_change :: "jv \<Rightarrow> goal_fault + goal_change" where
  "decode_clear_change v =
     (if key_signature v \<noteq> ''cleared,clearedAt,kind,operation,version'' then Inl ClearKeys
      else
        and_then (decode_ref (jget v ''cleared'')) (\<lambda>ref.
        and_then (non_negative_integer v ''clearedAt'' ''clearedAt'') (\<lambda>at_time.
          Inr (ClearChange ref at_time))))"

definition decode_snapshot_change :: "jv \<Rightarrow> goal_operation \<Rightarrow> goal_fault + goal_change" where
  "decode_snapshot_change v operation =
     (if key_signature v \<noteq> ''createdAt,goal,kind,operation,roundsStarted,updatedAt,version''
      then Inl SnapshotKeys
      else
        and_then (non_negative_integer v ''createdAt'' ''createdAt'') (\<lambda>created.
        and_then (non_negative_integer v ''updatedAt'' ''updatedAt'') (\<lambda>updated.
          if updated < created then Inl UpdatedBeforeCreated
          else
            and_then (decode_snapshot (jget v ''goal'')) (\<lambda>goal.
            and_then (non_negative_integer v ''roundsStarted'' ''roundsStarted'') (\<lambda>rounds.
              Inr (SnapshotChange operation goal rounds created updated))))))"

definition decode_goal_change :: "jv \<Rightarrow> goal_fault + goal_change option" where
  "decode_goal_change v =
     (if \<not> is_record v \<or> jprop v ''kind'' \<noteq> Some (JStr ''goal/change'') then Inr None
      else if \<not> (case jprop v ''version'' of Some (JNum n) \<Rightarrow> num_eq n GOAL_CHANGE_VERSION | _ \<Rightarrow> False)
      then Inl VersionUnsupported
      else if jprop v ''operation'' = Some (JStr ''clear'')
      then and_then (decode_clear_change v) (\<lambda>c. Inr (Some c))
      else case (case prop_str v ''operation'' of None \<Rightarrow> None | Some s \<Rightarrow> operation_of s) of
        None \<Rightarrow> Inl OperationInvalid
      | Some operation \<Rightarrow> and_then (decode_snapshot_change v operation) (\<lambda>c. Inr (Some c)))"

section \<open>Encoding\<close>

text \<open>The objects the service writes.\<close>

definition reason_object :: "goal_block_reason \<Rightarrow> jv" where
  "reason_object r = JObj [(''code'', JStr (br_code r)), (''message'', JStr (br_message r))]"

definition snapshot_object :: "goal_snapshot \<Rightarrow> jv" where
  "snapshot_object g = JObj
     ([(''id'', JStr (gs_id g)), (''revision'', jint (gs_revision g)),
       (''objective'', JStr (gs_objective g)), (''phase'', JStr (phase_text (gs_phase g))),
       (''maxGoalRounds'', jint (gs_max_rounds g))]
      @ opt_field ''blockedReason'' reason_object (gs_blocked g))"

definition ref_object :: "goal_ref \<Rightarrow> jv" where
  "ref_object r = JObj [(''id'', JStr (gr_id r)), (''revision'', jint (gr_revision r))]"

fun change_object :: "goal_change \<Rightarrow> jv" where
  "change_object (SnapshotChange operation g rounds created updated) = JObj
     [(''kind'', JStr ''goal/change''), (''version'', JNum GOAL_CHANGE_VERSION),
      (''operation'', JStr (operation_text operation)), (''goal'', snapshot_object g),
      (''roundsStarted'', jint rounds), (''createdAt'', jint created), (''updatedAt'', jint updated)]"
| "change_object (ClearChange ref at_time) = JObj
     [(''kind'', JStr ''goal/change''), (''version'', JNum GOAL_CHANGE_VERSION),
      (''operation'', JStr ''clear''), (''cleared'', ref_object ref), (''clearedAt'', jint at_time)]"

section \<open>Transitions\<close>

definition goal_source :: "message_source \<Rightarrow> goal_fault + (string \<times> int \<times> int) option" where
  "goal_source src =
     (case src of
        GoalSource gid revision rnd \<Rightarrow>
          if length gid = 0 \<or> \<not> is_safe_integer revision \<or> num_int revision < 1
            \<or> \<not> is_safe_integer rnd \<or> num_int rnd < 1
          then Inl SourceInvalid
          else Inr (Some (gid, num_int revision, num_int rnd))
      | _ \<Rightarrow> Inr None)"

definition require_same_definition ::
  "goal_snapshot \<Rightarrow> goal_snapshot \<Rightarrow> goal_fault + unit" where
  "require_same_definition current nxt =
     (if gs_objective nxt \<noteq> gs_objective current \<or> gs_max_rounds nxt \<noteq> gs_max_rounds current
      then Inl DefinitionChanged else Inr ())"

definition require_next_revision :: "goal_snapshot \<Rightarrow> goal_ref \<Rightarrow> goal_fault + unit" where
  "require_next_revision current nxt =
     (if gr_id nxt \<noteq> gs_id current \<or> gr_revision nxt \<noteq> gs_revision current + 1
      then Inl RevisionNotNext else Inr ())"

definition snapshot_ref :: "goal_snapshot \<Rightarrow> goal_ref" where
  "snapshot_ref g = \<lparr>gr_id = gs_id g, gr_revision = gs_revision g\<rparr>"

fun goal_change_ref :: "goal_change \<Rightarrow> goal_ref" where
  "goal_change_ref (ClearChange ref _) = ref"
| "goal_change_ref (SnapshotChange _ g _ _ _) = snapshot_ref g"

definition resumable :: "goal_phase list" where
  "resumable = [PhaseActive, PhasePaused, PhaseBlocked]"

definition phase_transition ::
  "goal_operation \<Rightarrow> int \<Rightarrow> goal_snapshot \<Rightarrow> goal_snapshot \<Rightarrow> goal_fault + unit" where
  "phase_transition operation rounds current nxt =
     (case operation of
        OpEdit \<Rightarrow>
          if gs_phase nxt \<noteq> gs_phase current \<or> gs_blocked nxt \<noteq> gs_blocked current
          then Inl EditChangesPhase else Inr ()
      | OpPause \<Rightarrow>
          and_then (require_same_definition current nxt) (\<lambda>_.
            if gs_phase current \<noteq> PhaseActive \<or> gs_phase nxt \<noteq> PhasePaused
            then Inl (BadPhaseTransition OpPause) else Inr ())
      | OpResume \<Rightarrow>
          and_then (require_same_definition current nxt) (\<lambda>_.
            if gs_phase current \<notin> set resumable \<or> gs_phase nxt \<noteq> PhaseActive
              \<or> gs_max_rounds nxt \<le> rounds
            then Inl (BadPhaseTransition OpResume) else Inr ())
      | OpComplete \<Rightarrow>
          and_then (require_same_definition current nxt) (\<lambda>_.
            if gs_phase current = PhaseComplete \<or> gs_phase nxt \<noteq> PhaseComplete
            then Inl (BadPhaseTransition OpComplete) else Inr ())
      | OpBlock \<Rightarrow>
          and_then (require_same_definition current nxt) (\<lambda>_.
            if gs_phase current \<noteq> PhaseActive \<or> gs_phase nxt \<noteq> PhaseBlocked
            then Inl (BadPhaseTransition OpBlock) else Inr ())
      | OpCreate \<Rightarrow> Inl CreateAsTransition)"

definition validate_snapshot_transition ::
  "goal_fold_state \<Rightarrow> goal_operation \<Rightarrow> goal_snapshot \<Rightarrow> int \<Rightarrow> int \<Rightarrow> int \<Rightarrow> goal_snapshot
     \<Rightarrow> goal_fault + unit" where
  "validate_snapshot_transition st operation nxt rounds created updated current =
     and_then (require_next_revision current (snapshot_ref nxt)) (\<lambda>_.
       case gf_updated st of
         None \<Rightarrow> Inl FoldLacksUpdatedAt
       | Some last_update \<Rightarrow>
           if Some created \<noteq> gf_created st \<or> updated < last_update \<or> rounds \<noteq> gf_rounds st
           then Inl CountersNotPreserved
           else phase_transition operation (gf_rounds st) current nxt)"

definition apply_clear :: "goal_fold_state \<Rightarrow> goal_ref \<Rightarrow> int \<Rightarrow> goal_fault + goal_fold_state" where
  "apply_clear st ref at_time =
     (case gf_goal st of
        None \<Rightarrow> Inl NoCurrentGoal
      | Some current \<Rightarrow>
          and_then (require_next_revision current ref) (\<lambda>_.
            case gf_updated st of
              None \<Rightarrow> Inl FoldLacksUpdatedAt
            | Some last_update \<Rightarrow>
                if at_time < last_update then Inl ClearTooEarly
                else Inr (st\<lparr>gf_goal := None, gf_rounds := 0, gf_created := None,
                             gf_updated := None, gf_last_ref := Some ref\<rparr>)))"

definition create_not_fresh :: "goal_fold_state \<Rightarrow> goal_snapshot \<Rightarrow> int \<Rightarrow> bool" where
  "create_not_fresh st g rounds \<longleftrightarrow>
     gs_revision g \<noteq> 1 \<or> gs_phase g \<noteq> PhaseActive \<or> rounds \<noteq> 0 \<or>
     (case gf_goal st of Some c \<Rightarrow> gs_phase c \<noteq> PhaseComplete | None \<Rightarrow> False) \<or>
     gs_id g \<in> gf_seen st"

text \<open>Entering the validated snapshot, with the seen ids after it.\<close>

definition install_snapshot ::
  "goal_fold_state \<Rightarrow> goal_snapshot \<Rightarrow> int \<Rightarrow> int \<Rightarrow> int \<Rightarrow> string set \<Rightarrow> goal_fold_state" where
  "install_snapshot st g rounds created updated seen =
     st\<lparr>gf_goal := Some g, gf_rounds := rounds, gf_created := Some created,
        gf_updated := Some updated, gf_last_ref := Some (snapshot_ref g), gf_seen := seen\<rparr>"

fun apply_goal_change :: "goal_fold_state \<Rightarrow> goal_change \<Rightarrow> goal_fault + goal_fold_state" where
  "apply_goal_change st (ClearChange ref at_time) = apply_clear st ref at_time"
| "apply_goal_change st (SnapshotChange operation g rounds created updated) =
     (if operation = OpCreate then
        (if create_not_fresh st g rounds then Inl CreateNotFresh
         else Inr (install_snapshot st g rounds created updated (insert (gs_id g) (gf_seen st))))
      else case gf_goal st of
        None \<Rightarrow> Inl NoCurrentGoal
      | Some current \<Rightarrow>
          and_then (validate_snapshot_transition st operation g rounds created updated current)
            (\<lambda>_. Inr (install_snapshot st g rounds created updated (gf_seen st))))"

definition apply_goal_round ::
  "goal_fold_state \<Rightarrow> message_source \<Rightarrow> goal_fault + goal_fold_state" where
  "apply_goal_round st src =
     and_then (goal_source src) (\<lambda>parsed.
       case parsed of
         None \<Rightarrow> Inr st
       | Some (gid, revision, rnd) \<Rightarrow>
           (case gf_goal st of
              None \<Rightarrow> Inl RoundNotNext
            | Some current \<Rightarrow>
                if gs_phase current \<noteq> PhaseActive \<or> gid \<noteq> gs_id current
                  \<or> revision \<noteq> gs_revision current \<or> rnd \<noteq> gf_rounds st + 1
                  \<or> gs_max_rounds current < rnd
                then Inl RoundNotNext
                else Inr (st\<lparr>gf_rounds := rnd\<rparr>)))"

definition apply_goal_event :: "goal_fold_state \<Rightarrow> session_event \<Rightarrow> goal_fault + goal_fold_state" where
  "apply_goal_event st e =
     (if ev_type e = ''goal/change'' then
        and_then (decode_goal_change (data_json (ev_data e))) (\<lambda>c.
          case c of None \<Rightarrow> Inl ChangeKindInvalid | Some change \<Rightarrow> apply_goal_change st change)
      else case ev_data e of
        UserMessage m \<Rightarrow> apply_goal_round st (msg_source m)
      | _ \<Rightarrow> Inr st)"

definition fold_goal :: "session_event list \<Rightarrow> goal_fault + goal_fold_state" where
  "fold_goal events = fold_result apply_goal_event empty_goal_fold_state events"

section \<open>The projection\<close>

record goal_projection =
  gp_goal :: goal_snapshot
  gp_rounds :: int
  gp_created :: int
  gp_updated :: int

definition apply_goal_projection ::
  "goal_projection option \<Rightarrow> session_event \<Rightarrow> goal_projection option" where
  "apply_goal_projection st e =
     (if ev_type e \<noteq> ''goal/change'' then st
      else case decode_goal_change (data_json (ev_data e)) of
        Inl _ \<Rightarrow> st
      | Inr None \<Rightarrow> st
      | Inr (Some (ClearChange _ _)) \<Rightarrow> None
      | Inr (Some (SnapshotChange _ g rounds created updated)) \<Rightarrow>
          Some \<lparr>gp_goal = g, gp_rounds = rounds, gp_created = created, gp_updated = updated\<rparr>)"


section \<open>Decoding inverts encoding\<close>

definition positive_safe :: "int \<Rightarrow> bool" where
  "positive_safe n \<longleftrightarrow> 1 \<le> n \<and> safe_int n"

definition time_ok :: "int \<Rightarrow> bool" where
  "time_ok n \<longleftrightarrow> 0 \<le> n \<and> safe_int n"

definition reason_ok :: "goal_block_reason \<Rightarrow> bool" where
  "reason_ok r \<longleftrightarrow> is_kebab (br_code r) \<and> normalized (br_message r)"

definition snapshot_ok :: "goal_snapshot \<Rightarrow> bool" where
  "snapshot_ok g \<longleftrightarrow>
     gs_id g \<noteq> [] \<and> normalized (gs_objective g) \<and> positive_safe (gs_revision g) \<and>
     positive_safe (gs_max_rounds g) \<and>
     (case gs_blocked g of
        None \<Rightarrow> gs_phase g \<noteq> PhaseBlocked
      | Some r \<Rightarrow> gs_phase g = PhaseBlocked \<and> reason_ok r)"

definition ref_ok :: "goal_ref \<Rightarrow> bool" where
  "ref_ok r \<longleftrightarrow> gr_id r \<noteq> [] \<and> positive_safe (gr_revision r)"

fun change_ok :: "goal_change \<Rightarrow> bool" where
  "change_ok (SnapshotChange _ g rounds created updated) =
     (snapshot_ok g \<and> time_ok rounds \<and> time_ok created \<and> time_ok updated \<and> created \<le> updated)"
| "change_ok (ClearChange ref at_time) = (ref_ok ref \<and> time_ok at_time)"

text \<open>The key signatures of the objects the service writes.\<close>

lemma signature_reason: "join '','' (sort [''code'', ''message'']) = ''code,message''"
  by code_simp

lemma signature_ref: "join '','' (sort [''id'', ''revision'']) = ''id,revision''"
  by code_simp

lemma signature_snapshot:
  "join '','' (sort [''id'', ''revision'', ''objective'', ''phase'', ''maxGoalRounds'']) =
     ''id,maxGoalRounds,objective,phase,revision''"
  "join '','' (sort [''id'', ''revision'', ''objective'', ''phase'', ''maxGoalRounds'', ''blockedReason'']) =
     ''blockedReason,id,maxGoalRounds,objective,phase,revision''"
  by code_simp+

lemma signature_changes:
  "join '','' (sort [''kind'', ''version'', ''operation'', ''cleared'', ''clearedAt'']) =
     ''cleared,clearedAt,kind,operation,version''"
  "join '','' (sort [''kind'', ''version'', ''operation'', ''goal'', ''roundsStarted'', ''createdAt'', ''updatedAt'']) =
     ''createdAt,goal,kind,operation,roundsStarted,updatedAt,version''"
  by code_simp+

lemma key_signature_JObj: "key_signature (JObj kvs) = join '','' (sort (map fst kvs))"
  by (simp add: key_signature_def)

lemmas signatures = key_signature_JObj signature_reason signature_ref signature_snapshot
  signature_changes

lemma positive_integer_at:
  "jprop v k = Some (jint n) \<Longrightarrow> positive_safe n \<Longrightarrow> positive_integer v k field = Inr n"
  by (simp add: positive_integer_def positive_safe_def)

lemma non_negative_integer_at:
  "jprop v k = Some (jint n) \<Longrightarrow> time_ok n \<Longrightarrow> non_negative_integer v k field = Inr n"
  by (simp add: non_negative_integer_def time_ok_def)

lemma decode_reason_object: "reason_ok r \<Longrightarrow> decode_block_reason (reason_object r) = Inr r"
  by (simp add: decode_block_reason_def reason_object_def reason_ok_def prop_str_def signatures)

lemma decode_ref_object: "ref_ok r \<Longrightarrow> decode_ref (ref_object r) = Inr r"
  by (simp add: decode_ref_def ref_object_def ref_ok_def prop_str_def signatures positive_integer_at)

lemma phase_of_text [simp]: "phase_of (phase_text p) = Some p"
  by simp

lemma operation_of_text [simp]: "operation_of (operation_text p) = Some p"
  by simp

lemma decode_snapshot_object:
  assumes "snapshot_ok g"
  shows "decode_snapshot (snapshot_object g) = Inr g"
proof (cases "gs_blocked g")
  case None
  then have o: "snapshot_object g = JObj
     [(''id'', JStr (gs_id g)), (''revision'', jint (gs_revision g)),
       (''objective'', JStr (gs_objective g)), (''phase'', JStr (phase_text (gs_phase g))),
       (''maxGoalRounds'', jint (gs_max_rounds g))]" by (simp add: snapshot_object_def)
  show ?thesis
    using assms None unfolding o
    by (simp add: decode_snapshot_def snapshot_ok_def prop_str_def signatures snapshot_keys_def
        positive_integer_at)
next
  case (Some r)
  then have o: "snapshot_object g = JObj
     [(''id'', JStr (gs_id g)), (''revision'', jint (gs_revision g)),
       (''objective'', JStr (gs_objective g)), (''phase'', JStr (phase_text (gs_phase g))),
       (''maxGoalRounds'', jint (gs_max_rounds g)), (''blockedReason'', reason_object r)]"
    by (simp add: snapshot_object_def)
  show ?thesis
    using assms Some unfolding o
    by (simp add: decode_snapshot_def snapshot_ok_def prop_str_def signatures snapshot_keys_def
        positive_integer_at decode_reason_object jget_def phase_of_def)
qed

lemma operation_text_not_clear [simp]: "operation_text operation \<noteq> ''clear''"
  by (cases operation) simp_all

lemma decode_change_object:
  assumes "change_ok c"
  shows "decode_goal_change (change_object c) = Inr (Some c)"
proof (cases c)
  case (SnapshotChange operation g rounds created updated)
  have "decode_snapshot_change (change_object c) operation = Inr c"
    using assms SnapshotChange
    by (simp add: decode_snapshot_change_def signatures non_negative_integer_at jget_def
        decode_snapshot_object)
  then show ?thesis
    using SnapshotChange
    by (simp add: decode_goal_change_def GOAL_CHANGE_VERSION_def prop_str_def)
next
  case (ClearChange ref at_time)
  have "decode_clear_change (change_object c) = Inr c"
    using assms ClearChange
    by (simp add: decode_clear_change_def signatures non_negative_integer_at jget_def decode_ref_object)
  then show ?thesis
    using ClearChange by (simp add: decode_goal_change_def GOAL_CHANGE_VERSION_def)
qed


section \<open>The decoder loses nothing\<close>

lemma exact_from_signature:
  assumes "jv_wf v" "is_record v" "distinct ks" "ks \<noteq> []" "\<forall>k \<in> set ks. jprop v k \<noteq> None"
    and "key_signature v = join '','' (sort ks)"
  shows "has_exact_keys v ks"
proof -
  obtain kvs where v: "v = JObj kvs" using assms(2) by (cases v) auto
  have "set ks \<subseteq> set (jkeys v)"
  proof
    fix k assume "k \<in> set ks"
    then have "map_of kvs k \<noteq> None" using assms(5) v by auto
    then show "k \<in> set (jkeys v)" using v by (simp add: map_of_eq_None_iff)
  qed
  then have "set (jkeys v) = set ks"
    using key_signature_exact [OF assms(1,3,4) _ assms(6)] by blast
  moreover have "distinct (jkeys v)" using assms(1) v by simp
  ultimately have "length (jkeys v) = length ks"
    using assms(3) by (metis distinct_card)
  then show ?thesis using assms(2,5) by (simp add: has_exact_keys_def list_all_iff)
qed

lemma positive_integer_Inr:
  assumes "positive_integer v k field = Inr n"
  shows "positive_safe n" "\<exists>m. jprop v k = Some (JNum m) \<and> deep_equal_json (JNum m) (jint n)"
proof -
  obtain m where m: "jprop v k = Some (JNum m)" "is_safe_integer m" "n = num_int m" "1 \<le> n"
    using assms by (auto simp: positive_integer_def split: if_splits)
  then show "positive_safe n" using safe_int_num by (simp add: positive_safe_def)
  then show "\<exists>m. jprop v k = Some (JNum m) \<and> deep_equal_json (JNum m) (jint n)"
    using m deep_equal_num [of m "NInt n"] by (auto simp: positive_safe_def)
qed

lemma non_negative_integer_Inr:
  assumes "non_negative_integer v k field = Inr n"
  shows "time_ok n" "\<exists>m. jprop v k = Some (JNum m) \<and> deep_equal_json (JNum m) (jint n)"
proof -
  obtain m where m: "jprop v k = Some (JNum m)" "is_safe_integer m" "n = num_int m" "0 \<le> n"
    using assms by (auto simp: non_negative_integer_def split: if_splits)
  then show "time_ok n" using safe_int_num by (simp add: time_ok_def)
  then show "\<exists>m. jprop v k = Some (JNum m) \<and> deep_equal_json (JNum m) (jint n)"
    using m deep_equal_num [of m "NInt n"] by (auto simp: time_ok_def)
qed

lemma decode_reason_sound:
  assumes "decode_block_reason v = Inr r" and "jv_wf v"
  shows "reason_ok r \<and> deep_equal_json v (reason_object r)"
proof -
  have v: "is_record v" "key_signature v = join '','' (sort [''code'', ''message''])"
    "jprop v ''code'' = Some (JStr (br_code r))" "jprop v ''message'' = Some (JStr (br_message r))"
    "reason_ok r"
    using assms(1) unfolding signature_reason
    by (auto simp: decode_block_reason_def reason_ok_def split: if_splits option.splits)
  have "has_exact_keys v [''code'', ''message'']"
    using v by (intro exact_from_signature [OF assms(2)]) simp_all
  then have "deep_equal_json v (reason_object r)"
    unfolding reason_object_def using v assms(2) by (intro deep_equal_objI) auto
  then show ?thesis using v(5) by simp
qed

lemma decode_ref_sound:
  assumes "decode_ref v = Inr r" and "jv_wf v"
  shows "ref_ok r \<and> deep_equal_json v (ref_object r)"
proof -
  have v: "is_record v" "key_signature v = join '','' (sort [''id'', ''revision''])"
    "jprop v ''id'' = Some (JStr (gr_id r))" "gr_id r \<noteq> []"
    and rev: "positive_integer v ''revision'' ''cleared.revision'' = Inr (gr_revision r)"
    using assms(1) unfolding signature_ref
    by (auto simp: decode_ref_def result_simps split: if_splits option.splits)
  obtain m where m: "jprop v ''revision'' = Some (JNum m)" "deep_equal_json (JNum m) (jint (gr_revision r))"
    using positive_integer_Inr(2) [OF rev] by blast
  have "has_exact_keys v [''id'', ''revision'']"
    using v m by (intro exact_from_signature [OF assms(2)]) simp_all
  then have "deep_equal_json v (ref_object r)"
    unfolding ref_object_def using v m assms(2) by (intro deep_equal_objI) auto
  then show ?thesis using v(4) positive_integer_Inr(1) [OF rev] by (simp add: ref_ok_def)
qed


lemma decode_snapshot_Inr:
  assumes "decode_snapshot v = Inr g"
  shows "is_record v" "jprop v ''id'' = Some (JStr (gs_id g))" "gs_id g \<noteq> []"
    "jprop v ''objective'' = Some (JStr (gs_objective g))" "normalized (gs_objective g)"
    "jprop v ''phase'' = Some (JStr (phase_text (gs_phase g)))"
    "key_signature v = snapshot_keys (gs_phase g)"
    "positive_integer v ''revision'' ''goal.revision'' = Inr (gs_revision g)"
    "positive_integer v ''maxGoalRounds'' ''goal.maxGoalRounds'' = Inr (gs_max_rounds g)"
    "gs_phase g \<noteq> PhaseBlocked \<Longrightarrow> gs_blocked g = None"
    "gs_phase g = PhaseBlocked \<Longrightarrow>
       \<exists>r. gs_blocked g = Some r \<and> decode_block_reason (jget v ''blockedReason'') = Inr r"
proof -
  obtain gid objective s phase where 1: "is_record v" "jprop v ''id'' = Some (JStr gid)" "gid \<noteq> []"
    "jprop v ''objective'' = Some (JStr objective)" "normalized objective"
    "jprop v ''phase'' = Some (JStr s)" "phase_of s = Some phase"
    "key_signature v = snapshot_keys phase"
    using assms by (auto simp: decode_snapshot_def simp del: phase_of_Some split: if_splits option.splits)
  then have p: "prop_str v ''id'' = Some gid" "prop_str v ''objective'' = Some objective"
    "prop_str v ''phase'' = Some s" by (simp_all only: prop_str_Some)
  obtain revision rounds blocked where 2:
    "positive_integer v ''revision'' ''goal.revision'' = Inr revision"
    "positive_integer v ''maxGoalRounds'' ''goal.maxGoalRounds'' = Inr rounds"
    "(if phase = PhaseBlocked then and_then (decode_block_reason (jget v ''blockedReason'')) (\<lambda>r. Inr (Some r))
      else Inr None) = Inr blocked"
    "g = \<lparr>gs_id = gid, gs_revision = revision, gs_objective = objective, gs_phase = phase,
          gs_blocked = blocked, gs_max_rounds = rounds\<rparr>"
    using assms 1(1,3,5,7,8) unfolding decode_snapshot_def p
    by (simp add: result_simps split del: if_split) blast
  show "is_record v" "jprop v ''id'' = Some (JStr (gs_id g))" "gs_id g \<noteq> []"
    "jprop v ''objective'' = Some (JStr (gs_objective g))" "normalized (gs_objective g)"
    "jprop v ''phase'' = Some (JStr (phase_text (gs_phase g)))"
    "key_signature v = snapshot_keys (gs_phase g)"
    "positive_integer v ''revision'' ''goal.revision'' = Inr (gs_revision g)"
    "positive_integer v ''maxGoalRounds'' ''goal.maxGoalRounds'' = Inr (gs_max_rounds g)"
    using 1 2 by simp_all
  show "gs_phase g \<noteq> PhaseBlocked \<Longrightarrow> gs_blocked g = None"
    "gs_phase g = PhaseBlocked \<Longrightarrow>
       \<exists>r. gs_blocked g = Some r \<and> decode_block_reason (jget v ''blockedReason'') = Inr r"
    using 2(3,4) by (auto simp: result_simps)
qed

lemma decode_snapshot_sound:
  assumes "decode_snapshot v = Inr g" and "jv_wf v"
  shows "snapshot_ok g \<and> deep_equal_json v (snapshot_object g)"
proof -
  note D = decode_snapshot_Inr [OF assms(1)]
  obtain m where m: "jprop v ''revision'' = Some (JNum m)" "deep_equal_json (JNum m) (jint (gs_revision g))"
    using positive_integer_Inr(2) [OF D(8)] by blast
  obtain n where n: "jprop v ''maxGoalRounds'' = Some (JNum n)" "deep_equal_json (JNum n) (jint (gs_max_rounds g))"
    using positive_integer_Inr(2) [OF D(9)] by blast
  note common = D(1-6) m n positive_integer_Inr(1) [OF D(8)] positive_integer_Inr(1) [OF D(9)]
  show ?thesis
  proof (cases "gs_phase g = PhaseBlocked")
    case False
    let ?ks = "[''id'', ''revision'', ''objective'', ''phase'', ''maxGoalRounds'']"
    have "has_exact_keys v ?ks"
      using common D(7) False
      by (intro exact_from_signature [OF assms(2)]) (simp_all add: snapshot_keys_def signature_snapshot(1))
    then have "deep_equal_json v (snapshot_object g)"
      unfolding snapshot_object_def using common D(10) [OF False] assms(2)
      by (intro deep_equal_objI) auto
    then show ?thesis using common D(10) [OF False] False by (simp add: snapshot_ok_def)
  next
    case True
    obtain r where r: "gs_blocked g = Some r" "decode_block_reason (jget v ''blockedReason'') = Inr r"
      using D(11) [OF True] by blast
    obtain b where b: "jprop v ''blockedReason'' = Some b"
      using r(2) by (cases "jprop v ''blockedReason''") (auto simp: jget_def decode_block_reason_def)
    have rs: "reason_ok r" "deep_equal_json b (reason_object r)"
      using decode_reason_sound [of b r] r(2) b jprop_wf [OF assms(2) b] by simp_all
    let ?ks = "[''id'', ''revision'', ''objective'', ''phase'', ''maxGoalRounds'', ''blockedReason'']"
    have "has_exact_keys v ?ks"
      using common D(7) True b
      by (intro exact_from_signature [OF assms(2)]) (simp_all add: snapshot_keys_def signature_snapshot(2))
    then have "deep_equal_json v (snapshot_object g)"
      unfolding snapshot_object_def using common r(1) b rs(2) assms(2)
      by (intro deep_equal_objI) auto
    then show ?thesis using common r(1) rs(1) True by (simp add: snapshot_ok_def)
  qed
qed

lemma decode_snapshot_change_sound:
  assumes "decode_snapshot_change v operation = Inr c" and "jv_wf v" "is_record v"
    and "jprop v ''kind'' = Some (JStr ''goal/change'')"
    and "jprop v ''version'' = Some (JNum n)" "num_eq n GOAL_CHANGE_VERSION"
    and "jprop v ''operation'' = Some (JStr (operation_text operation))"
  shows "change_ok c \<and> deep_equal_json v (change_object c)"
proof -
  obtain created updated g rounds where d:
    "key_signature v = ''createdAt,goal,kind,operation,roundsStarted,updatedAt,version''"
    "non_negative_integer v ''createdAt'' ''createdAt'' = Inr created"
    "non_negative_integer v ''updatedAt'' ''updatedAt'' = Inr updated" "created \<le> updated"
    "decode_snapshot (jget v ''goal'') = Inr g"
    "non_negative_integer v ''roundsStarted'' ''roundsStarted'' = Inr rounds"
    "c = SnapshotChange operation g rounds created updated"
    using assms(1) by (auto simp: decode_snapshot_change_def result_simps split: if_splits)
  note N = non_negative_integer_Inr [OF d(2)] non_negative_integer_Inr [OF d(3)]
    non_negative_integer_Inr [OF d(6)]
  obtain b where b: "jprop v ''goal'' = Some b"
    using d(5) by (cases "jprop v ''goal''") (auto simp: jget_def decode_snapshot_def)
  have g: "snapshot_ok g" "deep_equal_json b (snapshot_object g)"
    using decode_snapshot_sound [of b g] d(5) b jprop_wf [OF assms(2) b] by simp_all
  have "has_exact_keys v
      [''kind'', ''version'', ''operation'', ''goal'', ''roundsStarted'', ''createdAt'', ''updatedAt'']"
    using assms(3-5,7) b N d(1)
    by (intro exact_from_signature [OF assms(2)]) (auto simp: signature_changes(2))
  then have "deep_equal_json v (change_object c)"
    unfolding d(7) change_object.simps using assms(2,4-7) b g(2) N
    by (intro deep_equal_objI) auto
  then show ?thesis using d(4,7) g(1) N(1,3,5) by simp
qed

lemma decode_clear_change_sound:
  assumes "decode_clear_change v = Inr c" and "jv_wf v" "is_record v"
    and "jprop v ''kind'' = Some (JStr ''goal/change'')"
    and "jprop v ''version'' = Some (JNum n)" "num_eq n GOAL_CHANGE_VERSION"
    and "jprop v ''operation'' = Some (JStr ''clear'')"
  shows "change_ok c \<and> deep_equal_json v (change_object c)"
proof -
  obtain ref at_time where d: "key_signature v = ''cleared,clearedAt,kind,operation,version''"
    "decode_ref (jget v ''cleared'') = Inr ref"
    "non_negative_integer v ''clearedAt'' ''clearedAt'' = Inr at_time" "c = ClearChange ref at_time"
    using assms(1) by (auto simp: decode_clear_change_def result_simps split: if_splits)
  note N = non_negative_integer_Inr [OF d(3)]
  obtain b where b: "jprop v ''cleared'' = Some b"
    using d(2) by (cases "jprop v ''cleared''") (auto simp: jget_def decode_ref_def)
  have r: "ref_ok ref" "deep_equal_json b (ref_object ref)"
    using decode_ref_sound [of b ref] d(2) b jprop_wf [OF assms(2) b] by simp_all
  have "has_exact_keys v [''kind'', ''version'', ''operation'', ''cleared'', ''clearedAt'']"
    using assms(3-5,7) b N d(1)
    by (intro exact_from_signature [OF assms(2)]) (auto simp: signature_changes(1))
  then have "deep_equal_json v (change_object c)"
    unfolding d(4) change_object.simps using assms(2,4-7) b r(2) N
    by (intro deep_equal_objI) auto
  then show ?thesis using d(4) r(1) N(1) by simp
qed

lemma decode_goal_change_sound:
  assumes "decode_goal_change v = Inr (Some c)" and "jv_wf v"
  shows "change_ok c \<and> deep_equal_json v (change_object c)"
proof -
  obtain n where v: "is_record v" "jprop v ''kind'' = Some (JStr ''goal/change'')"
    "jprop v ''version'' = Some (JNum n)" "num_eq n GOAL_CHANGE_VERSION"
    using assms(1) by (auto simp: decode_goal_change_def split: if_splits option.splits jv.splits)
  show ?thesis
  proof (cases "jprop v ''operation'' = Some (JStr ''clear'')")
    case True
    then have "decode_clear_change v = Inr c"
      using assms(1) v by (auto simp: decode_goal_change_def result_simps)
    then show ?thesis using decode_clear_change_sound assms(2) v True by blast
  next
    case False
    then obtain operation where "jprop v ''operation'' = Some (JStr (operation_text operation))"
      "decode_snapshot_change v operation = Inr c"
      using assms(1) v by (auto simp: decode_goal_change_def result_simps split: option.splits)
    then show ?thesis using decode_snapshot_change_sound assms(2) v by blast
  qed
qed

text \<open>C34. The strict decoder and the objects the service writes are inverse: a well-formed change is
  decoded to itself, and whatever the decoder accepts is well-formed and, as JSON, exactly the object
  of the decoded change, so no field is dropped, renamed or invented.\<close>

theorem goal_change_codec:
  "(change_ok c \<longrightarrow> decode_goal_change (change_object c) = Inr (Some c)) \<and>
   (jv_wf v \<and> decode_goal_change v = Inr (Some c) \<longrightarrow>
      change_ok c \<and> deep_equal_json v (change_object c))"
  using decode_change_object decode_goal_change_sound by blast


section \<open>The fold\<close>

definition decoded_change :: "session_event \<Rightarrow> goal_change option" where
  "decoded_change e =
     (if ev_type e = ''goal/change'' then
        (case decode_goal_change (data_json (ev_data e)) of Inr c \<Rightarrow> c | Inl _ \<Rightarrow> None)
      else None)"

definition admitted_round :: "session_event \<Rightarrow> (string \<times> int) option" where
  "admitted_round e =
     (case ev_data e of
        UserMessage m \<Rightarrow>
          (case goal_source (msg_source m) of Inr (Some (gid, _, rnd)) \<Rightarrow> Some (gid, rnd) | _ \<Rightarrow> None)
      | _ \<Rightarrow> None)"

text \<open>The four ways an event is accepted.\<close>

lemma apply_goal_event_cases:
  assumes "apply_goal_event st e = Inr st'"
  obtains (change) c where "decoded_change e = Some c" "admitted_round e = None"
      "ev_type e = ''goal/change''" "decode_goal_change (data_json (ev_data e)) = Inr (Some c)"
      "apply_goal_change st c = Inr st'"
  | (round) current rnd where "decoded_change e = None"
      "admitted_round e = Some (gs_id current, rnd)" "gf_goal st = Some current"
      "gs_phase current = PhaseActive" "rnd = gf_rounds st + 1" "rnd \<le> gs_max_rounds current"
      "st' = st\<lparr>gf_rounds := rnd\<rparr>" "ev_type e \<noteq> ''goal/change''"
  | (other) "decoded_change e = None" "admitted_round e = None" "st' = st" "ev_type e \<noteq> ''goal/change''"
proof (cases "ev_type e = ''goal/change''")
  case True
  then have "admitted_round e = None" by (auto simp: admitted_round_def split: event_data.splits)
  then show thesis
    using assms True change
    by (auto simp: apply_goal_event_def decoded_change_def result_simps split: option.splits)
next
  case False
  then have nd: "decoded_change e = None" by (simp add: decoded_change_def)
  show thesis
  proof (cases "\<exists>m. ev_data e = UserMessage m")
    case no: False
    then have "admitted_round e = None" "st' = st"
      using assms False
      by (auto simp: admitted_round_def apply_goal_event_def split: event_data.splits)
    then show thesis using nd False other by blast
  next
    case True
    then obtain m where m: "ev_data e = UserMessage m" by blast
    have r: "apply_goal_round st (msg_source m) = Inr st'"
      using assms m by (simp add: apply_goal_event_def)
    show thesis
    proof (cases "goal_source (msg_source m)")
      case (Inl f)
      then show thesis using r by (simp add: apply_goal_round_def)
    next
      case (Inr parsed)
      show thesis
      proof (cases parsed)
        case None
        then show thesis
          using r Inr nd False other m by (simp add: apply_goal_round_def admitted_round_def)
      next
        case (Some x)
        obtain gid revision rnd where x: "x = (gid, revision, rnd)" by (cases x)
        obtain current where cur: "gf_goal st = Some current"
          using r Inr Some x by (auto simp: apply_goal_round_def split: option.splits)
        have "gs_phase current = PhaseActive" "gid = gs_id current" "rnd = gf_rounds st + 1"
          "rnd \<le> gs_max_rounds current" "st' = st\<lparr>gf_rounds := rnd\<rparr>"
          using r Inr Some x cur by (auto simp: apply_goal_round_def split: if_splits)
        moreover have "admitted_round e = Some (gid, rnd)"
          using m Inr Some x by (simp add: admitted_round_def)
        ultimately show thesis using round nd cur False by metis
      qed
    qed
  qed
qed

text \<open>The three ways a change is accepted.\<close>

lemma apply_goal_change_cases:
  assumes "apply_goal_change st c = Inr st'"
  obtains (create) g created updated where "c = SnapshotChange OpCreate g 0 created updated"
      "gs_revision g = 1" "gs_phase g = PhaseActive" "gs_id g \<notin> gf_seen st"
      "gf_goal st = None \<or> (\<exists>o'. gf_goal st = Some o' \<and> gs_phase o' = PhaseComplete)"
      "st' = install_snapshot st g 0 created updated (insert (gs_id g) (gf_seen st))"
  | (transition) operation g created updated current u where
      "c = SnapshotChange operation g (gf_rounds st) created updated" "operation \<noteq> OpCreate"
      "gf_goal st = Some current" "gs_id g = gs_id current" "gs_revision g = gs_revision current + 1"
      "gf_created st = Some created" "gf_updated st = Some u" "u \<le> updated"
      "phase_transition operation (gf_rounds st) current g = Inr ()"
      "st' = install_snapshot st g (gf_rounds st) created updated (gf_seen st)"
  | (clear) ref at_time current u where "c = ClearChange ref at_time" "gf_goal st = Some current"
      "gr_id ref = gs_id current" "gr_revision ref = gs_revision current + 1"
      "gf_updated st = Some u" "u \<le> at_time"
      "st' = st\<lparr>gf_goal := None, gf_rounds := 0, gf_created := None, gf_updated := None,
                gf_last_ref := Some ref\<rparr>"
proof (cases c)
  case (ClearChange ref at_time)
  then show thesis
    using assms clear
    by (auto simp: apply_clear_def require_next_revision_def result_simps split: option.splits if_splits)
next
  case (SnapshotChange operation g rounds created updated)
  show thesis
  proof (cases "operation = OpCreate")
    case True
    then show thesis
      using assms SnapshotChange create [of g created updated]
      by (auto simp: create_not_fresh_def split: if_splits option.splits)
  next
    case False
    then obtain current where cur: "gf_goal st = Some current"
      using assms SnapshotChange by (auto split: option.splits)
    then have v: "validate_snapshot_transition st operation g rounds created updated current = Inr ()"
      and st': "st' = install_snapshot st g rounds created updated (gf_seen st)"
      using assms SnapshotChange False by (auto simp: result_simps)
    then obtain u where "gs_id g = gs_id current" "gs_revision g = gs_revision current + 1"
      "gf_updated st = Some u" "gf_created st = Some created" "u \<le> updated" "rounds = gf_rounds st"
      "phase_transition operation (gf_rounds st) current g = Inr ()"
      by (auto simp: validate_snapshot_transition_def require_next_revision_def snapshot_ref_def
          result_simps split: if_splits option.splits)
    then show thesis using transition SnapshotChange False cur st' by blast
  qed
qed

definition goal_inv :: "goal_fold_state \<Rightarrow> bool" where
  "goal_inv st \<longleftrightarrow>
     time_ok (gf_rounds st) \<and>
     (case gf_goal st of
        None \<Rightarrow> gf_rounds st = 0 \<and> gf_created st = None \<and> gf_updated st = None
      | Some g \<Rightarrow>
          snapshot_ok g \<and> gs_id g \<in> gf_seen st \<and> gf_last_ref st = Some (snapshot_ref g) \<and>
          (\<exists>c u. gf_created st = Some c \<and> gf_updated st = Some u \<and> time_ok c \<and> time_ok u \<and> c \<le> u))"

lemma goal_inv_empty: "goal_inv empty_goal_fold_state"
  by (simp add: goal_inv_def empty_goal_fold_state_def time_ok_def)

lemma install_fields [simp]:
  "gf_goal (install_snapshot st g r c u seen) = Some g" "gf_rounds (install_snapshot st g r c u seen) = r"
  "gf_created (install_snapshot st g r c u seen) = Some c"
  "gf_updated (install_snapshot st g r c u seen) = Some u"
  "gf_last_ref (install_snapshot st g r c u seen) = Some (snapshot_ref g)"
  "gf_seen (install_snapshot st g r c u seen) = seen"
  by (simp_all add: install_snapshot_def)

lemma goal_inv_change:
  assumes "goal_inv st" "change_ok c" "apply_goal_change st c = Inr st'"
  shows "goal_inv st'"
  using assms(3)
proof (cases rule: apply_goal_change_cases)
  case create
  then show ?thesis using assms(2) by (auto simp: goal_inv_def time_ok_def)
next
  case transition
  then show ?thesis using assms(1,2) by (auto simp: goal_inv_def)
next
  case clear
  then show ?thesis by (auto simp: goal_inv_def time_ok_def)
qed

lemma goal_inv_event:
  assumes "goal_inv st" "jv_wf (data_json (ev_data e))" "apply_goal_event st e = Inr st'"
  shows "goal_inv st'"
  using assms(3)
proof (cases rule: apply_goal_event_cases)
  case (change c)
  then show ?thesis using decode_goal_change_sound assms(1,2) goal_inv_change by blast
next
  case (round current rnd)
  then have "time_ok rnd"
    using assms(1) by (auto simp: goal_inv_def snapshot_ok_def positive_safe_def time_ok_def safe_int_def)
  then show ?thesis using assms(1) round by (auto simp: goal_inv_def)
qed (use assms(1) in simp)

definition event_data_wf :: "session_event \<Rightarrow> bool" where
  "event_data_wf e \<longleftrightarrow> jv_wf (data_json (ev_data e))"

lemma fold_goal_snoc: "fold_goal (es @ [e]) = and_then (fold_goal es) (\<lambda>st. apply_goal_event st e)"
  by (cases "fold_goal es"; cases "apply_goal_event (projr (fold_goal es)) e")
    (simp_all add: fold_goal_def fold_result_append)

lemma fold_goal_inv: "fold_goal es = Inr st \<Longrightarrow> list_all event_data_wf es \<Longrightarrow> goal_inv st"
proof (induction es arbitrary: st rule: rev_induct)
  case Nil
  then show ?case using goal_inv_empty by (simp add: fold_goal_def)
next
  case (snoc e es)
  then obtain st0 where "fold_goal es = Inr st0" "apply_goal_event st0 e = Inr st"
    by (auto simp: fold_goal_snoc result_simps)
  then show ?case using snoc goal_inv_event by (auto simp: event_data_wf_def)
qed

text \<open>Every state the replay fold reaches is well-formed: a current goal is a valid snapshot, its
  id has been seen, the last mutation is its own revision, its creation does not follow its last
  update; and its block reason is present exactly while it is blocked.\<close>

theorem goal_fold_invariant:
  assumes "fold_goal es = Inr st" and "list_all event_data_wf es"
  shows "goal_inv st \<and>
    (\<forall>g. gf_goal st = Some g \<longrightarrow> (gs_blocked g \<noteq> None \<longleftrightarrow> gs_phase g = PhaseBlocked) \<and>
       1 \<le> gs_revision g \<and> gr_revision (the (gf_last_ref st)) = gs_revision g)"
  using fold_goal_inv [OF assms]
  by (auto simp: goal_inv_def snapshot_ok_def snapshot_ref_def positive_safe_def split: option.splits)

section \<open>Numbering\<close>

fun revisions_of :: "string \<Rightarrow> session_event list \<Rightarrow> int list" where
  "revisions_of gid [] = []"
| "revisions_of gid (e # es) =
     (case decoded_change e of
        Some c \<Rightarrow>
          if gr_id (goal_change_ref c) = gid
          then gr_revision (goal_change_ref c) # revisions_of gid es else revisions_of gid es
      | None \<Rightarrow> revisions_of gid es)"

fun rounds_of :: "string \<Rightarrow> session_event list \<Rightarrow> int list" where
  "rounds_of gid [] = []"
| "rounds_of gid (e # es) =
     (case admitted_round e of
        Some (gid', rnd) \<Rightarrow> if gid' = gid then rnd # rounds_of gid es else rounds_of gid es
      | None \<Rightarrow> rounds_of gid es)"

lemma revisions_of_append [simp]: "revisions_of gid (es @ fs) = revisions_of gid es @ revisions_of gid fs"
  by (induction es) (auto split: option.splits)

lemma rounds_of_append [simp]: "rounds_of gid (es @ fs) = rounds_of gid es @ rounds_of gid fs"
  by (induction es) (auto split: option.splits)

text \<open>The invariant of the numbering: goals never seen have no numbers, and the current goal's
  numbers end at its revision and its round count.\<close>

definition numbered :: "goal_fold_state \<Rightarrow> session_event list \<Rightarrow> bool" where
  "numbered st es \<longleftrightarrow>
     (\<forall>gid. \<exists>n m. 0 \<le> n \<and> 0 \<le> m \<and> revisions_of gid es = [1..n] \<and> rounds_of gid es = [1..m] \<and>
        (gid \<notin> gf_seen st \<longrightarrow> n = 0 \<and> m = 0) \<and>
        (\<forall>g. gf_goal st = Some g \<and> gs_id g = gid \<longrightarrow> n = gs_revision g \<and> m = gf_rounds st \<and> gid \<in> gf_seen st))"

lemma upto_snoc0: "0 \<le> n \<Longrightarrow> [1..n] @ [n + 1] = [1..n + 1]" for n :: int
  using upto_rec2 [of 1 "n + 1"] by simp

lemma upto_zero [simp]: "[1..0::int] = []"
  by simp

lemma numbered_step:
  assumes num: "numbered st es" and step: "apply_goal_event st e = Inr st'"
  shows "numbered st' (es @ [e])"
  unfolding numbered_def
proof
  fix gid
  obtain n m where nm: "0 \<le> n" "0 \<le> m" "revisions_of gid es = [1..n]" "rounds_of gid es = [1..m]"
    "gid \<notin> gf_seen st \<Longrightarrow> n = 0 \<and> m = 0"
    "\<And>g. gf_goal st = Some g \<Longrightarrow> gs_id g = gid \<Longrightarrow> n = gs_revision g \<and> m = gf_rounds st \<and> gid \<in> gf_seen st"
    using num unfolding numbered_def by meson
  let ?goal = "\<exists>n m. 0 \<le> n \<and> 0 \<le> m \<and> revisions_of gid (es @ [e]) = [1..n] \<and>
      rounds_of gid (es @ [e]) = [1..m] \<and> (gid \<notin> gf_seen st' \<longrightarrow> n = 0 \<and> m = 0) \<and>
      (\<forall>g. gf_goal st' = Some g \<and> gs_id g = gid \<longrightarrow> n = gs_revision g \<and> m = gf_rounds st' \<and> gid \<in> gf_seen st')"
  from step show ?goal
  proof (cases rule: apply_goal_event_cases)
    case other
    then show ?thesis using nm by (intro exI [of _ n] exI [of _ m]) auto
  next
    case (round current rnd)
    note rnd = this
    show ?thesis
    proof (cases "gs_id current = gid")
      case True
      with rnd nm upto_snoc0 [of m] show ?thesis
        by (intro exI [of _ n] exI [of _ "m + 1"]) auto
    next
      case False
      with rnd nm show ?thesis by (intro exI [of _ n] exI [of _ m]) auto
    qed
  next
    case (change c)
    from change(5) show ?thesis
    proof (cases rule: apply_goal_change_cases)
      case (create g created updated)
      note cc = this
      show ?thesis
      proof (cases "gs_id g = gid")
        case True
        with cc change nm upto_snoc0 [of 0] show ?thesis
          by (intro exI [of _ "1"] exI [of _ m]) (auto simp: snapshot_ref_def)
      next
        case False
        with cc change nm show ?thesis by (intro exI [of _ n] exI [of _ m]) (auto simp: snapshot_ref_def)
      qed
    next
      case (transition operation g created updated current u)
      note cc = this
      show ?thesis
      proof (cases "gs_id current = gid")
        case True
        with cc change nm upto_snoc0 [of n] show ?thesis
          by (intro exI [of _ "n + 1"] exI [of _ m]) (auto simp: snapshot_ref_def)
      next
        case False
        with cc change nm show ?thesis by (intro exI [of _ n] exI [of _ m]) (auto simp: snapshot_ref_def)
      qed
    next
      case (clear ref at_time current u)
      note cc = this
      show ?thesis
      proof (cases "gs_id current = gid")
        case True
        with cc change nm upto_snoc0 [of n] show ?thesis
          by (intro exI [of _ "n + 1"] exI [of _ m]) (auto simp: snapshot_ref_def)
      next
        case False
        with cc change nm show ?thesis by (intro exI [of _ n] exI [of _ m]) (auto simp: snapshot_ref_def)
      qed
    qed
  qed
qed

lemma fold_goal_numbered: "fold_goal es = Inr st \<Longrightarrow> numbered st es"
proof (induction es arbitrary: st rule: rev_induct)
  case Nil
  then show ?case by (auto simp: numbered_def fold_goal_def empty_goal_fold_state_def intro!: exI [of _ 0])
next
  case (snoc e es)
  then obtain st0 where "fold_goal es = Inr st0" "apply_goal_event st0 e = Inr st"
    by (auto simp: fold_goal_snoc result_simps)
  then show ?case using snoc.IH numbered_step by blast
qed

text \<open>In every log the fold accepts, the durable mutations of one goal, over its whole life and
  including its tombstone, carry the revisions 1, 2, 3, \<dots> in order, and its admitted rounds are
  numbered 1, 2, 3, \<dots> in order; the current goal stands at the last of each.\<close>

theorem goal_revisions_and_rounds_consecutive:
  assumes "fold_goal es = Inr st"
  shows "(\<forall>gid. \<exists>n m. revisions_of gid es = [1..n] \<and> rounds_of gid es = [1..m]) \<and>
    (\<forall>g. gf_goal st = Some g \<longrightarrow>
       revisions_of (gs_id g) es = [1..gs_revision g] \<and> rounds_of (gs_id g) es = [1..gf_rounds st])"
  using fold_goal_numbered [OF assms] unfolding numbered_def by metis

section \<open>The projection agrees with the fold\<close>

definition project_goal :: "session_event list \<Rightarrow> goal_projection option" where
  "project_goal events = foldl apply_goal_projection None events"

definition projection_matches :: "goal_fold_state \<Rightarrow> goal_projection option \<Rightarrow> bool" where
  "projection_matches st p \<longleftrightarrow>
     (case p of
        None \<Rightarrow> gf_goal st = None
      | Some x \<Rightarrow> gf_goal st = Some (gp_goal x) \<and> gf_created st = Some (gp_created x) \<and>
          gf_updated st = Some (gp_updated x) \<and> gp_rounds x \<le> gf_rounds st)"

lemma projection_step:
  assumes "projection_matches st p" "apply_goal_event st e = Inr st'"
  shows "projection_matches st' (apply_goal_projection p e)"
  using assms(2)
proof (cases rule: apply_goal_event_cases)
  case (change c)
  from change(5) show ?thesis
    by (cases rule: apply_goal_change_cases)
      (use change in \<open>simp_all add: apply_goal_projection_def projection_matches_def\<close>)
next
  case round
  then show ?thesis
    using assms(1) by (auto simp: apply_goal_projection_def projection_matches_def split: option.splits)
next
  case other
  then show ?thesis using assms(1) by (simp add: apply_goal_projection_def)
qed

text \<open>On every log the strict fold accepts, the light projection shows the same current goal,
  creation and update times, or no goal exactly when there is none; its round counter is the one of
  the latest change, so it never exceeds the admitted rounds.\<close>

theorem projection_agrees:
  assumes "fold_goal es = Inr st"
  shows "(case project_goal es of
      None \<Rightarrow> gf_goal st = None
    | Some p \<Rightarrow> gf_goal st = Some (gp_goal p) \<and> gf_created st = Some (gp_created p) \<and>
        gf_updated st = Some (gp_updated p) \<and> gp_rounds p \<le> gf_rounds st)"
proof -
  have "projection_matches st (project_goal es)"
    using assms
  proof (induction es arbitrary: st rule: rev_induct)
    case Nil
    then show ?case
      by (auto simp: project_goal_def fold_goal_def empty_goal_fold_state_def projection_matches_def)
  next
    case (snoc e es)
    then obtain st0 where "fold_goal es = Inr st0" "apply_goal_event st0 e = Inr st"
      by (auto simp: fold_goal_snoc result_simps)
    then show ?case using projection_step snoc.IH by (simp add: project_goal_def)
  qed
  then show ?thesis by (simp add: projection_matches_def)
qed

section \<open>Instances\<close>

text \<open>A goal created, worked on for one round, and blocked.\<close>

definition example_goal :: "int \<Rightarrow> goal_phase \<Rightarrow> goal_snapshot" where
  "example_goal revision phase =
     \<lparr>gs_id = ''goal-1'', gs_revision = revision, gs_objective = ''ship it'', gs_phase = phase,
      gs_blocked = (if phase = PhaseBlocked then Some \<lparr>br_code = ''no-tests'', br_message = ''tests are missing''\<rparr> else None),
      gs_max_rounds = 5\<rparr>"

definition example_goal_event :: "int \<Rightarrow> goal_change \<Rightarrow> session_event" where
  "example_goal_event n c = example_event (PluginEvent ''goal/change'' (change_object c)) n None None"

definition example_goal_log :: "session_event list" where
  "example_goal_log =
     [example_goal_event 0 (SnapshotChange OpCreate (example_goal 1 PhaseActive) 0 100 100),
      example_event (UserMessage ((example_prompt ''m0'')\<lparr>msg_source := GoalSource ''goal-1'' (NInt 1) (NInt 1)\<rparr>))
        1 (Some append_op) None,
      example_goal_event 2 (SnapshotChange OpBlock (example_goal 2 PhaseBlocked) 1 100 200)]"

definition example_goal_state :: goal_fold_state where
  "example_goal_state =
     \<lparr>gf_goal = Some (example_goal 2 PhaseBlocked), gf_rounds = 1, gf_created = Some 100, gf_updated = Some 200,
      gf_last_ref = Some \<lparr>gr_id = ''goal-1'', gr_revision = 2\<rparr>, gf_seen = {''goal-1''}\<rparr>"

lemma example_goal_folds: "fold_goal example_goal_log = Inr example_goal_state"
  by code_simp

theorem goal_change_codec_witness:
  "decode_goal_change (change_object (SnapshotChange OpBlock (example_goal 2 PhaseBlocked) 1 100 200)) =
     Inr (Some (SnapshotChange OpBlock (example_goal 2 PhaseBlocked) 1 100 200))"
proof -
  have "change_ok (SnapshotChange OpBlock (example_goal 2 PhaseBlocked) 1 100 200)" by code_simp
  then show ?thesis using goal_change_codec by blast
qed

theorem goal_fold_invariant_witness: "goal_inv example_goal_state"
proof -
  have "list_all event_data_wf example_goal_log" by code_simp
  then show ?thesis using goal_fold_invariant [OF example_goal_folds] by blast
qed

theorem goal_revisions_and_rounds_consecutive_witness:
  "revisions_of ''goal-1'' example_goal_log = [1..2] \<and> rounds_of ''goal-1'' example_goal_log = [1..1]"
  using goal_revisions_and_rounds_consecutive [OF example_goal_folds]
  by (auto simp: example_goal_state_def example_goal_def)

theorem projection_agrees_witness:
  "\<exists>p. project_goal example_goal_log = Some p \<and> gp_goal p = example_goal 2 PhaseBlocked"
  using projection_agrees [OF example_goal_folds]
  by (auto simp: example_goal_state_def split: option.splits)

end
