(* ===== verification/Goal_Service.thy ===== *)
theory Goal_Service
  imports Goal_Fold
begin

text \<open>
  The goal service of one session, class \<open>GoalService\<close> of
  \<^verbatim>\<open>packages/goal/goal/src/index.ts\<close>: validation of requests, the process-local cache with
  its activation, the mutations, and the notifications. The lemmas show that the cache is always the
  strict fold of a prefix of the log, that whatever the service commits the strict fold accepts, that
  a refused request leaves no trace, and who may continue a goal automatically.

  The state is one session with the cache the service keeps for it. What a call reads from outside
  (whether the agent is the registry's live one, the clock, a fresh UUID, the state of publication of
  the session) is an environment argument. Request fields come from the wire and are JSON values.
\<close>

section \<open>State\<close>

datatype goal_activation = Armed | Disarmed

record goal_cache =
  gc_state :: goal_fold_state
  gc_activation :: goal_activation
  gc_observed :: nat
  gc_pending :: "(nat \<times> goal_activation) option"

record goal_view =
  gv_goal :: goal_snapshot
  gv_rounds :: int
  gv_created :: int
  gv_updated :: int
  gv_activation :: goal_activation

text \<open>A notification; the operation is absent for \<open>clear\<close>.\<close>

record goal_changed =
  ch_operation :: "goal_operation option"
  ch_ref :: goal_ref
  ch_goal :: "goal_view option"

record goal_world =
  gw_session :: session_obj
  gw_cache :: "goal_cache option"
  gw_default_rounds :: int
  gw_emitted :: "goal_changed list"

record goal_env =
  ge_live :: bool
  ge_now :: int
  ge_uuid :: string
  ge_stamp :: int
  ge_appending :: bool
  ge_dispatch_ok :: bool

text \<open>A ref as the caller hands it over: its revision is any number.\<close>

record call_ref =
  cr_id :: string
  cr_revision :: jnum

datatype goal_error =
    AgentNotLive
  | GoalNotFound
  | GoalAlreadyExists
  | StaleRevision
  | InvalidObjective
  | InvalidMaxRounds
  | InvalidBlockReason
  | InvalidEdit
  | InvalidTransition
  | CacheLacksTime
  | CommitCleared
  | FoldFailed goal_fault
  | AppendFailed session_error

datatype goal_request =
    ReqCreate "jv option" "jv option"
  | ReqEdit call_ref "jv option" "jv option"
  | ReqPause call_ref
  | ReqResume call_ref
  | ReqComplete call_ref
  | ReqBlock call_ref "jv option"
  | ReqClear call_ref

datatype goal_response = Viewed goal_view | Cleared goal_ref

section \<open>Validation of requests\<close>

definition resolve_max_goal_rounds :: "jv option \<Rightarrow> goal_error + int" where
  "resolve_max_goal_rounds v =
     (case v of
        Some (JNum n) \<Rightarrow>
          if \<not> is_safe_integer n \<or> num_int n < 1 then Inl InvalidMaxRounds else Inr (num_int n)
      | _ \<Rightarrow> Inl InvalidMaxRounds)"

definition resolve_objective :: "jv option \<Rightarrow> goal_error + string" where
  "resolve_objective v =
     (case v of
        Some (JStr s) \<Rightarrow> if length (trim s) = 0 then Inl InvalidObjective else Inr (trim s)
      | _ \<Rightarrow> Inl InvalidObjective)"

text \<open>\<open>request.maxGoalRounds ?? defaultMaxGoalRounds\<close>: null falls back like absence.\<close>

definition or_default :: "jv option \<Rightarrow> int \<Rightarrow> jv option" where
  "or_default v d = (case v of None \<Rightarrow> Some (jint d) | Some JNull \<Rightarrow> Some (jint d) | Some x \<Rightarrow> Some x)"

definition resolve_create_goal ::
  "jv option \<Rightarrow> jv option \<Rightarrow> int \<Rightarrow> goal_error + string \<times> int" where
  "resolve_create_goal objective rounds default_rounds =
     and_then (resolve_objective objective) (\<lambda>s.
     and_then (resolve_max_goal_rounds (or_default rounds default_rounds)) (\<lambda>n.
       Inr (s, n)))"

definition resolve_block_reason :: "jv option \<Rightarrow> goal_error + goal_block_reason" where
  "resolve_block_reason v =
     (case (case v of Some r \<Rightarrow> prop_str r ''code'' | None \<Rightarrow> None) of
        None \<Rightarrow> Inl InvalidBlockReason
      | Some code \<Rightarrow>
          if \<not> is_kebab code then Inl InvalidBlockReason
          else case (case v of Some r \<Rightarrow> prop_str r ''message'' | None \<Rightarrow> None) of
            None \<Rightarrow> Inl InvalidBlockReason
          | Some message \<Rightarrow>
              if length (trim message) = 0 then Inl InvalidBlockReason
              else Inr \<lparr>br_code = code, br_message = trim message\<rparr>)"

section \<open>The cache\<close>

text \<open>A computation over the world that may throw; what it has done stays done.\<close>

type_synonym ('w, 'a) goal_call = "'w \<times> (goal_error + 'a)"

definition call_then ::
  "('w, 'a) goal_call \<Rightarrow> ('w \<Rightarrow> 'a \<Rightarrow> ('w, 'b) goal_call) \<Rightarrow> ('w, 'b) goal_call" where
  "call_then m f = (case m of (w, Inl err) \<Rightarrow> (w, Inl err) | (w, Inr a) \<Rightarrow> f w a)"

definition activation_after :: "goal_cache \<Rightarrow> session_event \<Rightarrow> goal_activation" where
  "activation_after c e =
     (if ev_type e = ''goal/change'' then
        (case gc_pending c of
           Some (n, a) \<Rightarrow> if int n = ev_seq e then a else Disarmed
         | None \<Rightarrow> Disarmed)
      else gc_activation c)"

fun sync_loop :: "session_event list \<Rightarrow> goal_cache \<Rightarrow> goal_cache \<times> goal_fault option" where
  "sync_loop [] c = (c, None)"
| "sync_loop (e # es) c =
     (case apply_goal_event (gc_state c) e of
        Inl err \<Rightarrow> (c, Some err)
      | Inr st \<Rightarrow>
          sync_loop es
            (c\<lparr>gc_state := st, gc_activation := activation_after c e, gc_observed := gc_observed c + 1\<rparr>))"

definition goal_cache_of :: "goal_world \<Rightarrow> (goal_world, goal_cache) goal_call" where
  "goal_cache_of w =
     (case gw_cache w of
        Some c \<Rightarrow> (w, Inr c)
      | None \<Rightarrow>
          let (s, es) = session_events (gw_session w); w' = w\<lparr>gw_session := s\<rparr> in
          (case fold_result apply_goal_event empty_goal_fold_state es of
             Inl err \<Rightarrow> (w', Inl (FoldFailed err))
           | Inr st \<Rightarrow>
               let c = \<lparr>gc_state = st, gc_activation = Disarmed, gc_observed = session_seq s,
                        gc_pending = None\<rparr>
               in (w'\<lparr>gw_cache := Some c\<rparr>, Inr c)))"

definition goal_sync :: "goal_world \<Rightarrow> goal_cache \<Rightarrow> (goal_world, goal_cache) goal_call" where
  "goal_sync w c =
     (let (s, es) = session_events (gw_session w);
          (c', err) = sync_loop (drop (gc_observed c) es) c;
          w' = w\<lparr>gw_session := s, gw_cache := Some c'\<rparr>
      in (w', case err of None \<Rightarrow> Inr c' | Some x \<Rightarrow> Inl (FoldFailed x)))"

definition goal_view_of :: "goal_cache \<Rightarrow> goal_error + goal_view option" where
  "goal_view_of c =
     (case gf_goal (gc_state c) of
        None \<Rightarrow> Inr None
      | Some g \<Rightarrow>
          (case (gf_created (gc_state c), gf_updated (gc_state c)) of
             (Some created, Some updated) \<Rightarrow>
               Inr (Some \<lparr>gv_goal = g, gv_rounds = gf_rounds (gc_state c), gv_created = created,
                          gv_updated = updated, gv_activation = gc_activation c\<rparr>)
           | _ \<Rightarrow> Inl CacheLacksTime))"

definition assert_live :: "goal_env \<Rightarrow> goal_world \<Rightarrow> (goal_world, unit) goal_call" where
  "assert_live env w = (w, if ge_live env then Inr () else Inl AgentNotLive)"

definition prepare_mutation :: "goal_env \<Rightarrow> goal_world \<Rightarrow> (goal_world, goal_cache) goal_call" where
  "prepare_mutation env w =
     call_then (assert_live env w) (\<lambda>w _.
     call_then (goal_cache_of w) (\<lambda>w c.
       goal_sync w c))"

definition goal_get :: "goal_env \<Rightarrow> goal_world \<Rightarrow> (goal_world, goal_view option) goal_call" where
  "goal_get env w = call_then (prepare_mutation env w) (\<lambda>w c. (w, goal_view_of c))"

definition goal_disarm :: "goal_env \<Rightarrow> goal_world \<Rightarrow> (goal_world, goal_view option) goal_call" where
  "goal_disarm env w =
     call_then (prepare_mutation env w) (\<lambda>w c.
       let c' = c\<lparr>gc_activation := Disarmed\<rparr> in (w\<lparr>gw_cache := Some c'\<rparr>, goal_view_of c'))"

text \<open>The listener of \<open>agent/session-start\<close>.\<close>

definition goal_session_start :: "goal_world \<Rightarrow> (goal_world, unit) goal_call" where
  "goal_session_start w =
     call_then (goal_cache_of w) (\<lambda>w c.
       (w\<lparr>gw_cache := Some (c\<lparr>gc_activation := Disarmed\<rparr>)\<rparr>, Inr ()))"

section \<open>Commits\<close>

definition change_operation :: "goal_change \<Rightarrow> goal_operation option" where
  "change_operation c = (case c of SnapshotChange operation _ _ _ _ \<Rightarrow> Some operation | ClearChange _ _ \<Rightarrow> None)"

text \<open>The \<open>finally\<close> clause: the pending activation never outlives the commit.\<close>

definition drop_pending :: "goal_world \<Rightarrow> goal_world" where
  "drop_pending w = w\<lparr>gw_cache := map_option (\<lambda>c. c\<lparr>gc_pending := None\<rparr>) (gw_cache w)\<rparr>"

definition append_and_sync ::
  "goal_env \<Rightarrow> goal_world \<Rightarrow> goal_cache \<Rightarrow> goal_change \<Rightarrow> (goal_world, goal_cache) goal_call" where
  "append_and_sync env w c change =
     (let (s, r) = append_event (ge_appending env) (ge_dispatch_ok env) (ge_stamp env)
                     (PluginEvent ''goal/change'' (change_object change)) (None, None) (gw_session w);
          w' = w\<lparr>gw_session := s, gw_cache := Some c\<rparr>
      in case r of Inl err \<Rightarrow> (w', Inl (AppendFailed err)) | Inr _ \<Rightarrow> goal_sync w' c)"

definition goal_commit ::
  "goal_env \<Rightarrow> goal_world \<Rightarrow> goal_cache \<Rightarrow> goal_change \<Rightarrow> goal_activation
     \<Rightarrow> (goal_world, goal_cache) goal_call" where
  "goal_commit env w c change activation =
     (let c1 = c\<lparr>gc_pending := Some (session_seq (gw_session w), activation)\<rparr>;
          (w', r) = append_and_sync env w c1 change;
          w'' = drop_pending w'
      in case r of
           Inl err \<Rightarrow> (w'', Inl err)
         | Inr c2 \<Rightarrow>
             let c3 = c2\<lparr>gc_pending := None\<rparr> in
             (case goal_view_of c3 of
                Inl err \<Rightarrow> (w'', Inl err)
              | Inr v \<Rightarrow>
                  (w''\<lparr>gw_emitted := gw_emitted w @
                        [\<lparr>ch_operation = change_operation change, ch_ref = goal_change_ref change,
                          ch_goal = v\<rparr>]\<rparr>, Inr c3)))"

definition commit_snapshot ::
  "goal_env \<Rightarrow> goal_world \<Rightarrow> goal_cache \<Rightarrow> goal_operation \<Rightarrow> goal_snapshot \<Rightarrow> int \<Rightarrow> int \<Rightarrow> int
     \<Rightarrow> goal_activation \<Rightarrow> (goal_world, goal_response) goal_call" where
  "commit_snapshot env w c operation g rounds created updated activation =
     call_then (goal_commit env w c (SnapshotChange operation g rounds created updated) activation)
       (\<lambda>w c. (w, and_then (goal_view_of c) (\<lambda>v.
          case v of None \<Rightarrow> Inl CommitCleared | Some x \<Rightarrow> Inr (Viewed x))))"

definition next_mutation_time :: "goal_env \<Rightarrow> goal_cache \<Rightarrow> goal_error + int" where
  "next_mutation_time env c =
     (case gf_updated (gc_state c) of
        None \<Rightarrow> Inl CacheLacksTime
      | Some u \<Rightarrow> Inr (max (ge_now env) u))"

definition commit_current ::
  "goal_env \<Rightarrow> goal_world \<Rightarrow> goal_cache \<Rightarrow> goal_operation \<Rightarrow> goal_snapshot \<Rightarrow> goal_activation
     \<Rightarrow> (goal_world, goal_response) goal_call" where
  "commit_current env w c operation g activation =
     (case gf_created (gc_state c) of
        None \<Rightarrow> (w, Inl CacheLacksTime)
      | Some created \<Rightarrow>
          (case next_mutation_time env c of
             Inl err \<Rightarrow> (w, Inl err)
           | Inr time \<Rightarrow>
               commit_snapshot env w c operation g (gf_rounds (gc_state c)) created time activation))"

section \<open>Mutations\<close>

definition expect_current :: "goal_cache \<Rightarrow> call_ref \<Rightarrow> goal_error + goal_snapshot" where
  "expect_current c ref =
     (case gf_goal (gc_state c) of
        None \<Rightarrow> Inl GoalNotFound
      | Some current \<Rightarrow>
          if cr_id ref \<noteq> gs_id current \<or> \<not> num_eq (cr_revision ref) (NInt (gs_revision current))
          then Inl StaleRevision else Inr current)"

definition with_phase :: "goal_snapshot \<Rightarrow> goal_phase \<Rightarrow> goal_snapshot" where
  "with_phase current phase =
     \<lparr>gs_id = gs_id current, gs_revision = gs_revision current + 1,
      gs_objective = gs_objective current, gs_phase = phase, gs_blocked = None,
      gs_max_rounds = gs_max_rounds current\<rparr>"

text \<open>Reading the current goal under the caller's ref, shared by every mutation but \<open>create\<close>.\<close>

definition with_current ::
  "goal_env \<Rightarrow> call_ref \<Rightarrow> goal_world
     \<Rightarrow> (goal_world \<Rightarrow> goal_cache \<Rightarrow> goal_snapshot \<Rightarrow> (goal_world, 'a) goal_call) \<Rightarrow> (goal_world, 'a) goal_call" where
  "with_current env ref w f =
     call_then (prepare_mutation env w) (\<lambda>w c.
       case expect_current c ref of Inl err \<Rightarrow> (w, Inl err) | Inr current \<Rightarrow> f w c current)"

definition goal_create ::
  "goal_env \<Rightarrow> jv option \<Rightarrow> jv option \<Rightarrow> goal_world \<Rightarrow> (goal_world, goal_response) goal_call" where
  "goal_create env objective rounds w =
     (case resolve_create_goal objective rounds (gw_default_rounds w) of
        Inl err \<Rightarrow> (w, Inl err)
      | Inr (text, cap) \<Rightarrow>
          call_then (prepare_mutation env w) (\<lambda>w c.
            if (case gf_goal (gc_state c) of Some g \<Rightarrow> gs_phase g \<noteq> PhaseComplete | None \<Rightarrow> False)
            then (w, Inl GoalAlreadyExists)
            else commit_snapshot env w c OpCreate
                   \<lparr>gs_id = ''goal-'' @ ge_uuid env, gs_revision = 1, gs_objective = text,
                    gs_phase = PhaseActive, gs_blocked = None, gs_max_rounds = cap\<rparr>
                   0 (ge_now env) (ge_now env) Armed))"

text \<open>The field an edit replaces, or the current one.\<close>

definition edited :: "('a \<Rightarrow> goal_error + 'b) \<Rightarrow> 'a option \<Rightarrow> 'b \<Rightarrow> goal_error + 'b" where
  "edited resolve v current = (case v of None \<Rightarrow> Inr current | Some x \<Rightarrow> resolve x)"

definition goal_edit ::
  "goal_env \<Rightarrow> call_ref \<Rightarrow> jv option \<Rightarrow> jv option \<Rightarrow> goal_world \<Rightarrow> (goal_world, goal_response) goal_call" where
  "goal_edit env ref objective rounds w =
     with_current env ref w (\<lambda>w c current.
       if objective = None \<and> rounds = None then (w, Inl InvalidEdit)
       else case
         and_then (edited (\<lambda>v. resolve_objective (Some v)) objective (gs_objective current)) (\<lambda>text.
         and_then (edited (\<lambda>v. resolve_max_goal_rounds (Some v)) rounds (gs_max_rounds current)) (\<lambda>cap.
           Inr (text, cap))) of
         Inl err \<Rightarrow> (w, Inl err)
       | Inr (text, cap) \<Rightarrow>
           commit_current env w c OpEdit
             (current\<lparr>gs_revision := gs_revision current + 1, gs_objective := text,
                      gs_max_rounds := cap\<rparr>)
             (gc_activation c))"

definition goal_transition ::
  "goal_env \<Rightarrow> call_ref \<Rightarrow> goal_operation \<Rightarrow> goal_phase list \<Rightarrow> goal_phase \<Rightarrow> goal_activation
     \<Rightarrow> goal_world \<Rightarrow> (goal_world, goal_response) goal_call" where
  "goal_transition env ref operation allowed phase activation w =
     with_current env ref w (\<lambda>w c current.
       if gs_phase current \<notin> set allowed then (w, Inl InvalidTransition)
       else commit_current env w c operation (with_phase current phase) activation)"

definition goal_pause :: "goal_env \<Rightarrow> call_ref \<Rightarrow> goal_world \<Rightarrow> (goal_world, goal_response) goal_call" where
  "goal_pause env ref = goal_transition env ref OpPause [PhaseActive] PhasePaused Disarmed"

definition goal_complete :: "goal_env \<Rightarrow> call_ref \<Rightarrow> goal_world \<Rightarrow> (goal_world, goal_response) goal_call" where
  "goal_complete env ref =
     goal_transition env ref OpComplete [PhaseActive, PhasePaused, PhaseBlocked] PhaseComplete Disarmed"

definition goal_resume :: "goal_env \<Rightarrow> call_ref \<Rightarrow> goal_world \<Rightarrow> (goal_world, goal_response) goal_call" where
  "goal_resume env ref w =
     with_current env ref w (\<lambda>w c current.
       if gs_phase current \<notin> set [PhaseActive, PhasePaused, PhaseBlocked] then (w, Inl InvalidTransition)
       else if gs_phase current = PhaseActive \<and> gc_activation c = Armed then (w, Inl InvalidTransition)
       else if gs_max_rounds current \<le> gf_rounds (gc_state c) then (w, Inl InvalidTransition)
       else commit_current env w c OpResume (with_phase current PhaseActive) Armed)"

definition goal_block ::
  "goal_env \<Rightarrow> call_ref \<Rightarrow> jv option \<Rightarrow> goal_world \<Rightarrow> (goal_world, goal_response) goal_call" where
  "goal_block env ref reason w =
     with_current env ref w (\<lambda>w c current.
       if gs_phase current \<noteq> PhaseActive then (w, Inl InvalidTransition)
       else case resolve_block_reason reason of
         Inl err \<Rightarrow> (w, Inl err)
       | Inr r \<Rightarrow>
           commit_current env w c OpBlock ((with_phase current PhaseBlocked)\<lparr>gs_blocked := Some r\<rparr>)
             Disarmed)"

definition goal_clear :: "goal_env \<Rightarrow> call_ref \<Rightarrow> goal_world \<Rightarrow> (goal_world, goal_response) goal_call" where
  "goal_clear env ref w =
     with_current env ref w (\<lambda>w c current.
       case next_mutation_time env c of
         Inl err \<Rightarrow> (w, Inl err)
       | Inr time \<Rightarrow>
           let tombstone = \<lparr>gr_id = gs_id current, gr_revision = gs_revision current + 1\<rparr> in
           call_then (goal_commit env w c (ClearChange tombstone time) Disarmed)
             (\<lambda>w _. (w, Inr (Cleared tombstone))))"

fun goal_perform ::
  "goal_env \<Rightarrow> goal_request \<Rightarrow> goal_world \<Rightarrow> (goal_world, goal_response) goal_call" where
  "goal_perform env (ReqCreate objective rounds) w = goal_create env objective rounds w"
| "goal_perform env (ReqEdit ref objective rounds) w = goal_edit env ref objective rounds w"
| "goal_perform env (ReqPause ref) w = goal_pause env ref w"
| "goal_perform env (ReqResume ref) w = goal_resume env ref w"
| "goal_perform env (ReqComplete ref) w = goal_complete env ref w"
| "goal_perform env (ReqBlock ref reason) w = goal_block env ref reason w"
| "goal_perform env (ReqClear ref) w = goal_clear env ref w"

text \<open>A new service, with the configured default cap.\<close>

definition new_goal_service :: "jv option \<Rightarrow> session_obj \<Rightarrow> goal_error + goal_world" where
  "new_goal_service config s =
     and_then (resolve_max_goal_rounds (or_default config 256)) (\<lambda>n.
       Inr \<lparr>gw_session = s, gw_cache = None, gw_default_rounds = n, gw_emitted = []\<rparr>)"

section \<open>Reachable states\<close>

inductive goal_service_step :: "goal_world \<Rightarrow> goal_world \<Rightarrow> bool" where
  perform: "goal_perform env req w = (w', r) \<Longrightarrow> goal_service_step w w'"
| get: "goal_get env w = (w', v) \<Longrightarrow> goal_service_step w w'"
| disarm: "goal_disarm env w = (w', v) \<Longrightarrow> goal_service_step w w'"
| session_start: "goal_session_start w = (w', u) \<Longrightarrow> goal_service_step w w'"
| foreign: "append_event appending dispatch_ok now d intent (gw_session w) = (s', x) \<Longrightarrow>
    goal_service_step w (w\<lparr>gw_session := s'\<rparr>)"

inductive_simps goal_service_step_iff: "goal_service_step w w'"

section \<open>The cache is an incremental fold\<close>

lemma sync_loop_fold:
  "sync_loop es c = (c', r) \<Longrightarrow>
     (\<exists>n \<le> length es. fold_result apply_goal_event (gc_state c) (take n es) = Inr (gc_state c') \<and>
        gc_observed c' = gc_observed c + n \<and> (r = None \<longrightarrow> n = length es)) \<and>
     gc_pending c' = gc_pending c \<and>
     (\<forall>err. r = Some err \<longrightarrow> fold_result apply_goal_event (gc_state c) es = Inl err)"
proof (induction es arbitrary: c)
  case Nil
  then show ?case by auto
next
  case (Cons e es)
  show ?case
  proof (cases "apply_goal_event (gc_state c) e")
    case (Inl err)
    then show ?thesis using Cons.prems by (auto intro!: exI [of _ 0])
  next
    case (Inr st)
    let ?c = "c\<lparr>gc_state := st, gc_activation := activation_after c e, gc_observed := gc_observed c + 1\<rparr>"
    have s: "sync_loop es ?c = (c', r)" using Cons.prems Inr by simp
    obtain n where n: "n \<le> length es" "fold_result apply_goal_event st (take n es) = Inr (gc_state c')"
      "gc_observed c' = gc_observed c + 1 + n" "r = None \<longrightarrow> n = length es"
      using Cons.IH [OF s] by auto
    have "gc_pending c' = gc_pending c"
      "\<forall>err. r = Some err \<longrightarrow> fold_result apply_goal_event st es = Inl err"
      using Cons.IH [OF s] by auto
    then show ?thesis using n Inr by (auto intro!: exI [of _ "Suc n"])
  qed
qed

lemma sync_loop_complete:
  "fold_result apply_goal_event (gc_state c) es = Inr st \<Longrightarrow> \<exists>c'. sync_loop es c = (c', None)"
  using sync_loop_fold [of es c] by (cases "sync_loop es c"; cases "snd (sync_loop es c)") auto

text \<open>Catching up, seen from outside.\<close>

definition goal_catch_up :: "goal_cache \<Rightarrow> session_event list \<Rightarrow> goal_fault + goal_cache" where
  "goal_catch_up c es =
     (case sync_loop (drop (gc_observed c) es) c of (c', None) \<Rightarrow> Inr c' | (_, Some err) \<Rightarrow> Inl err)"

interpretation goal_cache_fold: incremental_fold
  apply_goal_event empty_goal_fold_state gc_observed gc_state goal_catch_up
proof (unfold_locales, goal_cases)
  case (1 c es c')
  then have s: "sync_loop (drop (gc_observed c) es) c = (c', None)"
    by (auto simp: goal_catch_up_def split: prod.splits option.splits)
  show ?case using sync_loop_fold [OF s] 1(1) by auto
next
  case (2 c es st)
  then show ?case using sync_loop_complete by (fastforce simp: goal_catch_up_def)
qed

text \<open>Only a change of the goal stream moves the goal itself.\<close>

definition active_goal :: "goal_fold_state \<Rightarrow> bool" where
  "active_goal st \<longleftrightarrow> (\<exists>g. gf_goal st = Some g \<and> gs_phase g = PhaseActive)"

definition cache_ok :: "session_event list \<Rightarrow> goal_cache \<Rightarrow> bool" where
  "cache_ok es c \<longleftrightarrow>
     goal_cache_fold.coherent c es \<and> gc_pending c = None \<and>
     (gc_activation c = Armed \<longrightarrow> active_goal (gc_state c))"

definition goal_world_inv :: "goal_world \<Rightarrow> bool" where
  "goal_world_inv w \<longleftrightarrow>
     session_ok (gw_session w) \<and> list_all event_data_wf (ss_log (gw_session w)) \<and>
     positive_safe (gw_default_rounds w) \<and>
     (\<forall>c. gw_cache w = Some c \<longrightarrow> cache_ok (ss_log (gw_session w)) c)"

lemma active_goal_other:
  "apply_goal_event st e = Inr st' \<Longrightarrow> ev_type e \<noteq> ''goal/change'' \<Longrightarrow> active_goal st' = active_goal st"
  by (erule apply_goal_event_cases) (auto simp: active_goal_def)

lemma sync_loop_active:
  "sync_loop es c = (c', r) \<Longrightarrow> gc_pending c = None \<Longrightarrow>
     (gc_activation c = Armed \<longrightarrow> active_goal (gc_state c)) \<Longrightarrow>
     (gc_activation c' = Armed \<longrightarrow> active_goal (gc_state c'))"
proof (induction es arbitrary: c)
  case (Cons e es)
  show ?case
  proof (cases "apply_goal_event (gc_state c) e")
    case (Inr st)
    let ?c = "c\<lparr>gc_state := st, gc_activation := activation_after c e, gc_observed := gc_observed c + 1\<rparr>"
    have "sync_loop es ?c = (c', r)" using Cons.prems Inr by simp
    moreover have "gc_activation ?c = Armed \<longrightarrow> active_goal (gc_state ?c)"
      using Cons.prems(2,3) active_goal_other [OF Inr] by (auto simp: activation_after_def)
    ultimately show ?thesis using Cons.IH [of ?c] Cons.prems(2) by simp
  qed (use Cons.prems in simp)
qed simp

lemma sync_loop_cache_ok:
  assumes "cache_ok es c" and s: "sync_loop (drop (gc_observed c) es) c = (c', r)"
  shows "cache_ok es c'"
proof -
  have c: "gc_observed c \<le> length es" "gc_pending c = None"
    "fold_result apply_goal_event empty_goal_fold_state (take (gc_observed c) es) = Inr (gc_state c)"
    "gc_activation c = Armed \<longrightarrow> active_goal (gc_state c)"
    using assms(1) by (auto simp: cache_ok_def goal_cache_fold.coherent_def)
  obtain n where n: "n \<le> length (drop (gc_observed c) es)"
    "fold_result apply_goal_event (gc_state c) (take n (drop (gc_observed c) es)) = Inr (gc_state c')"
    "gc_observed c' = gc_observed c + n" "gc_pending c' = gc_pending c"
    using sync_loop_fold [OF s] by auto
  have "take (gc_observed c') es = take (gc_observed c) es @ take n (drop (gc_observed c) es)"
    using n(3) by (simp add: take_add)
  then have "fold_result apply_goal_event empty_goal_fold_state (take (gc_observed c') es) = Inr (gc_state c')"
    using fold_result_appendI [OF c(3) n(2)] by simp
  then show ?thesis
    using n c sync_loop_active [OF s c(2,4)] by (auto simp: cache_ok_def goal_cache_fold.coherent_def)
qed

lemma cache_ok_append: "cache_ok es c \<Longrightarrow> cache_ok (es @ fs) c"
  using goal_cache_fold.coherent_append by (auto simp: cache_ok_def)

section \<open>Reads\<close>

lemma call_then_simps [simp]:
  "call_then (w, Inl err) f = (w, Inl err)" "call_then (w, Inr a) f = f w a"
  by (simp_all add: call_then_def)

lemma call_then_eq:
  "call_then m f = (w', r) \<longleftrightarrow>
     (\<exists>w1 err. m = (w1, Inl err) \<and> w' = w1 \<and> r = Inl err) \<or> (\<exists>w1 a. m = (w1, Inr a) \<and> f w1 a = (w', r))"
  by (cases m; cases "snd m") auto

text \<open>What a read of the log and the cache leaves alone.\<close>

definition only_reads :: "goal_world \<Rightarrow> goal_world \<Rightarrow> bool" where
  "only_reads w w' \<longleftrightarrow>
     ss_log (gw_session w') = ss_log (gw_session w) \<and> gw_emitted w' = gw_emitted w \<and>
     gw_default_rounds w' = gw_default_rounds w"

lemma only_reads_refl [simp]: "only_reads w w"
  by (simp add: only_reads_def)

lemma only_reads_trans: "only_reads w w1 \<Longrightarrow> only_reads w1 w2 \<Longrightarrow> only_reads w w2"
  by (simp add: only_reads_def)

text \<open>A cache that has seen the whole log.\<close>

definition synced :: "goal_world \<Rightarrow> goal_cache \<Rightarrow> bool" where
  "synced w c \<longleftrightarrow> gw_cache w = Some c \<and> gc_observed c = length (ss_log (gw_session w))"

lemma synced_fold:
  assumes "goal_world_inv w" "synced w c"
  shows "fold_goal (ss_log (gw_session w)) = Inr (gc_state c)" "goal_inv (gc_state c)"
proof -
  have "cache_ok (ss_log (gw_session w)) c" using assms by (simp add: goal_world_inv_def synced_def)
  then show f: "fold_goal (ss_log (gw_session w)) = Inr (gc_state c)"
    using assms(2) by (simp add: cache_ok_def goal_cache_fold.coherent_def synced_def fold_goal_def)
  show "goal_inv (gc_state c)"
    using fold_goal_inv [OF f] assms(1) by (simp add: goal_world_inv_def)
qed

lemma goal_cache_of_ok:
  assumes inv: "goal_world_inv w" and "goal_cache_of w = (w', r)"
  shows "goal_world_inv w' \<and> only_reads w w' \<and>
    (case r of
       Inl err \<Rightarrow> \<exists>x. err = FoldFailed x \<and> fold_goal (ss_log (gw_session w)) = Inl x
     | Inr c \<Rightarrow> gw_cache w' = Some c)"
proof (cases "gw_cache w")
  case (Some c)
  then show ?thesis using assms by (auto simp: goal_cache_of_def)
next
  case None
  obtain s es where s: "session_events (gw_session w) = (s, es)" by fastforce
  have S: "es = ss_log (gw_session w)" "session_ok s" "ss_log s = ss_log (gw_session w)"
    using session_events_log [OF _ s] inv by (auto simp: goal_world_inv_def)
  show ?thesis
  proof (cases "fold_result apply_goal_event empty_goal_fold_state es")
    case (Inl err)
    then show ?thesis
      using assms None s S by (auto simp: goal_cache_of_def goal_world_inv_def only_reads_def fold_goal_def)
  next
    case (Inr st)
    then show ?thesis
      using assms None s S
      by (auto simp: goal_cache_of_def goal_world_inv_def only_reads_def cache_ok_def
          goal_cache_fold.coherent_def session_seq_def Let_def)
  qed
qed

lemma goal_sync_ok:
  assumes inv: "goal_world_inv w" and c: "gw_cache w = Some c" and "goal_sync w c = (w', r)"
  shows "goal_world_inv w' \<and> only_reads w w' \<and>
    (case r of
       Inl err \<Rightarrow> \<exists>x. err = FoldFailed x \<and> fold_goal (ss_log (gw_session w)) = Inl x
     | Inr c' \<Rightarrow> synced w' c')"
proof -
  let ?es = "ss_log (gw_session w)"
  have ok: "cache_ok ?es c" using inv c by (simp add: goal_world_inv_def)
  then have coh: "goal_cache_fold.coherent c ?es" by (simp add: cache_ok_def)
  obtain s es where s: "session_events (gw_session w) = (s, es)" by fastforce
  have S: "es = ?es" "session_ok s" "ss_log s = ?es"
    using session_events_log [OF _ s] inv by (auto simp: goal_world_inv_def)
  obtain c' x where l: "sync_loop (drop (gc_observed c) ?es) c = (c', x)" by fastforce
  have w': "w' = w\<lparr>gw_session := s, gw_cache := Some c'\<rparr>"
    and r: "r = (case x of None \<Rightarrow> Inr c' | Some y \<Rightarrow> Inl (FoldFailed y))"
    using assms(3) s S l by (auto simp: goal_sync_def)
  have ok': "cache_ok ?es c'" using sync_loop_cache_ok [OF ok l] .
  have gwi: "goal_world_inv w'" "only_reads w w'"
    using inv S ok' w' by (auto simp: goal_world_inv_def only_reads_def)
  show ?thesis
  proof (cases x)
    case None
    then have "gc_observed c' = length ?es"
      using sync_loop_fold [OF l] coh by (auto simp: goal_cache_fold.coherent_def)
    then show ?thesis using gwi None r w' S by (simp add: synced_def)
  next
    case (Some y)
    then have d: "fold_result apply_goal_event (gc_state c) (drop (gc_observed c) ?es) = Inl y"
      using sync_loop_fold [OF l] by auto
    have "fold_result apply_goal_event empty_goal_fold_state (take (gc_observed c) ?es) = Inr (gc_state c)"
      using coh by (simp add: goal_cache_fold.coherent_def)
    from fold_result_appendI [OF this d]
    have "fold_goal ?es = Inl y" by (simp add: fold_goal_def)
    then show ?thesis using gwi Some r by simp
  qed
qed

lemma prepare_ok:
  assumes inv: "goal_world_inv w" and "prepare_mutation env w = (w', r)"
  shows "goal_world_inv w'" "only_reads w w'"
    "r = Inl err \<Longrightarrow> (err = AgentNotLive \<and> \<not> ge_live env) \<or>
       (\<exists>x. err = FoldFailed x \<and> fold_goal (ss_log (gw_session w)) = Inl x)"
    "r = Inr c \<Longrightarrow> synced w' c" "r = Inr c \<Longrightarrow> ge_live env"
proof -
  have "goal_world_inv w' \<and> only_reads w w' \<and>
    (\<forall>err. r = Inl err \<longrightarrow> (err = AgentNotLive \<and> \<not> ge_live env) \<or>
       (\<exists>x. err = FoldFailed x \<and> fold_goal (ss_log (gw_session w)) = Inl x)) \<and>
    (\<forall>c. r = Inr c \<longrightarrow> synced w' c \<and> ge_live env)"
  proof (cases "ge_live env")
    case False
    then show ?thesis using assms by (auto simp: prepare_mutation_def assert_live_def)
  next
    case True
    obtain w1 r1 where 1: "goal_cache_of w = (w1, r1)" by fastforce
    note C = goal_cache_of_ok [OF inv 1]
    show ?thesis
    proof (cases r1)
      case (Inl err)
      then show ?thesis using assms(2) True 1 C by (auto simp: prepare_mutation_def assert_live_def)
    next
      case (Inr c)
      then have 2: "goal_sync w1 c = (w', r)"
        using assms(2) True 1 by (simp add: prepare_mutation_def assert_live_def)
      have l: "ss_log (gw_session w1) = ss_log (gw_session w)" "goal_world_inv w1" "gw_cache w1 = Some c"
        "only_reads w w1"
        using C Inr by (simp_all add: only_reads_def)
      show ?thesis
        using goal_sync_ok [OF l(2,3) 2] True only_reads_trans [OF l(4)] l(1)
        by (cases r) simp_all
    qed
  qed
  then show "goal_world_inv w'" "only_reads w w'"
    "r = Inl err \<Longrightarrow> (err = AgentNotLive \<and> \<not> ge_live env) \<or>
       (\<exists>x. err = FoldFailed x \<and> fold_goal (ss_log (gw_session w)) = Inl x)"
    "r = Inr c \<Longrightarrow> synced w' c" "r = Inr c \<Longrightarrow> ge_live env" by simp_all
qed

lemma prepare_succeeds:
  assumes inv: "goal_world_inv w" and "ge_live env" and "fold_goal (ss_log (gw_session w)) = Inr st"
  obtains w' c where "prepare_mutation env w = (w', Inr c)" "gc_state c = st" "synced w' c"
    "goal_world_inv w'" "only_reads w w'"
proof -
  obtain w' r where p: "prepare_mutation env w = (w', r)" by fastforce
  note P = prepare_ok [OF inv p]
  obtain c where c: "r = Inr c" using P(3) assms(2,3) by (cases r) auto
  have "gc_state c = st"
    using synced_fold(1) [OF P(1) P(4) [OF c]] assms(3) P(2) by (simp add: only_reads_def)
  then show thesis using that p c P(1,2,4) by blast
qed

text \<open>A current goal has both times, so its view exists.\<close>

lemma goal_view_of_ok:
  assumes "goal_inv (gc_state c)"
  shows "\<exists>v. goal_view_of c = Inr v"
  using assms by (auto simp: goal_inv_def goal_view_of_def split: option.splits)

section \<open>Commits\<close>

text \<open>Only a change to an active snapshot may arm.\<close>

definition arms_active :: "goal_change \<Rightarrow> goal_activation \<Rightarrow> bool" where
  "arms_active change activation \<longleftrightarrow>
     (activation = Armed \<longrightarrow>
        (\<exists>operation g rounds created updated.
           change = SnapshotChange operation g rounds created updated \<and> gs_phase g = PhaseActive))"

lemma decode_keeps_phase:
  assumes "decode_goal_change (change_object (SnapshotChange operation g rounds created updated)) = Inr (Some c)"
  obtains operation' g' rounds' created' updated' where
    "c = SnapshotChange operation' g' rounds' created' updated'" "gs_phase g' = gs_phase g"
proof -
  let ?v = "change_object (SnapshotChange operation g rounds created updated)"
  have d: "decode_snapshot_change ?v operation = Inr c"
    using assms by (simp add: decode_goal_change_def GOAL_CHANGE_VERSION_def prop_str_def result_simps)
  then obtain g' rounds' created' updated' where
    "c = SnapshotChange operation g' rounds' created' updated'"
    and s: "decode_snapshot (jget ?v ''goal'') = Inr g'"
    by (auto simp: decode_snapshot_change_def result_simps split: if_splits)
  moreover have "jget ?v ''goal'' = snapshot_object g" by (simp add: jget_def)
  then have "phase_text (gs_phase g') = phase_text (gs_phase g)"
    using decode_snapshot_Inr(6) [OF s] by (simp add: snapshot_object_def)
  then have "gs_phase g' = gs_phase g" by (metis phase_of_text option.inject)
  ultimately show thesis using that by blast
qed

lemma apply_service_event:
  assumes "ev_data e = PluginEvent ''goal/change'' (change_object change)"
    and "apply_goal_event st e = Inr st'" and "arms_active change Armed"
  shows "active_goal st'"
proof -
  obtain operation g rounds created updated where c:
    "change = SnapshotChange operation g rounds created updated" "gs_phase g = PhaseActive"
    using assms(3) by (auto simp: arms_active_def)
  obtain d where d: "decode_goal_change (change_object change) = Inr (Some d)" "apply_goal_change st d = Inr st'"
    using assms(1,2) by (auto simp: apply_goal_event_def result_simps split: option.splits)
  obtain operation' g' rounds' created' updated' where
    "d = SnapshotChange operation' g' rounds' created' updated'" "gs_phase g' = PhaseActive"
    using d(1) c decode_keeps_phase by metis
  then show ?thesis
    using d(2) by (auto simp: active_goal_def install_snapshot_def result_simps split: if_splits option.splits)
qed

text \<open>The append inside a commit.\<close>

lemma commit_append_cases:
  assumes "session_ok s" "list_all event_data_wf (ss_log s)"
    and a: "append_event appending dispatch_ok now d (None, None) s = (s', r)"
  obtains (refused) err where "r = Inl err" "ss_log s' = ss_log s" "session_ok s'"
  | (appended) e where "r = Inr e" "ss_log s' = ss_log s @ [e]" "session_ok s'" "ev_data e = d"
      "ev_seq e = int (length (ss_log s))" "list_all event_data_wf (ss_log s')"
  using a
proof (cases rule: append_event_cases)
  case (accepted m e)
  then have "jv_wf (data_json d)" using json_lossless_wf by blast
  then show ?thesis
    using accepted assms(2) session_ok_append [OF assms(1) a] appended
    by (simp add: push_event_def build_event_def event_data_wf_def)
qed (use session_ok_append [OF assms(1) a] refused in auto)

lemma goal_commit_ok:
  assumes inv: "goal_world_inv w" and c: "synced w c" and arms: "arms_active change activation"
    and "goal_commit env w c change activation = (w', r)"
  shows "goal_world_inv w' \<and> (\<exists>es. ss_log (gw_session w') = ss_log (gw_session w) @ es) \<and>
    gw_default_rounds w' = gw_default_rounds w"
proof -
  let ?s = "gw_session w" and ?d = "PluginEvent ''goal/change'' (change_object change)"
  let ?c1 = "c\<lparr>gc_pending := Some (session_seq ?s, activation)\<rparr>"
  have ok: "session_ok ?s" "list_all event_data_wf (ss_log ?s)" "cache_ok (ss_log ?s) c"
    "gc_observed c = length (ss_log ?s)" "gw_cache w = Some c" "positive_safe (gw_default_rounds w)"
    using inv c by (auto simp: goal_world_inv_def synced_def)
  have restored: "?c1\<lparr>gc_pending := None\<rparr> = c" using ok(3) by (simp add: cache_ok_def)
  obtain s' x where a: "append_event (ge_appending env) (ge_dispatch_ok env) (ge_stamp env) ?d (None, None) ?s = (s', x)"
    by fastforce
  from ok(1,2) a show ?thesis
  proof (cases rule: commit_append_cases)
    case (refused err)
    then have "w' = w\<lparr>gw_session := s', gw_cache := Some c\<rparr>"
      using assms(4) a restored by (simp add: goal_commit_def append_and_sync_def drop_pending_def)
    then show ?thesis using refused ok by (simp add: goal_world_inv_def)
  next
    case (appended e)
    have wf': "list_all event_data_wf (ss_log s')" by (rule appended)
    obtain s2 es where s2: "session_events s' = (s2, es)" by fastforce
    have S: "es = ss_log s'" "session_ok s2" "ss_log s2 = ss_log s'"
      using session_events_log [OF appended(3) s2] by simp_all
    have dr: "drop (gc_observed c) (ss_log s') = [e]" using ok(4) appended(2) by simp
    show ?thesis
    proof (cases "apply_goal_event (gc_state c) e")
      case (Inl err)
      then have "w' = w\<lparr>gw_session := s2, gw_cache := Some c\<rparr>"
        using assms(4) a restored appended(1) s2 S dr
        by (simp add: goal_commit_def append_and_sync_def goal_sync_def drop_pending_def)
      then show ?thesis
        using ok S appended(2) wf' cache_ok_append by (simp add: goal_world_inv_def)
    next
      case (Inr st)
      let ?c2 = "c\<lparr>gc_state := st, gc_activation := activation, gc_observed := gc_observed c + 1,
                   gc_pending := None\<rparr>"
      have "activation_after ?c1 e = activation"
        using appended(4,5) by (simp add: activation_after_def session_seq_def)
      then have loop: "sync_loop [e] ?c1 =
          (?c1\<lparr>gc_state := st, gc_activation := activation, gc_observed := gc_observed c + 1\<rparr>, None)"
        using Inr by simp
      have sc: "gw_session w' = s2" "gw_cache w' = Some ?c2" "gw_default_rounds w' = gw_default_rounds w"
        using assms(4) a appended(1) s2 S dr loop
        by (auto simp: goal_commit_def append_and_sync_def goal_sync_def drop_pending_def Let_def
            simp del: sync_loop.simps split: sum.splits)
      have "fold_result apply_goal_event empty_goal_fold_state (ss_log s') = Inr st"
        using ok(3,4) appended(2) Inr
        by (simp add: cache_ok_def goal_cache_fold.coherent_def fold_result_append)
      moreover have "activation = Armed \<longrightarrow> active_goal st"
        using apply_service_event [OF appended(4) Inr] arms by auto
      ultimately have "cache_ok (ss_log s') ?c2"
        using ok(4) appended(2) by (simp add: cache_ok_def goal_cache_fold.coherent_def)
      then show ?thesis using sc S ok(6) appended(2) wf' by (simp add: goal_world_inv_def)
    qed
  qed
qed

section \<open>The shape of every mutation\<close>

text \<open>What a mutation answers once its change is committed.\<close>

definition response_of :: "goal_change \<Rightarrow> goal_error + goal_cache \<Rightarrow> goal_error + goal_response" where
  "response_of change rc =
     and_then rc (\<lambda>c.
       case change of
         ClearChange ref _ \<Rightarrow> Inr (Cleared ref)
       | SnapshotChange _ _ _ _ _ \<Rightarrow>
           and_then (goal_view_of c) (\<lambda>v. case v of None \<Rightarrow> Inl CommitCleared | Some x \<Rightarrow> Inr (Viewed x)))"

text \<open>The errors a caller can provoke, and the others.\<close>

fun is_refusal :: "goal_error \<Rightarrow> bool" where
  "is_refusal CacheLacksTime = False"
| "is_refusal CommitCleared = False"
| "is_refusal (FoldFailed _) = False"
| "is_refusal (AppendFailed _) = False"
| "is_refusal _ = True"

text \<open>The outside behaves: the clock is a non-negative safe integer, the UUID is fresh, and the
  revision has not reached the largest safe integer.\<close>

definition env_ok :: "goal_env \<Rightarrow> goal_fold_state \<Rightarrow> bool" where
  "env_ok env st \<longleftrightarrow>
     time_ok (ge_now env) \<and> ''goal-'' @ ge_uuid env \<notin> gf_seen st \<and>
     (case gf_goal st of Some g \<Rightarrow> gs_revision g < max_safe | None \<Rightarrow> True)"

definition sound_plan :: "goal_env \<Rightarrow> goal_fold_state \<Rightarrow> goal_change \<Rightarrow> bool" where
  "sound_plan env st change \<longleftrightarrow>
     (env_ok env st \<longrightarrow> change_ok change \<and> returns (apply_goal_change st change))"

definition refused_call :: "goal_world \<Rightarrow> goal_world \<Rightarrow> goal_error \<Rightarrow> bool" where
  "refused_call w w' err \<longleftrightarrow>
     goal_world_inv w' \<and> only_reads w w' \<and>
     (is_refusal err \<or> (\<exists>x. err = FoldFailed x \<and> fold_goal (ss_log (gw_session w)) = Inl x))"

definition mutation_shape ::
  "goal_env \<Rightarrow> goal_world \<Rightarrow> goal_world \<Rightarrow> goal_error + goal_response \<Rightarrow> bool" where
  "mutation_shape env w w' r \<longleftrightarrow>
     (\<exists>err. r = Inl err \<and> refused_call w w' err) \<or>
     (\<exists>w1 c change activation rc.
        prepare_mutation env w = (w1, Inr c) \<and> goal_commit env w1 c change activation = (w', rc) \<and>
        r = response_of change rc \<and> arms_active change activation \<and> sound_plan env (gc_state c) change)"

lemma shape_refused: "r = Inl err \<Longrightarrow> refused_call w w' err \<Longrightarrow> mutation_shape env w w' r"
  by (auto simp: mutation_shape_def)

lemma shape_commit:
  assumes "prepare_mutation env w = (w1, Inr c)" "goal_commit env w1 c change activation = (w', rc)"
    "r = response_of change rc" "arms_active change activation" "sound_plan env (gc_state c) change"
  shows "mutation_shape env w w' r"
  using assms unfolding mutation_shape_def by blast

lemma commit_snapshot_shape:
  assumes "commit_snapshot env w c operation g rounds created updated activation = (w', r)"
  obtains rc where
    "goal_commit env w c (SnapshotChange operation g rounds created updated) activation = (w', rc)"
    "r = response_of (SnapshotChange operation g rounds created updated) rc"
  using assms
  by (cases "goal_commit env w c (SnapshotChange operation g rounds created updated) activation")
    (auto simp: commit_snapshot_def call_then_def response_of_def split: sum.splits)

lemma with_current_cases:
  assumes inv: "goal_world_inv w" and "with_current env ref w f = (w', r)"
  obtains (refused) err where "r = Inl err" "refused_call w w' err"
  | (current) w1 c g u created where "prepare_mutation env w = (w1, Inr c)" "f w1 c g = (w', r)"
      "gf_goal (gc_state c) = Some g" "gf_created (gc_state c) = Some created"
      "gf_updated (gc_state c) = Some u" "goal_inv (gc_state c)"
      "goal_world_inv w1" "only_reads w w1" "synced w1 c"
      "cr_id ref = gs_id g" "num_eq (cr_revision ref) (NInt (gs_revision g))"
proof -
  obtain w1 r1 where p: "prepare_mutation env w = (w1, r1)" by fastforce
  note P = prepare_ok [OF inv p]
  show thesis
  proof (cases r1)
    case (Inl err)
    then show thesis
      using assms(2) p refused [of err] P(1,2) P(3) [OF Inl]
      by (fastforce simp: with_current_def refused_call_def)
  next
    case (Inr c)
    then have f: "(case expect_current c ref of Inl err \<Rightarrow> (w1, Inl err) | Inr g \<Rightarrow> f w1 c g) = (w', r)"
      using assms(2) p by (simp add: with_current_def)
    show thesis
    proof (cases "expect_current c ref")
      case (Inl err)
      then have "is_refusal err" by (auto simp: expect_current_def split: option.splits if_splits)
      then show thesis using Inl f P(1,2) refused [of err] by (simp add: refused_call_def)
    next
      case g: (Inr g)
      then have e: "gf_goal (gc_state c) = Some g" "cr_id ref = gs_id g"
        "num_eq (cr_revision ref) (NInt (gs_revision g))"
        by (auto simp: expect_current_def split: option.splits if_splits)
      have i: "goal_inv (gc_state c)" using synced_fold(2) [OF P(1) P(4) [OF Inr]] .
      then obtain created u where "gf_created (gc_state c) = Some created" "gf_updated (gc_state c) = Some u"
        using e(1) by (auto simp: goal_inv_def)
      then show thesis using current e i g f p Inr P(1,2) P(4) [OF Inr] by auto
    qed
  qed
qed

lemma plan_current:
  assumes "goal_inv st" "gf_goal st = Some current" "gf_created st = Some created" "gf_updated st = Some u"
    and "gs_id g = gs_id current" "gs_revision g = gs_revision current + 1"
    and "snapshot_ok (g\<lparr>gs_revision := gs_revision current\<rparr>)" "operation \<noteq> OpCreate"
    and "phase_transition operation (gf_rounds st) current g = Inr ()"
  shows "sound_plan env st (SnapshotChange operation g (gf_rounds st) created (max (ge_now env) u))"
  unfolding sound_plan_def
proof
  assume env: "env_ok env st"
  then have "snapshot_ok g"
    using assms(1,2,6,7)
    by (auto simp: snapshot_ok_def positive_safe_def safe_int_def env_ok_def split: option.splits)
  then have "change_ok (SnapshotChange operation g (gf_rounds st) created (max (ge_now env) u))"
    using assms(1-4) env by (auto simp: goal_inv_def env_ok_def time_ok_def safe_int_def)
  moreover have "validate_snapshot_transition st operation g (gf_rounds st) created (max (ge_now env) u) current
      = Inr ()"
    using assms by (simp add: validate_snapshot_transition_def require_next_revision_def snapshot_ref_def)
  ultimately show "change_ok (SnapshotChange operation g (gf_rounds st) created (max (ge_now env) u)) \<and>
      returns (apply_goal_change st (SnapshotChange operation g (gf_rounds st) created (max (ge_now env) u)))"
    using assms(2,8) by simp
qed

lemma commit_current_shape:
  assumes "prepare_mutation env w = (w1, Inr c)" "commit_current env w1 c operation g activation = (w', r)"
    and "goal_inv (gc_state c)" "gf_goal (gc_state c) = Some current"
    and "gf_created (gc_state c) = Some created" "gf_updated (gc_state c) = Some u"
    and "gs_id g = gs_id current" "gs_revision g = gs_revision current + 1"
    and "snapshot_ok (g\<lparr>gs_revision := gs_revision current\<rparr>)" "operation \<noteq> OpCreate"
    and "phase_transition operation (gf_rounds (gc_state c)) current g = Inr ()"
    and "activation = Armed \<longrightarrow> gs_phase g = PhaseActive"
  shows "mutation_shape env w w' r"
proof -
  have "commit_snapshot env w1 c operation g (gf_rounds (gc_state c)) created (max (ge_now env) u) activation
      = (w', r)"
    using assms(2,5,6) by (simp add: commit_current_def next_mutation_time_def)
  then obtain rc where
    "goal_commit env w1 c
       (SnapshotChange operation g (gf_rounds (gc_state c)) created (max (ge_now env) u)) activation = (w', rc)"
    "r = response_of (SnapshotChange operation g (gf_rounds (gc_state c)) created (max (ge_now env) u)) rc"
    by (rule commit_snapshot_shape)
  then show ?thesis
    using shape_commit [OF assms(1)] plan_current [OF assms(3-11)] assms(12) by (simp add: arms_active_def)
qed

lemma resolve_objective_ok: "resolve_objective v = Inr s \<Longrightarrow> normalized s"
  by (auto simp: resolve_objective_def normalized_def split: option.splits jv.splits if_splits)

lemma resolve_rounds_ok: "resolve_max_goal_rounds v = Inr n \<Longrightarrow> positive_safe n"
  using safe_int_num
  by (auto simp: resolve_max_goal_rounds_def positive_safe_def split: option.splits jv.splits if_splits)

lemma resolve_reason_ok: "resolve_block_reason v = Inr r \<Longrightarrow> reason_ok r"
  by (auto simp: resolve_block_reason_def reason_ok_def normalized_def split: option.splits if_splits)

lemma resolve_refusals:
  "resolve_objective v = Inl err \<Longrightarrow> is_refusal err"
  "resolve_max_goal_rounds v = Inl err \<Longrightarrow> is_refusal err"
  "resolve_block_reason v = Inl err \<Longrightarrow> is_refusal err"
  by (auto simp: resolve_objective_def resolve_max_goal_rounds_def resolve_block_reason_def
      split: option.splits jv.splits if_splits)

lemma refusedI:
  "goal_world_inv w' \<Longrightarrow> only_reads w w' \<Longrightarrow> is_refusal err \<Longrightarrow> refused_call w w' err"
  by (simp add: refused_call_def)

lemma snapshot_ok_current:
  "goal_inv st \<Longrightarrow> gf_goal st = Some g \<Longrightarrow> snapshot_ok g"
  by (simp add: goal_inv_def)

lemma with_phase_fields [simp]:
  "gs_id (with_phase g p) = gs_id g" "gs_revision (with_phase g p) = gs_revision g + 1"
  "gs_phase (with_phase g p) = p" "gs_blocked (with_phase g p) = None"
  "gs_objective (with_phase g p) = gs_objective g" "gs_max_rounds (with_phase g p) = gs_max_rounds g"
  by (simp_all add: with_phase_def)

lemma with_phase_ok:
  "snapshot_ok g \<Longrightarrow> p \<noteq> PhaseBlocked \<Longrightarrow> snapshot_ok ((with_phase g p)\<lparr>gs_revision := gs_revision g\<rparr>)"
  "snapshot_ok g \<Longrightarrow> reason_ok r \<Longrightarrow>
     snapshot_ok ((with_phase g PhaseBlocked)\<lparr>gs_blocked := Some r, gs_revision := gs_revision g\<rparr>)"
  by (auto simp: snapshot_ok_def)

lemma require_same_with_phase [simp]:
  "require_same_definition g (with_phase g p) = Inr ()"
  "require_same_definition g ((with_phase g p)\<lparr>gs_blocked := b\<rparr>) = Inr ()"
  by (simp_all add: require_same_definition_def)

lemma transition_shape:
  assumes inv: "goal_world_inv w"
    and "goal_transition env ref operation allowed phase Disarmed w = (w', r)"
    and "operation \<noteq> OpCreate" "phase \<noteq> PhaseBlocked"
    and step: "\<And>rounds g. gs_phase g \<in> set allowed \<Longrightarrow>
       phase_transition operation rounds g (with_phase g phase) = Inr ()"
  shows "mutation_shape env w w' r"
  using inv assms(2) [unfolded goal_transition_def]
proof (cases rule: with_current_cases)
  case (refused err)
  then show ?thesis using shape_refused by blast
next
  case (current w1 c g u created)
  show ?thesis
  proof (cases "gs_phase g \<in> set allowed")
    case False
    then show ?thesis
      using current refusedI [OF current(7,8)] by (intro shape_refused [of r InvalidTransition]) auto
  next
    case True
    then have "commit_current env w1 c operation (with_phase g phase) Disarmed = (w', r)"
      using current(2) by simp
    from commit_current_shape [OF current(1) this current(6,3,4,5)] show ?thesis
      using with_phase_ok(1) [OF snapshot_ok_current [OF current(6,3)] assms(4)] assms(3) step [OF True]
      by simp
  qed
qed

lemma resume_shape:
  assumes inv: "goal_world_inv w" and "goal_resume env ref w = (w', r)"
  shows "mutation_shape env w w' r"
  using inv assms(2) [unfolded goal_resume_def]
proof (cases rule: with_current_cases)
  case (refused err)
  then show ?thesis using shape_refused by blast
next
  case (current w1 c g u created)
  show ?thesis
  proof (cases "gs_phase g \<in> set resumable \<and> \<not> (gs_phase g = PhaseActive \<and> gc_activation c = Armed) \<and>
      gf_rounds (gc_state c) < gs_max_rounds g")
    case False
    then show ?thesis
      using current refusedI [OF current(7,8)]
      by (intro shape_refused [of r InvalidTransition]) (auto simp: resumable_def split: if_splits)
  next
    case True
    then have "commit_current env w1 c OpResume (with_phase g PhaseActive) Armed = (w', r)"
      using current(2) by (auto simp: resumable_def split: if_splits)
    from commit_current_shape [OF current(1) this current(6,3,4,5)] show ?thesis
      using with_phase_ok(1) [OF snapshot_ok_current [OF current(6,3)]] True
      by (simp add: phase_transition_def)
  qed
qed

lemma block_shape:
  assumes inv: "goal_world_inv w" and "goal_block env ref reason w = (w', r)"
  shows "mutation_shape env w w' r"
  using inv assms(2) [unfolded goal_block_def]
proof (cases rule: with_current_cases)
  case (refused err)
  then show ?thesis using shape_refused by blast
next
  case (current w1 c g u created)
  show ?thesis
  proof (cases "gs_phase g = PhaseActive \<and> returns (resolve_block_reason reason)")
    case False
    then have "\<exists>err. r = Inl err \<and> is_refusal err \<and> w' = w1"
      using current(2) resolve_refusals(3) [of reason]
      by (cases "resolve_block_reason reason") (auto split: if_splits)
    then show ?thesis using refusedI [OF current(7,8)] shape_refused by blast
  next
    case True
    then obtain b where b: "resolve_block_reason reason = Inr b" by (auto simp: returns_iff)
    then have "commit_current env w1 c OpBlock ((with_phase g PhaseBlocked)\<lparr>gs_blocked := Some b\<rparr>) Disarmed
        = (w', r)"
      using current(2) True by simp
    from commit_current_shape [OF current(1) this current(6,3,4,5)] show ?thesis
      using with_phase_ok(2) [OF snapshot_ok_current [OF current(6,3)] resolve_reason_ok [OF b]] True
      by (simp add: phase_transition_def)
  qed
qed

lemma edited_ok:
  assumes "and_then (edited (\<lambda>v. resolve_objective (Some v)) objective s) (\<lambda>obj.
      and_then (edited (\<lambda>v. resolve_max_goal_rounds (Some v)) rounds n) (\<lambda>cap. Inr (obj, cap))) = x"
  shows "x = Inl err \<Longrightarrow> is_refusal err"
    and "x = Inr (obj, cap) \<Longrightarrow> normalized s \<Longrightarrow> positive_safe n \<Longrightarrow> normalized obj \<and> positive_safe cap"
  using assms resolve_refusals resolve_objective_ok resolve_rounds_ok
  by (auto simp: edited_def result_simps split: option.splits)

lemma edit_shape:
  assumes inv: "goal_world_inv w" and "goal_edit env ref objective rounds w = (w', r)"
  shows "mutation_shape env w w' r"
  using inv assms(2) [unfolded goal_edit_def]
proof (cases rule: with_current_cases)
  case (refused err)
  then show ?thesis using shape_refused by blast
next
  case (current w1 c g u created)
  let ?x = "and_then (edited (\<lambda>v. resolve_objective (Some v)) objective (gs_objective g)) (\<lambda>obj.
      and_then (edited (\<lambda>v. resolve_max_goal_rounds (Some v)) rounds (gs_max_rounds g)) (\<lambda>cap. Inr (obj, cap)))"
  have ok: "snapshot_ok g" using snapshot_ok_current [OF current(6,3)] .
  show ?thesis
  proof (cases "\<not> (objective = None \<and> rounds = None) \<and> returns ?x")
    case False
    then have "\<exists>err. r = Inl err \<and> is_refusal err \<and> w' = w1"
      using current(2) edited_ok(1) [OF refl] by (cases ?x) (auto split: if_splits)
    then show ?thesis using refusedI [OF current(7,8)] shape_refused by blast
  next
    case True
    then obtain obj cap where x: "?x = Inr (obj, cap)" by (auto simp: returns_iff)
    then have tc: "normalized obj" "positive_safe cap"
      using edited_ok(2) [OF refl] ok by (auto simp: snapshot_ok_def)
    let ?g = "g\<lparr>gs_revision := gs_revision g + 1, gs_objective := obj, gs_max_rounds := cap\<rparr>"
    have cc: "commit_current env w1 c OpEdit ?g (gc_activation c) = (w', r)"
      using current(2) x True by (auto split: if_splits)
    have "cache_ok (ss_log (gw_session w1)) c"
      using current(7,9) by (auto simp: goal_world_inv_def synced_def)
    then have "gc_activation c = Armed \<longrightarrow> gs_phase g = PhaseActive"
      using current(3) by (auto simp: cache_ok_def active_goal_def)
    with commit_current_shape [OF current(1) cc current(6,3,4,5)] tc ok show ?thesis
      by (simp add: phase_transition_def snapshot_ok_def split: option.splits)
  qed
qed

lemma create_shape:
  assumes inv: "goal_world_inv w" and c: "goal_create env objective rounds w = (w', r)"
  shows "mutation_shape env w w' r"
proof (cases "resolve_create_goal objective rounds (gw_default_rounds w)")
  case (Inl err)
  then have "is_refusal err"
    using resolve_refusals by (auto simp: resolve_create_goal_def result_simps)
  then show ?thesis using inv c Inl refusedI shape_refused by (auto simp: goal_create_def)
next
  case (Inr x)
  obtain obj cap where x: "x = (obj, cap)" by (cases x)
  have ok: "normalized obj" "positive_safe cap"
    using Inr x resolve_objective_ok resolve_rounds_ok by (auto simp: resolve_create_goal_def result_simps)
  obtain w1 r1 where p: "prepare_mutation env w = (w1, r1)" by fastforce
  note P = prepare_ok [OF inv p]
  let ?taken = "\<lambda>st. case gf_goal st of Some g \<Rightarrow> gs_phase g \<noteq> PhaseComplete | None \<Rightarrow> False"
  show ?thesis
  proof (cases r1)
    case err: (Inl err)
    then have "r = Inl err" "w' = w1" using c Inr x p by (simp_all add: goal_create_def)
    moreover have "refused_call w w1 err" using P(1,2) P(3) [OF err] by (auto simp: refused_call_def)
    ultimately show ?thesis using shape_refused by blast
  next
    case cache: (Inr c0)
    show ?thesis
    proof (cases "?taken (gc_state c0)")
      case True
      then have "r = Inl GoalAlreadyExists" "w' = w1" using c Inr x p cache by (simp_all add: goal_create_def)
      then show ?thesis using refusedI [OF P(1,2)] shape_refused by simp
    next
      case False
      let ?g = "\<lparr>gs_id = ''goal-'' @ ge_uuid env, gs_revision = 1, gs_objective = obj,
                 gs_phase = PhaseActive, gs_blocked = None, gs_max_rounds = cap\<rparr>"
      let ?change = "SnapshotChange OpCreate ?g 0 (ge_now env) (ge_now env)"
      have "commit_snapshot env w1 c0 OpCreate ?g 0 (ge_now env) (ge_now env) Armed = (w', r)"
        using c Inr x p cache False by (simp add: goal_create_def)
      then obtain rc where rc: "goal_commit env w1 c0 ?change Armed = (w', rc)" "r = response_of ?change rc"
        by (rule commit_snapshot_shape)
      have "sound_plan env (gc_state c0) ?change"
        using ok False
        by (auto simp: sound_plan_def env_ok_def snapshot_ok_def positive_safe_def time_ok_def safe_int_def
            max_safe_def create_not_fresh_def split: option.splits)
      then show ?thesis
        using shape_commit [OF _ rc] p cache by (simp add: arms_active_def)
    qed
  qed
qed

lemma clear_shape:
  assumes inv: "goal_world_inv w" and "goal_clear env ref w = (w', r)"
  shows "mutation_shape env w w' r"
  using inv assms(2) [unfolded goal_clear_def]
proof (cases rule: with_current_cases)
  case (refused err)
  then show ?thesis using shape_refused by blast
next
  case (current w1 c g u created)
  let ?ref = "\<lparr>gr_id = gs_id g, gr_revision = gs_revision g + 1\<rparr>"
  let ?change = "ClearChange ?ref (max (ge_now env) u)"
  obtain w2 rc where cm: "goal_commit env w1 c ?change Disarmed = (w2, rc)" by fastforce
  have wr: "w' = w2" "r = response_of ?change rc"
    using current(2,5) cm by (cases rc; simp add: next_mutation_time_def response_of_def)+
  have "sound_plan env (gc_state c) ?change"
    using current(3,5,6)
    by (auto simp: sound_plan_def env_ok_def ref_ok_def positive_safe_def time_ok_def safe_int_def
        goal_inv_def snapshot_ok_def apply_clear_def require_next_revision_def)
  then show ?thesis using shape_commit [OF current(1)] cm wr by (simp add: arms_active_def)
qed

lemma goal_perform_shape:
  assumes "goal_world_inv w" and "goal_perform env req w = (w', r)"
  shows "mutation_shape env w w' r"
proof (cases req)
  case (ReqPause ref)
  then show ?thesis
    using assms by (auto simp: goal_pause_def phase_transition_def intro!: transition_shape)
next
  case (ReqComplete ref)
  then show ?thesis
    using assms by (auto simp: goal_complete_def phase_transition_def intro!: transition_shape)
qed (use assms create_shape edit_shape resume_shape block_shape clear_shape in auto)

section \<open>Every state the service reaches\<close>

lemma goal_perform_inv:
  assumes inv: "goal_world_inv w" and "goal_perform env req w = (w', r)"
  shows "goal_world_inv w' \<and> (\<exists>es. ss_log (gw_session w') = ss_log (gw_session w) @ es)"
proof -
  from goal_perform_shape [OF assms] consider err where "refused_call w w' err"
    | w1 c change activation rc where "prepare_mutation env w = (w1, Inr c)"
      "goal_commit env w1 c change activation = (w', rc)" "arms_active change activation"
    unfolding mutation_shape_def by blast
  then show ?thesis
  proof cases
    case 1
    then show ?thesis by (auto simp: refused_call_def only_reads_def)
  next
    case 2
    note P = prepare_ok [OF inv 2(1)]
    show ?thesis
      using goal_commit_ok [OF P(1) P(4) [OF refl] 2(3,2)] P(2) by (auto simp: only_reads_def)
  qed
qed

lemma cache_ok_disarm: "cache_ok es c \<Longrightarrow> cache_ok es (c\<lparr>gc_activation := Disarmed\<rparr>)"
  by (simp add: cache_ok_def goal_cache_fold.coherent_def)

lemma world_inv_disarm:
  "goal_world_inv w \<Longrightarrow> gw_cache w = Some c \<Longrightarrow>
     goal_world_inv (w\<lparr>gw_cache := Some (c\<lparr>gc_activation := Disarmed\<rparr>)\<rparr>)"
  using cache_ok_disarm by (simp add: goal_world_inv_def)

lemma goal_service_step_inv:
  assumes "goal_service_step w w'" and inv: "goal_world_inv w"
  shows "goal_world_inv w' \<and> (\<exists>es. ss_log (gw_session w') = ss_log (gw_session w) @ es)"
  using assms(1)
proof cases
  case (perform env req r)
  then show ?thesis using goal_perform_inv [OF inv] by blast
next
  case (get env v)
  obtain w1 r1 where p: "prepare_mutation env w = (w1, r1)" by fastforce
  have "w' = w1" using get p by (cases r1) (simp_all add: goal_get_def)
  then show ?thesis using prepare_ok(1,2) [OF inv p] by (simp add: only_reads_def)
next
  case (disarm env v)
  obtain w1 r1 where p: "prepare_mutation env w = (w1, r1)" by fastforce
  note P = prepare_ok [OF inv p]
  show ?thesis
  proof (cases r1)
    case (Inl err)
    then have "w' = w1" using disarm p by (simp add: goal_disarm_def)
    then show ?thesis using P(1,2) by (simp add: only_reads_def)
  next
    case (Inr c)
    then have "w' = w1\<lparr>gw_cache := Some (c\<lparr>gc_activation := Disarmed\<rparr>)\<rparr>"
      using disarm p by (simp add: goal_disarm_def Let_def)
    then show ?thesis
      using world_inv_disarm [OF P(1)] P(2) P(4) [OF Inr] by (simp add: only_reads_def synced_def)
  qed
next
  case (session_start u)
  obtain w1 r1 where c: "goal_cache_of w = (w1, r1)" by fastforce
  note C = goal_cache_of_ok [OF inv c]
  show ?thesis
    using session_start c C world_inv_disarm [of w1]
    by (cases r1) (auto simp: goal_session_start_def only_reads_def)
next
  case (foreign appending dispatch_ok now d intent s' x)
  have ok: "session_ok (gw_session w)" using inv by (simp add: goal_world_inv_def)
  have s: "session_ok s'" using session_ok_append [OF ok foreign(2)] .
  obtain es where es: "ss_log s' = ss_log (gw_session w) @ es \<and> list_all event_data_wf es"
    using foreign(2)
  proof (cases rule: append_event_cases)
    case (accepted m e)
    then have "jv_wf (data_json d)" using json_lossless_wf by blast
    then show ?thesis
      using accepted that [of "[e]"] by (simp add: push_event_def build_event_def event_data_wf_def)
  qed (use that [of "[]"] in auto)
  then show ?thesis using inv s foreign(1) cache_ok_append by (auto simp: goal_world_inv_def)
qed

lemma new_goal_service_inv:
  assumes "new_goal_service config s = Inr w" "session_ok s" "list_all event_data_wf (ss_log s)"
  shows "goal_world_inv w" "gw_session w = s"
  using assms resolve_rounds_ok by (auto simp: new_goal_service_def result_simps goal_world_inv_def)

text \<open>C9. In every state reachable from a new service over a well-formed session, by any mix of
  requests, reads, disarms, session starts and events other parts of the program append: the cache is
  the strict fold of a prefix of the log, no activation is left pending, only an active goal is armed,
  and the log only grows.\<close>

theorem goal_service_invariant:
  assumes "new_goal_service config s = Inr w0" and "session_ok s" and "list_all event_data_wf (ss_log s)"
    and "goal_service_step\<^sup>*\<^sup>* w0 w"
  shows "(\<exists>es. ss_log (gw_session w) = ss_log s @ es) \<and> session_ok (gw_session w) \<and>
    (case gw_cache w of
       None \<Rightarrow> True
     | Some c \<Rightarrow> fold_goal (take (gc_observed c) (ss_log (gw_session w))) = Inr (gc_state c) \<and>
         gc_pending c = None \<and> (gc_activation c = Armed \<longrightarrow> active_goal (gc_state c)))"
proof -
  have "goal_world_inv w \<and> (\<exists>es. ss_log (gw_session w) = ss_log s @ es)"
    using assms(4)
  proof induction
    case base
    then show ?case using new_goal_service_inv [OF assms(1-3)] by simp
  next
    case (step w1 w2)
    then show ?case using goal_service_step_inv by fastforce
  qed
  then show ?thesis
    by (auto simp: goal_world_inv_def cache_ok_def goal_cache_fold.coherent_def fold_goal_def
        split: option.splits)
qed

section \<open>What the service commits\<close>

lemma change_object_lossless: "json_lossless (change_object c)"
  by (cases c)
    (auto simp: snapshot_object_def ref_object_def reason_object_def GOAL_CHANGE_VERSION_def opt_field_def
      split: option.splits)

text \<open>The world after the strict fold has accepted a committed change.\<close>

definition committed ::
  "goal_env \<Rightarrow> goal_world \<Rightarrow> goal_world \<Rightarrow> goal_change \<Rightarrow> goal_activation \<Rightarrow> goal_fold_state \<Rightarrow> bool" where
  "committed env w w' change activation st \<longleftrightarrow>
     ss_log (gw_session w') = ss_log (gw_session w) @
       [build_event (ss_log (gw_session w)) (PluginEvent ''goal/change'' (change_object change))
          (None, None) (ge_stamp env)] \<and>
     fold_goal (ss_log (gw_session w')) = Inr st \<and>
     (\<exists>c v. gw_cache w' = Some c \<and> gc_state c = st \<and> gc_activation c = activation \<and>
        goal_view_of c = Inr v \<and>
        gw_emitted w' = gw_emitted w @
          [\<lparr>ch_operation = change_operation change, ch_ref = goal_change_ref change, ch_goal = v\<rparr>])"

lemma goal_commit_accepted:
  assumes inv: "goal_world_inv w" and c: "synced w c"
    and "change_ok change" and st: "apply_goal_change (gc_state c) change = Inr st"
    and "\<not> ge_appending env" "ge_dispatch_ok env"
    and gc: "goal_commit env w c change activation = (w', r)"
  shows "\<exists>c'. r = Inr c' \<and> gw_cache w' = Some c' \<and> committed env w w' change activation st"
proof -
  let ?s = "gw_session w" and ?d = "PluginEvent ''goal/change'' (change_object change)"
  let ?c1 = "c\<lparr>gc_pending := Some (session_seq ?s, activation)\<rparr>"
  let ?e = "build_event (ss_log ?s) ?d (None, None) (ge_stamp env)"
  let ?c2 = "c\<lparr>gc_state := st, gc_activation := activation, gc_observed := gc_observed c + 1,
                   gc_pending := None\<rparr>"
  have ok: "session_ok ?s" "gc_observed c = length (ss_log ?s)"
    using inv c by (auto simp: goal_world_inv_def synced_def)
  obtain s' where a: "append_event False True (ge_stamp env) ?d (None, None) ?s = (s', Inr ?e)"
    and log': "ss_log s' = ss_log ?s @ [?e]" "session_ok s'"
    by (rule plugin_append [OF ok(1) change_object_lossless, where t = "''goal/change''"])
      (auto simp: SURFACE_EVENT_TYPES_def)
  obtain s2 es where s2: "session_events s' = (s2, es)" by fastforce
  have S: "es = ss_log s'" "ss_log s2 = ss_log s'"
    using session_events_log [OF log'(2) s2] by simp_all
  have ap: "apply_goal_event (gc_state c) ?e = Inr st"
    using decode_change_object [OF assms(3)] st by (simp add: apply_goal_event_def build_event_def)
  have f: "fold_goal (ss_log s') = Inr st"
    using synced_fold(1) [OF inv c] ap log'(1) by (simp add: fold_goal_snoc)
  have "list_all event_data_wf (ss_log s')"
    using inv log'(1) json_lossless_wf [OF change_object_lossless]
    by (simp add: goal_world_inv_def event_data_wf_def build_event_def)
  then obtain v where v: "goal_view_of ?c2 = Inr v"
    using goal_view_of_ok [of ?c2] fold_goal_inv [OF f] by auto
  have "activation_after ?c1 ?e = activation"
    by (simp add: activation_after_def session_seq_def build_event_def)
  then have loop: "sync_loop (drop (gc_observed c) (ss_log s')) ?c1 =
      (?c1\<lparr>gc_state := st, gc_activation := activation, gc_observed := gc_observed c + 1\<rparr>, None)"
    using ap ok(2) log'(1) by simp
  have "w' = w\<lparr>gw_session := s2, gw_cache := Some ?c2, gw_emitted := gw_emitted w @
      [\<lparr>ch_operation = change_operation change, ch_ref = goal_change_ref change, ch_goal = v\<rparr>]\<rparr> \<and> r = Inr ?c2"
    using gc a assms(5,6) s2 S loop v
    by (simp add: goal_commit_def append_and_sync_def goal_sync_def drop_pending_def Let_def
        del: sync_loop.simps)
  then show ?thesis using f v S log'(1) by (simp add: committed_def)
qed

text \<open>The response names what the log now holds.\<close>

definition response_matches :: "goal_response \<Rightarrow> goal_change \<Rightarrow> goal_activation \<Rightarrow> bool" where
  "response_matches resp change activation \<longleftrightarrow>
     (case change of
        ClearChange ref _ \<Rightarrow> resp = Cleared ref
      | SnapshotChange _ g rounds created updated \<Rightarrow>
          resp = Viewed \<lparr>gv_goal = g, gv_rounds = rounds, gv_created = created, gv_updated = updated,
                         gv_activation = activation\<rparr>)"

text \<open>C7. On a log the strict fold accepts, and an environment that behaves, a request ends in one of
  two ways. It is refused with one of the service's own error codes, and then the log, and the
  notifications are what they were; or exactly one well-formed \<open>goal/change\<close> event is appended,
  the strict fold accepts it, the answer carries the state that event records, and exactly one
  notification with its ref follows. No request can make the service write a change its own replay
  would reject.\<close>

theorem goal_commits_are_strict:
  assumes "goal_world_inv w" and "fold_goal (ss_log (gw_session w)) = Inr st" and "env_ok env st"
    and "ge_live env" and "\<not> ge_appending env" and "ge_dispatch_ok env"
    and "goal_perform env req w = (w', r)"
  shows "(case r of
      Inl err \<Rightarrow> is_refusal err \<and> ss_log (gw_session w') = ss_log (gw_session w) \<and>
        gw_emitted w' = gw_emitted w
    | Inr resp \<Rightarrow> \<exists>change activation st'. change_ok change \<and> apply_goal_change st change = Inr st' \<and>
        committed env w w' change activation st' \<and> response_matches resp change activation)"
proof -
  from goal_perform_shape [OF assms(1,7)] consider err where "r = Inl err" "refused_call w w' err"
    | w1 c change activation rc where "prepare_mutation env w = (w1, Inr c)"
      "goal_commit env w1 c change activation = (w', rc)" "r = response_of change rc"
      "sound_plan env (gc_state c) change"
    unfolding mutation_shape_def by blast
  then show ?thesis
  proof cases
    case 1
    then show ?thesis using assms(2) by (auto simp: refused_call_def only_reads_def)
  next
    case 2
    note P = prepare_ok [OF assms(1) 2(1)]
    have reads: "ss_log (gw_session w1) = ss_log (gw_session w)" "gw_emitted w1 = gw_emitted w"
      using P(2) by (simp_all add: only_reads_def)
    have "gc_state c = st" using synced_fold(1) [OF P(1) P(4) [OF refl]] assms(2) reads by simp
    then obtain st' where ok: "change_ok change" "apply_goal_change (gc_state c) change = Inr st'"
      using 2(4) assms(3) by (auto simp: sound_plan_def returns_iff)
    obtain c' where c': "rc = Inr c'" "gw_cache w' = Some c'" "committed env w1 w' change activation st'"
      using goal_commit_accepted [OF P(1) P(4) [OF refl] ok assms(5,6) 2(2)] by blast
    have "committed env w w' change activation st' = committed env w1 w' change activation st'"
      by (simp only: committed_def reads)
    then have cm: "committed env w w' change activation st'" using c'(3) by simp
    have cs: "gc_state c' = st'" "gc_activation c' = activation" "returns (goal_view_of c')"
      using c' by (auto simp: committed_def)
    obtain resp where "r = Inr resp" "response_matches resp change activation"
    proof (cases change)
      case (ClearChange ref t)
      then show thesis using that 2(3) c'(1) by (simp add: response_of_def response_matches_def)
    next
      case (SnapshotChange operation g rounds created updated)
      then have "st' = install_snapshot (gc_state c) g rounds created updated (gf_seen st')"
        using ok(2) by (auto simp: install_snapshot_def result_simps split: if_splits option.splits)
      then have "goal_view_of c' = Inr (Some \<lparr>gv_goal = g, gv_rounds = rounds, gv_created = created,
          gv_updated = updated, gv_activation = activation\<rparr>)"
        using cs by (metis (no_types, lifting) goal_view_of_def install_fields(1-4) option.simps(5) prod.simps(2))
      then show thesis
        using that SnapshotChange 2(3) c'(1) by (simp add: response_of_def response_matches_def)
    qed
    then show ?thesis using ok cm \<open>gc_state c = st\<close> by auto
  qed
qed

section \<open>Reads and authority\<close>

text \<open>Reading the goal of a live agent, whatever the cache has seen so far, answers from the
  strict fold of the whole log: its fault when it rejects the log, no view when no goal is current, and
  otherwise the current goal with the fold's counters and times. The log is left alone.\<close>

theorem goal_get_is_fold:
  assumes "goal_world_inv w" and "ge_live env" and "goal_get env w = (w', r)"
  shows "ss_log (gw_session w') = ss_log (gw_session w) \<and>
    (case fold_goal (ss_log (gw_session w)) of
       Inl fault \<Rightarrow> r = Inl (FoldFailed fault)
     | Inr st \<Rightarrow>
         (case gf_goal st of
            None \<Rightarrow> r = Inr None
          | Some g \<Rightarrow> \<exists>v. r = Inr (Some v) \<and> gv_goal v = g \<and> gv_rounds v = gf_rounds st \<and>
              gf_created st = Some (gv_created v) \<and> gf_updated st = Some (gv_updated v)))"
proof -
  obtain w1 r1 where p: "prepare_mutation env w = (w1, r1)" by fastforce
  note P = prepare_ok [OF assms(1) p]
  show ?thesis
  proof (cases r1)
    case (Inl err)
    then have "w' = w1" "r = Inl err" using assms(3) p by (simp_all add: goal_get_def)
    then show ?thesis using P(2) P(3) [OF Inl] assms(2) by (auto simp: only_reads_def)
  next
    case (Inr c)
    then have "w' = w1" "r = goal_view_of c" using assms(3) p by (simp_all add: goal_get_def)
    moreover have "fold_goal (ss_log (gw_session w)) = Inr (gc_state c)" "goal_inv (gc_state c)"
      using synced_fold [OF P(1) P(4) [OF Inr]] P(2) by (simp_all add: only_reads_def)
    ultimately show ?thesis
      using P(2) by (auto simp: only_reads_def goal_view_of_def goal_inv_def split: option.splits)
  qed
qed

text \<open>The fold has moved past a revision of a goal, for good.\<close>

definition past :: "string \<Rightarrow> int \<Rightarrow> goal_fold_state \<Rightarrow> bool" where
  "past gid revision st \<longleftrightarrow>
     gid \<in> gf_seen st \<and> (\<forall>g. gf_goal st = Some g \<and> gs_id g = gid \<longrightarrow> revision < gs_revision g)"

lemma past_step:
  assumes "past gid revision st" "apply_goal_event st e = Inr st'"
  shows "past gid revision st'"
  using assms(2)
proof (cases rule: apply_goal_event_cases)
  case (change c)
  from change(5) show ?thesis
    by (cases rule: apply_goal_change_cases) (use assms(1) in \<open>auto simp: past_def\<close>)
next
  case (round current rnd)
  then show ?thesis using assms(1) by (auto simp: past_def)
qed (use assms(1) in simp)

lemma past_fold:
  assumes "past gid revision st" "fold_goal es = Inr st" "fold_goal (es @ fs) = Inr st'"
  shows "past gid revision st'"
proof -
  have "fold_result apply_goal_event st fs = Inr st'"
    using assms(2,3) by (simp add: fold_goal_def fold_result_append)
  then show ?thesis by (rule fold_result_invariant) (use assms(1) past_step in auto)
qed

lemma past_enter:
  assumes "goal_inv st" "gf_goal st = Some g" "apply_goal_event st e = Inr st'" "ev_type e = ''goal/change''"
  shows "past (gs_id g) (gs_revision g) st'"
  using assms(3)
proof (cases rule: apply_goal_event_cases)
  case (change c)
  have seen: "gs_id g \<in> gf_seen st" using assms(1,2) by (simp add: goal_inv_def)
  from change(5) show ?thesis
    by (cases rule: apply_goal_change_cases) (use assms(2) seen in \<open>auto simp: past_def\<close>)
qed (use assms(4) in auto)

fun request_ref :: "goal_request \<Rightarrow> call_ref option" where
  "request_ref (ReqCreate _ _) = None"
| "request_ref (ReqEdit ref _ _) = Some ref"
| "request_ref (ReqPause ref) = Some ref"
| "request_ref (ReqResume ref) = Some ref"
| "request_ref (ReqComplete ref) = Some ref"
| "request_ref (ReqBlock ref _) = Some ref"
| "request_ref (ReqClear ref) = Some ref"

lemma with_current_success:
  assumes "goal_world_inv w" and "with_current env ref w f = (w', Inr resp)"
  shows "\<exists>w1 c g. prepare_mutation env w = (w1, Inr c) \<and> gf_goal (gc_state c) = Some g \<and>
    cr_id ref = gs_id g \<and> num_eq (cr_revision ref) (NInt (gs_revision g))"
  using assms by (cases rule: with_current_cases) auto

lemma perform_with_current:
  assumes "goal_perform env req w = (w', Inr resp)" and "request_ref req = Some ref"
  shows "\<exists>f. with_current env ref w f = (w', Inr resp)"
  using assms
  by (cases req)
    (auto simp: goal_edit_def goal_pause_def goal_complete_def goal_resume_def goal_block_def
      goal_clear_def goal_transition_def)

lemma perform_ref_current:
  assumes inv: "goal_world_inv w" and "goal_perform env req w = (w', Inr resp)" and "request_ref req = Some ref"
  shows "\<exists>w1 c g. prepare_mutation env w = (w1, Inr c) \<and> gf_goal (gc_state c) = Some g \<and>
    cr_id ref = gs_id g \<and> num_eq (cr_revision ref) (NInt (gs_revision g))"
proof -
  obtain f where "with_current env ref w f = (w', Inr resp)"
    using perform_with_current [OF assms(2,3)] by blast
  from with_current_success [OF inv this] show ?thesis .
qed

lemma goal_commit_success:
  assumes inv: "goal_world_inv w" and c: "synced w c" and arms: "arms_active change activation"
    and gc: "goal_commit env w c change activation = (w', Inr c')"
  shows "\<exists>e. ss_log (gw_session w') = ss_log (gw_session w) @ [e] \<and> ev_type e = ''goal/change'' \<and>
    returns (apply_goal_event (gc_state c) e)"
proof -
  let ?s = "gw_session w" and ?d = "PluginEvent ''goal/change'' (change_object change)"
  let ?c1 = "c\<lparr>gc_pending := Some (session_seq ?s, activation)\<rparr>"
  have ok: "session_ok ?s" "list_all event_data_wf (ss_log ?s)" "gc_observed c = length (ss_log ?s)"
    using inv c by (auto simp: goal_world_inv_def synced_def)
  obtain s' x where a: "append_event (ge_appending env) (ge_dispatch_ok env) (ge_stamp env) ?d (None, None) ?s = (s', x)"
    by fastforce
  from ok(1,2) a show ?thesis
  proof (cases rule: commit_append_cases)
    case (refused err)
    then show ?thesis using gc a by (simp add: goal_commit_def append_and_sync_def)
  next
    case (appended e)
    obtain s2 es where s2: "session_events s' = (s2, es)" by fastforce
    have S: "es = ss_log s'" "ss_log s2 = ss_log s'"
      using session_events_log [OF appended(3) s2] by simp_all
    have dr: "drop (gc_observed c) (ss_log s') = [e]" using ok(3) appended(2) by simp
    have "returns (apply_goal_event (gc_state c) e)"
      using gc a appended(1) s2 S dr
      by (cases "apply_goal_event (gc_state c) e")
        (auto simp: goal_commit_def append_and_sync_def goal_sync_def)
    moreover have "gw_session w' = s2"
      using gc a appended(1) s2 S dr
      by (cases "sync_loop [e] ?c1")
        (auto simp: goal_commit_def append_and_sync_def goal_sync_def drop_pending_def Let_def
          simp del: sync_loop.simps split: sum.splits option.splits)
    ultimately show ?thesis using S appended(2,4) by auto
  qed
qed

lemma perform_success_past:
  assumes inv: "goal_world_inv w" and p: "goal_perform env req w = (w', Inr resp)" and "request_ref req = Some ref"
  shows "\<exists>st n. cr_revision ref = NInt n \<and> fold_goal (ss_log (gw_session w')) = Inr st \<and> past (cr_id ref) n st"
proof -
  obtain w1 c g where cur: "prepare_mutation env w = (w1, Inr c)" "gf_goal (gc_state c) = Some g"
    "cr_id ref = gs_id g" "num_eq (cr_revision ref) (NInt (gs_revision g))"
    using perform_ref_current [OF assms] by blast
  note P = prepare_ok [OF inv cur(1)]
  note F = synced_fold [OF P(1) P(4) [OF refl]]
  obtain change activation rc where sh: "goal_commit env w1 c change activation = (w', rc)"
    "Inr resp = response_of change rc" "arms_active change activation"
    using goal_perform_shape [OF inv p] cur(1) unfolding mutation_shape_def by auto
  then obtain c' where c': "rc = Inr c'" by (cases rc) (simp_all add: response_of_def)
  have "goal_commit env w1 c change activation = (w', Inr c')" using sh(1) c' by simp
  from goal_commit_success [OF P(1) P(4) [OF refl] sh(3) this] obtain e st where e: "ss_log (gw_session w') = ss_log (gw_session w1) @ [e]"
    "ev_type e = ''goal/change''" "apply_goal_event (gc_state c) e = Inr st"
    unfolding returns_iff by blast
  have "1 \<le> gs_revision g" using F(2) cur(2) by (simp add: goal_inv_def snapshot_ok_def positive_safe_def)
  then have "cr_revision ref = NInt (gs_revision g)" using cur(4) by (cases "cr_revision ref") auto
  then show ?thesis
    using past_enter [OF F(2) cur(2) e(3,2)] F(1) e cur(3) by (simp add: fold_goal_snoc)
qed

text \<open>C8. A ref is spent by the first mutation it admits: once a request with a ref has succeeded,
  every later request carrying the same ref is refused, whatever requests, reads and foreign events
  came in between and whichever verbs the two requests use. Two callers that read the same revision can
  therefore never both change the goal.\<close>

theorem goal_ref_is_spent:
  assumes "goal_world_inv w" and "goal_perform env req w = (w1, Inr resp)" and "request_ref req = Some ref"
    and "goal_service_step\<^sup>*\<^sup>* w1 w2"
    and "goal_perform env' req' w2 = (w3, r)" and "request_ref req' = Some ref"
  shows "\<exists>err. r = Inl err"
proof (rule ccontr)
  assume "\<not> ?thesis"
  then obtain resp' where r: "r = Inr resp'" by (cases r) auto
  have inv1: "goal_world_inv w1" using goal_perform_inv [OF assms(1,2)] by simp
  have later: "goal_world_inv w2 \<and> (\<exists>es. ss_log (gw_session w2) = ss_log (gw_session w1) @ es)"
    using assms(4)
  proof induction
    case base
    then show ?case using inv1 by simp
  next
    case (step x y)
    then show ?case using goal_service_step_inv by fastforce
  qed
  obtain st n where st: "cr_revision ref = NInt n" "fold_goal (ss_log (gw_session w1)) = Inr st"
    "past (cr_id ref) n st" using perform_success_past [OF assms(1-3)] by blast
  obtain wp c g where cur: "prepare_mutation env' w2 = (wp, Inr c)" "gf_goal (gc_state c) = Some g"
    "cr_id ref = gs_id g" "num_eq (cr_revision ref) (NInt (gs_revision g))"
    using perform_ref_current [of w2 env' req' w3 resp' ref] later assms(5,6) r by blast
  have inv2: "goal_world_inv w2" using later by simp
  note P = prepare_ok [OF inv2 cur(1)]
  have f: "fold_goal (ss_log (gw_session w2)) = Inr (gc_state c)"
    using synced_fold(1) [OF P(1) P(4) [OF refl]] P(2) by (simp add: only_reads_def)
  then have "past (cr_id ref) n (gc_state c)" using past_fold [OF st(3,2)] later by auto
  then show False using cur(2-4) st(1) by (auto simp: past_def)
qed

lemma sync_loop_foreign:
  "sync_loop es c = (c', None) \<Longrightarrow> gc_pending c = None \<Longrightarrow>
     gc_activation c = Disarmed \<or> (\<exists>e \<in> set es. ev_type e = ''goal/change'') \<Longrightarrow>
     gc_activation c' = Disarmed"
proof (induction es arbitrary: c)
  case (Cons e es)
  then obtain st where st: "apply_goal_event (gc_state c) e = Inr st"
    by (cases "apply_goal_event (gc_state c) e") auto
  let ?c = "c\<lparr>gc_state := st, gc_activation := activation_after c e, gc_observed := gc_observed c + 1\<rparr>"
  have l: "sync_loop es ?c = (c', None)" using Cons.prems(1) st by simp
  have "gc_activation ?c = Disarmed \<or> (\<exists>e \<in> set es. ev_type e = ''goal/change'')"
    using Cons.prems(2,3) by (auto simp: activation_after_def)
  then show ?case using Cons.IH [OF l] Cons.prems(2) by simp
qed simp

text \<open>Authority to continue a goal automatically never comes from outside: after any foreign
  events that include a change of the goal stream, however many and whether or not the service was
  reading meanwhile, the next read shows the goal disarmed.\<close>

theorem foreign_change_disarms:
  assumes "goal_world_inv w" and "session_ok s" and "ss_log s = ss_log (gw_session w) @ es"
    and "list_all event_data_wf es" and "\<exists>e \<in> set es. ev_type e = ''goal/change''"
    and "goal_get env (w\<lparr>gw_session := s\<rparr>) = (w', Inr (Some v))"
  shows "gv_activation v = Disarmed"
proof -
  let ?w = "w\<lparr>gw_session := s\<rparr>"
  have inv: "goal_world_inv ?w" using assms(1-4) cache_ok_append by (auto simp: goal_world_inv_def)
  obtain w1 r1 where p: "prepare_mutation env ?w = (w1, r1)" by fastforce
  obtain c where c: "r1 = Inr c" "goal_view_of c = Inr (Some v)"
    using assms(6) p by (cases r1) (simp_all add: goal_get_def)
  then have v: "gv_activation v = gc_activation c"
    by (auto simp: goal_view_of_def split: option.splits)
  obtain w0 c0 where c0: "goal_cache_of ?w = (w0, Inr c0)" "goal_sync w0 c0 = (w1, Inr c)"
    using p c(1) by (auto simp: prepare_mutation_def assert_live_def call_then_eq split: if_splits)
  note C = goal_cache_of_ok [OF inv c0(1), simplified]
  obtain s2 es2 where s2: "session_events (gw_session w0) = (s2, es2)" by fastforce
  have S: "es2 = ss_log s"
    using session_events_log(1) [OF _ s2] C by (simp add: goal_world_inv_def only_reads_def)
  have l: "sync_loop (drop (gc_observed c0) (ss_log s)) c0 = (c, None)"
    using c0(2) s2 S by (auto simp: goal_sync_def split: prod.splits option.splits)
  have pn: "gc_pending c0 = None" using C by (simp add: goal_world_inv_def cache_ok_def)
  have "gc_activation c0 = Disarmed \<or> (\<exists>e \<in> set (drop (gc_observed c0) (ss_log s)). ev_type e = ''goal/change'')"
  proof (cases "gw_cache w")
    case None
    then show ?thesis
      using c0(1) by (auto simp: goal_cache_of_def Let_def split: prod.splits sum.splits)
  next
    case (Some k)
    then have "c0 = k" "gc_observed k \<le> length (ss_log (gw_session w))"
      using c0(1) assms(1)
      by (auto simp: goal_cache_of_def goal_world_inv_def cache_ok_def goal_cache_fold.coherent_def)
    then show ?thesis using assms(3,5) by auto
  qed
  then show ?thesis using sync_loop_foreign [OF l pn] v by simp
qed

section \<open>Instances\<close>

text \<open>A goal created and paused through the service.\<close>

definition example_goal_env :: "int \<Rightarrow> goal_env" where
  "example_goal_env now =
     \<lparr>ge_live = True, ge_now = now, ge_uuid = (if now < 6000 then ''1'' else ''2''), ge_stamp = now, ge_appending = False, ge_dispatch_ok = True\<rparr>"

definition example_goal_world :: goal_world where
  "example_goal_world =
     \<lparr>gw_session = example_session, gw_cache = None, gw_default_rounds = 256, gw_emitted = []\<rparr>"

lemma example_goal_service: "new_goal_service None example_session = Inr example_goal_world"
  by (simp add: new_goal_service_def or_default_def resolve_max_goal_rounds_def example_goal_world_def
      safe_int_def max_safe_def)

lemma example_session_wf: "list_all event_data_wf (ss_log example_session)"
  by code_simp

lemma example_goal_world_inv: "goal_world_inv example_goal_world"
  using new_goal_service_inv(1) [OF example_goal_service example_session_ok example_session_wf] .

definition example_created :: goal_world where
  "example_created =
     fst (goal_perform (example_goal_env 5000) (ReqCreate (Some (JStr '' ship it '')) None) example_goal_world)"

lemma example_create:
  "goal_perform (example_goal_env 5000) (ReqCreate (Some (JStr '' ship it '')) None) example_goal_world
     = (example_created, snd (goal_perform (example_goal_env 5000) (ReqCreate (Some (JStr '' ship it '')) None) example_goal_world))"
  by (simp add: example_created_def)

lemma example_created_inv: "goal_world_inv example_created"
  using goal_perform_inv [OF example_goal_world_inv example_create] by simp

theorem goal_service_invariant_witness:
  "\<exists>c. gw_cache example_created = Some c \<and> gc_activation c = Armed \<and> active_goal (gc_state c)"
proof -
  have "goal_service_step\<^sup>*\<^sup>* example_goal_world example_created"
    using goal_service_step.perform [OF example_create] by simp
  note I = goal_service_invariant [OF example_goal_service example_session_ok example_session_wf this]
  have "(case gw_cache example_created of Some c \<Rightarrow> gc_activation c = Armed | None \<Rightarrow> False)" by code_simp
  then show ?thesis using I by (auto split: option.splits)
qed

theorem goal_commits_are_strict_witness:
  "\<exists>v change st. snd (goal_perform (example_goal_env 6000)
       (ReqPause \<lparr>cr_id = ''goal-1'', cr_revision = NInt 1\<rparr>) example_created) = Inr (Viewed v) \<and>
     gs_phase (gv_goal v) = PhasePaused \<and> change_ok change \<and> response_matches (Viewed v) change Disarmed \<and>
     committed (example_goal_env 6000) example_created
       (fst (goal_perform (example_goal_env 6000)
         (ReqPause \<lparr>cr_id = ''goal-1'', cr_revision = NInt 1\<rparr>) example_created)) change Disarmed st"
proof -
  let ?env = "example_goal_env 6000" and ?req = "ReqPause \<lparr>cr_id = ''goal-1'', cr_revision = NInt 1\<rparr>"
  let ?p = "goal_perform ?env ?req example_created"
  have "case fold_goal (ss_log (gw_session example_created)) of Inr st \<Rightarrow> env_ok ?env st | Inl _ \<Rightarrow> False"
    by code_simp
  then obtain st where st: "fold_goal (ss_log (gw_session example_created)) = Inr st" "env_ok ?env st"
    by (auto split: sum.splits)
  have "ge_live ?env" "\<not> ge_appending ?env" "ge_dispatch_ok ?env" by (simp_all add: example_goal_env_def)
  note T = goal_commits_are_strict [OF example_created_inv st this prod.collapse [symmetric], of ?req]
  have "case snd ?p of Inr (Viewed v) \<Rightarrow> gs_phase (gv_goal v) = PhasePaused \<and> gv_activation v = Disarmed
      | _ \<Rightarrow> False" by code_simp
  then obtain v where v: "snd ?p = Inr (Viewed v)" "gs_phase (gv_goal v) = PhasePaused"
    "gv_activation v = Disarmed" by (auto split: sum.splits goal_response.splits)
  obtain change activation st' where c: "change_ok change" "committed ?env example_created (fst ?p) change activation st'"
    "response_matches (Viewed v) change activation" using T v(1) by auto
  have "activation = Disarmed"
    using c(3) v(3) by (cases change) (auto simp: response_matches_def)
  then show ?thesis using v c by blast
qed

theorem goal_get_is_fold_witness:
  "\<exists>v. snd (goal_get (example_goal_env 6000) example_created) = Inr (Some v) \<and>
     gs_objective (gv_goal v) = ''ship it''"
proof -
  let ?g = "goal_get (example_goal_env 6000) example_created"
  have "case fold_goal (ss_log (gw_session example_created)) of
      Inr st \<Rightarrow> (case gf_goal st of Some g \<Rightarrow> gs_objective g = ''ship it'' | None \<Rightarrow> False) | Inl _ \<Rightarrow> False"
    "ge_live (example_goal_env 6000)" by code_simp+
  then show ?thesis
    using goal_get_is_fold [OF example_created_inv, of "example_goal_env 6000" "fst ?g" "snd ?g"]
    by (auto split: sum.splits option.splits)
qed

definition example_paused :: goal_world where
  "example_paused =
     fst (goal_perform (example_goal_env 6000) (ReqPause \<lparr>cr_id = ''goal-1'', cr_revision = NInt 1\<rparr>) example_created)"

theorem goal_ref_is_spent_witness:
  "\<exists>err. snd (goal_perform (example_goal_env 7000) (ReqComplete \<lparr>cr_id = ''goal-1'', cr_revision = NInt 1\<rparr>)
     example_paused) = Inl err"
proof -
  let ?ref = "\<lparr>cr_id = ''goal-1'', cr_revision = NInt 1\<rparr>"
  let ?p = "goal_perform (example_goal_env 6000) (ReqPause ?ref) example_created"
  let ?q = "goal_perform (example_goal_env 7000) (ReqComplete ?ref) example_paused"
  have "returns (snd ?p)" by code_simp
  then obtain resp where p: "?p = (example_paused, Inr resp)"
    by (auto simp: returns_iff example_paused_def prod_eq_iff)
  have q: "?q = (fst ?q, snd ?q)" by simp
  show ?thesis
    by (rule goal_ref_is_spent [OF example_created_inv p _ _ q, of ?ref]) simp_all
qed

definition example_foreign :: session_obj where
  "example_foreign = fst (append_event False True 8000
     (PluginEvent ''goal/change'' (change_object (SnapshotChange OpEdit
        \<lparr>gs_id = ''goal-1'', gs_revision = 2, gs_objective = ''ship it soon'', gs_phase = PhaseActive,
         gs_blocked = None, gs_max_rounds = 9\<rparr> 0 5000 8000))) (None, None) (gw_session example_created))"

theorem foreign_change_disarms_witness:
  "\<exists>v. snd (goal_get (example_goal_env 9000) (example_created\<lparr>gw_session := example_foreign\<rparr>)) = Inr (Some v) \<and>
     gs_revision (gv_goal v) = 2 \<and> gv_activation v = Disarmed"
proof -
  let ?es = "drop 4 (ss_log example_foreign)"
  let ?g = "goal_get (example_goal_env 9000) (example_created\<lparr>gw_session := example_foreign\<rparr>)"
  have ok: "session_ok example_foreign"
    using session_ok_append [of "gw_session example_created"] example_created_inv
    by (auto simp: example_foreign_def goal_world_inv_def prod_eq_iff)
  have l: "ss_log example_foreign = ss_log (gw_session example_created) @ ?es" "list_all event_data_wf ?es"
    "list_ex (\<lambda>e. ev_type e = ''goal/change'') ?es" by code_simp+
  have "case snd ?g of Inr (Some v) \<Rightarrow> gs_revision (gv_goal v) = 2 | _ \<Rightarrow> False" by code_simp
  then obtain v where v: "snd ?g = Inr (Some v)" "gs_revision (gv_goal v) = 2"
    by (auto split: sum.splits option.splits)
  then have "?g = (fst ?g, Inr (Some v))" by (simp add: prod_eq_iff)
  from foreign_change_disarms [OF example_created_inv ok l(1,2) _ this] show ?thesis
    using v l(3) by (auto simp: list_ex_iff)
qed

end
