(* ===== verification/Calendar.thy ===== *)
theory Calendar
  imports Js_Strings
begin

text \<open>
  The part of \<open>Date\<close> that the schedule package computes with: day numbers of the
  proleptic Gregorian calendar (\<open>MakeDay\<close>, \<open>MakeTime\<close>, \<open>YearFromTime\<close> and the
  other getters of the language definition), \<open>toISOString\<close>, and \<open>Date.parse\<close> on the
  format \<open>toISOString\<close> prints. A time value is an integer number of milliseconds since
  1970. The lemmas show that fields and time values are in bijection, and that printing and
  parsing are inverse.
\<close>

section \<open>Decimal fields of fixed width\<close>

fun digits :: "nat \<Rightarrow> nat \<Rightarrow> string" where
  "digits 0 n = []"
| "digits (Suc k) n = digits k (n div 10) @ [digit (n mod 10)]"

definition digit_value :: "char \<Rightarrow> nat" where
  "digit_value c = of_char c - 48"

definition decimal :: "string \<Rightarrow> nat" where
  "decimal s = foldl (\<lambda>n c. 10 * n + digit_value c) 0 s"

lemma decimal_Nil [simp]: "decimal [] = 0"
  by (simp add: decimal_def)

lemma decimal_snoc [simp]: "decimal (s @ [c]) = 10 * decimal s + digit_value c"
  by (simp add: decimal_def)

lemma of_char_digit: "d < 10 \<Longrightarrow> (of_char (digit d) :: nat) = 48 + d"
  by (simp add: digit_def of_char_of take_bit_eq_mod)

lemma digit_value_digit [simp]: "d < 10 \<Longrightarrow> digit_value (digit d) = d"
  by (simp add: digit_value_def of_char_digit)

lemma is_digit_digit [simp]: "d < 10 \<Longrightarrow> is_digit (digit d)"
  by (simp add: is_digit_def of_char_digit Let_def)

lemma digit_value_less: "is_digit c \<Longrightarrow> digit_value c < 10"
  by (auto simp: is_digit_def digit_value_def Let_def)

lemma digit_digit_value: "is_digit c \<Longrightarrow> digit (digit_value c) = c"
  by (simp add: is_digit_def digit_value_def digit_def Let_def)

lemma length_digits [simp]: "length (digits k n) = k"
  by (induction k arbitrary: n) auto

lemma all_digits [simp]: "list_all is_digit (digits k n)"
  by (induction k arbitrary: n) auto

lemma decimal_digits: "n < 10 ^ k \<Longrightarrow> decimal (digits k n) = n"
  by (induction k arbitrary: n) (auto simp: less_mult_imp_div_less mult.commute)

lemma decimal_less: "list_all is_digit s \<Longrightarrow> decimal s < 10 ^ length s"
proof (induction s rule: rev_induct)
  case (snoc c s)
  then have "decimal s + 1 \<le> 10 ^ length s" "digit_value c < 10" by (simp_all add: digit_value_less)
  then show ?case by simp
qed simp

lemma digits_decimal: "list_all is_digit s \<Longrightarrow> length s = k \<Longrightarrow> digits k (decimal s) = s"
  by (induction s arbitrary: k rule: rev_induct) (auto simp: digit_value_less digit_digit_value)

section \<open>Day numbers\<close>

definition leap_year :: "int \<Rightarrow> bool" where
  "leap_year y \<longleftrightarrow> y mod 4 = 0 \<and> (y mod 100 \<noteq> 0 \<or> y mod 400 = 0)"

definition month_lengths :: "int \<Rightarrow> int list" where
  "month_lengths y = [31, if leap_year y then 29 else 28, 31, 30, 31, 30, 31, 31, 30, 31, 30, 31]"

text \<open>\<open>DayFromYear\<close>.\<close>

definition year_start :: "int \<Rightarrow> int" where
  "year_start y =
     365 * (y - 1970) + (y - 1969) div 4 - (y - 1901) div 100 + (y - 1601) div 400"

text \<open>\<open>MakeDay\<close>: a month out of range carries into the year.\<close>

definition day_number :: "int \<Rightarrow> int \<Rightarrow> int \<Rightarrow> int" where
  "day_number y m d =
     (let y' = y + (m - 1) div 12
      in year_start y' + sum_list (take (nat ((m - 1) mod 12)) (month_lengths y')) + d - 1)"

definition year_of_day :: "int \<Rightarrow> int" where
  "year_of_day z =
     (let e = 1970 + (400 * z) div 146097
      in if z < year_start e then e - 1 else if year_start (e + 1) \<le> z then e + 1 else e)"

fun split_month :: "int list \<Rightarrow> int \<Rightarrow> int \<times> int" where
  "split_month [] d = (0, d)"
| "split_month (l # ls) d =
     (if d < l then (0, d) else (let (m, r) = split_month ls (d - l) in (m + 1, r)))"

definition civil_of_day :: "int \<Rightarrow> int \<times> int \<times> int" where
  "civil_of_day z =
     (let y = year_of_day z; (m, d) = split_month (month_lengths y) (z - year_start y)
      in (y, m + 1, d + 1))"

definition valid_date :: "int \<Rightarrow> int \<Rightarrow> int \<Rightarrow> bool" where
  "valid_date y m d \<longleftrightarrow> 1 \<le> m \<and> m \<le> 12 \<and> 1 \<le> d \<and> d \<le> month_lengths y ! nat (m - 1)"

lemma div_step: "0 < n \<Longrightarrow> (a + 1) div n = a div n + (if n dvd a + 1 then 1 else 0)" for a n :: int
proof (cases "n dvd a + 1")
  case True
  assume n: "0 < n"
  from True obtain k where k: "a + 1 = n * k" by (elim dvdE)
  then have "a = n * (k - 1) + (n - 1)" by (simp add: algebra_simps)
  moreover have "(n * (k - 1) + (n - 1)) div n = k - 1 + (n - 1) div n" using n by simp
  ultimately have "a div n = k - 1" using n by (simp add: div_pos_pos_trivial)
  moreover have "(a + 1) div n = k" using k n by simp
  ultimately show ?thesis using True by simp
next
  case False
  assume n: "0 < n"
  have "a = n * ((a + 1) div n) + ((a + 1) mod n - 1)"
    using mult_div_mod_eq [of n "a + 1"] by linarith
  moreover have "0 \<le> (a + 1) mod n - 1" "(a + 1) mod n - 1 < n"
    using False [unfolded dvd_eq_mod_eq_0] pos_mod_sign [OF n, of "a + 1"] pos_mod_bound [OF n, of "a + 1"] by linarith+
  ultimately have "a div n = (a + 1) div n" by (rule int_div_pos_eq)
  then show ?thesis using False by simp
qed

lemma year_start_Suc: "year_start (y + 1) = year_start y + (if leap_year y then 366 else 365)"
proof -
  have d: "(y - 1968) div 4 = (y - 1969) div 4 + (if 4 dvd (y - 1968) then 1 else 0)"
    "(y - 1900) div 100 = (y - 1901) div 100 + (if 100 dvd (y - 1900) then 1 else 0)"
    "(y - 1600) div 400 = (y - 1601) div 400 + (if 400 dvd (y - 1600) then 1 else 0)"
    using div_step [of 4 "y - 1969"] div_step [of 100 "y - 1901"] div_step [of 400 "y - 1601"]
    by (simp_all only: diff_add_eq diff_diff_eq2 flip: diff_diff_eq2) simp_all
  have m: "4 dvd (y - 1968) \<longleftrightarrow> 4 dvd y" "100 dvd (y - 1900) \<longleftrightarrow> 100 dvd y"
    "400 dvd (y - 1600) \<longleftrightarrow> 400 dvd y"
    using dvd_add_right_iff [of 4 1968 "y - 1968"] dvd_add_right_iff [of 100 1900 "y - 1900"]
      dvd_add_right_iff [of 400 1600 "y - 1600"] by simp_all
  have i: "100 dvd y \<Longrightarrow> 4 dvd y" "400 dvd y \<Longrightarrow> 100 dvd y"
    using dvd_trans [of 4 100 y] dvd_trans [of 100 400 y] by simp_all
  have "year_start (y + 1) = 365 * (y - 1969) + (y - 1968) div 4 - (y - 1900) div 100 + (y - 1600) div 400"
    by (simp add: year_start_def algebra_simps)
  also have "\<dots> = year_start y + 365 + (if 4 dvd y then 1 else 0) - (if 100 dvd y then 1 else 0)
      + (if 400 dvd y then 1 else 0)"
    by (simp only: d m year_start_def) (simp add: algebra_simps)
  also have "\<dots> = year_start y + (if leap_year y then 366 else 365)"
    using i by (cases "4 dvd y"; cases "100 dvd y"; cases "400 dvd y")
      (simp_all add: leap_year_def dvd_eq_mod_eq_0 [symmetric])
  finally show ?thesis .
qed

lemma sum_month_lengths: "sum_list (month_lengths y) = (if leap_year y then 366 else 365)"
  by (simp add: month_lengths_def)

lemma year_start_mono: "x \<le> y \<Longrightarrow> year_start x \<le> year_start y"
proof -
  assume "x \<le> y"
  have "(x - 1969) div 4 \<le> (y - 1969) div 4" using \<open>x \<le> y\<close> by (intro zdiv_mono1) simp_all
  have "year_start x \<le> year_start (x + int n)" for n
  proof (induction n)
    case (Suc n)
    then show ?case using year_start_Suc [of "x + int n"]
      by (simp add: add.commute add.left_commute split: if_splits)
  qed simp
  from this [of "nat (y - x)"] \<open>x \<le> y\<close> show ?thesis by simp
qed

lemma div_bounds: "0 < n \<Longrightarrow> n * (a div n) \<le> a \<and> a < n * (a div n) + n" for a n :: int
  using mult_div_mod_eq [of n a] pos_mod_sign [of n a] pos_mod_bound [of n a] by linarith

lemma year_start_bounds:
  "146097 * (y - 1970) - 1000 \<le> 400 * year_start y" "400 * year_start y \<le> 146097 * (y - 1970) + 1000"
proof -
  have "4 * ((y - 1969) div 4) \<le> y - 1969" "y - 1969 < 4 * ((y - 1969) div 4) + 4"
    "100 * ((y - 1901) div 100) \<le> y - 1901" "y - 1901 < 100 * ((y - 1901) div 100) + 100"
    "400 * ((y - 1601) div 400) \<le> y - 1601" "y - 1601 < 400 * ((y - 1601) div 400) + 400"
    using div_bounds [of 4 "y - 1969"] div_bounds [of 100 "y - 1901"] div_bounds [of 400 "y - 1601"]
    by simp_all
  then show "146097 * (y - 1970) - 1000 \<le> 400 * year_start y"
    "400 * year_start y \<le> 146097 * (y - 1970) + 1000"
    by (simp_all add: year_start_def)
qed

lemma year_of_day_bounds:
  "year_start (year_of_day z) \<le> z" "z < year_start (year_of_day z + 1)"
proof -
  let ?q = "(400 * z) div 146097"
  have q: "146097 * ?q \<le> 400 * z" "400 * z < 146097 * ?q + 146097"
    using div_bounds [of 146097 "400 * z"] by simp_all
  have "400 * year_start (1970 + ?q - 1) \<le> 400 * z"
    using year_start_bounds(2) [of "1970 + ?q - 1"] q(1) by simp
  moreover have "400 * z < 400 * year_start (1970 + ?q + 1 + 1)"
    using year_start_bounds(1) [of "1970 + ?q + 1 + 1"] q(2) by simp
  ultimately show "year_start (year_of_day z) \<le> z" "z < year_start (year_of_day z + 1)"
    by (auto simp: year_of_day_def Let_def)
qed

lemma year_of_day_unique: "year_start y \<le> z \<Longrightarrow> z < year_start (y + 1) \<Longrightarrow> year_of_day z = y"
proof (rule ccontr)
  assume a: "year_start y \<le> z" "z < year_start (y + 1)" and "year_of_day z \<noteq> y"
  then consider "year_of_day z + 1 \<le> y" | "y + 1 \<le> year_of_day z" by linarith
  then show False using year_of_day_bounds [of z] year_start_mono a by cases fastforce+
qed

lemma split_month_sum:
  assumes "m < length ls" and "0 \<le> d" and "d < ls ! m" and "\<And>l. l \<in> set ls \<Longrightarrow> 0 < l"
  shows "split_month ls (sum_list (take m ls) + d) = (int m, d)"
  using assms
proof (induction ls arbitrary: m)
  case (Cons l ls)
  show ?case
  proof (cases m)
    case 0
    then show ?thesis using Cons.prems by simp
  next
    case (Suc k)
    have "0 \<le> sum_list (take k ls)"
      using Cons.prems(4) by (intro sum_list_nonneg) (meson in_set_takeD less_imp_le list.set_intros(2))
    then show ?thesis using Suc Cons by simp
  qed
qed simp

lemma split_month_bounds:
  assumes "0 \<le> d" and "d < sum_list ls" and "split_month ls d = (m, r)"
  shows "0 \<le> m \<and> nat m < length ls \<and> 0 \<le> r \<and> r < ls ! nat m \<and> sum_list (take (nat m) ls) + r = d"
  using assms
proof (induction ls arbitrary: d m r)
  case (Cons l ls)
  show ?case
  proof (cases "d < l")
    case True
    then show ?thesis using Cons.prems by simp
  next
    case False
    obtain k s where k: "split_month ls (d - l) = (k, s)" by fastforce
    have "0 \<le> k \<and> nat k < length ls \<and> 0 \<le> s \<and> s < ls ! nat k \<and> sum_list (take (nat k) ls) + s = d - l"
      using Cons.IH [OF _ _ k] Cons.prems(1,2) False by simp
    moreover have "m = k + 1" "r = s" using Cons.prems(3) False k by simp_all
    ultimately show ?thesis by (simp add: nat_add_distrib)
  qed
qed simp

lemma length_month_lengths [simp]: "length (month_lengths y) = 12"
  by (simp add: month_lengths_def)

lemma month_lengths_pos: "l \<in> set (month_lengths y) \<Longrightarrow> 28 \<le> l \<and> l \<le> 31"
  by (auto simp: month_lengths_def split: if_splits)

lemma month_sums_nonneg:
  "0 \<le> sum_list (take n (month_lengths y))" "0 \<le> sum_list (drop n (month_lengths y))"
  by (auto intro!: sum_list_nonneg dest!: in_set_takeD in_set_dropD month_lengths_pos)

lemma civil_day_number:
  assumes "valid_date y m d"
  shows "civil_of_day (day_number y m d) = (y, m, d)"
proof -
  let ?ls = "month_lengths y"
  let ?r = "sum_list (take (nat (m - 1)) ?ls) + (d - 1)"
  have v: "1 \<le> m" "m \<le> 12" "1 \<le> d" "d \<le> ?ls ! nat (m - 1)"
    using assms by (simp_all add: valid_date_def)
  then have mm: "(m - 1) div 12 = 0" "(m - 1) mod 12 = m - 1"
    by (simp_all add: div_pos_pos_trivial mod_pos_pos_trivial)
  then have n: "day_number y m d = year_start y + ?r" by (simp add: day_number_def Let_def)
  have split: "split_month ?ls ?r = (m - 1, d - 1)"
  proof -
    have "split_month ?ls ?r = (int (nat (m - 1)), d - 1)"
    proof (rule split_month_sum)
      show "nat (m - 1) < length ?ls" "0 \<le> d - 1" using v by simp_all
      show "d - 1 < ?ls ! nat (m - 1)" using v(4) by linarith
      show "0 < l" if "l \<in> set ?ls" for l using month_lengths_pos [OF that] by simp
    qed
    then show ?thesis using v by simp
  qed
  have "?ls = take (nat (m - 1)) ?ls @ ?ls ! nat (m - 1) # drop (Suc (nat (m - 1))) ?ls"
    using v by (simp add: id_take_nth_drop)
  then have "sum_list ?ls = sum_list (take (nat (m - 1)) ?ls @ ?ls ! nat (m - 1) # drop (Suc (nat (m - 1))) ?ls)"
    by (rule arg_cong)
  then have "sum_list ?ls = sum_list (take (nat (m - 1)) ?ls) + ?ls ! nat (m - 1)
      + sum_list (drop (Suc (nat (m - 1))) ?ls)" by simp
  then have "0 \<le> ?r" "?r < sum_list ?ls"
    using v(3,4) month_sums_nonneg(1) [of "nat (m - 1)" y]
      month_sums_nonneg(2) [of "Suc (nat (m - 1))" y] by linarith+
  then have "year_of_day (day_number y m d) = y"
    using n year_start_Suc [of y] sum_month_lengths [of y] by (intro year_of_day_unique) simp_all
  then show ?thesis using n split by (simp add: civil_of_day_def Let_def)
qed

lemma day_number_civil:
  assumes "civil_of_day z = (y, m, d)"
  shows "valid_date y m d" and "day_number y m d = z" and "y = year_of_day z"
proof -
  let ?y = "year_of_day z"
  obtain k r where k: "split_month (month_lengths ?y) (z - year_start ?y) = (k, r)" by fastforce
  have e: "y = ?y" "m = k + 1" "d = r + 1"
    using assms k by (simp_all add: civil_of_day_def Let_def)
  have "0 \<le> z - year_start ?y" "z - year_start ?y < sum_list (month_lengths ?y)"
    using year_of_day_bounds [of z] year_start_Suc [of ?y] sum_month_lengths [of ?y] by simp_all
  from split_month_bounds [OF this k] e
  show "valid_date y m d" "day_number y m d = z" "y = year_of_day z"
    by (auto simp: valid_date_def day_number_def Let_def nat_less_iff div_pos_pos_trivial mod_pos_pos_trivial)
qed

section \<open>Time values and their fields\<close>

record calendar_parts =
  cp_year :: int
  cp_month :: int
  cp_day :: int
  cp_hour :: int
  cp_minute :: int
  cp_second :: int
  cp_millisecond :: int

definition day_ms :: int where
  "day_ms = 86400000"

text \<open>\<open>MakeTime\<close> and \<open>MakeDate\<close>.\<close>

definition make_time :: "int \<Rightarrow> int \<Rightarrow> int \<Rightarrow> int \<Rightarrow> int" where
  "make_time h mi s ms = h * 3600000 + mi * 60000 + s * 1000 + ms"

definition epoch_of_parts :: "calendar_parts \<Rightarrow> int" where
  "epoch_of_parts p =
     day_number (cp_year p) (cp_month p) (cp_day p) * day_ms
     + make_time (cp_hour p) (cp_minute p) (cp_second p) (cp_millisecond p)"

text \<open>The getters \<open>getUTCFullYear\<close> to \<open>getUTCMilliseconds\<close>.\<close>

definition parts_of_epoch :: "int \<Rightarrow> calendar_parts" where
  "parts_of_epoch t =
     (let (y, m, d) = civil_of_day (t div day_ms); r = t mod day_ms
      in \<lparr>cp_year = y, cp_month = m, cp_day = d, cp_hour = r div 3600000,
          cp_minute = r div 60000 mod 60, cp_second = r div 1000 mod 60,
          cp_millisecond = r mod 1000\<rparr>)"

definition valid_time :: "int \<Rightarrow> int \<Rightarrow> int \<Rightarrow> int \<Rightarrow> bool" where
  "valid_time h mi s ms \<longleftrightarrow>
     0 \<le> h \<and> h \<le> 23 \<and> 0 \<le> mi \<and> mi \<le> 59 \<and> 0 \<le> s \<and> s \<le> 59 \<and> 0 \<le> ms \<and> ms \<le> 999"

definition valid_parts :: "calendar_parts \<Rightarrow> bool" where
  "valid_parts p \<longleftrightarrow>
     valid_date (cp_year p) (cp_month p) (cp_day p) \<and>
     valid_time (cp_hour p) (cp_minute p) (cp_second p) (cp_millisecond p)"

lemma time_of_fields:
  assumes "valid_time h mi s ms" and "r = make_time h mi s ms"
  shows "0 \<le> r" "r < day_ms" "r div 3600000 = h" "r div 60000 mod 60 = mi" "r div 1000 mod 60 = s"
    "r mod 1000 = ms"
proof -
  have v: "0 \<le> h" "h \<le> 23" "0 \<le> mi" "mi \<le> 59" "0 \<le> s" "s \<le> 59" "0 \<le> ms" "ms \<le> 999"
    using assms(1) by (simp_all add: valid_time_def)
  have mod60: "(a + 60 * b) mod 60 = a" if "0 \<le> a" "a \<le> 59" for a b :: int
    using that by simp
  have r: "r = 1000 * (s + 60 * (mi + 60 * h)) + ms" using assms(2) by (simp add: make_time_def)
  have "r div 1000 = s + 60 * (mi + 60 * h)" by (rule int_div_pos_eq [OF r]) (use v in simp_all)
  then show "r div 1000 mod 60 = s" by (simp only: mod60 [OF v(5,6)])
  show "r mod 1000 = ms" by (rule int_mod_pos_eq [OF r]) (use v in simp_all)
  have r2: "r = 60000 * (mi + 60 * h) + (1000 * s + ms)" using r by simp
  have "r div 60000 = mi + 60 * h" by (rule int_div_pos_eq [OF r2]) (use v in simp_all)
  then show "r div 60000 mod 60 = mi" by (simp only: mod60 [OF v(3,4)])
  have r3: "r = 3600000 * h + (60000 * mi + 1000 * s + ms)" using r by simp
  show "r div 3600000 = h" by (rule int_div_pos_eq [OF r3]) (use v in simp_all)
  show "0 \<le> r" "r < day_ms" using v r by (simp_all add: day_ms_def)
qed

lemma fields_of_time:
  assumes "0 \<le> r" and "r < day_ms"
  shows "valid_time (r div 3600000) (r div 60000 mod 60) (r div 1000 mod 60) (r mod 1000)"
    and "make_time (r div 3600000) (r div 60000 mod 60) (r div 1000 mod 60) (r mod 1000) = r"
proof -
  let ?s = "r div 1000"
  have q: "r div 60000 = ?s div 60" "r div 3600000 = ?s div 60 div 60"
    using zdiv_zmult2_eq [of 60 r 1000] zdiv_zmult2_eq [of 60 ?s 60] zdiv_zmult2_eq [of 3600 r 1000] by simp_all
  have "r = 1000 * ?s + r mod 1000" "?s = 60 * (?s div 60) + ?s mod 60"
    "?s div 60 = 60 * (?s div 60 div 60) + ?s div 60 mod 60" by simp_all
  then show "make_time (r div 3600000) (r div 60000 mod 60) (r div 1000 mod 60) (r mod 1000) = r"
    unfolding q make_time_def by linarith
  have "r div 3600000 < 24" using assms(2) div_bounds [of 3600000 r] by (simp add: day_ms_def)
  then show "valid_time (r div 3600000) (r div 60000 mod 60) (r div 1000 mod 60) (r mod 1000)"
    using assms(1) pos_mod_bound [of 60 "r div 60000"] pos_mod_bound [of 60 ?s] pos_mod_bound [of 1000 r]
    unfolding valid_time_def by (simp add: pos_imp_zdiv_nonneg_iff) linarith
qed

lemma parts_of_epoch_of_parts: "valid_parts p \<Longrightarrow> parts_of_epoch (epoch_of_parts p) = p"
proof -
  assume "valid_parts p"
  then have v: "valid_date (cp_year p) (cp_month p) (cp_day p)"
    "valid_time (cp_hour p) (cp_minute p) (cp_second p) (cp_millisecond p)"
    by (simp_all add: valid_parts_def)
  let ?z = "day_number (cp_year p) (cp_month p) (cp_day p)"
  let ?r = "make_time (cp_hour p) (cp_minute p) (cp_second p) (cp_millisecond p)"
  note r = time_of_fields [OF v(2) refl]
  have e: "epoch_of_parts p = day_ms * ?z + ?r" by (simp add: epoch_of_parts_def)
  have d: "epoch_of_parts p div day_ms = ?z" "epoch_of_parts p mod day_ms = ?r"
    using int_div_pos_eq [OF e r(1,2)] int_mod_pos_eq [OF e r(1,2)] by simp_all
  show ?thesis by (simp add: parts_of_epoch_def d r civil_day_number [OF v(1)])
qed

lemma epoch_of_parts_of_epoch: "epoch_of_parts (parts_of_epoch t) = t"
  and valid_parts_of_epoch: "valid_parts (parts_of_epoch t)"
proof -
  obtain y m d where c: "civil_of_day (t div day_ms) = (y, m, d)" by (metis prod_cases3)
  have r: "0 \<le> t mod day_ms" "t mod day_ms < day_ms" by (simp_all add: day_ms_def)
  note dn = day_number_civil [OF c] and ft = fields_of_time [OF r]
  have "epoch_of_parts (parts_of_epoch t) = (t div day_ms) * day_ms + t mod day_ms"
    by (simp only: epoch_of_parts_def parts_of_epoch_def c Let_def prod.case calendar_parts.simps dn(2) ft(2))
  then show "epoch_of_parts (parts_of_epoch t) = t" by simp
  show "valid_parts (parts_of_epoch t)"
    by (simp only: valid_parts_def parts_of_epoch_def c Let_def prod.case calendar_parts.simps dn(1) ft(1) simp_thms)
qed

lemma parts_of_epoch_iff: "parts_of_epoch t = p \<longleftrightarrow> valid_parts p \<and> epoch_of_parts p = t"
  using parts_of_epoch_of_parts epoch_of_parts_of_epoch valid_parts_of_epoch by blast

lemma parts_of_epoch_inj: "parts_of_epoch t = parts_of_epoch u \<Longrightarrow> t = u"
  by (metis epoch_of_parts_of_epoch)

section \<open>Text of a time value\<close>

text \<open>Fixed-width patterns: \<open>\d\<close> and literal characters.\<close>

datatype shape = Digit | Lit char

fun fits :: "shape \<Rightarrow> char \<Rightarrow> bool" where
  "fits Digit c = is_digit c"
| "fits (Lit l) c = (c = l)"

definition matches :: "shape list \<Rightarrow> string \<Rightarrow> bool" where
  "matches sh s = list_all2 fits sh s"

definition date_shape :: "shape list" where
  "date_shape = replicate 4 Digit @ [Lit CHR ''-''] @ replicate 2 Digit @ [Lit CHR ''-''] @ replicate 2 Digit"

definition time_shape :: "shape list" where
  "time_shape = replicate 2 Digit @ [Lit CHR '':''] @ replicate 2 Digit @ [Lit CHR '':''] @ replicate 2 Digit"

definition iso_shape :: "shape list" where
  "iso_shape = date_shape @ [Lit CHR ''T''] @ time_shape @ [Lit CHR ''.''] @ replicate 3 Digit @ [Lit CHR ''Z'']"

text \<open>The \<open>n\<close> digits from position \<open>i\<close> as a number.\<close>

definition field :: "nat \<Rightarrow> nat \<Rightarrow> string \<Rightarrow> int" where
  "field i n s = int (decimal (take n (drop i s)))"

definition date_text :: "int \<Rightarrow> int \<Rightarrow> int \<Rightarrow> string" where
  "date_text y m d = digits 4 (nat y) @ ''-'' @ digits 2 (nat m) @ ''-'' @ digits 2 (nat d)"

definition time_text :: "int \<Rightarrow> int \<Rightarrow> int \<Rightarrow> string" where
  "time_text h mi s = digits 2 (nat h) @ '':'' @ digits 2 (nat mi) @ '':'' @ digits 2 (nat s)"

text \<open>\<open>toISOString\<close>: years outside four digits print with a sign and six digits.\<close>

definition to_iso_string :: "int \<Rightarrow> string" where
  "to_iso_string t =
     (let p = parts_of_epoch t; y = cp_year p
      in (if 0 \<le> y \<and> y \<le> 9999 then date_text y (cp_month p) (cp_day p)
          else (if y < 0 then ''-'' else ''+'') @ digits 6 (nat \<bar>y\<bar>) @ ''-''
            @ digits 2 (nat (cp_month p)) @ ''-'' @ digits 2 (nat (cp_day p)))
         @ ''T'' @ time_text (cp_hour p) (cp_minute p) (cp_second p)
         @ ''.'' @ digits 3 (nat (cp_millisecond p)) @ ''Z'')"

definition iso_fields :: "string \<Rightarrow> calendar_parts" where
  "iso_fields s =
     \<lparr>cp_year = field 0 4 s, cp_month = field 5 2 s, cp_day = field 8 2 s, cp_hour = field 11 2 s,
      cp_minute = field 14 2 s, cp_second = field 17 2 s, cp_millisecond = field 20 3 s\<rparr>"

text \<open>
  \<open>Date.parse\<close> on the four-digit format. \<open>None\<close> is NaN: every caller has matched the
  text against this format first, so no other format reaches it.
\<close>

definition date_parse :: "string \<Rightarrow> int option" where
  "date_parse s =
     (if matches iso_shape s \<and> valid_parts (iso_fields s)
      then Some (epoch_of_parts (iso_fields s)) else None)"

lemma matches_digits [simp]: "list_all2 fits (replicate k Digit) s \<longleftrightarrow> length s = k \<and> list_all is_digit s"
proof (induction k arbitrary: s)
  case (Suc k)
  then show ?case by (cases s) auto
qed auto

lemma matches_date_text [simp]: "list_all2 fits date_shape (date_text y m d)"
  unfolding date_shape_def date_text_def
  by (simp add: list_all2_append)

lemma matches_time_text [simp]: "list_all2 fits time_shape (time_text h mi s)"
  unfolding time_shape_def time_text_def
  by (simp add: list_all2_append)

lemma length_texts [simp]:
  "length (date_text y m d) = 10" "length (time_text h mi s) = 8"
  "length date_shape = 10" "length time_shape = 8"
  by (simp_all add: date_text_def time_text_def date_shape_def time_shape_def)

lemma int_decimal_digits: "0 \<le> x \<Longrightarrow> x < 10 ^ k \<Longrightarrow> int (decimal (digits k (nat x))) = x"
  by (simp add: decimal_digits nat_less_iff)

lemma valid_date_bounds: "valid_date y m d \<Longrightarrow> 1 \<le> m \<and> m \<le> 12 \<and> 1 \<le> d \<and> d \<le> 31"
proof -
  assume v: "valid_date y m d"
  then have "month_lengths y ! nat (m - 1) \<in> set (month_lengths y)"
    by (intro nth_mem) (auto simp: valid_date_def)
  then show ?thesis using v month_lengths_pos by (fastforce simp: valid_date_def)
qed

definition four_digit_year :: "int \<Rightarrow> bool" where
  "four_digit_year t \<longleftrightarrow> 0 \<le> cp_year (parts_of_epoch t) \<and> cp_year (parts_of_epoch t) \<le> 9999"

lemma date_fields:
  assumes "valid_date y m d" and "0 \<le> y" and "y \<le> 9999"
  shows "field 0 4 (date_text y m d @ r) = y" "field 5 2 (date_text y m d @ r) = m"
    "field 8 2 (date_text y m d @ r) = d"
  using assms valid_date_bounds [OF assms(1)]
  by (simp_all add: field_def date_text_def int_decimal_digits)

lemma time_fields:
  assumes "valid_time h mi s ms"
  shows "field 0 2 (time_text h mi s @ r) = h" "field 3 2 (time_text h mi s @ r) = mi"
    "field 6 2 (time_text h mi s @ r) = s"
  using assms
  by (simp_all add: field_def time_text_def int_decimal_digits valid_time_def)

lemma field_append: "length a \<le> i \<Longrightarrow> field i n (a @ b) = field (i - length a) n b"
  by (simp add: field_def)

text \<open>The date and time of a text are its fields.\<close>

lemma text_of_date: "matches date_shape s \<Longrightarrow> date_text (field 0 4 s) (field 5 2 s) (field 8 2 s) = s"
  unfolding matches_def date_shape_def
  by (auto simp: list_all2_append1 list_all2_Cons1 field_def date_text_def digits_decimal)

lemma text_of_time: "matches time_shape s \<Longrightarrow> time_text (field 0 2 s) (field 3 2 s) (field 6 2 s) = s"
  unfolding matches_def time_shape_def
  by (auto simp: list_all2_append1 list_all2_Cons1 field_def time_text_def digits_decimal)

lemma to_iso_string_four_digit:
  assumes "four_digit_year t"
  shows "to_iso_string t =
    date_text (cp_year (parts_of_epoch t)) (cp_month (parts_of_epoch t)) (cp_day (parts_of_epoch t))
    @ ''T'' @ time_text (cp_hour (parts_of_epoch t)) (cp_minute (parts_of_epoch t)) (cp_second (parts_of_epoch t))
    @ ''.'' @ digits 3 (nat (cp_millisecond (parts_of_epoch t))) @ ''Z''"
  using assms by (simp add: to_iso_string_def four_digit_year_def Let_def)

lemma date_parse_to_iso:
  assumes "four_digit_year t"
  shows "date_parse (to_iso_string t) = Some t"
proof -
  let ?p = "parts_of_epoch t"
  let ?s = "to_iso_string t"
  have v: "valid_date (cp_year ?p) (cp_month ?p) (cp_day ?p)"
    "valid_time (cp_hour ?p) (cp_minute ?p) (cp_second ?p) (cp_millisecond ?p)"
    using valid_parts_of_epoch [of t] by (simp_all add: valid_parts_def)
  have y: "0 \<le> cp_year ?p" "cp_year ?p \<le> 9999" using assms by (simp_all add: four_digit_year_def)
  note df = date_fields [OF v(1) y] and tf = time_fields [OF v(2)]
  have ms: "int (decimal (digits 3 (nat (cp_millisecond ?p)))) = cp_millisecond ?p"
    using v(2) by (intro int_decimal_digits) (simp_all add: valid_time_def)
  have "iso_fields ?s = ?p"
    by (rule calendar_parts.equality)
      (simp_all add: iso_fields_def to_iso_string_four_digit [OF assms] df field_append tf
        field_append [of "CHR ''T'' # _", simplified] flip: append.simps,
       simp_all add: field_append tf field_def ms)
  moreover have "matches iso_shape ?s"
    by (simp add: matches_def iso_shape_def to_iso_string_four_digit [OF assms] list_all2_append)
  ultimately show ?thesis
    by (simp add: date_parse_def valid_parts_of_epoch epoch_of_parts_of_epoch)
qed

lemma iso_shape_parts:
  assumes "matches iso_shape s"
  obtains a b f where "s = a @ ''T'' @ b @ ''.'' @ f @ ''Z''" "matches date_shape a" "matches time_shape b"
    "length f = 3" "list_all is_digit f"
  using assms unfolding matches_def iso_shape_def
  by (auto simp: list_all2_append1 list_all2_Cons1)

lemma to_iso_date_parse:
  assumes "date_parse s = Some t"
  shows "four_digit_year t" and "to_iso_string t = s"
proof -
  have m: "matches iso_shape s" and v: "valid_parts (iso_fields s)" and t: "epoch_of_parts (iso_fields s) = t"
    using assms by (auto simp: date_parse_def split: if_splits)
  have p: "parts_of_epoch t = iso_fields s" using v t by (simp add: parts_of_epoch_iff)
  obtain a b f where s: "s = a @ ''T'' @ b @ ''.'' @ f @ ''Z''" and a: "matches date_shape a"
    and b: "matches time_shape b" and f: "length f = 3" "list_all is_digit f"
    by (rule iso_shape_parts [OF m])
  have l: "length a = 10" "length b = 8"
    using a b by (auto simp: matches_def dest: list_all2_lengthD)
  have "decimal (take 4 s) < 10 ^ length (take 4 s)"
    using a s by (intro decimal_less) (auto simp: matches_def date_shape_def list_all2_append1 list_all2_Cons1)
  then show y: "four_digit_year t"
    using s l by (simp add: four_digit_year_def p iso_fields_def field_def)
  show "to_iso_string t = s"
    using text_of_date [OF a] text_of_time [OF b] digits_decimal [OF f(2,1)] s l f(1)
    by (simp add: to_iso_string_four_digit [OF y] p iso_fields_def field_def)
qed

interpretation iso: codec to_iso_string date_parse four_digit_year
  by unfold_locales (simp_all add: date_parse_to_iso to_iso_date_parse)

section \<open>The four-digit years\<close>

definition MIN_FOUR_DIGIT_YEAR_MS :: int where
  "MIN_FOUR_DIGIT_YEAR_MS =
     (case date_parse ''0001-01-01T00:00:00.000Z'' of Some t \<Rightarrow> t | None \<Rightarrow> 0)"

definition MAX_FOUR_DIGIT_YEAR_MS :: int where
  "MAX_FOUR_DIGIT_YEAR_MS =
     (case date_parse ''9999-12-31T23:59:59.999Z'' of Some t \<Rightarrow> t | None \<Rightarrow> 0)"

lemma year_limits: "MIN_FOUR_DIGIT_YEAR_MS = -62135596800000" "MAX_FOUR_DIGIT_YEAR_MS = 253402300799999"
  by code_simp+

declare year_limits [code]

definition representable :: "int \<Rightarrow> bool" where
  "representable t \<longleftrightarrow> MIN_FOUR_DIGIT_YEAR_MS \<le> t \<and> t \<le> MAX_FOUR_DIGIT_YEAR_MS"

lemma year_of_parts: "cp_year (parts_of_epoch t) = year_of_day (t div day_ms)"
  by (simp add: parts_of_epoch_def civil_of_day_def Let_def split: prod.split)

lemma year_of_day_ge: "y \<le> year_of_day z \<longleftrightarrow> year_start y \<le> z"
proof
  show "y \<le> year_of_day z \<Longrightarrow> year_start y \<le> z"
    using year_of_day_bounds(1) [of z] year_start_mono [of y "year_of_day z"] by linarith
  show "year_start y \<le> z \<Longrightarrow> y \<le> year_of_day z"
  proof (rule ccontr)
    assume "year_start y \<le> z" "\<not> y \<le> year_of_day z"
    then have "year_start (year_of_day z + 1) \<le> z"
      using year_start_mono [of "year_of_day z + 1" y] by linarith
    then show False using year_of_day_bounds(2) [of z] by simp
  qed
qed

lemma representable_iff:
  "representable t \<longleftrightarrow> 1 \<le> cp_year (parts_of_epoch t) \<and> cp_year (parts_of_epoch t) \<le> 9999"
proof -
  have s: "year_start 1 = -719162" "year_start 10000 = 2932897" by code_simp+
  have d: "a \<le> t div day_ms \<longleftrightarrow> a * day_ms \<le> t" for a
    using div_bounds [of day_ms t] unfolding day_ms_def by linarith
  have "1 \<le> cp_year (parts_of_epoch t) \<longleftrightarrow> MIN_FOUR_DIGIT_YEAR_MS \<le> t"
    unfolding year_of_parts year_of_day_ge s d year_limits by (simp add: day_ms_def)
  moreover have "10000 \<le> cp_year (parts_of_epoch t) \<longleftrightarrow> MAX_FOUR_DIGIT_YEAR_MS < t"
    unfolding year_of_parts year_of_day_ge s d year_limits by (auto simp: day_ms_def)
  ultimately show ?thesis unfolding representable_def by linarith
qed

lemma representable_four_digit: "representable t \<Longrightarrow> four_digit_year t"
  by (simp add: representable_iff four_digit_year_def)

lemma representable_safe: "representable t \<Longrightarrow> safe_int t"
  by (simp add: representable_def year_limits safe_int_def max_safe_def)

end
