(* ===== verification/Schedule_Domain.thy ===== *)
theory Schedule_Domain
  imports Calendar Session_Log
begin

text \<open>
  The durable reminder stream, \<^verbatim>\<open>packages/schedule/schedule/src/domain.ts\<close> with the
  types of \<^verbatim>\<open>types.ts\<close>: the strict decoder of schedule changes, the validation of
  absolute, local, delayed and fixed-rate times, the fixed-rate arithmetic, the replay fold,
  and identity allocation. The lemmas show which instants and calendar fields are accepted,
  that a decision selects the latest due occurrence, the invariant of the fold, and that a
  created record is accepted by the decoder.

  Time values and decoded counters are integers, because the code checks them with
  \<open>Number.isSafeInteger\<close> before it uses them; results that may leave that range are rounded
  as doubles are. \<open>Intl\<close> is a parameter (\<open>intl\<close>): which zone names it knows and how it
  formats an instant.
\<close>

section \<open>Types\<close>

datatype schedule_rule = AfterRule int | AtRule | EveryRule int

record schedule_record =
  sr_id :: string
  sr_rule :: schedule_rule
  sr_prompt :: string
  sr_at :: string

datatype schedule_change =
    CreateChange schedule_record
  | DeleteChange string
  | DispatchChange string "string option"

datatype schedule_state = Scheduled | Overdue

record schedule_view =
  sv_record :: schedule_record
  sv_state :: schedule_state
  sv_delivery :: string

datatype schedule_input_error =
    InvalidPrompt
  | InvalidRule
  | InvalidTimeZone
  | NotFuture
  | TimeOutOfRange
  | FrequencyTooHigh

text \<open>The messages of \<open>ScheduleLogError\<close>.\<close>

datatype schedule_log_error =
    BadId
  | BadInstantShape
  | UnrealInstant
  | BadAfterKeys
  | BadAfterPrompt
  | BadAfterSeconds
  | BadAtKeys
  | BadAtPrompt
  | BadEveryKeys
  | BadEveryPrompt
  | BadEverySeconds
  | RecordNotObject
  | BadRecordKind
  | PayloadNotObject
  | BadVersion
  | BadCreateKeys
  | BadDeleteKeys
  | BadDispatchKeys
  | BadOperation
  | AcceptedAtRange
  | IntervalUnsafe
  | DispatchTooEarly
  | OccurrenceUnsafe
  | OneShotAcceptedAt
  | EveryNeedsAcceptedAt
  | BadSeedLength
  | IdReused string
  | DeleteInactive string
  | DispatchInactive string

record folded_schedules =
  fs_active :: "schedule_record list"
  fs_seen :: "string list"

record every_occurrence =
  eo_occurrence :: string
  eo_next :: "string option"

definition SCHEDULE_CHANGE_VERSION :: jnum where
  "SCHEDULE_CHANGE_VERSION = NInt 1"

definition MIN_EVERY_INTERVAL_SECONDS :: int where
  "MIN_EVERY_INTERVAL_SECONDS = 300"

section \<open>Strict decoding\<close>

text \<open>Both key lists are sorted and compared element by element.\<close>

definition exact_keys :: "jv \<Rightarrow> string list \<Rightarrow> bool" where
  "exact_keys v expected \<longleftrightarrow> sort (jkeys v) = sort expected"

definition decode_id :: "jv \<Rightarrow> string \<Rightarrow> schedule_log_error + string" where
  "decode_id v k =
     (case prop_str v k of
        None \<Rightarrow> Inl BadId
      | Some s \<Rightarrow> if s = [] \<or> trim s \<noteq> s then Inl BadId else Inr s)"

text \<open>The regular expression \<open>UTC_INSTANT\<close>.\<close>

definition utc_instant :: "string \<Rightarrow> bool" where
  "utc_instant s \<longleftrightarrow>
     matches iso_shape s \<and>
     (let p = iso_fields s
      in cp_year p \<noteq> 0 \<and> 1 \<le> cp_month p \<and> cp_month p \<le> 12 \<and> 1 \<le> cp_day p \<and> cp_day p \<le> 31 \<and>
         cp_hour p \<le> 23 \<and> cp_minute p \<le> 59 \<and> cp_second p \<le> 59)"

definition decode_instant_text :: "string \<Rightarrow> schedule_log_error + string" where
  "decode_instant_text s =
     (if \<not> utc_instant s then Inl BadInstantShape
      else case date_parse s of
        None \<Rightarrow> Inl UnrealInstant
      | Some epoch \<Rightarrow> if to_iso_string epoch \<noteq> s then Inl UnrealInstant else Inr s)"

definition decode_instant :: "jv \<Rightarrow> string \<Rightarrow> schedule_log_error + string" where
  "decode_instant v k =
     (case prop_str v k of None \<Rightarrow> Inl BadInstantShape | Some s \<Rightarrow> decode_instant_text s)"

text \<open>A prompt that is already trimmed and not empty.\<close>

definition decode_prompt :: "jv \<Rightarrow> schedule_log_error \<Rightarrow> schedule_log_error + string" where
  "decode_prompt v err =
     (case prop_str v ''prompt'' of
        None \<Rightarrow> Inl err
      | Some s \<Rightarrow> if s = [] \<or> trim s \<noteq> s then Inl err else Inr s)"

definition decode_tail :: "jv \<Rightarrow> schedule_rule \<Rightarrow> string \<Rightarrow> schedule_log_error + schedule_record" where
  "decode_tail v rule prompt =
     and_then (decode_id v ''id'') (\<lambda>sid.
     and_then (decode_instant v ''scheduledAt'') (\<lambda>instant.
       Inr \<lparr>sr_id = sid, sr_rule = rule, sr_prompt = prompt, sr_at = instant\<rparr>))"

definition decode_after_record :: "jv \<Rightarrow> schedule_log_error + schedule_record" where
  "decode_after_record v =
     (if \<not> is_record v
         \<or> \<not> exact_keys v [''id'', ''kind'', ''prompt'', ''afterSeconds'', ''scheduledAt'']
      then Inl BadAfterKeys
      else and_then (decode_prompt v BadAfterPrompt) (\<lambda>prompt.
        case prop_safe_int v ''afterSeconds'' of
          None \<Rightarrow> Inl BadAfterSeconds
        | Some n \<Rightarrow>
            if num_int n \<le> 0 then Inl BadAfterSeconds
            else decode_tail v (AfterRule (num_int n)) prompt))"

definition decode_at_record :: "jv \<Rightarrow> schedule_log_error + schedule_record" where
  "decode_at_record v =
     (if \<not> is_record v \<or> \<not> exact_keys v [''id'', ''kind'', ''prompt'', ''scheduledAt'']
      then Inl BadAtKeys
      else and_then (decode_prompt v BadAtPrompt) (decode_tail v AtRule))"

definition decode_every_record :: "jv \<Rightarrow> schedule_log_error + schedule_record" where
  "decode_every_record v =
     (if \<not> is_record v
         \<or> \<not> exact_keys v [''id'', ''kind'', ''prompt'', ''everySeconds'', ''scheduledAt'']
      then Inl BadEveryKeys
      else and_then (decode_prompt v BadEveryPrompt) (\<lambda>prompt.
        case prop_safe_int v ''everySeconds'' of
          None \<Rightarrow> Inl BadEverySeconds
        | Some n \<Rightarrow>
            if num_int n < MIN_EVERY_INTERVAL_SECONDS \<or> \<not> safe_int (round_double (num_int n * 1000))
            then Inl BadEverySeconds
            else decode_tail v (EveryRule (num_int n)) prompt))"

definition decode_schedule_record :: "jv \<Rightarrow> schedule_log_error + schedule_record" where
  "decode_schedule_record v =
     (if \<not> is_record v then Inl RecordNotObject
      else if jprop v ''kind'' = Some (JStr ''after'') then decode_after_record v
      else if jprop v ''kind'' = Some (JStr ''at'') then decode_at_record v
      else if jprop v ''kind'' = Some (JStr ''every'') then decode_every_record v
      else Inl BadRecordKind)"

definition decode_dispatch :: "jv \<Rightarrow> schedule_log_error + schedule_change" where
  "decode_dispatch v =
     (if exact_keys v [''version'', ''operation'', ''id'']
      then and_then (decode_id v ''id'') (\<lambda>sid. Inr (DispatchChange sid None))
      else if exact_keys v [''version'', ''operation'', ''id'', ''acceptedAt'']
      then and_then (decode_id v ''id'') (\<lambda>sid.
           and_then (decode_instant v ''acceptedAt'') (\<lambda>instant. Inr (DispatchChange sid (Some instant))))
      else Inl BadDispatchKeys)"

definition decode_schedule_change :: "jv \<Rightarrow> schedule_log_error + schedule_change" where
  "decode_schedule_change v =
     (if \<not> is_record v then Inl PayloadNotObject
      else if \<not> (case jprop v ''version'' of
                   Some (JNum n) \<Rightarrow> num_eq n SCHEDULE_CHANGE_VERSION | _ \<Rightarrow> False)
      then Inl BadVersion
      else if jprop v ''operation'' = Some (JStr ''create'') then
        (if \<not> exact_keys v [''version'', ''operation'', ''schedule''] then Inl BadCreateKeys
         else and_then (case jprop v ''schedule'' of
                          None \<Rightarrow> Inl RecordNotObject | Some r \<Rightarrow> decode_schedule_record r)
                (\<lambda>r. Inr (CreateChange r)))
      else if jprop v ''operation'' = Some (JStr ''delete'') then
        (if \<not> exact_keys v [''version'', ''operation'', ''id''] then Inl BadDeleteKeys
         else and_then (decode_id v ''id'') (\<lambda>sid. Inr (DeleteChange sid)))
      else if jprop v ''operation'' = Some (JStr ''dispatch'') then decode_dispatch v
      else Inl BadOperation)"

section \<open>The objects the package writes\<close>

definition schedule_record_object :: "schedule_record \<Rightarrow> jv" where
  "schedule_record_object r =
     (case sr_rule r of
        AfterRule n \<Rightarrow> JObj [(''id'', JStr (sr_id r)), (''kind'', JStr ''after''),
          (''prompt'', JStr (sr_prompt r)), (''afterSeconds'', jint n), (''scheduledAt'', JStr (sr_at r))]
      | AtRule \<Rightarrow> JObj [(''id'', JStr (sr_id r)), (''kind'', JStr ''at''),
          (''prompt'', JStr (sr_prompt r)), (''scheduledAt'', JStr (sr_at r))]
      | EveryRule n \<Rightarrow> JObj [(''id'', JStr (sr_id r)), (''kind'', JStr ''every''),
          (''prompt'', JStr (sr_prompt r)), (''everySeconds'', jint n), (''scheduledAt'', JStr (sr_at r))])"

fun schedule_change_object :: "schedule_change \<Rightarrow> jv" where
  "schedule_change_object (CreateChange r) = JObj [(''version'', JNum SCHEDULE_CHANGE_VERSION),
     (''operation'', JStr ''create''), (''schedule'', schedule_record_object r)]"
| "schedule_change_object (DeleteChange sid) = JObj [(''version'', JNum SCHEDULE_CHANGE_VERSION),
     (''operation'', JStr ''delete''), (''id'', JStr sid)]"
| "schedule_change_object (DispatchChange sid None) = JObj [(''version'', JNum SCHEDULE_CHANGE_VERSION),
     (''operation'', JStr ''dispatch''), (''id'', JStr sid)]"
| "schedule_change_object (DispatchChange sid (Some instant)) = JObj [(''version'', JNum SCHEDULE_CHANGE_VERSION),
     (''operation'', JStr ''dispatch''), (''id'', JStr sid), (''acceptedAt'', JStr instant)]"

section \<open>Fixed-rate decisions\<close>

text \<open>
  \<open>Math.floor(a / b)\<close> for non-negative doubles that hold the integers \<open>a\<close> and \<open>b\<close>.
  The quotient is rounded to the nearest double first. Below \<open>2 ^ 53\<close> that changes the floor
  only when the exact quotient lies within half a unit in the last place below the next
  integer; from there on the rounded quotient is itself an integer.
\<close>

definition floor_quotient :: "int \<Rightarrow> int \<Rightarrow> int" where
  "floor_quotient a b =
     (let q = a div b; gap = (b - a mod b) * 2 ^ 54; ulp = b * 2 ^ floorlog 2 (nat q)
      in if q < 2 ^ 53
         then (if gap < ulp \<or> (gap = ulp \<and> (q < 2 ^ 52 \<or> odd q)) then q + 1 else q)
         else round_double (2 * q + (if a mod b = 0 then 0 else 1)) div 2)"

definition resolve_every_occurrence ::
  "string \<Rightarrow> int \<Rightarrow> int \<Rightarrow> schedule_log_error + every_occurrence" where
  "resolve_every_occurrence scheduled_at every_seconds accepted_at =
     (let interval = round_double (every_seconds * 1000)
      in if \<not> safe_int accepted_at \<or> accepted_at < MIN_FOUR_DIGIT_YEAR_MS
            \<or> MAX_FOUR_DIGIT_YEAR_MS < accepted_at
         then Inl AcceptedAtRange
         else if \<not> safe_int interval \<or> interval \<le> 0 then Inl IntervalUnsafe
         else case date_parse scheduled_at of
           None \<Rightarrow> Inl OccurrenceUnsafe
         | Some target \<Rightarrow>
             if accepted_at < target then Inl DispatchTooEarly
             else
               let steps = floor_quotient (round_double (accepted_at - target)) interval;
                   occurrence = round_double (target + round_double (steps * interval))
               in if \<not> safe_int occurrence \<or> occurrence < target \<or> accepted_at < occurrence
                  then Inl OccurrenceUnsafe
                  else
                    let later = round_double (occurrence + interval)
                    in Inr \<lparr>eo_occurrence = to_iso_string occurrence,
                            eo_next = (if \<not> safe_int later \<or> MAX_FOUR_DIGIT_YEAR_MS < later then None
                                       else Some (to_iso_string later))\<rparr>)"

text \<open>What remains of a record after a dispatch; \<open>None\<close> removes it.\<close>

definition dispatched_record ::
  "schedule_record \<Rightarrow> string option \<Rightarrow> schedule_log_error + schedule_record option" where
  "dispatched_record r accepted =
     (case sr_rule r of
        EveryRule n \<Rightarrow>
          (case accepted of
             None \<Rightarrow> Inl EveryNeedsAcceptedAt
           | Some instant \<Rightarrow>
               and_then
                 (case date_parse instant of
                    None \<Rightarrow> Inl AcceptedAtRange | Some t \<Rightarrow> resolve_every_occurrence (sr_at r) n t)
                 (\<lambda>occurrence. Inr (map_option (\<lambda>instant. r\<lparr>sr_at := instant\<rparr>) (eo_next occurrence))))
      | _ \<Rightarrow> if accepted \<noteq> None then Inl OneShotAcceptedAt else Inr None)"

section \<open>Replay\<close>

text \<open>The \<open>Map\<close> and \<open>Set\<close> of the loop.\<close>

record schedule_fold =
  sf_active :: "(string \<times> schedule_record) list"
  sf_seen :: "string list"

fun apply_schedule_change ::
  "schedule_fold \<Rightarrow> schedule_change \<Rightarrow> schedule_log_error + schedule_fold" where
  "apply_schedule_change st (CreateChange r) =
     (if sr_id r \<in> set (sf_seen st) then Inl (IdReused (sr_id r))
      else Inr (st\<lparr>sf_seen := sf_seen st @ [sr_id r],
                   sf_active := AList.update (sr_id r) r (sf_active st)\<rparr>))"
| "apply_schedule_change st (DeleteChange sid) =
     (if map_of (sf_active st) sid = None then Inl (DeleteInactive sid)
      else Inr (st\<lparr>sf_active := AList.delete sid (sf_active st)\<rparr>))"
| "apply_schedule_change st (DispatchChange sid accepted) =
     (case map_of (sf_active st) sid of
        None \<Rightarrow> Inl (DispatchInactive sid)
      | Some r \<Rightarrow>
          and_then (dispatched_record r accepted) (\<lambda>rest.
            case rest of
              None \<Rightarrow> Inr (st\<lparr>sf_active := AList.delete sid (sf_active st)\<rparr>)
            | Some r' \<Rightarrow> Inr (st\<lparr>sf_active := AList.update sid r' (sf_active st)\<rparr>)))"

definition apply_schedule_event ::
  "schedule_fold \<Rightarrow> session_event \<Rightarrow> schedule_log_error + schedule_fold" where
  "apply_schedule_event st e =
     (if ev_type e \<noteq> ''schedule/change'' then Inr st
      else and_then (decode_schedule_change (data_json (ev_data e))) (apply_schedule_change st))"

definition empty_schedule_fold :: schedule_fold where
  "empty_schedule_fold = \<lparr>sf_active = [], sf_seen = []\<rparr>"

definition folded_of :: "schedule_fold \<Rightarrow> folded_schedules" where
  "folded_of st = \<lparr>fs_active = map snd (sf_active st), fs_seen = sf_seen st\<rparr>"

definition fold_schedule_events ::
  "session_event list \<Rightarrow> jnum \<Rightarrow> schedule_log_error + folded_schedules" where
  "fold_schedule_events events seed_length =
     (if \<not> is_safe_integer seed_length \<or> num_int seed_length < 0
         \<or> int (length events) < num_int seed_length
      then Inl BadSeedLength
      else and_then
        (fold_result apply_schedule_event empty_schedule_fold (drop (nat (num_int seed_length)) events))
        (\<lambda>st. Inr (folded_of st)))"

section \<open>Canonical instants\<close>

definition canonical_instant :: "string \<Rightarrow> bool" where
  "canonical_instant s \<longleftrightarrow> (case date_parse s of None \<Rightarrow> False | Some t \<Rightarrow> representable t)"

lemma canonical_instant_iff: "canonical_instant s \<longleftrightarrow> (\<exists>t. representable t \<and> s = to_iso_string t)"
proof (cases "date_parse s")
  case None
  then have "\<not> representable t" if "s = to_iso_string t" for t
    using iso.decode_iff [of s t] that representable_four_digit by auto
  then show ?thesis using None by (auto simp: canonical_instant_def)
next
  case (Some u)
  then have "s = to_iso_string u" by (simp add: to_iso_date_parse)
  moreover have "t = u" if "representable t" "s = to_iso_string t" for t
    using iso.decode_encode [OF representable_four_digit [OF that(1)]] that(2) Some by simp
  ultimately show ?thesis using Some by (auto simp: canonical_instant_def)
qed

lemma canonical_to_iso [simp]: "representable t \<Longrightarrow> canonical_instant (to_iso_string t)"
  using canonical_instant_iff by blast

lemma canonicalE:
  assumes "canonical_instant s"
  obtains t where "date_parse s = Some t" "representable t" "s = to_iso_string t"
proof -
  obtain t where t: "representable t" "s = to_iso_string t" using assms canonical_instant_iff by auto
  then show thesis using that iso.decode_encode [OF representable_four_digit [OF t(1)]] by simp
qed

lemma utc_instant_to_iso:
  assumes "representable t"
  shows "utc_instant (to_iso_string t)"
proof -
  have "date_parse (to_iso_string t) = Some t"
    by (rule date_parse_to_iso [OF representable_four_digit [OF assms]])
  then have m: "matches iso_shape (to_iso_string t)" and v: "valid_parts (iso_fields (to_iso_string t))"
    and t: "epoch_of_parts (iso_fields (to_iso_string t)) = t"
    by (auto simp: date_parse_def split: if_splits)
  have p: "iso_fields (to_iso_string t) = parts_of_epoch t" using v t parts_of_epoch_iff [of t "iso_fields (to_iso_string t)"] by simp
  have "valid_date (cp_year (parts_of_epoch t)) (cp_month (parts_of_epoch t)) (cp_day (parts_of_epoch t))"
    using valid_parts_of_epoch [of t] by (simp add: valid_parts_def)
  then show ?thesis
    using m valid_date_bounds valid_parts_of_epoch [of t] assms representable_iff [of t]
    by (auto simp: utc_instant_def p valid_parts_def valid_time_def Let_def)
qed

lemma decode_instant_text_iff [simp]:
  "decode_instant_text s = Inr r \<longleftrightarrow> r = s \<and> canonical_instant s"
proof
  assume "decode_instant_text s = Inr r"
  then obtain t where t: "utc_instant s" "date_parse s = Some t" "r = s"
    by (auto simp: decode_instant_text_def split: if_splits option.splits)
  have "parts_of_epoch t = iso_fields s"
    using t(2) by (auto simp: date_parse_def parts_of_epoch_iff split: if_splits)
  then have "cp_year (parts_of_epoch t) \<noteq> 0" using t(1) by (simp add: utc_instant_def Let_def)
  moreover have "four_digit_year t" by (rule to_iso_date_parse(1) [OF t(2)])
  ultimately have "representable t" by (simp add: representable_iff four_digit_year_def)
  then show "r = s \<and> canonical_instant s" using t by (simp add: canonical_instant_def)
next
  assume "r = s \<and> canonical_instant s"
  then obtain t where t: "date_parse s = Some t" "representable t" "s = to_iso_string t" and r: "r = s"
    by (auto elim: canonicalE)
  have "utc_instant s" unfolding t(3) by (rule utc_instant_to_iso [OF t(2)])
  then show "decode_instant_text s = Inr r" unfolding r decode_instant_text_def t(1)
    by (simp add: to_iso_date_parse(2) [OF t(1)])
qed

lemma decode_instant_text_canonical [simp]: "canonical_instant s \<Longrightarrow> decode_instant_text s = Inr s"
  by simp

section \<open>What the decoder accepts\<close>

definition trimmed :: "string \<Rightarrow> bool" where
  "trimmed s \<longleftrightarrow> s \<noteq> [] \<and> trim s = s"

fun rule_ok :: "schedule_rule \<Rightarrow> bool" where
  "rule_ok (AfterRule n) = (0 < n \<and> safe_int n)"
| "rule_ok AtRule = True"
| "rule_ok (EveryRule n) = (MIN_EVERY_INTERVAL_SECONDS \<le> n \<and> safe_int (n * 1000))"

definition record_ok :: "schedule_record \<Rightarrow> bool" where
  "record_ok r \<longleftrightarrow>
     trimmed (sr_id r) \<and> trimmed (sr_prompt r) \<and> rule_ok (sr_rule r) \<and> canonical_instant (sr_at r)"

fun schedule_change_ok :: "schedule_change \<Rightarrow> bool" where
  "schedule_change_ok (CreateChange r) = record_ok r"
| "schedule_change_ok (DeleteChange sid) = trimmed sid"
| "schedule_change_ok (DispatchChange sid accepted) =
     (trimmed sid \<and> (case accepted of None \<Rightarrow> True | Some t \<Rightarrow> canonical_instant t))"

lemma decode_id_Inr [simp]: "decode_id v k = Inr s \<longleftrightarrow> jprop v k = Some (JStr s) \<and> trimmed s"
  by (cases "prop_str v k") (auto simp: decode_id_def trimmed_def simp flip: prop_str_Some)

lemma decode_prompt_Inr [simp]:
  "decode_prompt v err = Inr s \<longleftrightarrow> jprop v ''prompt'' = Some (JStr s) \<and> trimmed s"
  by (cases "prop_str v ''prompt''") (auto simp: decode_prompt_def trimmed_def simp flip: prop_str_Some)

lemma decode_instant_Inr [simp]:
  "decode_instant v k = Inr s \<longleftrightarrow> jprop v k = Some (JStr s) \<and> canonical_instant s"
  by (cases "prop_str v k") (auto simp: decode_instant_def simp flip: prop_str_Some)

lemma decode_tail_Inr:
  "decode_tail v rule prompt = Inr r \<longleftrightarrow>
     jprop v ''id'' = Some (JStr (sr_id r)) \<and> jprop v ''scheduledAt'' = Some (JStr (sr_at r)) \<and>
     trimmed (sr_id r) \<and> canonical_instant (sr_at r) \<and> sr_rule r = rule \<and> sr_prompt r = prompt"
  by (cases r) (auto simp: decode_tail_def result_simps)

lemma every_safe: "MIN_EVERY_INTERVAL_SECONDS \<le> n \<Longrightarrow> safe_int (n * 1000) \<Longrightarrow> safe_int n"
  by (simp add: MIN_EVERY_INTERVAL_SECONDS_def safe_int_def)

lemma decode_schedule_record_ok: "decode_schedule_record v = Inr r \<Longrightarrow> record_ok r"
  by (auto simp: decode_schedule_record_def decode_after_record_def decode_at_record_def
      decode_every_record_def record_ok_def decode_tail_Inr result_simps
      split: if_splits option.splits elim!: is_safe_integer.elims)

lemma decode_schedule_change_ok: "decode_schedule_change v = Inr c \<Longrightarrow> schedule_change_ok c"
  by (auto simp: decode_schedule_change_def decode_dispatch_def result_simps
      dest: decode_schedule_record_ok split: if_splits option.splits)

lemma schedule_signatures:
  "sort [''id'', ''kind'', ''prompt'', ''afterSeconds'', ''scheduledAt''] =
     [''afterSeconds'', ''id'', ''kind'', ''prompt'', ''scheduledAt'']"
  "sort [''id'', ''kind'', ''prompt'', ''scheduledAt''] = [''id'', ''kind'', ''prompt'', ''scheduledAt'']"
  "sort [''id'', ''kind'', ''prompt'', ''everySeconds'', ''scheduledAt''] =
     [''everySeconds'', ''id'', ''kind'', ''prompt'', ''scheduledAt'']"
  "sort [''version'', ''operation'', ''schedule''] = [''operation'', ''schedule'', ''version'']"
  "sort [''version'', ''operation'', ''id''] = [''id'', ''operation'', ''version'']"
  "sort [''version'', ''operation'', ''id'', ''acceptedAt''] =
     [''acceptedAt'', ''id'', ''operation'', ''version'']"
  by code_simp+

lemma exact_keys_JObj: "exact_keys (JObj kvs) ks \<longleftrightarrow> sort (map fst kvs) = sort ks"
  by (simp add: exact_keys_def)

lemmas decoders = decode_id_def decode_prompt_def decode_instant_def decode_tail_def trimmed_def
  prop_str_def prop_safe_int_def prop_num_def

lemma decode_record_object:
  assumes "record_ok r"
  shows "decode_schedule_record (schedule_record_object r) = Inr r"
proof -
  have r: "trimmed (sr_id r)" "trimmed (sr_prompt r)" "canonical_instant (sr_at r)" "rule_ok (sr_rule r)"
    using assms by (simp_all add: record_ok_def)
  then show ?thesis
    using every_safe
    by (cases "sr_rule r"; cases r)
      (auto simp: decode_schedule_record_def decode_after_record_def decode_at_record_def
        decode_every_record_def schedule_record_object_def exact_keys_JObj decoders)
qed

lemma decode_schedule_object: "schedule_change_ok c \<Longrightarrow> decode_schedule_change (schedule_change_object c) = Inr c"
  by (induction c rule: schedule_change_object.induct)
    (simp_all add: decode_schedule_change_def decode_dispatch_def SCHEDULE_CHANGE_VERSION_def
      exact_keys_JObj schedule_signatures decode_record_object decoders)

section \<open>The latest due occurrence\<close>

lemma floor_quotient_exact:
  assumes "0 \<le> a" and "a < 2 ^ 53" and "0 < b" and "b \<le> 2 ^ 53"
  shows "floor_quotient a b = a div b"
proof -
  let ?q = "a div b"
  have q: "0 \<le> ?q" "?q \<le> a" using assms by (simp_all add: pos_imp_zdiv_nonneg_iff, cases "a = 0", simp_all add: int_div_le_self)
  have ulp: "b * 2 ^ floorlog 2 (nat ?q) < 2 ^ 54"
  proof (cases "?q = 0")
    case True
    then show ?thesis using assms by (simp add: floorlog_def)
  next
    case False
    then have p: "0 < nat ?q" using q by simp
    then have "2 ^ (floorlog 2 (nat ?q) - 1) \<le> nat ?q" using floorlog_bounds [of "nat ?q" 2] by simp
    moreover have "floorlog 2 (nat ?q) \<noteq> 0" using p by (simp add: floorlog_eq_zero_iff)
    ultimately have "2 ^ floorlog 2 (nat ?q) \<le> 2 * nat ?q"
      by (cases "floorlog 2 (nat ?q)") simp_all
    then have "int (2 ^ floorlog 2 (nat ?q)) \<le> int (2 * nat ?q)" by (simp only: of_nat_le_iff)
    then have "2 ^ floorlog 2 (nat ?q) \<le> 2 * ?q" using q by simp
    then have "b * 2 ^ floorlog 2 (nat ?q) \<le> b * (2 * ?q)" using assms(3) by (intro mult_left_mono) simp_all
    also have "\<dots> \<le> 2 * a" using div_bounds [OF assms(3), of a] by (simp add: mult.left_commute)
    finally show ?thesis using assms(2) by simp
  qed
  have "1 \<le> b - a mod b" using pos_mod_bound [OF assms(3), of a] by simp
  then have "b * 2 ^ floorlog 2 (nat ?q) < (b - a mod b) * 2 ^ 54" using ulp by simp
  then show ?thesis using q assms(2) by (simp add: floor_quotient_def Let_def)
qed

text \<open>The decision written with exact arithmetic.\<close>

definition exact_occurrence :: "int \<Rightarrow> int \<Rightarrow> int \<Rightarrow> every_occurrence" where
  "exact_occurrence target interval now =
     (let occurrence = target + (now - target) div interval * interval
      in \<lparr>eo_occurrence = to_iso_string occurrence,
          eo_next = (if occurrence + interval \<le> MAX_FOUR_DIGIT_YEAR_MS
                     then Some (to_iso_string (occurrence + interval)) else None)\<rparr>)"

lemma aligned_bounds:
  fixes t now i :: int
  assumes "t \<le> now" and "0 < i"
  defines "d \<equiv> t + (now - t) div i * i"
  shows "t \<le> d" "d \<le> now" "now < d + i" "i dvd d - t"
proof -
  have "0 \<le> (now - t) div i" using assms(1,2) by (simp add: pos_imp_zdiv_nonneg_iff)
  then show "t \<le> d" using assms(2) by (simp add: d_def)
  show "d \<le> now" "now < d + i" using div_bounds [OF assms(2), of "now - t"]
    by (simp_all add: d_def mult.commute)
  show "i dvd d - t" by (simp add: d_def)
qed

lemma round_double_small: "- 9007199254740992 \<le> n \<Longrightarrow> n \<le> 9007199254740992 \<Longrightarrow> round_double n = n"
  by (rule round_double_exact) simp_all

lemma resolve_every_exact:
  assumes "date_parse scheduled = Some target" and "representable target" and "representable now"
    and "target \<le> now" and "rule_ok (EveryRule n)"
  shows "resolve_every_occurrence scheduled n now = Inr (exact_occurrence target (n * 1000) now)"
proof -
  let ?i = "n * 1000"
  let ?k = "(now - target) div ?i"
  have i: "0 < ?i" "safe_int ?i" using assms(5) by (simp_all add: MIN_EVERY_INTERVAL_SECONDS_def)
  note al = aligned_bounds [OF assms(4) i(1)]
  have b: "-62135596800000 \<le> target" "now \<le> 253402300799999" "now - target \<le> 315537897599999"
    using assms(2,3) by (simp_all add: representable_def year_limits)
  have r1: "round_double (now - target) = now - target"
    using assms(4) b by (intro round_double_small) simp_all
  have k: "floor_quotient (now - target) ?i = ?k"
    using assms(4) b i by (intro floor_quotient_exact) (simp_all add: safe_int_def max_safe_def)
  have r2: "round_double (?k * ?i) = ?k * ?i"
    using al b by (intro round_double_small) linarith+
  have r3: "round_double (target + ?k * ?i) = target + ?k * ?i"
    using al b by (intro round_double_small) linarith+
  have safe: "safe_int (target + ?k * ?i)"
    using al b unfolding safe_int_def max_safe_def by linarith
  have later: "\<not> safe_int (round_double (target + ?k * ?i + ?i)) \<or> MAX_FOUR_DIGIT_YEAR_MS < round_double (target + ?k * ?i + ?i)
      \<longleftrightarrow> \<not> target + ?k * ?i + ?i \<le> MAX_FOUR_DIGIT_YEAR_MS"
  proof (cases "safe_int (target + ?k * ?i + ?i)")
    case True
    then show ?thesis by (simp add: not_le)
  next
    case False
    then have "MAX_FOUR_DIGIT_YEAR_MS < target + ?k * ?i + ?i"
      using al b i(1) unfolding safe_int_def max_safe_def year_limits by linarith
    then show ?thesis using False by simp
  qed
  have nx: "round_double (target + ?k * ?i + ?i) = target + ?k * ?i + ?i"
    if "target + ?k * ?i + ?i \<le> MAX_FOUR_DIGIT_YEAR_MS"
    using that al b i(1) unfolding year_limits by (intro round_double_small) linarith+
  have g: "\<not> (\<not> safe_int now \<or> now < MIN_FOUR_DIGIT_YEAR_MS \<or> MAX_FOUR_DIGIT_YEAR_MS < now)"
    "\<not> (\<not> safe_int ?i \<or> ?i \<le> 0)"
    "\<not> (\<not> safe_int (target + ?k * ?i) \<or> target + ?k * ?i < target \<or> now < target + ?k * ?i)"
    using assms(3) representable_safe [OF assms(3)] i safe al(1,2)
    by (simp_all add: representable_def not_less del: mult_le_cancel_right)
  have nt: "\<not> now < target" using assms(4) by simp
  show ?thesis
    unfolding resolve_every_occurrence_def Let_def round_double_safe [OF i(2)] assms(1) option.case r1 k r2 r3
      exact_occurrence_def later
    by (simp only: g nt if_False simp_thms) (simp add: nx)
qed

lemma resolve_every_returns:
  assumes "date_parse scheduled = Some target" and "representable target" and "rule_ok (EveryRule n)"
  shows "returns (resolve_every_occurrence scheduled n now) \<longleftrightarrow> representable now \<and> target \<le> now"
proof
  assume "returns (resolve_every_occurrence scheduled n now)"
  then show "representable now \<and> target \<le> now"
    using assms(1) by (auto simp: resolve_every_occurrence_def representable_def Let_def not_less split: if_splits)
next
  assume "representable now \<and> target \<le> now"
  then show "returns (resolve_every_occurrence scheduled n now)"
    using resolve_every_exact [OF assms(1,2) _ _ assms(3)] by simp
qed

section \<open>The invariant of the fold\<close>

definition target_of :: "schedule_record \<Rightarrow> int" where
  "target_of r = (case date_parse (sr_at r) of Some t \<Rightarrow> t | None \<Rightarrow> 0)"

text \<open>The same reminder at a later time: only the target of a fixed-rate rule has moved.\<close>

definition descends :: "schedule_record \<Rightarrow> schedule_record \<Rightarrow> bool" where
  "descends r0 r \<longleftrightarrow>
     sr_id r = sr_id r0 \<and> sr_prompt r = sr_prompt r0 \<and> sr_rule r = sr_rule r0 \<and>
     (case sr_rule r0 of
        EveryRule n \<Rightarrow> target_of r0 \<le> target_of r \<and> (n * 1000) dvd (target_of r - target_of r0)
      | _ \<Rightarrow> sr_at r = sr_at r0)"

lemma descends_refl [simp]: "descends r r"
  by (simp add: descends_def split: schedule_rule.split)

lemma descends_trans: "descends a b \<Longrightarrow> descends b c \<Longrightarrow> descends a c"
  using dvd_add [of "_ * 1000" "target_of b - target_of a" "target_of c - target_of b"]
  by (auto simp: descends_def split: schedule_rule.splits)

definition fold_ok :: "schedule_fold \<Rightarrow> bool" where
  "fold_ok st \<longleftrightarrow>
     good_map (sf_active st) \<and> distinct (sf_seen st) \<and> fst ` set (sf_active st) \<subseteq> set (sf_seen st) \<and>
     (\<forall>k r. map_of (sf_active st) k = Some r \<longrightarrow> sr_id r = k \<and> record_ok r)"

lemma empty_schedule_fold_ok [simp]: "fold_ok empty_schedule_fold"
  by (simp add: fold_ok_def empty_schedule_fold_def)

lemma record_target:
  assumes "record_ok r"
  shows "date_parse (sr_at r) = Some (target_of r)" "representable (target_of r)"
    "sr_at r = to_iso_string (target_of r)"
proof -
  have "canonical_instant (sr_at r)" using assms by (simp add: record_ok_def)
  then obtain t where "date_parse (sr_at r) = Some t" "representable t" "sr_at r = to_iso_string t"
    by (rule canonicalE)
  then show "date_parse (sr_at r) = Some (target_of r)" "representable (target_of r)"
    "sr_at r = to_iso_string (target_of r)" by (simp_all add: target_of_def)
qed

lemma date_parse_representable [simp]: "representable t \<Longrightarrow> date_parse (to_iso_string t) = Some t"
  by (simp add: date_parse_to_iso representable_four_digit)

lemma every_advance:
  assumes "record_ok r" and "sr_rule r = EveryRule n" and "representable now" and "target_of r \<le> now"
  defines "nxt \<equiv> target_of r + (now - target_of r) div (n * 1000) * (n * 1000) + n * 1000"
  shows "dispatched_record r (Some (to_iso_string now)) =
      Inr (if nxt \<le> MAX_FOUR_DIGIT_YEAR_MS then Some (r\<lparr>sr_at := to_iso_string nxt\<rparr>) else None)"
    and "now < nxt" and "nxt \<le> MAX_FOUR_DIGIT_YEAR_MS \<Longrightarrow> representable nxt"
    and "n * 1000 dvd nxt - target_of r"
proof -
  have rule: "rule_ok (EveryRule n)" using assms(1) unfolding record_ok_def assms(2) by simp
  then have i: "0 < n * 1000" by (simp add: MIN_EVERY_INTERVAL_SECONDS_def)
  note t = record_target [OF assms(1)]
  note al = aligned_bounds [OF assms(4) i]
  show "dispatched_record r (Some (to_iso_string now)) =
      Inr (if nxt \<le> MAX_FOUR_DIGIT_YEAR_MS then Some (r\<lparr>sr_at := to_iso_string nxt\<rparr>) else None)"
    using resolve_every_exact [OF t(1,2) assms(3,4) rule] assms(2,3)
    by (simp add: dispatched_record_def exact_occurrence_def Let_def nxt_def)
  show "now < nxt" using al(3) by (simp add: nxt_def)
  show "representable nxt" if "nxt \<le> MAX_FOUR_DIGIT_YEAR_MS"
    using that al(1) t(2) i unfolding representable_def nxt_def by linarith
  have "nxt - target_of r = ((now - target_of r) div (n * 1000) + 1) * (n * 1000)"
    by (simp add: nxt_def distrib_right)
  then show "n * 1000 dvd nxt - target_of r" by simp
qed

lemma dispatched_record_descends:
  assumes "record_ok r" and "dispatched_record r accepted = Inr (Some r')"
  shows "record_ok r' \<and> descends r r'"
proof -
  obtain n where rn: "sr_rule r = EveryRule n"
    using assms(2) by (cases "sr_rule r") (auto simp: dispatched_record_def split: if_splits)
  obtain instant where acc: "accepted = Some instant"
    using assms(2) by (cases accepted) (simp_all add: dispatched_record_def rn)
  obtain t where pt: "date_parse instant = Some t"
    using assms(2) by (cases "date_parse instant") (simp_all add: dispatched_record_def rn acc)
  have ret: "returns (resolve_every_occurrence (sr_at r) n t)"
    using assms(2) by (cases "resolve_every_occurrence (sr_at r) n t")
      (simp_all add: dispatched_record_def rn acc pt)
  note r = rn acc pt
  have rule: "rule_ok (EveryRule n)" using assms(1) unfolding record_ok_def r(1) by simp
  note tr = record_target [OF assms(1)]
  have now: "representable t" "target_of r \<le> t"
    using ret resolve_every_returns [OF tr(1,2) rule] by simp_all
  have "instant = to_iso_string t" using to_iso_date_parse(2) [OF r(3)] by simp
  note adv = every_advance [OF assms(1) r(1) now] 
  let ?n = "target_of r + (t - target_of r) div (n * 1000) * (n * 1000) + n * 1000"
  have e: "?n \<le> MAX_FOUR_DIGIT_YEAR_MS" "r' = r\<lparr>sr_at := to_iso_string ?n\<rparr>"
    using assms(2) adv(1) r(2) \<open>instant = _\<close> by (simp_all split: if_splits)
  have "target_of r' = ?n" using e adv(3) by (simp add: target_of_def)
  then show ?thesis
    using e adv(2-4) assms(1) r(1) now(2) by (simp add: record_ok_def descends_def)
qed

lemma apply_schedule_change_ok:
  assumes "fold_ok st" and "schedule_change_ok c" and "apply_schedule_change st c = Inr st'"
  shows "fold_ok st'" and "set (sf_seen st) \<subseteq> set (sf_seen st')"
    and "map_of (sf_active st') k = Some r \<Longrightarrow> k \<in> set (sf_seen st) \<Longrightarrow>
           \<exists>r0. map_of (sf_active st) k = Some r0 \<and> descends r0 r"
proof -
  have st: "good_map (sf_active st)" "distinct (sf_seen st)"
    "fst ` set (sf_active st) \<subseteq> set (sf_seen st)"
    "\<And>k r. map_of (sf_active st) k = Some r \<Longrightarrow> sr_id r = k \<and> record_ok r"
    using assms(1) by (simp_all add: fold_ok_def)
  have keys: "fst ` set m = set (map fst m)" for m :: "(string \<times> schedule_record) list" by simp
  have seen: "k \<in> set (sf_seen st)" if "map_of (sf_active st) k \<noteq> None" for k
    using that by (intro subsetD [OF st(3)]) (simp add: map_of_eq_None_iff)
  have "fold_ok st' \<and> set (sf_seen st) \<subseteq> set (sf_seen st') \<and>
    (\<forall>k r. map_of (sf_active st') k = Some r \<longrightarrow> k \<in> set (sf_seen st) \<longrightarrow>
           (\<exists>r0. map_of (sf_active st) k = Some r0 \<and> descends r0 r))"
  proof (cases c)
    case (CreateChange r)
    then have e: "sr_id r \<notin> set (sf_seen st)"
      "st' = st\<lparr>sf_seen := sf_seen st @ [sr_id r], sf_active := AList.update (sr_id r) r (sf_active st)\<rparr>"
      using assms(3) by (auto split: if_splits)
    then show ?thesis using st assms(2) CreateChange
      by (auto simp: fold_ok_def map_of_update keys keys_update simp del: set_map split: if_splits)
  next
    case (DeleteChange sid)
    then have e: "st' = st\<lparr>sf_active := AList.delete sid (sf_active st)\<rparr>"
      using assms(3) by (auto split: if_splits)
    then show ?thesis using st
      by (auto simp: fold_ok_def map_of_delete keys keys_delete simp del: set_map split: if_splits)
  next
    case (DispatchChange sid accepted)
    then obtain r rest where r: "map_of (sf_active st) sid = Some r" "dispatched_record r accepted = Inr rest"
      and st': "st' = st\<lparr>sf_active := (case rest of None \<Rightarrow> AList.delete sid (sf_active st)
                          | Some r' \<Rightarrow> AList.update sid r' (sf_active st))\<rparr>"
      using assms(3) by (auto simp: result_simps split: option.splits)
    show ?thesis
    proof (cases rest)
      case None
      then show ?thesis using st st'
        by (auto simp: fold_ok_def map_of_delete keys keys_delete simp del: set_map split: if_splits)
    next
      case (Some r')
      then have "record_ok r' \<and> descends r r'"
        using dispatched_record_descends [of r accepted r'] r st(4) [OF r(1)] by simp
      moreover have "sr_id r' = sid"
        using \<open>record_ok r' \<and> descends r r'\<close> st(4) [OF r(1)] by (simp add: descends_def)
      ultimately show ?thesis using st st' Some r seen [of sid]
        by (auto simp: fold_ok_def map_of_update keys keys_update simp del: set_map split: if_splits)
    qed
  qed
  then show "fold_ok st'" and "set (sf_seen st) \<subseteq> set (sf_seen st')"
    and "map_of (sf_active st') k = Some r \<Longrightarrow> k \<in> set (sf_seen st) \<Longrightarrow>
           \<exists>r0. map_of (sf_active st) k = Some r0 \<and> descends r0 r"
    by blast+
qed

definition later_fold :: "schedule_fold \<Rightarrow> schedule_fold \<Rightarrow> bool" where
  "later_fold st st' \<longleftrightarrow>
     fold_ok st' \<and> set (sf_seen st) \<subseteq> set (sf_seen st') \<and>
     (\<forall>k r. map_of (sf_active st') k = Some r \<longrightarrow> k \<in> set (sf_seen st) \<longrightarrow>
           (\<exists>r0. map_of (sf_active st) k = Some r0 \<and> descends r0 r))"

lemma later_fold_refl: "fold_ok st \<Longrightarrow> later_fold st st"
  by (auto simp: later_fold_def)

lemma later_fold_step:
  assumes "later_fold st0 st" and "apply_schedule_event st e = Inr st'"
  shows "later_fold st0 st'"
proof (cases "ev_type e = ''schedule/change''")
  case False
  then show ?thesis using assms by (simp add: apply_schedule_event_def)
next
  case True
  then obtain c where c: "decode_schedule_change (data_json (ev_data e)) = Inr c"
    "apply_schedule_change st c = Inr st'"
    using assms(2) by (auto simp: apply_schedule_event_def result_simps)
  have ok: "fold_ok st" using assms(1) by (simp add: later_fold_def)
  note step = apply_schedule_change_ok [OF ok decode_schedule_change_ok [OF c(1)] c(2)]
  have "\<exists>r0. map_of (sf_active st0) k = Some r0 \<and> descends r0 r"
    if kr: "map_of (sf_active st') k = Some r" "k \<in> set (sf_seen st0)" for k r
  proof -
    have "k \<in> set (sf_seen st)" using kr(2) assms(1) by (auto simp: later_fold_def)
    then obtain r1 where "map_of (sf_active st) k = Some r1" "descends r1 r"
      using step(3) [OF kr(1)] by blast
    moreover obtain r0 where "map_of (sf_active st0) k = Some r0" "descends r0 r1"
      using assms(1) kr(2) calculation(1) unfolding later_fold_def by blast
    ultimately show ?thesis using descends_trans by blast
  qed
  then show ?thesis using step(1,2) assms(1) by (auto simp: later_fold_def)
qed

lemma later_fold_events:
  assumes "fold_ok st" and "fold_result apply_schedule_event st es = Inr st'"
  shows "later_fold st st'"
  using assms(2)
  by (rule fold_result_invariant [where P = "later_fold st"])
    (simp_all add: later_fold_refl [OF assms(1)] later_fold_step)

definition schedules_ok :: "folded_schedules \<Rightarrow> bool" where
  "schedules_ok f \<longleftrightarrow>
     distinct (map sr_id (fs_active f)) \<and> distinct (fs_seen f) \<and>
     set (map sr_id (fs_active f)) \<subseteq> set (fs_seen f) \<and> list_all record_ok (fs_active f)"

lemma fold_ok_keys:
  assumes "fold_ok st"
  shows "map fst (sf_active st) = map sr_id (map snd (sf_active st))"
    and "(k, r) \<in> set (sf_active st) \<longleftrightarrow> map_of (sf_active st) k = Some r"
    and "r \<in> set (map snd (sf_active st)) \<longleftrightarrow> map_of (sf_active st) (sr_id r) = Some r"
proof -
  have d: "distinct (map fst (sf_active st))" using assms by (simp add: fold_ok_def good_map_def)
  then show m: "(k, r) \<in> set (sf_active st) \<longleftrightarrow> map_of (sf_active st) k = Some r" for k r by simp
  have i: "(k, r) \<in> set (sf_active st) \<Longrightarrow> sr_id r = k" for k r
    using assms m by (simp add: fold_ok_def)
  show "map fst (sf_active st) = map sr_id (map snd (sf_active st))"
    unfolding map_map
  proof (rule map_cong [OF refl])
    show "fst x = (sr_id \<circ> snd) x" if "x \<in> set (sf_active st)" for x
      using i [of "fst x" "snd x"] that by simp
  qed
  show "r \<in> set (map snd (sf_active st)) \<longleftrightarrow> map_of (sf_active st) (sr_id r) = Some r"
  proof
    assume "r \<in> set (map snd (sf_active st))"
    then obtain k where "(k, r) \<in> set (sf_active st)" by auto
    then show "map_of (sf_active st) (sr_id r) = Some r" using i m by blast
  next
    assume "map_of (sf_active st) (sr_id r) = Some r"
    then have "(sr_id r, r) \<in> set (sf_active st)" using m by blast
    then show "r \<in> set (map snd (sf_active st))" by force
  qed
qed

lemma folded_of_ok:
  assumes "fold_ok st"
  shows "schedules_ok (folded_of st)"
proof -
  note keys = fold_ok_keys [OF assms]
  have st: "distinct (map fst (sf_active st))" "distinct (sf_seen st)"
    "set (map fst (sf_active st)) \<subseteq> set (sf_seen st)"
    "\<And>k r. map_of (sf_active st) k = Some r \<Longrightarrow> record_ok r"
    using assms by (simp_all add: fold_ok_def good_map_def)
  have "list_all record_ok (map snd (sf_active st))"
    unfolding list_all_iff using keys(3) st(4) by blast
  then show ?thesis using st(1-3) unfolding keys(1) schedules_ok_def folded_of_def by simp
qed

lemma aligned_unique:
  fixes t now i :: int
  assumes "0 < i" and "d \<le> now" and "now < d + i" and "i dvd d - t"
  shows "d = t + (now - t) div i * i"
proof -
  obtain k where k: "d - t = i * k" using assms(4) by (elim dvdE)
  have "now - t = i * k + (now - d)" using k by simp
  moreover have "0 \<le> now - d" "now - d < i" using assms(2,3) by simp_all
  ultimately have "(now - t) div i = k" by (rule int_div_pos_eq)
  then show ?thesis using k by (simp add: mult.commute)
qed

text \<open>C39. A fixed-rate decision at \<open>now\<close> succeeds exactly when \<open>now\<close> has a four-digit year and
  is not before the record's target. It then reports the one instant that is aligned with the target by whole
  intervals, not after \<open>now\<close> and less than an interval before it: the latest due occurrence. The next
  target is one interval later, and there is none exactly when that would leave the four-digit years. The
  floating-point division of the code is part of the model and never costs or adds a step.\<close>

theorem every_occurrence_latest:
  assumes "date_parse scheduled = Some target" and "representable target" and "rule_ok (EveryRule n)"
  shows "resolve_every_occurrence scheduled n now = Inr oc \<longleftrightarrow>
    representable now \<and>
    (\<exists>d. target \<le> d \<and> d \<le> now \<and> now < d + n * 1000 \<and> n * 1000 dvd d - target \<and>
         eo_occurrence oc = to_iso_string d \<and>
         eo_next oc = (if d + n * 1000 \<le> MAX_FOUR_DIGIT_YEAR_MS then Some (to_iso_string (d + n * 1000)) else None))"
    (is "?l \<longleftrightarrow> ?r")
proof
  have i: "0 < n * 1000" using assms(3) by (simp add: MIN_EVERY_INTERVAL_SECONDS_def)
  {
    assume ?l
    then have now: "representable now" "target \<le> now"
      using resolve_every_returns [OF assms, of now] by simp_all
    then have "oc = exact_occurrence target (n * 1000) now"
      using resolve_every_exact [OF assms(1,2) now assms(3)] \<open>?l\<close> by simp
    then show ?r
      using now(1) aligned_bounds [OF now(2) i]
      by (intro conjI exI [of _ "target + (now - target) div (n * 1000) * (n * 1000)"])
        (simp_all add: exact_occurrence_def Let_def)
  next
    assume ?r
    then obtain d where now: "representable now" and d: "target \<le> d" "d \<le> now" "now < d + n * 1000"
        "n * 1000 dvd d - target"
      and oc: "eo_occurrence oc = to_iso_string d"
        "eo_next oc = (if d + n * 1000 \<le> MAX_FOUR_DIGIT_YEAR_MS then Some (to_iso_string (d + n * 1000)) else None)"
      by blast
    have "d = target + (now - target) div (n * 1000) * (n * 1000)"
      by (rule aligned_unique [OF i d(2-4)])
    then have "oc = exact_occurrence target (n * 1000) now"
      using oc by (intro every_occurrence.equality) (simp_all add: exact_occurrence_def Let_def)
    then show ?l using resolve_every_exact [OF assms(1,2) now _ assms(3)] d(1,2) by simp
  }
qed

theorem every_occurrence_latest_witness:
  "resolve_every_occurrence ''2024-01-01T00:00:00.000Z'' 300 1704067999999 =
     Inr \<lparr>eo_occurrence = ''2024-01-01T00:10:00.000Z'', eo_next = Some ''2024-01-01T00:15:00.000Z''\<rparr>"
proof (rule every_occurrence_latest [THEN iffD2])
  show "date_parse ''2024-01-01T00:00:00.000Z'' = Some 1704067200000" by code_simp
  show "representable 1704067200000" by code_simp
  show "rule_ok (EveryRule 300)" by code_simp
  have r: "representable 1704067999999" by code_simp
  have t: "to_iso_string 1704067800000 = ''2024-01-01T00:10:00.000Z''"
    "to_iso_string 1704068100000 = ''2024-01-01T00:15:00.000Z''" by code_simp+
  show "representable 1704067999999 \<and>
    (\<exists>d. 1704067200000 \<le> d \<and> d \<le> 1704067999999 \<and> 1704067999999 < d + 300 * 1000 \<and>
         (300 * 1000 :: int) dvd d - 1704067200000 \<and>
         eo_occurrence \<lparr>eo_occurrence = ''2024-01-01T00:10:00.000Z'', eo_next = Some ''2024-01-01T00:15:00.000Z''\<rparr> = to_iso_string d \<and>
         eo_next \<lparr>eo_occurrence = ''2024-01-01T00:10:00.000Z'', eo_next = Some ''2024-01-01T00:15:00.000Z''\<rparr> =
           (if d + 300 * 1000 \<le> MAX_FOUR_DIGIT_YEAR_MS then Some (to_iso_string (d + 300 * 1000)) else None))"
    by (intro conjI exI [of _ 1704067800000] r) (simp_all add: t year_limits)
qed

text \<open>The durable decoder accepts a text as an instant exactly when it is what \<open>toISOString\<close>
  prints for an instant in the years 1 to 9999, returns it unchanged, and parsing it gives that instant
  back: stored times have one spelling.\<close>

theorem canonical_instants:
  "decode_instant_text s = Inr r \<longleftrightarrow>
     r = s \<and> (\<exists>t. representable t \<and> s = to_iso_string t \<and> date_parse s = Some t)"
proof -
  have "canonical_instant s \<longleftrightarrow> (\<exists>t. representable t \<and> s = to_iso_string t \<and> date_parse s = Some t)"
  proof
    show "canonical_instant s \<Longrightarrow> \<exists>t. representable t \<and> s = to_iso_string t \<and> date_parse s = Some t"
      by (erule canonicalE) blast
    show "\<exists>t. representable t \<and> s = to_iso_string t \<and> date_parse s = Some t \<Longrightarrow> canonical_instant s"
      using canonical_instant_iff by blast
  qed
  then show ?thesis by simp
qed

end
