(* ===== verification/Schedule_Times.thy ===== *)
theory Schedule_Times
  imports Schedule_Domain
begin

text \<open>
  From the arguments of the create tool to a durable record, the second half of
  \<^verbatim>\<open>packages/schedule/schedule/src/domain.ts\<close>: instants with an explicit offset, local
  wall-clock times in a named zone, delays and fixed rates. The lemmas show that an instant
  written with any offset reads back as that instant, that a local time resolves to the first
  instant that shows it, and that every created record is accepted by the durable decoder with
  a target strictly in the future.

  \<open>intl\<close> is what the code uses of \<open>Intl.DateTimeFormat\<close>: the canonical name of a zone, and
  the parts a formatter of that zone prints for an instant.
\<close>

record intl =
  canonical_zone :: "string \<Rightarrow> string option"
  format_parts :: "string \<Rightarrow> int \<Rightarrow> (string \<times> string) list"

section \<open>Calendar fields\<close>

definition calendar_epoch :: "calendar_parts \<Rightarrow> schedule_input_error + int" where
  "calendar_epoch p =
     (let epoch = epoch_of_parts p in if parts_of_epoch epoch \<noteq> p then Inl InvalidRule else Inr epoch)"

definition milliseconds :: "string option \<Rightarrow> int" where
  "milliseconds f =
     (case f of None \<Rightarrow> 0 | Some s \<Rightarrow> int (decimal (s @ replicate (3 - length s) CHR ''0'')))"

text \<open>An optional fraction of one to three digits, and what follows it.\<close>

definition split_fraction :: "string \<Rightarrow> (string option \<times> string) option" where
  "split_fraction s =
     (if s \<noteq> [] \<and> hd s = CHR ''.''
      then let f = takeWhile is_digit (tl s)
           in if f = [] \<or> 3 < length f then None else Some (Some f, drop (length f) (tl s))
      else Some (None, s))"

text \<open>The zone of \<open>OFFSET_INSTANT\<close>: \<open>Some None\<close> is \<open>Z\<close>.\<close>

definition offset_zone :: "string \<Rightarrow> (char \<times> int \<times> int) option option" where
  "offset_zone s =
     (if s = ''Z'' then Some None
      else if s \<noteq> [] \<and> (hd s = CHR ''+'' \<or> hd s = CHR ''-'')
              \<and> matches (replicate 2 Digit @ [Lit CHR '':''] @ replicate 2 Digit) (tl s)
      then Some (Some (hd s, field 1 2 s, field 4 2 s))
      else None)"

definition real_clock :: "calendar_parts \<Rightarrow> bool" where
  "real_clock p \<longleftrightarrow>
     \<not> (cp_year p = 0 \<or> 23 < cp_hour p \<or> 59 < cp_minute p \<or> 59 < cp_second p)"

definition apply_offset :: "int \<Rightarrow> (char \<times> int \<times> int) option \<Rightarrow> schedule_input_error + int" where
  "apply_offset local zone =
     (case zone of
        None \<Rightarrow> Inr local
      | Some (sign, h, m) \<Rightarrow>
          if 23 < h \<or> 59 < m \<or> (sign = CHR ''-'' \<and> h = 0 \<and> m = 0) then Inl InvalidRule
          else Inr (local - (if sign = CHR ''+'' then 1 else -1) * (h * 60 + m) * 60000))"

definition parse_offset_instant :: "string \<Rightarrow> schedule_input_error + int" where
  "parse_offset_instant s =
     (let head = take 19 s
      in if \<not> matches (date_shape @ [Lit CHR ''T''] @ time_shape) head then Inl InvalidRule
         else case split_fraction (drop 19 s) of
           None \<Rightarrow> Inl InvalidRule
         | Some (fraction, zone_text) \<Rightarrow>
             (case offset_zone zone_text of
                None \<Rightarrow> Inl InvalidRule
              | Some zone \<Rightarrow>
                  let p = \<lparr>cp_year = field 0 4 head, cp_month = field 5 2 head, cp_day = field 8 2 head,
                           cp_hour = field 11 2 head, cp_minute = field 14 2 head,
                           cp_second = field 17 2 head, cp_millisecond = milliseconds fraction\<rparr>
                  in if \<not> real_clock p then Inl InvalidRule
                     else and_then (calendar_epoch p) (\<lambda>local. apply_offset local zone)))"

section \<open>Time zones\<close>

definition is_letter :: "char \<Rightarrow> bool" where
  "is_letter c \<longleftrightarrow> is_lower c \<or> (let n = (of_char c :: nat) in 65 \<le> n \<and> n \<le> 90)"

definition is_zone_char :: "char \<Rightarrow> bool" where
  "is_zone_char c \<longleftrightarrow> is_letter c \<or> is_digit c \<or> c \<in> set ''_+.-''"

text \<open>\<open>IANA_ZONE\<close>: the flags are a non-empty current segment, and a slash seen.\<close>

fun iana_rest :: "bool \<Rightarrow> bool \<Rightarrow> string \<Rightarrow> bool" where
  "iana_rest ok slash [] = (ok \<and> slash)"
| "iana_rest ok slash (c # cs) =
     (if is_zone_char c then iana_rest True slash cs
      else c = CHR ''/'' \<and> ok \<and> iana_rest False True cs)"

fun iana_zone :: "string \<Rightarrow> bool" where
  "iana_zone [] = False"
| "iana_zone (c # cs) = (is_letter c \<and> iana_rest True False cs)"

definition canonicalize_time_zone :: "intl \<Rightarrow> string \<Rightarrow> schedule_input_error + string" where
  "canonicalize_time_zone api name =
     (if name = [] \<or> trim name \<noteq> name \<or> (name \<noteq> ''UTC'' \<and> \<not> iana_zone name) then Inl InvalidTimeZone
      else case canonical_zone api name of
        None \<Rightarrow> Inl InvalidTimeZone
      | Some canonical \<Rightarrow>
          if canonical \<noteq> ''UTC'' \<and> \<not> iana_zone canonical then Inl InvalidTimeZone else Inr canonical)"

record local_at_input =
  la_date :: string
  la_time :: string
  la_time_zone :: string

definition parse_local_at :: "local_at_input \<Rightarrow> schedule_input_error + calendar_parts" where
  "parse_local_at v =
     (let d = la_date v; t = take 8 (la_time v)
      in case split_fraction (drop 8 (la_time v)) of
           Some (fraction, []) \<Rightarrow>
             if \<not> matches date_shape d \<or> \<not> matches time_shape t then Inl InvalidRule
             else
               let p = \<lparr>cp_year = field 0 4 d, cp_month = field 5 2 d, cp_day = field 8 2 d,
                        cp_hour = field 0 2 t, cp_minute = field 3 2 t, cp_second = field 6 2 t,
                        cp_millisecond = milliseconds fraction\<rparr>
               in if \<not> real_clock p then Inl InvalidRule
                  else and_then (calendar_epoch p) (\<lambda>_. Inr p)
         | _ \<Rightarrow> Inl InvalidRule)"

text \<open>
  One formatted instant. The seven calendar fields are compared as numbers; text that is not
  all digits is NaN (\<open>None\<close>), which equals nothing.
\<close>

record projection =
  pr_fields :: "int option list"
  pr_offset :: int

definition number_part :: "string option \<Rightarrow> int option" where
  "number_part v =
     (case v of None \<Rightarrow> None | Some s \<Rightarrow> if list_all is_digit s then Some (int (decimal s)) else None)"

text \<open>\<open>OFFSET_NAME\<close>, and the offset in milliseconds.\<close>

definition offset_name :: "string \<Rightarrow> int option" where
  "offset_name s =
     (let r = drop 4 s; sign = s ! 3; hm = replicate 2 Digit @ [Lit CHR '':''] @ replicate 2 Digit
      in if s = ''GMT'' then Some 0
         else if take 3 s \<noteq> ''GMT'' \<or> length s \<le> 3 \<or> \<not> (sign = CHR ''+'' \<or> sign = CHR ''-'') then None
         else if matches hm r \<or> matches (hm @ [Lit CHR '':''] @ replicate 2 Digit) r
         then Some ((if sign = CHR ''-'' then -1 else 1)
                    * (field 0 2 r * 3600 + field 3 2 r * 60 + field 6 2 r) * 1000)
         else None)"

definition local_projection ::
  "(int \<Rightarrow> (string \<times> string) list) \<Rightarrow> int \<Rightarrow> schedule_input_error + projection" where
  "local_projection formatter epoch =
     (let values = map_of (rev (formatter epoch))
      in case values ''timeZoneName'' of
           None \<Rightarrow> Inl InvalidTimeZone
         | Some zone_name \<Rightarrow>
             (case offset_name zone_name of
                None \<Rightarrow> Inl InvalidTimeZone
              | Some offset \<Rightarrow>
                  Inr \<lparr>pr_fields = map (\<lambda>k. number_part (values k))
                          [''year'', ''month'', ''day'', ''hour'', ''minute'', ''second'', ''fractionalSecond''],
                       pr_offset = offset\<rparr>))"

definition field_list :: "calendar_parts \<Rightarrow> int list" where
  "field_list p = [cp_year p, cp_month p, cp_day p, cp_hour p, cp_minute p, cp_second p, cp_millisecond p]"

definition sample_epochs :: "int \<Rightarrow> int list" where
  "sample_epochs local =
     map (\<lambda>delta. min MAX_FOUR_DIGIT_YEAR_MS (max MIN_FOUR_DIGIT_YEAR_MS (local + delta)))
       [-172800000, -86400000, 0, 86400000, 172800000]"

text \<open>A \<open>Set\<close> built from a list keeps first occurrences.\<close>

definition js_set :: "'a list \<Rightarrow> 'a list" where
  "js_set xs = rev (remdups (rev xs))"

definition candidate_step ::
  "(int \<Rightarrow> (string \<times> string) list) \<Rightarrow> calendar_parts \<Rightarrow> int \<Rightarrow> int list \<times> bool \<Rightarrow> int
     \<Rightarrow> schedule_input_error + int list \<times> bool" where
  "candidate_step formatter parts local acc offset =
     (let (candidates, out_of_range) = acc; candidate = local - offset
      in if candidate < MIN_FOUR_DIGIT_YEAR_MS \<or> MAX_FOUR_DIGIT_YEAR_MS < candidate
         then Inr (candidates, True)
         else and_then (local_projection formatter candidate) (\<lambda>projected.
           Inr (if pr_fields projected = map Some (field_list parts) then candidates @ [candidate]
                else candidates, out_of_range)))"

definition resolve_local_instant ::
  "(int \<Rightarrow> (string \<times> string) list) \<Rightarrow> calendar_parts \<Rightarrow> schedule_input_error + int" where
  "resolve_local_instant formatter parts =
     and_then (calendar_epoch parts) (\<lambda>local.
     and_then (traverse (\<lambda>sample. and_then (local_projection formatter sample) (\<lambda>p. Inr (pr_offset p)))
                 (sample_epochs local)) (\<lambda>offsets.
     and_then (fold_result (candidate_step formatter parts local) ([], False) (js_set offsets)) (\<lambda>(candidates, out_of_range).
       case sort candidates of
         [] \<Rightarrow> Inl (if out_of_range then TimeOutOfRange else InvalidRule)
       | first # _ \<Rightarrow> Inr first)))"

section \<open>Records\<close>

definition future_instant :: "int \<Rightarrow> int \<Rightarrow> schedule_input_error + string" where
  "future_instant epoch now =
     (if \<not> safe_int now \<or> \<not> safe_int epoch \<or> epoch < MIN_FOUR_DIGIT_YEAR_MS \<or> MAX_FOUR_DIGIT_YEAR_MS < epoch
      then Inl TimeOutOfRange
      else if epoch \<le> now then Inl NotFuture
      else if \<not> utc_instant (to_iso_string epoch) then Inl TimeOutOfRange
      else Inr (to_iso_string epoch))"

definition create_after_schedule_record ::
  "string \<Rightarrow> string \<Rightarrow> jnum \<Rightarrow> int \<Rightarrow> schedule_input_error + schedule_record" where
  "create_after_schedule_record sid prompt after_seconds now =
     (if trim prompt = [] then Inl InvalidPrompt
      else if \<not> is_safe_integer after_seconds \<or> num_int after_seconds \<le> 0 then Inl InvalidRule
      else
        let delay = round_double (num_int after_seconds * 1000); target = round_double (now + delay)
        in and_then (future_instant target now) (\<lambda>scheduled.
             Inr \<lparr>sr_id = sid, sr_rule = AfterRule (num_int after_seconds), sr_prompt = trim prompt,
                  sr_at = scheduled\<rparr>))"

definition resolve_at_object :: "intl \<Rightarrow> jv \<Rightarrow> schedule_input_error + int" where
  "resolve_at_object api v =
     (if \<not> exact_keys v [''date'', ''time'', ''time_zone''] then Inl InvalidRule
      else case (prop_str v ''date'', prop_str v ''time'') of
        (Some d, Some t) \<Rightarrow>
          (case prop_str v ''time_zone'' of
             None \<Rightarrow> Inl InvalidTimeZone
           | Some zone \<Rightarrow>
               and_then (parse_local_at \<lparr>la_date = d, la_time = t, la_time_zone = zone\<rparr>) (\<lambda>parts.
               and_then (canonicalize_time_zone api zone) (\<lambda>canonical.
                 resolve_local_instant (format_parts api canonical) parts)))
      | _ \<Rightarrow> Inl InvalidRule)"

definition create_at_schedule_record ::
  "intl \<Rightarrow> string \<Rightarrow> string \<Rightarrow> jv \<Rightarrow> int \<Rightarrow> schedule_input_error + schedule_record" where
  "create_at_schedule_record api sid prompt v now =
     (if trim prompt = [] then Inl InvalidPrompt
      else
        and_then (case v of
            JStr s \<Rightarrow> parse_offset_instant s
          | JObj _ \<Rightarrow> resolve_at_object api v
          | _ \<Rightarrow> Inl InvalidRule) (\<lambda>target.
        and_then (future_instant target now) (\<lambda>scheduled.
          Inr \<lparr>sr_id = sid, sr_rule = AtRule, sr_prompt = trim prompt, sr_at = scheduled\<rparr>)))"

definition create_every_schedule_record ::
  "string \<Rightarrow> string \<Rightarrow> jnum \<Rightarrow> int \<Rightarrow> schedule_input_error + schedule_record" where
  "create_every_schedule_record sid prompt every_seconds now =
     (if trim prompt = [] then Inl InvalidPrompt
      else if \<not> is_safe_integer every_seconds then Inl InvalidRule
      else if num_int every_seconds < MIN_EVERY_INTERVAL_SECONDS then Inl FrequencyTooHigh
      else
        let interval = round_double (num_int every_seconds * 1000); target = round_double (now + interval)
        in and_then (future_instant target now) (\<lambda>scheduled.
             Inr \<lparr>sr_id = sid, sr_rule = EveryRule (num_int every_seconds), sr_prompt = trim prompt,
                  sr_at = scheduled\<rparr>))"

section \<open>Views\<close>

text \<open>A comparison with NaN is false.\<close>

definition schedule_view_of :: "schedule_record \<Rightarrow> int \<Rightarrow> schedule_view" where
  "schedule_view_of r now =
     \<lparr>sv_record = r,
      sv_state = (case date_parse (sr_at r) of
                    Some t \<Rightarrow> if t \<le> now then Overdue else Scheduled | None \<Rightarrow> Scheduled),
      sv_delivery = ''session-local''\<rparr>"

section \<open>Calendar fields are exact\<close>

lemma calendar_epoch_Inr [simp]: "calendar_epoch p = Inr e \<longleftrightarrow> parts_of_epoch e = p"
  using parts_of_epoch_iff [of e p] epoch_of_parts_of_epoch [of e] by (auto simp: calendar_epoch_def Let_def)

lemma calendar_epoch_valid: "valid_parts p \<Longrightarrow> calendar_epoch p = Inr (epoch_of_parts p)"
  by (simp add: parts_of_epoch_of_parts)

interpretation calendar: codec parts_of_epoch
  "\<lambda>p. case calendar_epoch p of Inl _ \<Rightarrow> None | Inr e \<Rightarrow> Some e" "\<lambda>_. True"
proof
  have e: "calendar_epoch (parts_of_epoch a) = Inr a" for a by simp
  show "(case calendar_epoch (parts_of_epoch a) of Inl _ \<Rightarrow> None | Inr e \<Rightarrow> Some e) = Some a" for a
    by (simp only: e sum.case)
  show "True \<and> parts_of_epoch a = b"
    if "(case calendar_epoch b of Inl _ \<Rightarrow> None | Inr e \<Rightarrow> Some e) = Some a" for a b
    using that by (simp split: sum.splits)
qed

lemma calendar_epoch_exact:
  "(calendar_epoch p = Inr e \<longleftrightarrow> parts_of_epoch e = p) \<and> (returns (calendar_epoch p) \<longleftrightarrow> valid_parts p)"
proof -
  have "returns (calendar_epoch p) \<longleftrightarrow> (\<exists>e. parts_of_epoch e = p)" by (simp add: returns_iff)
  also have "\<dots> \<longleftrightarrow> valid_parts p" using parts_of_epoch_of_parts valid_parts_of_epoch by blast
  finally show ?thesis by simp
qed

section \<open>Instants with an offset\<close>

definition offset_text :: "int \<Rightarrow> int \<Rightarrow> string" where
  "offset_text t minutes =
     (let p = parts_of_epoch (t + minutes * 60000)
      in date_text (cp_year p) (cp_month p) (cp_day p) @ ''T''
         @ time_text (cp_hour p) (cp_minute p) (cp_second p) @ ''.''
         @ digits 3 (nat (cp_millisecond p)) @ (if 0 \<le> minutes then ''+'' else ''-'')
         @ digits 2 (nat (\<bar>minutes\<bar> div 60)) @ '':'' @ digits 2 (nat (\<bar>minutes\<bar> mod 60)))"

lemma takeWhile_digits:
  "\<not> is_digit c \<Longrightarrow> takeWhile is_digit (digits k n @ c # r) = digits k n"
proof -
  have "\<forall>x \<in> set (digits k n). is_digit x" using all_digits [of k n] by (simp only: list_all_iff)
  then show "\<not> is_digit c \<Longrightarrow> takeWhile is_digit (digits k n @ c # r) = digits k n" by simp
qed

lemma split_fraction_digits:
  assumes "\<not> is_digit c"
  shows "split_fraction (CHR ''.'' # digits 3 n @ c # r) = Some (Some (digits 3 n), c # r)"
proof -
  have "digits 3 n \<noteq> []" by (metis length_digits list.size(3) zero_neq_numeral)
  then show ?thesis by (simp add: split_fraction_def takeWhile_digits [OF assms] Let_def)
qed

lemma milliseconds_digits: "0 \<le> ms \<Longrightarrow> ms \<le> 999 \<Longrightarrow> milliseconds (Some (digits 3 (nat ms))) = ms"
  by (simp add: milliseconds_def int_decimal_digits)

lemma parse_offset_text:
  assumes "valid_parts p" and "1 \<le> cp_year p" and "cp_year p \<le> 9999" and "\<not> is_digit c"
    and "offset_zone (c # r) = Some zone"
  shows "parse_offset_instant (date_text (cp_year p) (cp_month p) (cp_day p) @ ''T''
           @ time_text (cp_hour p) (cp_minute p) (cp_second p) @ ''.''
           @ digits 3 (nat (cp_millisecond p)) @ c # r) = apply_offset (epoch_of_parts p) zone"
proof -
  let ?d = "date_text (cp_year p) (cp_month p) (cp_day p)"
  let ?t = "time_text (cp_hour p) (cp_minute p) (cp_second p)"
  let ?head = "?d @ ''T'' @ ?t"
  let ?tail = "''.'' @ digits 3 (nat (cp_millisecond p)) @ c # r"
  have v: "valid_date (cp_year p) (cp_month p) (cp_day p)"
    "valid_time (cp_hour p) (cp_minute p) (cp_second p) (cp_millisecond p)"
    using assms(1) by (simp_all add: valid_parts_def)
  have head: "take 19 (?head @ ?tail) = ?head" "drop 19 (?head @ ?tail) = ?tail" by simp_all
  have m: "matches (date_shape @ [Lit CHR ''T''] @ time_shape) ?head"
    by (simp add: matches_def list_all2_append)
  have y: "0 \<le> cp_year p" using assms(2) by simp
  note df = date_fields [OF v(1) y assms(3)] and tf = time_fields [OF v(2), where r = "[]", simplified]
  have ms: "milliseconds (Some (digits 3 (nat (cp_millisecond p)))) = cp_millisecond p"
    using v(2) by (intro milliseconds_digits) (simp_all add: valid_time_def)
  have shift: "field (Suc 10 + i) n (?d @ ''T'' @ ?t) = field i n ?t" for i n
    by (simp add: field_def)
  have f: "field 11 2 ?head = cp_hour p" "field 14 2 ?head = cp_minute p" "field 17 2 ?head = cp_second p"
    using shift [of 0 2] shift [of 3 2] shift [of 6 2] tf by simp_all
  have p: "\<lparr>cp_year = field 0 4 ?head, cp_month = field 5 2 ?head, cp_day = field 8 2 ?head,
      cp_hour = field 11 2 ?head, cp_minute = field 14 2 ?head, cp_second = field 17 2 ?head,
      cp_millisecond = milliseconds (Some (digits 3 (nat (cp_millisecond p))))\<rparr> = p"
    unfolding df f ms by simp
  have clock: "real_clock p" using v(2) assms(2) by (simp add: real_clock_def valid_time_def)
  have sf: "split_fraction ?tail = Some (Some (digits 3 (nat (cp_millisecond p))), c # r)"
    using split_fraction_digits [OF assms(4)] by simp
  have "parse_offset_instant (?head @ ?tail) = apply_offset (epoch_of_parts p) zone"
    unfolding parse_offset_instant_def Let_def head sf option.case prod.case assms(5) p
      calendar_epoch_valid [OF assms(1)]
    by (simp only: m clock simp_thms if_False and_then.simps)
  then show ?thesis by (simp only: append_assoc)
qed

lemma offset_zone_text:
  assumes "sign = CHR ''+'' \<or> sign = CHR ''-''" and "0 \<le> h" "h < 100" "0 \<le> m" "m < 100"
  shows "offset_zone (sign # digits 2 (nat h) @ '':'' @ digits 2 (nat m)) = Some (Some (sign, h, m))"
proof -
  let ?r = "digits 2 (nat h) @ '':'' @ digits 2 (nat m)"
  have hm: "int (decimal (digits 2 (nat h))) = h" "int (decimal (digits 2 (nat m))) = m"
    using assms by (simp_all add: int_decimal_digits)
  have "matches (replicate 2 Digit @ [Lit CHR '':''] @ replicate 2 Digit) ?r"
    by (simp add: matches_def list_all2_append)
  moreover have "field 1 2 (sign # ?r) = h" "field 4 2 (sign # ?r) = m"
    using hm by (simp_all add: field_def)
  ultimately show ?thesis using assms(1) by (auto simp: offset_zone_def)
qed

text \<open>An instant written with any offset, or with \<open>Z\<close>, reads back as that instant.\<close>

lemma parse_offset_of_instant:
  assumes "\<bar>minutes\<bar> < 1440" and "representable (t + minutes * 60000)"
  shows "parse_offset_instant (offset_text t minutes) = Inr t"
proof -
  let ?p = "parts_of_epoch (t + minutes * 60000)"
  let ?h = "\<bar>minutes\<bar> div 60" and ?m = "\<bar>minutes\<bar> mod 60"
  let ?sign = "if 0 \<le> minutes then CHR ''+'' else CHR ''-''"
  let ?r = "digits 2 (nat ?h) @ '':'' @ digits 2 (nat ?m)"
  have b: "0 \<le> ?h" "?h < 24" "0 \<le> ?m" "?m < 60"
    using assms(1) div_bounds [of 60 "\<bar>minutes\<bar>"] by simp_all
  have zone: "offset_zone (?sign # ?r) = Some (Some (?sign, ?h, ?m))"
    by (rule offset_zone_text) (use b in simp_all)
  have written: "offset_text t minutes = date_text (cp_year ?p) (cp_month ?p) (cp_day ?p) @ ''T''
           @ time_text (cp_hour ?p) (cp_minute ?p) (cp_second ?p) @ ''.''
           @ digits 3 (nat (cp_millisecond ?p)) @ ?sign # ?r"
    by (simp add: offset_text_def Let_def)
  have sign: "\<not> is_digit ?sign" by (simp add: is_digit_def)
  have y: "1 \<le> cp_year ?p" "cp_year ?p \<le> 9999" using assms(2) representable_iff by simp_all
  have hm: "?h * 60 + ?m = \<bar>minutes\<bar>" by simp
  then have "\<not> (?sign = CHR ''-'' \<and> ?h = 0 \<and> ?m = 0)" by auto
  then have "\<not> (23 < ?h \<or> 59 < ?m \<or> (?sign = CHR ''-'' \<and> ?h = 0 \<and> ?m = 0))" using b by linarith
  then have "apply_offset (t + minutes * 60000) (Some (?sign, ?h, ?m)) =
      Inr (t + minutes * 60000 - (if ?sign = CHR ''+'' then 1 else -1) * \<bar>minutes\<bar> * 60000)"
    unfolding apply_offset_def option.case prod.case hm by (simp only: if_False)
  also have "\<dots> = Inr t" by (cases "0 \<le> minutes") simp_all
  finally have "apply_offset (t + minutes * 60000) (Some (?sign, ?h, ?m)) = Inr t" .
  then show ?thesis
    unfolding written parse_offset_text [OF valid_parts_of_epoch y sign zone] epoch_of_parts_of_epoch .
qed

lemma parse_zulu:
  assumes "representable t"
  shows "parse_offset_instant (to_iso_string t) = Inr t"
proof -
  let ?p = "parts_of_epoch t"
  have y: "1 \<le> cp_year ?p" "cp_year ?p \<le> 9999" using assms representable_iff by simp_all
  have z: "offset_zone ''Z'' = Some None" "\<not> is_digit CHR ''Z''" by (simp_all add: offset_zone_def is_digit_def)
  have "parse_offset_instant (to_iso_string t) = apply_offset (epoch_of_parts ?p) None"
    using parse_offset_text [OF valid_parts_of_epoch y z(2,1)]
    by (simp add: to_iso_string_four_digit [OF representable_four_digit [OF assms]])
  then show ?thesis by (simp add: apply_offset_def epoch_of_parts_of_epoch)
qed

text \<open>An instant written as its calendar fields at any offset under a day, or with \<open>Z\<close>, is
  read back by the offset parser as that very instant, for every instant whose local year has four digits.\<close>

theorem offset_instant_reads_back:
  assumes "\<bar>minutes\<bar> < 1440" and "representable (t + minutes * 60000)"
  shows "parse_offset_instant (offset_text t minutes) = Inr t
    \<and> parse_offset_instant (to_iso_string (t + minutes * 60000)) = Inr (t + minutes * 60000)"
  using parse_offset_of_instant [OF assms] parse_zulu [OF assms(2)] by simp

section \<open>Created records\<close>

lemma future_instant_Inr [simp]:
  "future_instant epoch now = Inr s \<longleftrightarrow>
     safe_int now \<and> representable epoch \<and> now < epoch \<and> s = to_iso_string epoch"
  using utc_instant_to_iso [of epoch] representable_safe [of epoch]
  by (auto simp: future_instant_def representable_def)

lemma target_of_to_iso [simp]: "representable t \<Longrightarrow> target_of (r\<lparr>sr_at := to_iso_string t\<rparr>) = t"
  "representable t \<Longrightarrow> target_of \<lparr>sr_id = a, sr_rule = b, sr_prompt = c, sr_at = to_iso_string t\<rparr> = t"
  by (simp_all add: target_of_def)

text \<open>A representable target is the exact sum.\<close>

lemma delayed_target:
  assumes "representable now" and "representable (round_double (now + round_double delay))"
  shows "safe_int delay" and "round_double (now + round_double delay) = now + delay"
proof -
  let ?d = "round_double delay"
  have s: "safe_int (now + ?d)" using representable_safe [OF assms(2)] by simp
  then have t: "round_double (now + ?d) = now + ?d" by simp
  have "safe_int ?d"
    using assms t unfolding representable_def year_limits safe_int_def max_safe_def by linarith
  then show d: "safe_int delay" by simp
  then show "round_double (now + ?d) = now + delay" using t by simp
qed

lemma trimmed_trim: "trim s \<noteq> [] \<Longrightarrow> trimmed (trim s)"
  by (simp add: trimmed_def)

lemma create_after_ok:
  assumes "create_after_schedule_record sid prompt n now = Inr r" and "trimmed sid" and "representable now"
  shows "record_ok r \<and> sr_id r = sid \<and> sr_prompt r = trim prompt \<and> sr_rule r = AfterRule (num_int n) \<and>
    target_of r = now + num_int n * 1000 \<and> now < target_of r"
proof -
  let ?t = "round_double (now + round_double (num_int n * 1000))"
  have g: "trim prompt \<noteq> []" "is_safe_integer n" "0 < num_int n" "representable ?t" "now < ?t"
    and r: "r = \<lparr>sr_id = sid, sr_rule = AfterRule (num_int n), sr_prompt = trim prompt, sr_at = to_iso_string ?t\<rparr>"
    using assms(1) by (auto simp: create_after_schedule_record_def Let_def result_simps split: if_splits)
  have "safe_int (num_int n)" using g(2,3) by (auto elim: is_safe_integer.elims)
  then show ?thesis
    using g r delayed_target [OF assms(3) g(4)] assms(2) by (simp add: record_ok_def trimmed_trim)
qed

lemma create_every_ok:
  assumes "create_every_schedule_record sid prompt n now = Inr r" and "trimmed sid" and "representable now"
  shows "record_ok r \<and> sr_id r = sid \<and> sr_prompt r = trim prompt \<and> sr_rule r = EveryRule (num_int n) \<and>
    target_of r = now + num_int n * 1000 \<and> now < target_of r"
proof -
  let ?t = "round_double (now + round_double (num_int n * 1000))"
  have g: "trim prompt \<noteq> []" "is_safe_integer n" "MIN_EVERY_INTERVAL_SECONDS \<le> num_int n"
    "representable ?t" "now < ?t"
    and r: "r = \<lparr>sr_id = sid, sr_rule = EveryRule (num_int n), sr_prompt = trim prompt, sr_at = to_iso_string ?t\<rparr>"
    using assms(1) by (auto simp: create_every_schedule_record_def Let_def result_simps split: if_splits)
  show ?thesis
    using g r delayed_target [OF assms(3) g(4)] assms(2) by (simp add: record_ok_def trimmed_trim)
qed

lemma create_at_ok:
  assumes "create_at_schedule_record api sid prompt v now = Inr r" and "trimmed sid"
  shows "record_ok r \<and> sr_id r = sid \<and> sr_prompt r = trim prompt \<and> sr_rule r = AtRule \<and> now < target_of r"
proof -
  obtain t where g: "trim prompt \<noteq> []" "representable t" "now < t"
    and r: "r = \<lparr>sr_id = sid, sr_rule = AtRule, sr_prompt = trim prompt, sr_at = to_iso_string t\<rparr>"
    using assms(1) by (auto simp: create_at_schedule_record_def result_simps split: if_splits)
  then show ?thesis using assms(2) by (simp add: record_ok_def trimmed_trim)
qed

section \<open>Local times\<close>

text \<open>
  A formatter of a zone whose offset at the instant \<open>t\<close> is \<open>off t\<close> milliseconds: it
  prints the calendar fields of \<open>t + off t\<close> and that offset.
\<close>

definition zone_model :: "(int \<Rightarrow> (string \<times> string) list) \<Rightarrow> (int \<Rightarrow> int) \<Rightarrow> bool" where
  "zone_model formatter off \<longleftrightarrow>
     (\<forall>t. representable t \<longrightarrow>
        local_projection formatter t =
          Inr \<lparr>pr_fields = map Some (field_list (parts_of_epoch (t + off t))), pr_offset = off t\<rparr>)"

text \<open>The instants that show a local time.\<close>

definition shows_local :: "(int \<Rightarrow> int) \<Rightarrow> int \<Rightarrow> int \<Rightarrow> bool" where
  "shows_local off local u \<longleftrightarrow> representable u \<and> u + off u = local"

lemma field_list_inj: "map Some (field_list p) = map Some (field_list q) \<longleftrightarrow> p = q"
  by (cases p; cases q) (auto simp: field_list_def)

lemma sample_representable: "u \<in> set (sample_epochs local) \<Longrightarrow> representable u"
  by (auto simp: sample_epochs_def representable_def year_limits min_def max_def)

lemma js_set_set [simp]: "set (js_set xs) = set xs"
  by (simp add: js_set_def)

lemma candidate_step_model:
  assumes "zone_model formatter off" and "parts_of_epoch local = parts"
  shows "candidate_step formatter parts local (cs, b) offset =
    Inr (if shows_local off local (local - offset) then cs @ [local - offset] else cs,
         b \<or> \<not> representable (local - offset))"
proof (cases "representable (local - offset)")
  case False
  then show ?thesis by (auto simp: candidate_step_def shows_local_def representable_def Let_def)
next
  case True
  let ?c = "local - offset"
  have "pr_fields (projr (local_projection formatter ?c)) = map Some (field_list parts) \<longleftrightarrow>
      parts_of_epoch (?c + off ?c) = parts"
    using assms(1) True by (simp add: zone_model_def field_list_inj del: list.map)
  also have "\<dots> \<longleftrightarrow> ?c + off ?c = local" by (metis assms(2) parts_of_epoch_inj)
  finally have e: "pr_fields (projr (local_projection formatter ?c)) = map Some (field_list parts) \<longleftrightarrow>
      ?c + off ?c = local" .
  obtain p where p: "local_projection formatter ?c = Inr p" using assms(1) True by (simp add: zone_model_def)
  show ?thesis
    using e True by (auto simp: candidate_step_def p shows_local_def representable_def Let_def)
qed

lemma candidate_fold_model:
  assumes "zone_model formatter off" and "parts_of_epoch local = parts"
  shows "fold_result (candidate_step formatter parts local) (cs, b) offsets =
    Inr (cs @ filter (shows_local off local) (map (\<lambda>d. local - d) offsets),
         b \<or> (\<exists>d \<in> set offsets. \<not> representable (local - d)))"
  by (induction offsets arbitrary: cs b) (auto simp: candidate_step_model [OF assms])

lemma traverse_Inr_map: "(\<And>x. x \<in> set xs \<Longrightarrow> f x = Inr (g x)) \<Longrightarrow> traverse f xs = Inr (map g xs)"
  by (induction xs) auto

lemma sort_head:
  "sort xs = y # ys \<Longrightarrow> y \<in> set xs \<and> (\<forall>x \<in> set xs. y \<le> x)" for xs :: "int list"
proof -
  assume s: "sort xs = y # ys"
  then have "set xs = set (y # ys)" "sorted (y # ys)" by (metis set_sort, metis sorted_sort)
  then show ?thesis by auto
qed

text \<open>C40. With a formatter that prints an instant's local fields and its offset, a local time resolves
  to an instant exactly when some representable instant shows it, and then to the first one: in an overlap the
  earlier, and a local time inside a gap is refused. The hypothesis is that every offset in force at an
  instant showing the local time is also in force at one of the five sampled instants.\<close>

theorem local_instant_first:
  assumes "zone_model formatter off" and "parts_of_epoch local = parts"
    and "\<And>u. shows_local off local u \<Longrightarrow> off u \<in> set (map off (sample_epochs local))"
  shows "(resolve_local_instant formatter parts = Inr t \<longleftrightarrow>
            shows_local off local t \<and> (\<forall>u. shows_local off local u \<longrightarrow> t \<le> u))
    \<and> (returns (resolve_local_instant formatter parts) \<longleftrightarrow> (\<exists>u. shows_local off local u))"
proof -
  let ?offs = "map off (sample_epochs local)"
  let ?cs = "filter (shows_local off local) (map (\<lambda>d. local - d) (js_set ?offs))"
  let ?b = "\<exists>d \<in> set (js_set ?offs). \<not> representable (local - d)"
  have cs: "u \<in> set ?cs \<longleftrightarrow> shows_local off local u" for u
  proof
    assume u: "shows_local off local u"
    then have "u = local - off u" by (simp add: shows_local_def)
    moreover have "off u \<in> set (js_set ?offs)" using assms(3) [OF u] by (simp only: js_set_set)
    ultimately have "u \<in> set (map (\<lambda>d. local - d) (js_set ?offs))" unfolding list.set_map by (rule image_eqI)
    then show "u \<in> set ?cs" using u by (simp only: set_filter mem_Collect_eq simp_thms)
  qed simp
  have ce: "calendar_epoch parts = Inr local" using assms(2) by simp
  have tr: "traverse (\<lambda>sample. and_then (local_projection formatter sample) (\<lambda>p. Inr (pr_offset p)))
      (sample_epochs local) = Inr ?offs"
    using assms(1) sample_representable by (intro traverse_Inr_map) (auto simp: zone_model_def)
  have r: "resolve_local_instant formatter parts =
      (case sort ?cs of [] \<Rightarrow> Inl (if ?b then TimeOutOfRange else InvalidRule) | first # _ \<Rightarrow> Inr first)"
    unfolding resolve_local_instant_def ce tr and_then.simps candidate_fold_model [OF assms(1,2)]
      append_Nil prod.case simp_thms ..
  show ?thesis
  proof (cases "sort ?cs")
    case Nil
    then have e: "set ?cs = {}" by (metis set_sort set_empty)
    have "\<not> shows_local off local u" for u using cs [of u] unfolding e by simp
    then show ?thesis using r Nil by simp
  next
    case (Cons y ys)
    have y: "shows_local off local y" "\<And>u. shows_local off local u \<Longrightarrow> y \<le> u"
      using sort_head [OF Cons] cs by blast+
    have res: "resolve_local_instant formatter parts = Inr y" using r Cons by simp
    show ?thesis unfolding res using y by (auto intro: antisym)
  qed
qed

text \<open>A formatter with the documented output, for zones with whole-minute offsets.\<close>

definition zone_format :: "(int \<Rightarrow> int) \<Rightarrow> int \<Rightarrow> (string \<times> string) list" where
  "zone_format off t =
     (let p = parts_of_epoch (t + off t); m = \<bar>off t\<bar> div 60000
      in [(''month'', digits 2 (nat (cp_month p))), (''literal'', ''/''),
          (''day'', digits 2 (nat (cp_day p))), (''literal'', ''/''),
          (''year'', digits 5 (nat (cp_year p))), (''literal'', '', ''),
          (''hour'', digits 2 (nat (cp_hour p))), (''literal'', '':''),
          (''minute'', digits 2 (nat (cp_minute p))), (''literal'', '':''),
          (''second'', digits 2 (nat (cp_second p))), (''literal'', ''.''),
          (''fractionalSecond'', digits 3 (nat (cp_millisecond p))), (''literal'', '' ''),
          (''timeZoneName'', ''GMT'' @ (if off t < 0 then ''-'' else ''+'')
             @ digits 2 (nat (m div 60)) @ '':'' @ digits 2 (nat (m mod 60)))])"

lemma offset_name_text:
  assumes "0 \<le> m" and "m < 6000"
  shows "offset_name (''GMT'' @ (if neg then ''-'' else ''+'') @ digits 2 (nat (m div 60)) @ '':''
           @ digits 2 (nat (m mod 60))) = Some ((if neg then -1 else 1) * m * 60000)"
proof -
  let ?r = "digits 2 (nat (m div 60)) @ '':'' @ digits 2 (nat (m mod 60))"
  have b: "0 \<le> m div 60" "m div 60 < 100" "0 \<le> m mod 60" "m mod 60 < 100"
    using assms div_bounds [of 60 m] pos_mod_bound [of 60 m] by (simp_all add: pos_imp_zdiv_nonneg_iff)
  have f: "field 0 2 ?r = m div 60" "field 3 2 ?r = m mod 60" "field 6 2 ?r = 0"
    using int_decimal_digits [OF b(1), of 2] int_decimal_digits [OF b(3), of 2] b by (simp_all add: field_def)
  have "matches (replicate 2 Digit @ [Lit CHR '':''] @ replicate 2 Digit) ?r"
    by (simp add: matches_def list_all2_append)
  moreover have "(field 0 2 ?r * 3600 + field 3 2 ?r * 60 + field 6 2 ?r) * 1000 = m * 60000"
  proof -
    have "(a * 3600 + b * 60 + 0) * 1000 = (60 * a + b) * 60000" for a b :: int by simp
    then show ?thesis unfolding f by (simp only: mult_div_mod_eq)
  qed
  ultimately show ?thesis
    by (cases neg) (simp_all add: offset_name_def Let_def algebra_simps)
qed

lemma number_part_digits: "0 \<le> n \<Longrightarrow> n < 10 ^ k \<Longrightarrow> number_part (Some (digits k (nat n))) = Some n"
  by (simp add: number_part_def int_decimal_digits)

lemma zone_format_model:
  assumes "\<And>t. 60000 dvd off t" and "\<And>t. \<bar>off t\<bar> < 86400000"
  shows "zone_model (zone_format off) off"
  unfolding zone_model_def
proof (intro allI impI)
  fix t assume t: "representable t"
  let ?p = "parts_of_epoch (t + off t)"
  let ?m = "\<bar>off t\<bar> div 60000"
  have m: "0 \<le> ?m" "?m < 6000" "?m * 60000 = \<bar>off t\<bar>"
    using assms(1) [of t] assms(2) [of t] div_bounds [of 60000 "\<bar>off t\<bar>"] by simp_all
  have v: "valid_date (cp_year ?p) (cp_month ?p) (cp_day ?p)"
    "valid_time (cp_hour ?p) (cp_minute ?p) (cp_second ?p) (cp_millisecond ?p)"
    using valid_parts_of_epoch [of "t + off t"] by (simp_all add: valid_parts_def)
  have "year_start 0 = -719528" "year_start 100000 = 35804722" by code_simp+
  moreover have "-719528 * day_ms \<le> t + off t" "t + off t < 35804722 * day_ms"
    using t assms(2) [of t] unfolding representable_def year_limits day_ms_def by linarith+
  then have "-719528 \<le> (t + off t) div day_ms" "(t + off t) div day_ms < 35804722"
    using div_bounds [of day_ms "t + off t"] unfolding day_ms_def by linarith+
  ultimately have y: "0 \<le> cp_year ?p" "cp_year ?p < 100000"
    unfolding year_of_parts using year_of_day_ge [of 0 "(t + off t) div day_ms"]
      year_of_day_ge [of 100000 "(t + off t) div day_ms"] by linarith+
  note vb = valid_date_bounds [OF v(1)]
  have name: "offset_name (''GMT'' @ (if off t < 0 then ''-'' else ''+'') @ digits 2 (nat (?m div 60)) @ '':''
           @ digits 2 (nat (?m mod 60))) = Some (off t)"
    unfolding offset_name_text [OF m(1,2)] using m(3) by auto
  have n: "number_part (Some (digits 5 (nat (cp_year ?p)))) = Some (cp_year ?p)"
    "number_part (Some (digits 2 (nat (cp_month ?p)))) = Some (cp_month ?p)"
    "number_part (Some (digits 2 (nat (cp_day ?p)))) = Some (cp_day ?p)"
    "number_part (Some (digits 2 (nat (cp_hour ?p)))) = Some (cp_hour ?p)"
    "number_part (Some (digits 2 (nat (cp_minute ?p)))) = Some (cp_minute ?p)"
    "number_part (Some (digits 2 (nat (cp_second ?p)))) = Some (cp_second ?p)"
    "number_part (Some (digits 3 (nat (cp_millisecond ?p)))) = Some (cp_millisecond ?p)"
    using y vb v(2) by (intro number_part_digits; simp add: valid_time_def)+
  show "local_projection (zone_format off) t =
      Inr \<lparr>pr_fields = map Some (field_list ?p), pr_offset = off t\<rparr>"
    unfolding local_projection_def zone_format_def Let_def field_list_def
    by (simp del: append_Cons append_Nil add: n name)
qed

theorem offset_instant_reads_back_witness:
  "parse_offset_instant ''2024-01-01T05:30:00.000+05:30'' = Inr 1704067200000"
proof -
  have "\<bar>330 :: int\<bar> < 1440" "representable (1704067200000 + 330 * 60000)" by code_simp+
  moreover have "offset_text 1704067200000 330 = ''2024-01-01T05:30:00.000+05:30''" by code_simp
  ultimately show ?thesis using offset_instant_reads_back [of 330 1704067200000] by simp
qed

text \<open>A zone that leaves summer time at 2024-10-27T01:00Z.\<close>

definition example_zone :: "int \<Rightarrow> int" where
  "example_zone t = (if t < 1729990800000 then 7200000 else 3600000)"

theorem local_instant_first_witness:
  "resolve_local_instant (zone_format example_zone)
     \<lparr>cp_year = 2024, cp_month = 10, cp_day = 27, cp_hour = 2, cp_minute = 30, cp_second = 0, cp_millisecond = 0\<rparr>
   = Inr 1729989000000"
proof -
  let ?p = "\<lparr>cp_year = 2024, cp_month = 10, cp_day = 27, cp_hour = 2, cp_minute = 30, cp_second = 0, cp_millisecond = 0\<rparr>"
  have zone: "zone_model (zone_format example_zone) example_zone"
    by (rule zone_format_model) (simp_all add: example_zone_def)
  have local: "parts_of_epoch 1729996200000 = ?p" by code_simp
  have samples: "set (map example_zone (sample_epochs 1729996200000)) = {7200000, 3600000}" by code_simp
  have "example_zone u \<in> set (map example_zone (sample_epochs 1729996200000))" for u
    unfolding samples by (simp add: example_zone_def)
  moreover have "shows_local example_zone 1729996200000 1729989000000"
    unfolding shows_local_def by code_simp
  moreover have "1729989000000 \<le> u" if "shows_local example_zone 1729996200000 u" for u
    using that by (auto simp: shows_local_def example_zone_def split: if_splits)
  ultimately show ?thesis
    using local_instant_first [OF zone local, of 1729989000000] by blast
qed

end
