(* ===== verification/Tool_Pairing.thy ===== *)
theory Tool_Pairing
  imports Session_Log
begin

text \<open>
  Which cuts of the surface no tool call crosses,
  \<^verbatim>\<open>packages/compaction/compaction/src/tool-pairing.ts\<close>. Every session has a
  cached balance of its cuts that is extended as the surface grows and rebuilt after a
  replacement. The lemmas show that the cache always equals a count over the current surface.
\<close>

section \<open>State\<close>

datatype pairing_error =
    NoMatchingEvent int
  | ResultWithoutCall int
  | NotOnSurface int
  | SurfaceUnreadable surface_error

text \<open>Cut \<open>i\<close> lies before node \<open>i\<close>; the last cut lies after the last node.\<close>

record balance_cache =
  bc_generation :: nat
  bc_cuts :: "bool list"
  bc_index :: "(int \<times> nat) list"
  bc_calls :: int

text \<open>A session with its entry in the map of caches.\<close>

record paired_session =
  ps_session :: session_obj
  ps_cache :: "balance_cache option"

section \<open>Operations\<close>

fun is_tool_call :: "content_block \<Rightarrow> bool" where
  "is_tool_call (ToolCallBlock _ _ _) = True"
| "is_tool_call _ = False"

fun event_delta :: "event_data \<Rightarrow> int" where
  "event_delta (AssistantMessage _ _ m _ _) = int (length (filter is_tool_call (msg_content m)))"
| "event_delta (ToolResult _ _ _ _ _) = - 1"
| "event_delta _ = 0"

definition event_for_seq :: "session_event list \<Rightarrow> int \<Rightarrow> pairing_error + session_event" where
  "event_for_seq events seq =
     (case event_at events 0 seq of
        None \<Rightarrow> Inl (NoMatchingEvent seq)
      | Some e \<Rightarrow> if ev_seq e \<noteq> seq then Inl (NoMatchingEvent seq) else Inr e)"

definition pairing_step ::
  "session_event list \<Rightarrow> int \<times> bool list \<Rightarrow> int \<Rightarrow> pairing_error + int \<times> bool list" where
  "pairing_step events acc seq =
     and_then (event_for_seq events seq) (\<lambda>e.
       let calls = fst acc + event_delta (ev_data e)
       in if calls < 0 then Inl (ResultWithoutCall seq) else Inr (calls, snd acc @ [calls = 0]))"

definition set_positions :: "nat \<Rightarrow> int list \<Rightarrow> (int \<times> nat) list \<Rightarrow> (int \<times> nat) list" where
  "set_positions start seqs index =
     foldl (\<lambda>m (seq, i). AList.update seq i m) index (zip seqs [start..<start + length seqs])"

definition extend_cache ::
  "session_event list \<Rightarrow> balance_cache \<Rightarrow> int list \<Rightarrow> pairing_error + balance_cache" where
  "extend_cache events c seqs =
     (let processed = length (bc_cuts c) - 1; unseen = drop processed seqs in
      and_then (fold_result (pairing_step events) (bc_calls c, []) unseen) (\<lambda>(calls, pending).
        Inr (c\<lparr>bc_index := set_positions processed unseen (bc_index c),
               bc_cuts := bc_cuts c @ pending, bc_calls := calls\<rparr>)))"

definition fresh_cache :: "nat \<Rightarrow> balance_cache" where
  "fresh_cache generation =
     \<lparr>bc_generation = generation, bc_cuts = [True], bc_index = [], bc_calls = 0\<rparr>"

text \<open>\<open>extendCache\<close> on the session's own log; a failure leaves the stored cache alone.\<close>

definition extend_stored ::
  "balance_cache \<Rightarrow> int list \<Rightarrow> paired_session \<Rightarrow> paired_session \<times> (pairing_error + balance_cache)" where
  "extend_stored c seqs w =
     (case session_events (ps_session w) of
        (s, events) \<Rightarrow>
          (case extend_cache events c seqs of
             Inl err \<Rightarrow> (w\<lparr>ps_session := s\<rparr>, Inl err)
           | Inr c' \<Rightarrow> (w\<lparr>ps_session := s, ps_cache := Some c'\<rparr>, Inr c')))"

definition needs_rebuild :: "nat \<Rightarrow> int list \<Rightarrow> balance_cache \<Rightarrow> bool" where
  "needs_rebuild generation seqs c \<longleftrightarrow>
     bc_generation c \<noteq> generation \<or> length seqs < length (bc_cuts c) - 1"

definition balance_cache_of ::
  "paired_session \<Rightarrow> paired_session \<times> (pairing_error + balance_cache)" where
  "balance_cache_of w =
     (case read_surface (ps_session w) of
        (s, Inl err) \<Rightarrow> (w\<lparr>ps_session := s\<rparr>, Inl (SurfaceUnreadable err))
      | (s, Inr (seqs, generation)) \<Rightarrow>
          let w1 = w\<lparr>ps_session := s\<rparr> in
          (case ps_cache w of
             None \<Rightarrow> extend_stored (fresh_cache generation) seqs w1
           | Some c \<Rightarrow>
               if needs_rebuild generation seqs c then extend_stored (fresh_cache generation) seqs w1
               else if length (bc_cuts c) - 1 < length seqs then extend_stored c seqs w1
               else (w1, Inr c)))"

definition cut_balance :: "balance_cache \<Rightarrow> int \<Rightarrow> nat \<Rightarrow> pairing_error + bool" where
  "cut_balance c seq offset =
     (case map_of (bc_index c) seq of
        None \<Rightarrow> Inl (NotOnSurface seq)
      | Some i \<Rightarrow>
          if i + offset < length (bc_cuts c) then Inr (bc_cuts c ! (i + offset))
          else Inl (NotOnSurface seq))"

definition balanced_at ::
  "nat \<Rightarrow> int \<Rightarrow> paired_session \<Rightarrow> paired_session \<times> (pairing_error + bool)" where
  "balanced_at offset seq w =
     (case balance_cache_of w of
        (w', Inl err) \<Rightarrow> (w', Inl err)
      | (w', Inr c) \<Rightarrow> (w', cut_balance c seq offset))"

definition tool_pairing_balanced_before ::
  "int \<Rightarrow> paired_session \<Rightarrow> paired_session \<times> (pairing_error + bool)" where
  "tool_pairing_balanced_before = balanced_at 0"

definition tool_pairing_balanced_after ::
  "int \<Rightarrow> paired_session \<Rightarrow> paired_session \<times> (pairing_error + bool)" where
  "tool_pairing_balanced_after = balanced_at 1"

section \<open>The count the cache stands for\<close>

text \<open>Calls still unanswered after a list of nodes.\<close>

definition open_calls :: "session_event list \<Rightarrow> int list \<Rightarrow> int" where
  "open_calls es ns = sum_list (map (\<lambda>n. event_delta (ev_data (es ! nat n))) ns)"

definition well_paired :: "session_event list \<Rightarrow> int list \<Rightarrow> bool" where
  "well_paired es ns \<longleftrightarrow> list_all (\<lambda>k. 0 \<le> open_calls es (take k ns)) [0..<Suc (length ns)]"

lemma open_calls_simps [simp]:
  "open_calls es [] = 0" "open_calls es (n # ns) = event_delta (ev_data (es ! nat n)) + open_calls es ns"
  "open_calls es (ns @ ms) = open_calls es ns + open_calls es ms"
  by (simp_all add: open_calls_def)

lemma well_paired_iff: "well_paired es ns \<longleftrightarrow> (\<forall>k \<le> length ns. 0 \<le> open_calls es (take k ns))"
  by (auto simp: well_paired_def list_all_iff less_Suc_eq_le simp del: upt_Suc)

lemma well_paired_take: "well_paired es ns \<Longrightarrow> 0 \<le> open_calls es (take k ns)"
  by (cases "k \<le> length ns") (auto simp: well_paired_iff)

text \<open>
  The same by identity: the calls a list of nodes asks for and the results it holds. On a surface
  where calls have distinct identities, and results answer distinct earlier calls, a cut with no
  open calls separates calls and results exactly.
\<close>

fun call_id :: "content_block \<Rightarrow> string option" where
  "call_id (ToolCallBlock i _ _) = Some i"
| "call_id _ = None"

fun requested :: "event_data \<Rightarrow> string option list" where
  "requested (AssistantMessage _ _ m _ _) = filter (\<lambda>i. i \<noteq> None) (map call_id (msg_content m))"
| "requested _ = []"

fun answered :: "event_data \<Rightarrow> string option list" where
  "answered (ToolResult _ _ m _ _) = [source_call_id m]"
| "answered _ = []"

definition requests :: "session_event list \<Rightarrow> int list \<Rightarrow> string option list" where
  "requests es ns = concat (map (\<lambda>n. requested (ev_data (es ! nat n))) ns)"

definition answers :: "session_event list \<Rightarrow> int list \<Rightarrow> string option list" where
  "answers es ns = concat (map (\<lambda>n. answered (ev_data (es ! nat n))) ns)"

definition matched :: "session_event list \<Rightarrow> int list \<Rightarrow> bool" where
  "matched es ns \<longleftrightarrow> distinct (requests es ns) \<and> distinct (answers es ns) \<and>
     list_all (\<lambda>k. set (answers es (take k ns)) \<subseteq> set (requests es (take k ns))) [0..<Suc (length ns)]"

definition unanswered :: "session_event list \<Rightarrow> int list \<Rightarrow> string option set" where
  "unanswered es ns = set (requests es ns) - set (answers es ns)"

lemma requests_append [simp]: "requests es (ns @ ms) = requests es ns @ requests es ms"
  and answers_append [simp]: "answers es (ns @ ms) = answers es ns @ answers es ms"
  by (simp_all add: requests_def answers_def)

lemma requested_count: "int (length (requested d)) - int (length (answered d)) = event_delta d"
proof -
  have c: "call_id b \<noteq> None \<longleftrightarrow> is_tool_call b" for b by (cases b) simp_all
  have "length (filter (\<lambda>i. i \<noteq> None) (map call_id bs)) = length (filter is_tool_call bs)" for bs
    by (simp add: filter_map comp_def c del: not_None_eq)
  then show ?thesis by (cases d) simp_all
qed

lemma open_calls_count: "open_calls es ns = int (length (requests es ns)) - int (length (answers es ns))"
  by (induction ns) (simp_all add: requests_def answers_def flip: requested_count)

lemma matched_take: "matched es ns \<Longrightarrow> set (answers es (take k ns)) \<subseteq> set (requests es (take k ns))"
proof -
  assume "matched es ns"
  moreover have "min k (length ns) \<in> set [0..<Suc (length ns)]" by (simp add: min_less_iff_disj del: upt_Suc)
  ultimately have "set (answers es (take (min k (length ns)) ns)) \<subseteq> set (requests es (take (min k (length ns)) ns))"
    unfolding matched_def list_all_iff by blast
  moreover have "take (min k (length ns)) ns = take k ns" by (simp add: min_def)
  ultimately show ?thesis by simp
qed

lemma matched_prefix: "matched es (pre @ post) \<Longrightarrow> set (answers es pre) \<subseteq> set (requests es pre)"
  using matched_take [of es "pre @ post" "length pre"] by simp

text \<open>No call is open at a cut exactly when the calls before it are the calls answered before it.\<close>

lemma balanced_cut:
  assumes "matched es (pre @ post)"
  shows "open_calls es pre = 0 \<longleftrightarrow> set (answers es pre) = set (requests es pre)"
proof -
  have d: "distinct (requests es pre)" "distinct (answers es pre)" using assms by (simp_all add: matched_def)
  show ?thesis
    unfolding open_calls_count
    using card_subset_eq [OF _ matched_prefix [OF assms]] distinct_card [OF d(1)] distinct_card [OF d(2)] by auto
qed

lemma balanced_span:
  assumes "matched es (pre @ mid @ post)" and "open_calls es pre = 0" "open_calls es (pre @ mid) = 0"
  shows "set (answers es mid) = set (requests es mid)"
proof -
  have e: "set (answers es pre) = set (requests es pre)" using balanced_cut [OF assms(1)] assms(2) by simp
  have "set (answers es (pre @ mid)) = set (requests es (pre @ mid))"
    using balanced_cut [of es "pre @ mid" post] assms(1,3) by simp
  moreover have "set (answers es pre) \<inter> set (answers es mid) = {}" "set (requests es pre) \<inter> set (requests es mid) = {}"
    using assms(1) by (auto simp: matched_def)
  ultimately show ?thesis using e by auto
qed

text \<open>The first node with a result that no call before it asked for.\<close>

definition first_unasked :: "session_event list \<Rightarrow> int list \<Rightarrow> int \<Rightarrow> bool" where
  "first_unasked es ns n \<longleftrightarrow>
     (\<exists>pre post. ns = pre @ n # post \<and> well_paired es pre \<and> open_calls es (pre @ [n]) < 0)"

lemma first_unasked_exists:
  assumes "\<not> well_paired es ns"
  obtains n where "first_unasked es ns n"
proof -
  let ?P = "\<lambda>k. k \<le> length ns \<and> open_calls es (take k ns) < 0"
  define k where "k = (LEAST k. ?P k)"
  obtain k0 where k0: "?P k0" using assms by (auto simp: well_paired_iff not_le)
  then have k: "?P k" unfolding k_def by (rule LeastI)
  have least: "\<not> ?P j" if "j < k" for j using not_less_Least that unfolding k_def by blast
  obtain j where j: "k = Suc j" using k by (cases k) auto
  have "well_paired es (take j ns)"
    unfolding well_paired_iff using least k j by (fastforce simp: min_def not_less)
  moreover have "take k ns = take j ns @ [ns ! j]" using k j by (simp add: take_Suc_conv_app_nth)
  moreover have "ns = take j ns @ ns ! j # drop (Suc j) ns" using k j by (intro id_take_nth_drop) simp
  ultimately show thesis
    using that [of "ns ! j"] k unfolding first_unasked_def by metis
qed

lemma first_unasked_not_paired:
  assumes "first_unasked es ns n"
  shows "\<not> well_paired es ns" "n \<in> set ns"
proof -
  obtain pre post where p: "ns = pre @ n # post" "open_calls es (pre @ [n]) < 0"
    using assms by (auto simp: first_unasked_def)
  have "take (Suc (length pre)) ns = pre @ [n]" using p(1) by simp
  then show "\<not> well_paired es ns" using p(2) well_paired_take [of es ns "Suc (length pre)"] by (metis not_le)
  show "n \<in> set ns" using p(1) by simp
qed

lemma first_unasked_unique:
  assumes "first_unasked es ns n" and "first_unasked es ns m"
  shows "n = m"
proof -
  obtain pre post where p: "ns = pre @ n # post" "well_paired es pre" "open_calls es (pre @ [n]) < 0"
    using assms(1) by (auto simp: first_unasked_def)
  obtain pre' post' where q: "ns = pre' @ m # post'" "well_paired es pre'" "open_calls es (pre' @ [m]) < 0"
    using assms(2) by (auto simp: first_unasked_def)
  have le: "length xs \<le> length ys"
    if "ns = xs @ a # us" "ns = ys @ b # vs" "well_paired es xs" "open_calls es (ys @ [b]) < 0" for xs ys a b us vs
  proof (rule ccontr)
    assume "\<not> length xs \<le> length ys"
    then have "take (Suc (length ys)) xs = take (Suc (length ys)) ns" using that(1) by simp
    also have "\<dots> = ys @ [b]" using that(2) by simp
    finally show False using well_paired_take [OF that(3), of "Suc (length ys)"] that(4) by simp
  qed
  have "length pre = length pre'" using le [OF p(1) q(1) p(2) q(3)] le [OF q(1) p(1) q(2) p(3)] by simp
  then show ?thesis using p(1) q(1) by simp
qed

text \<open>The nodes of a replayed log name events of the log.\<close>

definition named :: "session_event list \<Rightarrow> int list \<Rightarrow> bool" where
  "named es ns \<longleftrightarrow> (\<forall>n \<in> set ns. event_for_seq es n = Inr (es ! nat n))"

lemma named_replay: "replay es = Inr (st, reps, x) \<Longrightarrow> named es (nodes st)"
  using replay_nodes_less [of es st reps x] replay_seqs [of es]
  by (fastforce simp: named_def event_for_seq_def event_at_def)

lemma named_append [simp]: "named es (ns @ ms) \<longleftrightarrow> named es ns \<and> named es ms"
  and named_Cons [simp]: "named es (n # ns) \<longleftrightarrow> event_for_seq es n = Inr (es ! nat n) \<and> named es ns"
  and named_Nil [simp]: "named es []"
  by (auto simp: named_def)

lemma named_drop: "named es ns \<Longrightarrow> named es (drop k ns)"
  by (auto simp: named_def dest: in_set_dropD)

text \<open>One pass of the loop over named nodes.\<close>

lemma pairing_step_named:
  "event_for_seq es n = Inr e \<Longrightarrow> pairing_step es (c, cuts) n =
     (if c + event_delta (ev_data e) < 0 then Inl (ResultWithoutCall n)
      else Inr (c + event_delta (ev_data e), cuts @ [c + event_delta (ev_data e) = 0]))"
  by (simp add: pairing_step_def Let_def)

lemma all_prefixes_Cons:
  "(\<forall>j < length (n # ns). P (take (Suc j) (n # ns))) \<longleftrightarrow>
     P [n] \<and> (\<forall>j < length ns. P (n # take (Suc j) ns))"
  by (auto simp: less_Suc_eq_0_disj)

lemma pairing_fold:
  assumes "named es ms"
    and "\<forall>j < length ms. 0 \<le> c + open_calls es (take (Suc j) ms)"
  shows "fold_result (pairing_step es) (c, cuts) ms =
      Inr (c + open_calls es ms,
           cuts @ map (\<lambda>j. c + open_calls es (take (Suc j) ms) = 0) [0..<length ms])"
  using assms
proof (induction ms arbitrary: c cuts)
  case (Cons m ms)
  let ?d = "event_delta (ev_data (es ! nat m))"
  have first: "0 \<le> c + ?d" and rest: "\<forall>j < length ms. 0 \<le> (c + ?d) + open_calls es (take (Suc j) ms)"
    using Cons.prems(2) all_prefixes_Cons [of m ms "\<lambda>ns. 0 \<le> c + open_calls es ns"]
    by (simp_all add: add.assoc)
  have "map (\<lambda>j. c + open_calls es (take (Suc j) (m # ms)) = 0) [0..<length (m # ms)] =
      (c + ?d = 0) # map (\<lambda>j. c + ?d + open_calls es (take (Suc j) ms) = 0) [0..<length ms]"
    unfolding length_Cons map_upt_Suc by (simp add: add.assoc del: upt_Suc)
  then show ?case
    using Cons.IH [OF _ rest] Cons.prems(1) first by (simp add: pairing_step_named add.assoc)
qed simp

lemma pairing_fold_short:
  assumes "named es (pre @ [n])"
    and "\<forall>j < length pre. 0 \<le> c + open_calls es (take (Suc j) pre)" and "c + open_calls es (pre @ [n]) < 0"
  shows "fold_result (pairing_step es) (c, cuts) (pre @ n # post) = Inl (ResultWithoutCall n)"
  using assms
proof (induction pre arbitrary: c cuts)
  case (Cons m pre)
  let ?d = "event_delta (ev_data (es ! nat m))"
  have first: "0 \<le> c + ?d" and rest: "\<forall>j < length pre. 0 \<le> (c + ?d) + open_calls es (take (Suc j) pre)"
    using Cons.prems(2) all_prefixes_Cons [of m pre "\<lambda>ns. 0 \<le> c + open_calls es ns"]
    by (simp_all add: add.assoc)
  show ?case
    using Cons.IH [OF _ rest, of "cuts @ [c + ?d = 0]"] Cons.prems(1,3) first
    by (simp add: pairing_step_named add.assoc)
qed (simp add: pairing_step_named)

section \<open>The cache equals the count\<close>

text \<open>The cache describes the first \<open>k\<close> of the nodes.\<close>

definition balance_at :: "session_event list \<Rightarrow> int list \<Rightarrow> nat \<Rightarrow> balance_cache \<Rightarrow> bool" where
  "balance_at es ns k c \<longleftrightarrow>
     k \<le> length ns \<and> well_paired es (take k ns) \<and> bc_calls c = open_calls es (take k ns) \<and>
     bc_cuts c = map (\<lambda>i. open_calls es (take i ns) = 0) [0..<Suc k] \<and>
     (\<forall>seq. map_of (bc_index c) seq = index_of seq (take k ns))"

lemma index_of_append:
  "index_of x (xs @ ys) = (case index_of x xs of Some i \<Rightarrow> Some i
     | None \<Rightarrow> map_option (\<lambda>i. length xs + i) (index_of x ys))"
proof (induction xs)
  case Nil
  show ?case by (cases "index_of x ys") (simp_all del: index_of_None)
next
  case (Cons a xs)
  then show ?case by (cases "index_of x xs"; cases "index_of x ys") (auto simp del: index_of_None)
qed

lemma set_positions_lookup:
  assumes "distinct ns"
  shows "map_of (set_positions start ns m) x =
      (case index_of x ns of Some i \<Rightarrow> Some (start + i) | None \<Rightarrow> map_of m x)"
  using assms
proof (induction ns arbitrary: start m)
  case Nil
  then show ?case by (simp add: set_positions_def)
next
  case (Cons n ns)
  have "set_positions start (n # ns) m = set_positions (Suc start) ns (AList.update n start m)"
    by (simp add: set_positions_def upt_conv_Cons del: upt_Suc)
  moreover have "index_of n ns = None" using Cons.prems by simp
  ultimately show ?case
    using Cons by (cases "index_of x ns") (auto simp: map_of_update simp del: index_of_None)
qed

lemma fresh_cache_at [simp]: "balance_at es ns 0 (fresh_cache g)"
  by (simp add: balance_at_def fresh_cache_def well_paired_def)

lemma fresh_cache_generation [simp]: "bc_generation (fresh_cache g) = g"
  by (simp add: fresh_cache_def)

lemma extend_cache_exact:
  assumes c: "balance_at es ns k c" and ns: "named es ns" "distinct ns" and w: "well_paired es ns"
  obtains c' where "extend_cache es c ns = Inr c'" "balance_at es ns (length ns) c'"
    "bc_generation c' = bc_generation c"
proof -
  let ?ms = "drop k ns" and ?c = "open_calls es (take k ns)"
  have k: "k \<le> length ns" and len: "length (bc_cuts c) - 1 = k"
    using c by (simp_all add: balance_at_def)
  have pre: "?c + open_calls es (take j ?ms) = open_calls es (take (k + j) ns)" for j
    by (simp add: take_add flip: open_calls_simps(3))
  have ok: "\<forall>j < length ?ms. 0 \<le> ?c + open_calls es (take (Suc j) ?ms)"
    unfolding pre using well_paired_take [OF w] by blast
  let ?c' = "c\<lparr>bc_index := set_positions k ?ms (bc_index c),
      bc_cuts := bc_cuts c @ map (\<lambda>j. ?c + open_calls es (take (Suc j) ?ms) = 0) [0..<length ?ms],
      bc_calls := ?c + open_calls es ?ms\<rparr>"
  have e: "extend_cache es c ns = Inr ?c'"
    using c len pairing_fold [OF named_drop [OF ns(1)] ok, of "[]"]
    by (simp add: extend_cache_def balance_at_def Let_def)
  have cuts: "map (\<lambda>i. open_calls es (take i ns) = 0) [0..<Suc k] @
      map (\<lambda>j. ?c + open_calls es (take (Suc j) ?ms) = 0) [0..<length ?ms] =
      map (\<lambda>i. open_calls es (take i ns) = 0) [0..<Suc (length ns)]"
    unfolding pre using k by (intro nth_equalityI) (auto simp: nth_append simp del: upt_Suc)
  have "distinct ?ms" "set (take k ns) \<inter> set ?ms = {}"
    using ns(2) set_take_disj_set_drop_if_distinct [of ns k k] by simp_all
  then have apart: "index_of seq (take k ns) = None \<or> index_of seq ?ms = None" for seq
    by auto
  have index: "map_of (set_positions k ?ms (bc_index c)) seq = index_of seq ns" for seq
  proof -
    have "index_of seq ns = index_of seq (take k ns @ ?ms)" by simp
    also have "\<dots> = (case index_of seq (take k ns) of Some i \<Rightarrow> Some i
        | None \<Rightarrow> map_option (\<lambda>i. k + i) (index_of seq ?ms))"
      using k by (simp only: index_of_append length_take min_absorb2)
    also have "\<dots> = (case index_of seq ?ms of Some i \<Rightarrow> Some (k + i) | None \<Rightarrow> index_of seq (take k ns))"
      using apart [of seq]
      by (cases "index_of seq (take k ns)"; cases "index_of seq ?ms") (simp_all del: index_of_None)
    also have "\<dots> = map_of (set_positions k ?ms (bc_index c)) seq"
      using c \<open>distinct ?ms\<close> by (simp only: set_positions_lookup balance_at_def)
    finally show ?thesis ..
  qed
  have "balance_at es ns (length ns) ?c'"
    using c w index cuts pre [of "length ?ms"] k by (simp add: balance_at_def del: upt_Suc)
  then show thesis using that e by simp
qed

lemma extend_cache_fails:
  assumes c: "balance_at es ns k c" and ns: "named es ns" and w: "first_unasked es ns n"
  shows "extend_cache es c ns = Inl (ResultWithoutCall n)"
proof -
  obtain pre post where p: "ns = pre @ n # post" "well_paired es pre" "open_calls es (pre @ [n]) < 0"
    using w by (auto simp: first_unasked_def)
  have k: "k \<le> length pre"
  proof (rule ccontr)
    assume "\<not> k \<le> length pre"
    then have "take (Suc (length pre)) (take k ns) = pre @ [n]" using p(1) by simp
    moreover have "0 \<le> open_calls es (take (Suc (length pre)) (take k ns))"
      using c by (intro well_paired_take) (simp add: balance_at_def)
    ultimately show False using p(3) by simp
  qed
  let ?c = "open_calls es (take k pre)" and ?pre = "drop k pre"
  have take: "take k ns = take k pre" and drop: "drop k ns = ?pre @ n # post" using k p(1) by simp_all
  have pre: "?c + open_calls es (take j ?pre) = open_calls es (take (k + j) pre)" for j
    by (simp add: take_add flip: open_calls_simps(3))
  have "\<forall>j < length ?pre. 0 \<le> ?c + open_calls es (take (Suc j) ?pre)"
    unfolding pre using well_paired_take [OF p(2)] by blast
  moreover have "?c + open_calls es (?pre @ [n]) < 0"
    using p(3) pre [of "length ?pre"] k by simp
  moreover have "named es (?pre @ [n])" using ns p(1) named_drop [of es pre k] by simp
  ultimately have "fold_result (pairing_step es) (?c, []) (drop k ns) = Inl (ResultWithoutCall n)"
    unfolding drop using pairing_fold_short [of es ?pre n ?c "[]" post] by blast
  then show ?thesis
    using c by (auto simp: extend_cache_def balance_at_def Let_def take)
qed

lemma balance_at_covers: "balance_at es ns k c \<Longrightarrow> length (bc_cuts c) - 1 = k"
  by (simp add: balance_at_def)

section \<open>Reads and appends keep the cache coherent\<close>

definition cache_coherent :: "session_event list \<Rightarrow> balance_cache option \<Rightarrow> bool" where
  "cache_coherent es cached \<longleftrightarrow>
     (\<forall>c st reps x. cached = Some c \<and> replay es = Inr (st, reps, x) \<longrightarrow>
        bc_generation c \<le> replace_generation st \<and>
        (bc_generation c = replace_generation st \<longrightarrow> (\<exists>k. balance_at es (nodes st) k c)))"

definition paired_ok :: "paired_session \<Rightarrow> bool" where
  "paired_ok w \<longleftrightarrow> session_ok (ps_session w) \<and> cache_coherent (ss_log (ps_session w)) (ps_cache w)"

lemma open_calls_log:
  "(\<And>n. n \<in> set ns \<Longrightarrow> nat n < length es) \<Longrightarrow> open_calls (es @ xs) ns = open_calls es ns"
  by (simp add: open_calls_def nth_append cong: map_cong)

lemma balance_at_grows:
  assumes "balance_at es ns k c" and "\<And>n. n \<in> set ns \<Longrightarrow> nat n < length es"
  shows "balance_at (es @ [e]) (ns @ ms) k c"
proof -
  have k: "k \<le> length ns" using assms(1) by (simp add: balance_at_def)
  then have "open_calls (es @ [e]) (take j (ns @ ms)) = open_calls es (take j ns)" if "j \<le> k" for j
    using that assms(2) by (subst open_calls_log) (auto dest: in_set_takeD)
  moreover have "take j (take k (ns @ ms)) = take j (take k ns)" for j using k by simp
  ultimately show ?thesis
    using assms k open_calls_log [of "take j (take k ns)" es "[e]" for j]
    by (auto simp: balance_at_def well_paired_iff dest!: in_set_takeD)
qed

lemma cache_coherent_append:
  assumes "cache_coherent es cached"
  shows "cache_coherent (es @ [e]) cached"
  unfolding cache_coherent_def
proof (intro allI impI)
  fix c st' reps' x'
  assume a: "cached = Some c \<and> replay (es @ [e]) = Inr (st', reps', x')"
  then obtain st reps x ys where r: "replay es = Inr (st, reps, x)"
    "replace_generation st \<le> replace_generation st'"
    "replace_generation st = replace_generation st' \<Longrightarrow> nodes st' = nodes st @ ys"
    using replay_snoc by metis
  have old: "bc_generation c \<le> replace_generation st"
    "bc_generation c = replace_generation st \<Longrightarrow> \<exists>k. balance_at es (nodes st) k c"
    using assms a r(1) by (auto simp: cache_coherent_def)
  show "bc_generation c \<le> replace_generation st' \<and>
      (bc_generation c = replace_generation st' \<longrightarrow> (\<exists>k. balance_at (es @ [e]) (nodes st') k c))"
    using old r(2,3) balance_at_grows replay_nodes_less [OF r(1)] by fastforce
qed

lemma paired_ok_append:
  assumes "paired_ok w" and a: "append_event appending dispatch now d intent (ps_session w) = (s', r)"
  shows "paired_ok (w\<lparr>ps_session := s'\<rparr>)"
proof -
  have ok: "session_ok s'" using session_ok_append [OF _ a] assms(1) by (simp add: paired_ok_def)
  from a have "ss_log s' = ss_log (ps_session w) \<or> (\<exists>e. ss_log s' = ss_log (ps_session w) @ [e])"
    by (cases rule: append_event_cases) (auto simp: push_event_def)
  then show ?thesis
    using assms(1) ok cache_coherent_append by (auto simp: paired_ok_def)
qed

text \<open>Storing a cache that describes the current surface.\<close>

lemma cache_coherent_current:
  assumes "replay es = Inr (st, reps, x)" and "bc_generation c = replace_generation st"
    and "balance_at es (nodes st) k c"
  shows "cache_coherent es (Some c)"
  using assms by (auto simp: cache_coherent_def)

lemma extend_stored_exact:
  assumes w: "paired_ok w" and r: "replay (ss_log (ps_session w)) = Inr (st, reps, x)"
    and c: "balance_at (ss_log (ps_session w)) (nodes st) k c" "bc_generation c = replace_generation st"
  obtains (counted) w' c' where "extend_stored c (nodes st) w = (w', Inr c')" "paired_ok w'"
      "ss_log (ps_session w') = ss_log (ps_session w)"
      "well_paired (ss_log (ps_session w)) (nodes st)"
      "balance_at (ss_log (ps_session w)) (nodes st) (length (nodes st)) c'"
  | (short) w' n where "extend_stored c (nodes st) w = (w', Inl (ResultWithoutCall n))" "paired_ok w'"
      "ss_log (ps_session w') = ss_log (ps_session w)"
      "\<not> well_paired (ss_log (ps_session w)) (nodes st)" "n \<in> set (nodes st)"
      "first_unasked (ss_log (ps_session w)) (nodes st) n"
proof -
  let ?es = "ss_log (ps_session w)"
  have n: "named ?es (nodes st)" "distinct (nodes st)"
    using named_replay [OF r] fold_window_inv r by (fastforce simp: replay_def)+
  obtain s where s: "session_events (ps_session w) = (s, ?es)" "session_ok s" "ss_log s = ?es"
    using session_events_log [of "ps_session w"] w by (metis paired_ok_def surj_pair)
  show thesis
  proof (cases "well_paired ?es (nodes st)")
    case True
    then obtain c' where c': "extend_cache ?es c (nodes st) = Inr c'"
      "balance_at ?es (nodes st) (length (nodes st)) c'" "bc_generation c' = bc_generation c"
      using extend_cache_exact [OF c(1) n] by blast
    then have "paired_ok (w\<lparr>ps_session := s, ps_cache := Some c'\<rparr>)"
      using s(2,3) cache_coherent_current [OF r _ c'(2)] c(2) by (simp add: paired_ok_def)
    then show thesis
      using counted [of "w\<lparr>ps_session := s, ps_cache := Some c'\<rparr>" c'] s(1,3) c' True
      by (simp add: extend_stored_def)
  next
    case False
    then obtain m where u: "first_unasked ?es (nodes st) m" by (rule first_unasked_exists)
    then have m: "m \<in> set (nodes st)" "extend_cache ?es c (nodes st) = Inl (ResultWithoutCall m)"
      using extend_cache_fails [OF c(1) n(1)] first_unasked_not_paired(2) by blast+
    have "paired_ok (w\<lparr>ps_session := s\<rparr>)" using w s(2,3) by (simp add: paired_ok_def)
    then show thesis
      using short [of "w\<lparr>ps_session := s\<rparr>" m] s(1,3) m u False by (simp add: extend_stored_def)
  qed
qed

lemma balance_cache_exact:
  assumes w: "paired_ok w" and r: "replay (ss_log (ps_session w)) = Inr (st, reps, x)"
  obtains (counted) w' c where "balance_cache_of w = (w', Inr c)" "paired_ok w'"
      "ss_log (ps_session w') = ss_log (ps_session w)"
      "well_paired (ss_log (ps_session w)) (nodes st)"
      "balance_at (ss_log (ps_session w)) (nodes st) (length (nodes st)) c"
  | (short) w' n where "balance_cache_of w = (w', Inl (ResultWithoutCall n))" "paired_ok w'"
      "ss_log (ps_session w') = ss_log (ps_session w)"
      "\<not> well_paired (ss_log (ps_session w)) (nodes st)" "n \<in> set (nodes st)"
      "first_unasked (ss_log (ps_session w)) (nodes st) n"
proof -
  let ?es = "ss_log (ps_session w)" and ?g = "replace_generation st"
  obtain s where s: "read_surface (ps_session w) = (s, Inr (nodes st, ?g))" "session_ok s" "ss_log s = ?es"
    using read_surface_replay [OF _ r] w by (auto simp: paired_ok_def)
  let ?w = "w\<lparr>ps_session := s\<rparr>"
  have ok: "paired_ok ?w" "replay (ss_log (ps_session ?w)) = Inr (st, reps, x)"
    using w s(2,3) r by (simp_all add: paired_ok_def)
  have ext: thesis if "balance_cache_of w = extend_stored c (nodes st) ?w"
    "balance_at ?es (nodes st) k c" "bc_generation c = ?g" for c k
    using extend_stored_exact [OF ok, of k c] that s(3) counted short by auto
  have fresh: thesis if "balance_cache_of w = extend_stored (fresh_cache ?g) (nodes st) ?w"
    using ext [OF that fresh_cache_at] by simp
  show thesis
  proof (cases "ps_cache w")
    case None
    then show thesis using fresh s(1) by (simp add: balance_cache_of_def Let_def)
  next
    case (Some c)
    show thesis
    proof (cases "needs_rebuild ?g (nodes st) c")
      case True
      then show thesis using fresh s(1) Some by (simp add: balance_cache_of_def Let_def)
    next
      case False
      then obtain k where k: "balance_at ?es (nodes st) k c" "bc_generation c = ?g"
        using w r Some by (auto simp: needs_rebuild_def paired_ok_def cache_coherent_def)
      note len = balance_at_covers [OF k(1)]
      show thesis
      proof (cases "k < length (nodes st)")
        case True
        then show thesis
          using ext [OF _ k] s(1) Some False len by (simp add: balance_cache_of_def Let_def)
      next
        case covered: False
        then have full: "k = length (nodes st)" using k(1) by (simp add: balance_at_def)
        then have "balance_cache_of w = (?w, Inr c)" "well_paired ?es (nodes st)"
          using s(1) Some False len k(1) by (simp_all add: balance_cache_of_def Let_def balance_at_def)
        then show thesis using counted ok(1) k(1) s(3) full by simp
      qed
    qed
  qed
qed

section \<open>Properties\<close>

text \<open>The histories of a session and its cache: any appends and any queries, in any order.\<close>

inductive pairing_history :: "paired_session \<Rightarrow> bool" where
  opened: "session_ok s \<Longrightarrow> pairing_history \<lparr>ps_session = s, ps_cache = None\<rparr>"
| appended: "pairing_history w \<Longrightarrow> append_event appending dispatch now d intent (ps_session w) = (s', r)
    \<Longrightarrow> pairing_history (w\<lparr>ps_session := s'\<rparr>)"
| asked: "pairing_history w \<Longrightarrow> balanced_at offset seq w = (w', r) \<Longrightarrow> pairing_history w'"

lemma session_replays: "session_ok s \<Longrightarrow> \<exists>st reps x. replay (ss_log s) = Inr (st, reps, x)"
  by (auto simp: session_ok_def returns_iff)

text \<open>The answer of a query by counting: the cut \<open>offset\<close> places after the start of the node.\<close>

definition counted_balance ::
  "session_event list \<Rightarrow> int list \<Rightarrow> nat \<Rightarrow> int \<Rightarrow> pairing_error + bool" where
  "counted_balance es ns offset seq =
     (case index_of seq ns of
        None \<Rightarrow> Inl (NotOnSurface seq)
      | Some i \<Rightarrow> Inr (open_calls es (take (i + offset) ns) = 0))"

lemma cut_balance_counts:
  assumes c: "balance_at es ns (length ns) c" and "offset \<le> 1"
  shows "cut_balance c seq offset = counted_balance es ns offset seq"
proof (cases "index_of seq ns")
  case None
  moreover have "map_of (bc_index c) seq = index_of seq ns"
    using c unfolding balance_at_def by simp
  ultimately show ?thesis by (simp add: cut_balance_def counted_balance_def del: index_of_None)
next
  case (Some i)
  then have "i < length ns" using index_of_Some [OF Some] by simp
  then have i: "i + offset < Suc (length ns)" using assms(2) by simp
  have "map_of (bc_index c) seq = Some i"
    using c Some unfolding balance_at_def by simp
  moreover have cuts: "bc_cuts c = map (\<lambda>i. open_calls es (take i ns) = 0) [0..<Suc (length ns)]"
    using c unfolding balance_at_def by blast
  moreover have "bc_cuts c ! (i + offset) = (open_calls es (take (i + offset) ns) = 0)"
    unfolding cuts using i by (subst nth_map) (simp_all only: length_upt nth_upt diff_zero add_0)
  ultimately show ?thesis using i Some by (simp add: cut_balance_def counted_balance_def)
qed

lemma balanced_at_exact:
  assumes w: "paired_ok w" and r: "replay (ss_log (ps_session w)) = Inr (st, reps, x)" and "offset \<le> 1"
    and "balanced_at offset seq w = (w', res)"
  shows "paired_ok w'" and "ss_log (ps_session w') = ss_log (ps_session w)"
    and "if well_paired (ss_log (ps_session w)) (nodes st)
      then res = counted_balance (ss_log (ps_session w)) (nodes st) offset seq
      else \<exists>n. first_unasked (ss_log (ps_session w)) (nodes st) n \<and> res = Inl (ResultWithoutCall n)"
proof -
  have "paired_ok w' \<and> ss_log (ps_session w') = ss_log (ps_session w) \<and>
    (if well_paired (ss_log (ps_session w)) (nodes st)
      then res = counted_balance (ss_log (ps_session w)) (nodes st) offset seq
      else \<exists>n. first_unasked (ss_log (ps_session w)) (nodes st) n \<and> res = Inl (ResultWithoutCall n))"
    using w r
  proof (cases rule: balance_cache_exact)
    case (counted v c)
    then have "w' = v" "res = cut_balance c seq offset" using assms(4) by (simp_all add: balanced_at_def)
    then show ?thesis using cut_balance_counts [OF counted(5) assms(3), of seq] counted(2-4) by simp
  next
    case (short v n)
    then have "w' = v" "res = Inl (ResultWithoutCall n)" using assms(4) by (simp_all add: balanced_at_def)
    then show ?thesis using short(2-4,6) by auto
  qed
  then show "paired_ok w'" "ss_log (ps_session w') = ss_log (ps_session w)"
    "if well_paired (ss_log (ps_session w)) (nodes st)
      then res = counted_balance (ss_log (ps_session w)) (nodes st) offset seq
      else \<exists>n. first_unasked (ss_log (ps_session w)) (nodes st) n \<and> res = Inl (ResultWithoutCall n)"
    by blast+
qed

lemma paired_ok_asked:
  assumes w: "paired_ok w" and "balanced_at offset seq w = (w', res)"
  shows "paired_ok w'"
proof -
  obtain st reps x where r: "replay (ss_log (ps_session w)) = Inr (st, reps, x)"
    using session_replays w unfolding paired_ok_def by blast
  show ?thesis
    using w r by (cases rule: balance_cache_exact) (use assms(2) in \<open>auto simp: balanced_at_def\<close>)
qed

lemma pairing_history_ok: "pairing_history w \<Longrightarrow> paired_ok w"
proof (induction rule: pairing_history.induct)
  case (opened s)
  then show ?case by (simp add: paired_ok_def cache_coherent_def)
next
  case (appended w appending dispatch now d intent s' r)
  then show ?case using paired_ok_append by blast
next
  case (asked w offset seq w' r)
  then show ?case using paired_ok_asked by blast
qed

text \<open>C20. After any history of appends, replacements and queries, a pairing query answers from the
  cache what a count over the whole current surface gives. When no prefix of the surface holds more results than calls, the answer is whether no tool call is open at the cut before (after) the node, and
  an error for a node that is not on the surface. Otherwise both queries, whatever node they ask
  for, fail with the same error, which names the first node at which the results outnumber the
  calls. Queries leave the log alone.\<close>

theorem pairing_cache_exact:
  assumes "pairing_history w" and "replay (ss_log (ps_session w)) = Inr (st, reps, x)"
    and "tool_pairing_balanced_before seq w = (w1, before)"
    and "tool_pairing_balanced_after seq w = (w2, after)"
  shows "ss_log (ps_session w1) = ss_log (ps_session w) \<and> ss_log (ps_session w2) = ss_log (ps_session w) \<and>
    (if well_paired (ss_log (ps_session w)) (nodes st)
     then before = counted_balance (ss_log (ps_session w)) (nodes st) 0 seq \<and>
          after = counted_balance (ss_log (ps_session w)) (nodes st) 1 seq
     else \<exists>pre n post. nodes st = pre @ n # post \<and> well_paired (ss_log (ps_session w)) pre \<and>
            open_calls (ss_log (ps_session w)) (pre @ [n]) < 0 \<and>
            before = Inl (ResultWithoutCall n) \<and> after = Inl (ResultWithoutCall n))"
proof -
  note ok = pairing_history_ok [OF assms(1)]
  note b = balanced_at_exact [OF ok assms(2) _ assms(3) [unfolded tool_pairing_balanced_before_def]]
  note a = balanced_at_exact [OF ok assms(2) _ assms(4) [unfolded tool_pairing_balanced_after_def]]
  show ?thesis
  proof (cases "well_paired (ss_log (ps_session w)) (nodes st)")
    case True
    then show ?thesis using b(2,3) a(2,3) by simp
  next
    case False
    obtain n m where "first_unasked (ss_log (ps_session w)) (nodes st) n" "before = Inl (ResultWithoutCall n)"
      "first_unasked (ss_log (ps_session w)) (nodes st) m" "after = Inl (ResultWithoutCall m)"
      using b(3) a(3) False by auto
    moreover from this have "m = n" using first_unasked_unique by blast
    ultimately show ?thesis using b(2) a(2) False by (auto simp: first_unasked_def)
  qed
qed

section \<open>Instances\<close>

fun append_all :: "(event_data \<times> surface_intent) list \<Rightarrow> session_obj \<Rightarrow> session_obj" where
  "append_all [] s = s"
| "append_all ((d, intent) # rest) s = append_all rest (fst (append_event False True 1000 d intent s))"

lemma append_all_ok: "session_ok s \<Longrightarrow> session_ok (append_all xs s)"
proof (induction xs arbitrary: s)
  case (Cons x xs)
  then show ?case using session_ok_append [OF Cons.prems] by (cases x) (metis append_all.simps(2) prod.collapse)
qed simp

text \<open>A long prompt, a call with its result, and a second prompt, in one step.\<close>

definition example_tools :: session_obj where
  "example_tools =
     append_all
       [(StepStart 1 1, (None, None)),
        (UserMessage \<lparr>msg_id = ''m0'', msg_role = UserRole, msg_content = [TextBlock (replicate 120 (CHR 0xE9))],
             msg_source = UserSource\<rparr>, (None, Some append_op)),
        (AssistantMessage 1 1 (example_reply ''m1'' [ToolCallBlock ''c1'' ''bash'' ''x'']) None False, (None, Some append_op)),
        (ToolResult 1 1 \<lparr>msg_id = ''m2'', msg_role = UserRole,
             msg_content = [ToolResultBlock ''c1'' [TextBlock ''ok''] None], msg_source = ToolSource ''c1''\<rparr>
           None None, (None, Some append_op)),
        (UserMessage (example_prompt ''m3''), (None, Some append_op))]
       (blank_session (synthesized_header ''s1'' 1000))"

definition example_pairing :: paired_session where
  "example_pairing = \<lparr>ps_session = example_tools, ps_cache = None\<rparr>"

lemma example_tools_ok: "session_ok example_tools"
  unfolding example_tools_def by (intro append_all_ok session_ok_blank)

lemma example_tools_replay: "replay (ss_log example_tools) = Inr (\<lparr>nodes = [1, 2, 3, 4], replace_generation = 0\<rparr>, [], 5)"
  by code_simp

text \<open>A surface whose second node is a result nobody asked for.\<close>

definition example_orphan :: paired_session where
  "example_orphan = \<lparr>ps_session = append_all
     [(UserMessage (example_prompt ''m0''), (None, Some append_op)),
      (ToolResult 1 1 \<lparr>msg_id = ''m2'', msg_role = UserRole,
           msg_content = [ToolResultBlock ''c1'' [TextBlock ''ok''] None], msg_source = ToolSource ''c1''\<rparr>
         None None, (None, Some append_op))]
     (blank_session (synthesized_header ''s1'' 1000)), ps_cache = None\<rparr>"

lemma example_orphan_replay:
  "replay (ss_log (ps_session example_orphan)) = Inr (\<lparr>nodes = [0, 1], replace_generation = 0\<rparr>, [], 2)"
  by code_simp

lemma example_orphan_history: "pairing_history example_orphan"
  unfolding example_orphan_def by (intro opened append_all_ok session_ok_blank)

theorem pairing_cache_exact_witness:
  "snd (tool_pairing_balanced_before 3 example_pairing) = Inr False \<and>
   snd (tool_pairing_balanced_after 3 example_pairing) = Inr True \<and>
   snd (tool_pairing_balanced_after 0 example_orphan) = Inl (ResultWithoutCall 1)"
proof -
  have h: "pairing_history example_pairing"
    unfolding example_pairing_def by (rule opened [OF example_tools_ok])
  have w: "well_paired (ss_log example_tools) [1, 2, 3, 4]"
    "\<not> well_paired (ss_log (ps_session example_orphan)) [0, 1]"
    "0 \<le> open_calls (ss_log (ps_session example_orphan)) [0]" by code_simp+
  have b: "counted_balance (ss_log example_tools) [1, 2, 3, 4] 0 3 = Inr False"
    "counted_balance (ss_log example_tools) [1, 2, 3, 4] 1 3 = Inr True" by code_simp+
  have s: "ps_session example_pairing = example_tools" by (simp add: example_pairing_def)
  have "snd (tool_pairing_balanced_before 3 example_pairing) = Inr False \<and>
      snd (tool_pairing_balanced_after 3 example_pairing) = Inr True"
    using pairing_cache_exact [OF h example_tools_replay [folded s] prod.collapse [symmetric] prod.collapse [symmetric],
        where seq = 3] w(1) b
    unfolding s by simp
  moreover have "snd (tool_pairing_balanced_after 0 example_orphan) = Inl (ResultWithoutCall 1)"
    using pairing_cache_exact [OF example_orphan_history example_orphan_replay prod.collapse [symmetric]
        prod.collapse [symmetric], where seq = 0] w(2,3) by (auto simp: Cons_eq_append_conv simp flip: open_calls_def)
  ultimately show ?thesis by blast
qed

end
