(* ===== verification/Token_Surface.thy ===== *)
theory Token_Surface
  imports Session_Log
begin

text \<open>
  Token prices and the priced surface: \<^verbatim>\<open>packages/llm/token-meter/src/estimate.ts\<close> and
  \<^verbatim>\<open>packages/llm/token-meter/src/surface-fold.ts\<close>. The lemmas show that the positional fold of
  the priced surface follows the session's own surface, node by node.

  Prices are sums of text lengths, far below \<open>2^53\<close>, so they are integers here. The decimal text
  of a number that is no ordinary integer, which only an image reference or a tool schema can hold, is
  the argument \<open>digits\<close>.
\<close>

section \<open>Prices\<close>

definition ASCII_CHARS_PER_TOKEN :: int where "ASCII_CHARS_PER_TOKEN = 4"
definition BLOCK_OVERHEAD :: int where "BLOCK_OVERHEAD = 4"
definition ROLE_OVERHEAD :: int where "ROLE_OVERHEAD = 4"

definition estimate_text :: "string \<Rightarrow> int" where
  "estimate_text s =
     (let ascii = int (length (filter (\<lambda>c. (of_char c :: nat) \<le> 127) s));
          other = int (length s) - ascii
      in (ascii + (ASCII_CHARS_PER_TOKEN - 1)) div ASCII_CHARS_PER_TOKEN + other)"

text \<open>For evaluation: one pass with two counters, reading the top bit of a code unit.\<close>

fun is_ascii :: "char \<Rightarrow> bool" where
  "is_ascii (Char b0 b1 b2 b3 b4 b5 b6 b7) = (\<not> b7)"

fun count_text :: "string \<Rightarrow> int \<Rightarrow> int \<Rightarrow> int \<times> int" where
  "count_text [] a b = (a, b)"
| "count_text (c # cs) a b = (if is_ascii c then count_text cs (a + 1) b else count_text cs a (b + 1))"

lemma is_ascii_iff: "is_ascii c \<longleftrightarrow> (of_char c :: nat) \<le> 127"
  by (cases c) (auto simp: of_char_Char horner_sum_simps)

lemma count_text:
  "count_text s a b =
     (a + int (length (filter is_ascii s)), b + (int (length s) - int (length (filter is_ascii s))))"
  by (induction s arbitrary: a b) auto

lemma estimate_text_code [code]:
  "estimate_text s = (case count_text s 0 0 of (a, b) \<Rightarrow> (a + 3) div 4 + b)"
proof -
  have "filter is_ascii s = filter (\<lambda>c. (of_char c :: nat) \<le> 127) s" by (rule filter_cong) (simp_all add: is_ascii_iff)
  then show ?thesis by (simp add: estimate_text_def count_text ASCII_CHARS_PER_TOKEN_def Let_def)
qed

fun estimate_block :: "(jnum \<Rightarrow> string) \<Rightarrow> content_block \<Rightarrow> int" where
  "estimate_block digits (TextBlock s) = estimate_text s + BLOCK_OVERHEAD"
| "estimate_block digits (ReasoningBlock s) = estimate_text s + BLOCK_OVERHEAD"
| "estimate_block digits (ToolCallBlock i name args) = estimate_text name + estimate_text args + BLOCK_OVERHEAD"
| "estimate_block digits (ToolResultBlock i content e) =
     sum_list (map (estimate_block digits) content) + BLOCK_OVERHEAD"
| "estimate_block digits (ImageBlock a) =
     BLOCK_OVERHEAD + estimate_text (json_text digits (block_json (ImageBlock a)))"

definition estimate_content :: "(jnum \<Rightarrow> string) \<Rightarrow> content_block list \<Rightarrow> int" where
  "estimate_content digits bs = sum_list (map (estimate_block digits) bs)"

definition estimate_message :: "(jnum \<Rightarrow> string) \<Rightarrow> message \<Rightarrow> int" where
  "estimate_message digits m = estimate_content digits (msg_content m) + ROLE_OVERHEAD"

definition estimate_system_tokens :: "epoch_header option \<Rightarrow> int" where
  "estimate_system_tokens h =
     (case Option.bind h hdr_system of None \<Rightarrow> 0 | Some s \<Rightarrow> estimate_text s + ROLE_OVERHEAD)"

definition estimate_tools_tokens :: "(jnum \<Rightarrow> string) \<Rightarrow> epoch_header option \<Rightarrow> int" where
  "estimate_tools_tokens digits h =
     (case Option.bind h hdr_tools of
        None \<Rightarrow> 0
      | Some tools \<Rightarrow>
          if tools = [] then 0 else estimate_text (json_text digits (JArr tools)) + BLOCK_OVERHEAD)"

definition estimate_header :: "(jnum \<Rightarrow> string) \<Rightarrow> epoch_header option \<Rightarrow> int" where
  "estimate_header digits h = estimate_system_tokens h + estimate_tools_tokens digits h"

lemma overheads [simp]: "ASCII_CHARS_PER_TOKEN = 4" "BLOCK_OVERHEAD = 4" "ROLE_OVERHEAD = 4"
  by (simp_all add: ASCII_CHARS_PER_TOKEN_def BLOCK_OVERHEAD_def ROLE_OVERHEAD_def)

lemma estimate_text_bounds:
  "0 \<le> estimate_text s" "estimate_text s \<le> int (length s)" "int (length s) \<le> 4 * estimate_text s"
proof -
  let ?a = "int (length (filter (\<lambda>c. (of_char c :: nat) \<le> 127) s))"
  have a: "0 \<le> ?a" "?a \<le> int (length s)" by simp_all
  have e: "estimate_text s = (?a + 3) div 4 + (int (length s) - ?a)" by (simp add: estimate_text_def Let_def)
  from a show "0 \<le> estimate_text s" "estimate_text s \<le> int (length s)" "int (length s) \<le> 4 * estimate_text s"
    unfolding e by presburger+
qed

lemma estimate_block_nonneg: "0 \<le> estimate_block digits b"
  by (induction b) (auto intro!: add_nonneg_nonneg sum_list_nonneg simp: estimate_text_bounds)

lemma estimate_content_nonneg: "0 \<le> estimate_content digits bs"
  by (auto simp: estimate_content_def intro!: sum_list_nonneg estimate_block_nonneg)

lemma estimate_message_pos: "4 \<le> estimate_message digits m"
  using estimate_content_nonneg [of digits "msg_content m"] by (simp add: estimate_message_def)

lemma estimate_header_nonneg: "0 \<le> estimate_header digits h"
  by (auto simp: estimate_header_def estimate_system_tokens_def estimate_tools_tokens_def estimate_text_bounds
      intro!: add_nonneg_nonneg split: option.splits)

section \<open>The priced surface\<close>

record token_node =
  tn_seq :: int
  tn_tokens :: int

record surface_token_fold =
  st_tokens :: int
  st_nodes :: "token_node list"
  st_delta :: int

definition event_tokens :: "(jnum \<Rightarrow> string) \<Rightarrow> session_event \<Rightarrow> int" where
  "event_tokens digits e =
     (case derive_event_message (ev_data e) of None \<Rightarrow> 0 | Some m \<Rightarrow> estimate_message digits m)"

text \<open>\<open>findIndex(node => node.seq === bound)\<close>.\<close>

definition seq_equals :: "int \<Rightarrow> jv option \<Rightarrow> bool" where
  "seq_equals n v = (case v of Some (JNum k) \<Rightarrow> num_eq (NInt n) k | _ \<Rightarrow> False)"

fun find_node :: "jv option \<Rightarrow> token_node list \<Rightarrow> nat option" where
  "find_node v [] = None"
| "find_node v (n # ns) = (if seq_equals (tn_seq n) v then Some 0 else map_option Suc (find_node v ns))"

definition fold_surface_tokens ::
  "(jnum \<Rightarrow> string) \<Rightarrow> token_node list \<Rightarrow> session_event \<Rightarrow> int + surface_token_fold" where
  "fold_surface_tokens digits ns e =
     (let tokens = event_tokens digits e; node = \<lparr>tn_seq = ev_seq e, tn_tokens = tokens\<rparr> in
      if ev_surface_op e = Some append_op
      then Inr \<lparr>st_tokens = tokens, st_nodes = ns @ [node], st_delta = tokens\<rparr>
      else
        (case (find_node (Option.bind (ev_surface_op e) (\<lambda>op. jprop op ''start'')) ns,
               find_node (Option.bind (ev_surface_op e) (\<lambda>op. jprop op ''end'')) ns) of
           (Some i, Some j) \<Rightarrow>
             if j < i then Inl (ev_seq e)
             else Inr \<lparr>st_tokens = tokens, st_nodes = splice_one i j node ns,
                       st_delta = tokens - sum_list (map tn_tokens (slice_incl i j ns))\<rparr>
         | _ \<Rightarrow> Inl (ev_seq e)))"

section \<open>It follows the session's surface\<close>

text \<open>The priced form of surface nodes of a log.\<close>

definition priced_nodes :: "(jnum \<Rightarrow> string) \<Rightarrow> session_event list \<Rightarrow> int list \<Rightarrow> token_node list" where
  "priced_nodes digits es ns = map (\<lambda>n. \<lparr>tn_seq = n, tn_tokens = event_tokens digits (es ! nat n)\<rparr>) ns"

definition surface_price :: "(jnum \<Rightarrow> string) \<Rightarrow> session_event list \<Rightarrow> int list \<Rightarrow> int" where
  "surface_price digits es ns = sum_list (map (\<lambda>n. event_tokens digits (es ! nat n)) ns)"

lemma priced_simps [simp]:
  "map tn_seq (priced_nodes digits es ns) = ns"
  "length (priced_nodes digits es ns) = length ns"
  "sum_list (map tn_tokens (priced_nodes digits es ns)) = surface_price digits es ns"
  by (simp_all add: priced_nodes_def surface_price_def comp_def)

lemma event_tokens_nonneg: "0 \<le> event_tokens digits e"
  using estimate_message_pos [of digits]
  by (auto simp: event_tokens_def split: option.splits) (meson order_trans zero_le_numeral)

lemma surface_price_nonneg: "0 \<le> surface_price digits es ns"
  by (auto simp: surface_price_def event_tokens_nonneg intro!: sum_list_nonneg)

lemma surface_price_append [simp]:
  "surface_price digits es (ns @ ms) = surface_price digits es ns + surface_price digits es ms"
  by (simp add: surface_price_def)

lemma priced_log:
  "(\<And>n. n \<in> set ns \<Longrightarrow> nat n < length es) \<Longrightarrow> priced_nodes digits (es @ xs) ns = priced_nodes digits es ns"
  "(\<And>n. n \<in> set ns \<Longrightarrow> nat n < length es) \<Longrightarrow> surface_price digits (es @ xs) ns = surface_price digits es ns"
  by (simp_all add: priced_nodes_def surface_price_def nth_append cong: map_cong)

lemma find_node_index:
  assumes "is_event_seq v"
  shows "find_node (Some v) (priced_nodes digits es ns) = index_of (seq_of v) ns"
proof -
  obtain k where v: "v = JNum k" using assms by (cases v) auto
  have "seq_equals n (Some v) \<longleftrightarrow> seq_of v = n" for n
    using assms v by (cases k) (auto simp: seq_equals_def)
  then show ?thesis by (induction ns) (simp_all add: priced_nodes_def)
qed

lemma priced_splice:
  assumes "i \<le> j"
  shows "splice_one i j \<lparr>tn_seq = m, tn_tokens = event_tokens digits (es ! nat m)\<rparr> (priced_nodes digits es ns) =
    priced_nodes digits es (splice_one i j m ns)"
  by (simp add: splice_one_def priced_nodes_def take_map drop_map)

lemma slice_price: "sum_list (map tn_tokens (slice_incl i j (priced_nodes digits es ns))) =
    surface_price digits es (slice_incl i j ns)"
  by (simp add: slice_incl_def priced_nodes_def take_map drop_map surface_price_def comp_def)

lemma splice_price:
  "i \<le> j \<Longrightarrow> surface_price digits es (splice_one i j m ns) =
     surface_price digits es ns + event_tokens digits (es ! nat m) - surface_price digits es (slice_incl i j ns)"
proof -
  assume "i \<le> j"
  then have "surface_price digits es ns = surface_price digits es (take i ns) +
      surface_price digits es (slice_incl i j ns) + surface_price digits es (drop (Suc j) ns)"
    using slice_decomp [of i j ns] by (metis surface_price_append add.assoc)
  then show ?thesis by (simp add: splice_one_def) (simp add: surface_price_def)
qed

lemma replay_distinct: "replay es = Inr (st, reps, x) \<Longrightarrow> distinct (nodes st)"
  using fold_window_inv by (fastforce simp: replay_def)

lemma fold_surface_tokens_replace:
  assumes "ev_surface_op e = Some op" "op \<noteq> append_op" "i \<le> j"
    and "find_node (jprop op ''start'') ns = Some i" "find_node (jprop op ''end'') ns = Some j"
  shows "fold_surface_tokens digits ns e =
    Inr \<lparr>st_tokens = event_tokens digits e,
         st_nodes = splice_one i j \<lparr>tn_seq = ev_seq e, tn_tokens = event_tokens digits e\<rparr> ns,
         st_delta = event_tokens digits e - sum_list (map tn_tokens (slice_incl i j ns))\<rparr>"
  using assms by (simp add: fold_surface_tokens_def Let_def)

text \<open>One accepted event moves the priced surface exactly as it moves the session's.\<close>

lemma fold_surface_tokens_follows:
  assumes r: "replay (es @ [e]) = Inr (st', reps', x')" "replay es = Inr (st, reps, x)"
    and surf: "is_surface_event e"
  shows "fold_surface_tokens digits (priced_nodes digits es (nodes st)) e =
    Inr \<lparr>st_tokens = event_tokens digits e, st_nodes = priced_nodes digits (es @ [e]) (nodes st'),
         st_delta = surface_price digits (es @ [e]) (nodes st') - surface_price digits es (nodes st)\<rparr>"
proof -
  have seq: "ev_seq e = int (length es)" using replay_seqs [OF r(1), of "length es"] by simp
  have named: "nat n < length es" if "n \<in> set (nodes st)" for n
    using replay_nodes_less [OF r(2) that] by simp
  have e: "event_tokens digits ((es @ [e]) ! nat (int (length es))) = event_tokens digits e" by simp
  have old: "priced_nodes digits es (nodes st) = priced_nodes digits (es @ [e]) (nodes st)"
    "surface_price digits es (nodes st) = surface_price digits (es @ [e]) (nodes st)"
    using priced_log [OF named] by simp_all
  from r show ?thesis
  proof (cases rule: replay_surface_cases)
    case joined
    then show ?thesis unfolding old
      by (simp add: fold_surface_tokens_def Let_def seq priced_nodes_def surface_price_def)
  next
    case (spliced op i j)
    have ev: "is_event_seq (the (jprop op ''start''))" "is_event_seq (the (jprop op ''end''))"
      "jprop op ''start'' = Some (the (jprop op ''start''))" "jprop op ''end'' = Some (the (jprop op ''end''))"
      using spliced(4) by (auto simp: is_replace_op_def split: option.splits)
    have ij: "index_of (seq_of (the (jprop op ''start''))) (nodes st) = Some i"
      "index_of (seq_of (the (jprop op ''end''))) (nodes st) = Some j"
      using index_of_nth [OF replay_distinct [OF r(2)]] spliced(5-8) by (metis le_less_trans)+
    have find: "find_node (jprop op ''start'') (priced_nodes digits es (nodes st)) = Some i"
      "find_node (jprop op ''end'') (priced_nodes digits es (nodes st)) = Some j"
      using find_node_index [OF ev(1)] find_node_index [OF ev(2)] ij ev(3,4) by metis+
    let ?es = "es @ [e]" and ?node = "\<lparr>tn_seq = int (length es), tn_tokens = event_tokens digits e\<rparr>"
    have folded: "fold_surface_tokens digits (priced_nodes digits es (nodes st)) e =
        Inr \<lparr>st_tokens = event_tokens digits e, st_nodes = splice_one i j ?node (priced_nodes digits es (nodes st)),
             st_delta = event_tokens digits e -
               sum_list (map tn_tokens (slice_incl i j (priced_nodes digits es (nodes st))))\<rparr>"
      using fold_surface_tokens_replace [OF spliced(2,3,5) find, of digits] unfolding seq .
    have spliced_nodes: "splice_one i j ?node (priced_nodes digits es (nodes st)) = priced_nodes digits ?es (nodes st')"
      using priced_splice [OF spliced(5), of "int (length es)" digits ?es "nodes st"]
      unfolding e old(1) [symmetric] spliced(9) .
    have difference: "event_tokens digits e - sum_list (map tn_tokens (slice_incl i j (priced_nodes digits es (nodes st)))) =
        surface_price digits ?es (nodes st') - surface_price digits es (nodes st)"
      using splice_price [OF spliced(5), of digits ?es "int (length es)" "nodes st"]
      unfolding e old(2) spliced(9) old(1) slice_price by linarith
    show ?thesis by (rule folded [unfolded spliced_nodes difference])
  qed (use surf in simp)
qed

end
