(* ===== verification/Block_Assembler.thy ===== *)
theory Block_Assembler
  imports Session_Types
begin

text \<open>
  The incremental chunk-to-message assembler, \<^verbatim>\<open>packages/llm/llm/src/assembler.ts\<close>. The lemmas
  show that feeding chunks one by one yields what a declarative reading of the whole stream names:
  one block per index in first-seen order, closed by its first \<open>block-end\<close>, otherwise the
  concatenation of its deltas; and that replay metadata stays aligned with the emitted blocks.
\<close>

section \<open>State\<close>

record partial_block =
  pb_type :: string
  pb_text :: string
  pb_call_id :: "string option"
  pb_call_name :: "string option"
  pb_arguments :: string
  pb_block :: "content_block option"

record assembler =
  as_partials :: "jnum \<Rightarrow> partial_block option"
  as_order :: "jnum list"
  as_usage :: "token_usage option"
  as_finish :: "jv option"
  as_replay :: "jv option"

definition new_assembler :: assembler where
  "new_assembler =
     \<lparr>as_partials = (\<lambda>_. None), as_order = [], as_usage = None, as_finish = None, as_replay = None\<rparr>"

definition new_partial :: "string \<Rightarrow> partial_block" where
  "new_partial t =
     \<lparr>pb_type = t, pb_text = [], pb_call_id = None, pb_call_name = None, pb_arguments = [], pb_block = None\<rparr>"

text \<open>A \<open>Map\<close> does not tell the two zeros apart, and they print the same.\<close>

definition map_key :: "jnum \<Rightarrow> jnum" where
  "map_key n = (if n = NNegZero then NInt 0 else n)"

fun block_type :: "content_block \<Rightarrow> string" where
  "block_type (TextBlock _) = ''text''"
| "block_type (ReasoningBlock _) = ''reasoning''"
| "block_type (ImageBlock _) = ''image''"
| "block_type (ToolCallBlock _ _ _) = ''tool-call''"
| "block_type (ToolResultBlock _ _ _) = ''tool-result''"

section \<open>Feeding chunks\<close>

definition ensure :: "jnum \<Rightarrow> string \<Rightarrow> assembler \<Rightarrow> assembler" where
  "ensure index t a =
     (case as_partials a (map_key index) of
        Some _ \<Rightarrow> a
      | None \<Rightarrow> a\<lparr>as_partials := (as_partials a)(map_key index \<mapsto> new_partial t),
                  as_order := as_order a @ [map_key index]\<rparr>)"

definition with_partial :: "jnum \<Rightarrow> (partial_block \<Rightarrow> partial_block) \<Rightarrow> assembler \<Rightarrow> assembler" where
  "with_partial index f a =
     (case as_partials a (map_key index) of
        None \<Rightarrow> a
      | Some p \<Rightarrow>
          if pb_block p \<noteq> None then a
          else a\<lparr>as_partials := (as_partials a)(map_key index \<mapsto> f p)\<rparr>)"

fun push_chunk :: "stream_chunk \<Rightarrow> assembler \<Rightarrow> assembler" where
  "push_chunk (BlockStart index t) a = ensure index t a"
| "push_chunk (TextDelta index s) a =
     with_partial index (\<lambda>p. p\<lparr>pb_text := pb_text p @ s\<rparr>) (ensure index ''text'' a)"
| "push_chunk (ReasoningDelta index s) a =
     with_partial index (\<lambda>p. p\<lparr>pb_text := pb_text p @ s\<rparr>) (ensure index ''reasoning'' a)"
| "push_chunk (ToolCallDelta index call name args) a =
     with_partial index
       (\<lambda>p. p\<lparr>pb_call_id := Some call,
               pb_call_name := (case name of Some (c # cs) \<Rightarrow> Some (c # cs) | _ \<Rightarrow> pb_call_name p),
               pb_arguments := pb_arguments p @ args\<rparr>)
       (ensure index ''tool-call'' a)"
| "push_chunk (BlockEnd index block) a =
     with_partial index (\<lambda>p. p\<lparr>pb_block := Some block\<rparr>) (ensure index (block_type block) a)"
| "push_chunk (UsageChunk u) a = a\<lparr>as_usage := Some u\<rparr>"
| "push_chunk (FinishChunk reason replay) a = a\<lparr>as_finish := Some reason, as_replay := replay\<rparr>"

definition feed :: "stream_chunk list \<Rightarrow> assembler \<Rightarrow> assembler" where
  "feed chunks a = fold push_chunk chunks a"

section \<open>Assembling\<close>

datatype assembly_error = IncompleteBlock string | MissingPartial jnum

definition assemble :: "(jnum \<Rightarrow> string) \<Rightarrow> partial_block \<Rightarrow> jnum \<Rightarrow> assembly_error + content_block" where
  "assemble digits p index =
     (case pb_block p of
        Some block \<Rightarrow> Inr block
      | None \<Rightarrow>
          if pb_type p = ''text'' then Inr (TextBlock (pb_text p))
          else if pb_type p = ''reasoning'' then Inr (ReasoningBlock (pb_text p))
          else if pb_type p = ''tool-call''
          then Inr (ToolCallBlock
            (case pb_call_id p of Some i \<Rightarrow> i | None \<Rightarrow> ''call-'' @ number_text digits index)
            (case pb_call_name p of Some n \<Rightarrow> n | None \<Rightarrow> []) (pb_arguments p))
          else Inl (IncompleteBlock (pb_type p)))"

definition must_get :: "assembler \<Rightarrow> jnum \<Rightarrow> assembly_error + partial_block" where
  "must_get a index =
     (case as_partials a index of None \<Rightarrow> Inl (MissingPartial index) | Some p \<Rightarrow> Inr p)"

definition finish_of :: "assembler \<Rightarrow> jv" where
  "finish_of a = (case as_finish a of Some f \<Rightarrow> f | None \<Rightarrow> JObj [(''kind'', JStr ''stop'')])"

fun is_call_block :: "content_block \<Rightarrow> bool" where
  "is_call_block (ToolCallBlock _ _ _) = True"
| "is_call_block _ = False"

text \<open>The elements at the kept positions.\<close>

definition keep :: "bool list \<Rightarrow> 'a list \<Rightarrow> 'a list" where
  "keep kept xs = map snd (filter fst (zip kept xs))"

definition every_block :: "(jnum \<Rightarrow> string) \<Rightarrow> assembler \<Rightarrow> assembly_error + content_block list" where
  "every_block digits a =
     traverse (\<lambda>index. and_then (must_get a index) (\<lambda>p. assemble digits p index)) (as_order a)"

text \<open>The one decision both the blocks and the replay metadata derive from.\<close>

definition kept_positions :: "assembler \<Rightarrow> content_block list \<Rightarrow> bool list option" where
  "kept_positions a every =
     (if jprop (finish_of a) ''kind'' = Some (JStr ''max-tokens'')
      then Some (map (\<lambda>b. \<not> is_call_block b) every) else None)"

definition kept_blocks :: "bool list option \<Rightarrow> content_block list \<Rightarrow> content_block list" where
  "kept_blocks kept every = (case kept of None \<Rightarrow> every | Some ks \<Rightarrow> keep ks every)"

definition kept_replay :: "jv option \<Rightarrow> bool list option \<Rightarrow> content_block list \<Rightarrow> jv option" where
  "kept_replay envelope kept every =
     (case envelope of
        None \<Rightarrow> None
      | Some env \<Rightarrow>
          (case jprop env ''blocks'' of
             None \<Rightarrow> Some env
           | Some (JArr entries) \<Rightarrow>
               if length entries \<noteq> length every then None
               else (case kept of
                 None \<Rightarrow> Some env
               | Some ks \<Rightarrow>
                   if length (keep ks every) = length every then Some env
                   else Some (JObj (opt_field ''response'' id (jprop env ''response'')
                          @ [(''blocks'', JArr (keep ks entries))])))
           | Some _ \<Rightarrow> None))"

definition assembled :: "(jnum \<Rightarrow> string) \<Rightarrow> assembler \<Rightarrow> assembly_error + content_block list \<times> jv option" where
  "assembled digits a =
     and_then (every_block digits a) (\<lambda>every.
       let kept = kept_positions a every
       in Inr (kept_blocks kept every, kept_replay (as_replay a) kept every))"

definition blocks_of :: "(jnum \<Rightarrow> string) \<Rightarrow> assembler \<Rightarrow> assembly_error + content_block list" where
  "blocks_of digits a = and_then (assembled digits a) (\<lambda>r. Inr (fst r))"

definition replay_state_of :: "(jnum \<Rightarrow> string) \<Rightarrow> assembler \<Rightarrow> assembly_error + jv option" where
  "replay_state_of digits a = and_then (assembled digits a) (\<lambda>r. Inr (snd r))"

definition speaks :: "content_block \<Rightarrow> bool" where
  "speaks b = (case b of TextBlock s \<Rightarrow> trim s \<noteq> [] | ReasoningBlock s \<Rightarrow> trim s \<noteq> [] | _ \<Rightarrow> False)"

text \<open>What an interrupted stream can safely finalize.\<close>

definition interrupted_block :: "(jnum \<Rightarrow> string) \<Rightarrow> assembler \<Rightarrow> jnum \<Rightarrow> assembly_error + content_block option" where
  "interrupted_block digits a index =
     and_then (must_get a index) (\<lambda>p.
       let t = (case pb_block p of Some b \<Rightarrow> block_type b | None \<Rightarrow> pb_type p) in
       if t \<noteq> ''text'' \<and> t \<noteq> ''reasoning'' then Inr None
       else and_then (assemble digits p index) (\<lambda>b. Inr (Some b)))"

definition interrupted_blocks :: "(jnum \<Rightarrow> string) \<Rightarrow> assembler \<Rightarrow> assembly_error + content_block list" where
  "interrupted_blocks digits a =
     and_then (traverse (interrupted_block digits a) (as_order a)) (\<lambda>found.
       Inr (filter speaks (List.map_filter id found)))"

definition assembled_message ::
  "(jnum \<Rightarrow> string) \<Rightarrow> string \<Rightarrow> message_source \<Rightarrow> assembler \<Rightarrow> assembly_error + message" where
  "assembled_message digits mid source a =
     and_then (blocks_of digits a) (\<lambda>blocks.
       Inr \<lparr>msg_id = mid, msg_role = AssistantRole, msg_content = blocks, msg_source = source\<rparr>)"

section \<open>A declarative reading of a stream\<close>

fun chunk_index :: "stream_chunk \<Rightarrow> jnum option" where
  "chunk_index (BlockStart index _) = Some (map_key index)"
| "chunk_index (TextDelta index _) = Some (map_key index)"
| "chunk_index (ReasoningDelta index _) = Some (map_key index)"
| "chunk_index (ToolCallDelta index _ _ _) = Some (map_key index)"
| "chunk_index (BlockEnd index _) = Some (map_key index)"
| "chunk_index _ = None"

fun opening_type :: "stream_chunk \<Rightarrow> string" where
  "opening_type (BlockStart _ t) = t"
| "opening_type (ReasoningDelta _ _) = ''reasoning''"
| "opening_type (ToolCallDelta _ _ _ _) = ''tool-call''"
| "opening_type (BlockEnd _ b) = block_type b"
| "opening_type _ = ''text''"

fun closing_block :: "stream_chunk \<Rightarrow> content_block option" where
  "closing_block (BlockEnd _ b) = Some b"
| "closing_block _ = None"

fun delta_text :: "stream_chunk \<Rightarrow> string" where
  "delta_text (TextDelta _ s) = s"
| "delta_text (ReasoningDelta _ s) = s"
| "delta_text _ = []"

fun delta_arguments :: "stream_chunk \<Rightarrow> string" where
  "delta_arguments (ToolCallDelta _ _ _ s) = s"
| "delta_arguments _ = []"

fun delta_call :: "stream_chunk \<Rightarrow> string option" where
  "delta_call (ToolCallDelta _ call _ _) = Some call"
| "delta_call _ = None"

fun delta_name :: "stream_chunk \<Rightarrow> string option" where
  "delta_name (ToolCallDelta _ _ (Some (c # cs)) _) = Some (c # cs)"
| "delta_name _ = None"

fun usage_of :: "stream_chunk \<Rightarrow> token_usage option" where
  "usage_of (UsageChunk u) = Some u"
| "usage_of _ = None"

fun finish_reason :: "stream_chunk \<Rightarrow> (jv \<times> jv option) option" where
  "finish_reason (FinishChunk r env) = Some (r, env)"
| "finish_reason _ = None"

text \<open>The value the last element that has one gives, and the first.\<close>

definition last_some :: "('a \<Rightarrow> 'b option) \<Rightarrow> 'a list \<Rightarrow> 'b option" where
  "last_some f xs = (case List.map_filter f (rev xs) of [] \<Rightarrow> None | y # _ \<Rightarrow> Some y)"

definition first_some :: "('a \<Rightarrow> 'b option) \<Rightarrow> 'a list \<Rightarrow> 'b option" where
  "first_some f xs = (case List.map_filter f xs of [] \<Rightarrow> None | y # _ \<Rightarrow> Some y)"

text \<open>The chunks of one index, those of them before the first that closes it, and the block they name.\<close>

definition chunks_at :: "stream_chunk list \<Rightarrow> jnum \<Rightarrow> stream_chunk list" where
  "chunks_at cs k = filter (\<lambda>c. chunk_index c = Some k) cs"

definition before_close :: "stream_chunk list \<Rightarrow> stream_chunk list" where
  "before_close cs = takeWhile (\<lambda>c. closing_block c = None) cs"

definition reference_partial :: "stream_chunk list \<Rightarrow> partial_block" where
  "reference_partial cs =
     \<lparr>pb_type = opening_type (hd cs), pb_text = concat (map delta_text (before_close cs)),
      pb_call_id = last_some delta_call (before_close cs), pb_call_name = last_some delta_name (before_close cs),
      pb_arguments = concat (map delta_arguments (before_close cs)), pb_block = first_some closing_block cs\<rparr>"

definition first_seen :: "stream_chunk list \<Rightarrow> jnum list" where
  "first_seen cs = rev (remdups (rev (List.map_filter chunk_index cs)))"

definition truncated_stream :: "stream_chunk list \<Rightarrow> bool" where
  "truncated_stream cs \<longleftrightarrow>
     (case last_some finish_reason cs of None \<Rightarrow> False
      | Some (r, _) \<Rightarrow> jprop r ''kind'' = Some (JStr ''max-tokens''))"

definition reference_blocks :: "(jnum \<Rightarrow> string) \<Rightarrow> stream_chunk list \<Rightarrow> assembly_error + content_block list" where
  "reference_blocks digits cs =
     and_then (traverse (\<lambda>k. assemble digits (reference_partial (chunks_at cs k)) k) (first_seen cs)) (\<lambda>every.
       Inr (if truncated_stream cs then filter (\<lambda>b. \<not> is_call_block b) every else every))"

section \<open>The assembler computes it\<close>

lemma last_some_snoc: "last_some f (xs @ [x]) = (case f x of None \<Rightarrow> last_some f xs | Some y \<Rightarrow> Some y)"
  by (simp add: last_some_def List.map_filter_def split: option.splits)

lemma first_some_snoc: "first_some f (xs @ [x]) = (case first_some f xs of None \<Rightarrow> f x | Some y \<Rightarrow> Some y)"
  by (auto simp: first_some_def List.map_filter_def split: option.splits list.splits)

lemma some_Nil [simp]: "last_some f [] = None" "first_some f [] = None"
  by (simp_all add: last_some_def first_some_def List.map_filter_def)

lemma first_some_None: "first_some f xs = None \<longleftrightarrow> (\<forall>x \<in> set xs. f x = None)"
  by (induction xs) (auto simp: first_some_def List.map_filter_def split: option.splits list.splits)

lemma before_close_open: "first_some closing_block cs = None \<Longrightarrow> before_close cs = cs"
  by (simp add: before_close_def first_some_None takeWhile_eq_all_conv)

lemma before_close_snoc:
  "before_close (cs @ [c]) =
     (if first_some closing_block cs = None \<and> closing_block c = None then cs @ [c] else before_close cs)"
proof (cases "first_some closing_block cs = None")
  case True
  have "before_close (cs @ [c]) = cs @ takeWhile (\<lambda>c. closing_block c = None) [c]"
    unfolding before_close_def using True by (intro takeWhile_append2) (simp add: first_some_None)
  then show ?thesis using before_close_open [OF True] True by simp
next
  case False
  then obtain x where "x \<in> set cs" "closing_block x \<noteq> None" by (auto simp: first_some_None)
  then have "before_close (cs @ [c]) = before_close cs" by (simp add: before_close_def takeWhile_append1)
  then show ?thesis using False by (simp only: if_False simp_thms)
qed

fun partial_step :: "stream_chunk \<Rightarrow> partial_block \<Rightarrow> partial_block" where
  "partial_step (TextDelta _ s) p = p\<lparr>pb_text := pb_text p @ s\<rparr>"
| "partial_step (ReasoningDelta _ s) p = p\<lparr>pb_text := pb_text p @ s\<rparr>"
| "partial_step (ToolCallDelta _ call name args) p =
     p\<lparr>pb_call_id := Some call,
       pb_call_name := (case name of Some (c # cs) \<Rightarrow> Some (c # cs) | _ \<Rightarrow> pb_call_name p),
       pb_arguments := pb_arguments p @ args\<rparr>"
| "partial_step (BlockEnd _ block) p = p\<lparr>pb_block := Some block\<rparr>"
| "partial_step _ p = p"

lemma map_key_idem [simp]: "map_key (map_key k) = map_key k"
  by (simp add: map_key_def)

lemma delta_name_tool: "delta_name (ToolCallDelta i call name args) =
    (case name of Some (c # cs) \<Rightarrow> Some (c # cs) | _ \<Rightarrow> None)"
  by (cases name) (auto split: list.splits)

lemma reference_snoc:
  "cs \<noteq> [] \<Longrightarrow> chunk_index c \<noteq> None \<Longrightarrow> reference_partial (cs @ [c]) =
     (if first_some closing_block cs \<noteq> None then reference_partial cs
      else partial_step c (reference_partial cs))"
  by (cases c)
    (auto simp: reference_partial_def before_close_snoc first_some_snoc before_close_open last_some_snoc
      delta_name_tool split: option.splits list.splits)

lemma reference_single:
  "chunk_index c \<noteq> None \<Longrightarrow> reference_partial [c] = partial_step c (new_partial (opening_type c))"
  using before_close_snoc [of "[]" c] first_some_snoc [of closing_block "[]" c]
    last_some_snoc [of delta_call "[]" c] last_some_snoc [of delta_name "[]" c]
  by (cases c)
    (auto simp: reference_partial_def new_partial_def delta_name_tool before_close_def split: option.splits list.splits)

text \<open>The state after any stream.\<close>

definition reference_state :: "stream_chunk list \<Rightarrow> assembler" where
  "reference_state cs =
     \<lparr>as_partials = (\<lambda>k. if chunks_at cs k = [] then None else Some (reference_partial (chunks_at cs k))),
      as_order = first_seen cs, as_usage = last_some usage_of cs,
      as_finish = map_option fst (last_some finish_reason cs),
      as_replay = Option.bind (last_some finish_reason cs) snd\<rparr>"

lemma chunks_at_snoc:
  "chunks_at (cs @ [c]) k = (if chunk_index c = Some k then chunks_at cs k @ [c] else chunks_at cs k)"
  by (simp add: chunks_at_def)

lemma map_filter_snoc:
  "List.map_filter f (xs @ [x]) = List.map_filter f xs @ (case f x of None \<Rightarrow> [] | Some y \<Rightarrow> [y])"
  by (simp add: List.map_filter_def split: option.splits)

lemma first_seen_snoc:
  "first_seen (cs @ [c]) =
     (case chunk_index c of None \<Rightarrow> first_seen cs
      | Some k \<Rightarrow> if chunks_at cs k = [] then first_seen cs @ [k] else first_seen cs)"
proof (cases "chunk_index c")
  case (Some k)
  have "k \<in> set (List.map_filter chunk_index cs) \<longleftrightarrow> chunks_at cs k \<noteq> []"
    by (force simp: List.map_filter_def chunks_at_def filter_empty_conv)
  then show ?thesis using Some by (simp add: first_seen_def map_filter_snoc)
qed (simp add: first_seen_def map_filter_snoc)

lemma with_partial_same: "with_partial k (\<lambda>p. p) a = a"
  by (cases a) (auto simp: with_partial_def fun_upd_idem_iff split: option.splits)

lemma with_partial_key [simp]: "with_partial (map_key k) f a = with_partial k f a"
  by (simp add: with_partial_def split: option.splits)

lemma ensure_key [simp]: "ensure (map_key k) t a = ensure k t a"
  by (simp add: ensure_def split: option.splits)

lemma partial_step_start: "partial_step (BlockStart i t) = (\<lambda>p. p)"
  by (rule ext) simp

lemma push_indexed:
  "chunk_index c = Some k \<Longrightarrow>
     push_chunk c a = with_partial k (partial_step c) (ensure k (opening_type c) a)"
proof (cases c)
  case (BlockStart i t)
  assume "chunk_index c = Some k"
  then show ?thesis using BlockStart by (auto simp: partial_step_start with_partial_same)
qed (auto simp: with_partial_def split: option.splits)

lemma push_reference_indexed:
  assumes "chunk_index c = Some k"
  shows "push_chunk c (reference_state cs) = reference_state (cs @ [c])"
proof -
  have norm: "map_key k = k" using assms by (cases c) auto
  have off: "usage_of c = None" "finish_reason c = None" using assms by (cases c, auto)+
  have at: "chunks_at (cs @ [c]) j = (if j = k then chunks_at cs k @ [c] else chunks_at cs j)" for j
    using assms by (auto simp: chunks_at_snoc)
  show ?thesis
  proof (cases "chunks_at cs k = []")
    case True
    then show ?thesis
      using assms norm off at reference_single [of c]
      by (auto simp: push_indexed reference_state_def ensure_def with_partial_def first_seen_snoc
          last_some_snoc new_partial_def fun_eq_iff)
  next
    case False
    have "pb_block (reference_partial (chunks_at cs k)) = first_some closing_block (chunks_at cs k)"
      by (simp add: reference_partial_def)
    then show ?thesis
      using assms norm off at False reference_snoc [of "chunks_at cs k" c]
      by (auto simp: push_indexed reference_state_def ensure_def with_partial_def first_seen_snoc
          last_some_snoc fun_eq_iff)
  qed
qed

lemma push_reference: "push_chunk c (reference_state cs) = reference_state (cs @ [c])"
proof (cases "chunk_index c")
  case None
  then show ?thesis
    by (cases c) (auto simp: reference_state_def chunks_at_snoc first_seen_snoc last_some_snoc)
qed (rule push_reference_indexed)

lemma feed_reference: "feed cs new_assembler = reference_state cs"
proof (induction cs rule: rev_induct)
  case Nil
  show ?case
    by (simp add: feed_def reference_state_def new_assembler_def chunks_at_def first_seen_def List.map_filter_def)
next
  case (snoc c cs)
  then show ?case by (simp add: feed_def push_reference)
qed

lemma keep_simps [simp]:
  "keep [] xs = []" "keep ks [] = []"
  "keep (k # ks) (x # xs) = (if k then x # keep ks xs else keep ks xs)"
  by (simp_all add: keep_def)

lemma keep_filter: "keep (map P xs) xs = filter P xs"
  by (induction xs) simp_all

lemma kept_filter:
  "kept_blocks (kept_positions a every) every =
     (if jprop (finish_of a) ''kind'' = Some (JStr ''max-tokens'')
      then filter (\<lambda>b. \<not> is_call_block b) every else every)"
  by (simp add: kept_blocks_def kept_positions_def keep_filter)

text \<open>Every index of the order has its chunks, so no lookup fails.\<close>

lemma first_seen_chunks: "k \<in> set (first_seen cs) \<Longrightarrow> chunks_at cs k \<noteq> []"
  by (force simp: first_seen_def List.map_filter_def chunks_at_def filter_empty_conv)

lemma traverse_cong: "(\<And>x. x \<in> set xs \<Longrightarrow> f x = g x) \<Longrightarrow> traverse f xs = traverse g xs"
  by (induction xs) simp_all

lemma every_reference:
  "every_block digits (reference_state cs) =
     traverse (\<lambda>k. assemble digits (reference_partial (chunks_at cs k)) k) (first_seen cs)"
  unfolding every_block_def reference_state_def
  by (simp, rule traverse_cong) (simp add: must_get_def first_seen_chunks)

lemma truncated_reference:
  "jprop (finish_of (reference_state cs)) ''kind'' = Some (JStr ''max-tokens'') \<longleftrightarrow> truncated_stream cs"
  by (auto simp: finish_of_def reference_state_def truncated_stream_def split: option.splits)

text \<open>C31. Incremental assembly computes the declarative reading of the stream: feeding any chunks one by
  one yields one block per index in first-seen order, the first \<open>block-end\<close> of an index deciding it,
  otherwise the concatenation of its deltas with the last identity and name, and a stream cut by
  the token limit loses its tool calls; it fails exactly when an open block of another type remains.\<close>

theorem assembler_is_reference:
  "blocks_of digits (feed cs new_assembler) = reference_blocks digits cs"
  unfolding feed_reference blocks_of_def assembled_def Let_def reference_blocks_def every_reference
    kept_filter truncated_reference
  by (cases "traverse (\<lambda>k. assemble digits (reference_partial (chunks_at cs k)) k) (first_seen cs)") simp_all

text \<open>How a stream is cut into deltas does not matter.\<close>

lemma deltas_coalesce:
  "feed (cs @ TextDelta i s # TextDelta i t # ds) a = feed (cs @ TextDelta i (s @ t) # ds) a"
proof -
  have "push_chunk (TextDelta i t) (push_chunk (TextDelta i s) b) = push_chunk (TextDelta i (s @ t)) b" for b
    by (auto simp: with_partial_def ensure_def new_partial_def split: option.splits)
  then show ?thesis by (simp add: feed_def)
qed

lemma keep_lengths: "length ks = length xs \<Longrightarrow> length ks = length ys \<Longrightarrow> length (keep ks xs) = length (keep ks ys)"
proof (induction ks xs arbitrary: ys rule: list_induct2)
  case (Cons k ks x xs)
  then show ?case by (cases ys) auto
qed simp

lemma keep_zip:
  "length ks = length xs \<Longrightarrow> length ks = length ys \<Longrightarrow> zip (keep ks xs) (keep ks ys) = keep ks (zip xs ys)"
proof (induction ks xs arbitrary: ys rule: list_induct2)
  case (Cons k ks x xs)
  then show ?case by (cases ys) auto
qed simp

lemma keep_everything: "keep (replicate (length xs) True) xs = xs"
  by (induction xs) simp_all

lemma keep_shorter: "length ks = length xs \<Longrightarrow> length (keep ks xs) \<le> length xs"
  by (induction ks xs rule: list_induct2) auto

lemma keep_all:
  "length ks = length xs \<Longrightarrow> length (keep ks xs) = length xs \<Longrightarrow> length ks = length ys \<Longrightarrow> keep ks ys = ys"
proof (induction ks xs arbitrary: ys rule: list_induct2)
  case (Cons k ks x xs)
  then show ?case using keep_shorter [OF Cons.hyps] by (cases ys) (auto split: if_splits)
qed simp

text \<open>Replay metadata never drifts from the content it annotates: whatever chunks arrived, an envelope
  that survives with per-block entries has one entry per emitted block, each entry is the one the
  adapter gave at its block's position before tool calls were dropped, and the response part is the
  adapter's; an envelope of another length is discarded whole.\<close>

theorem replay_metadata_aligned:
  assumes a: "assembled digits a = Inr (blocks, Some env)" and e: "jprop env ''blocks'' = Some (JArr entries)"
  shows "\<exists>every given original ks. every_block digits a = Inr every \<and> as_replay a = Some given \<and>
    jprop given ''blocks'' = Some (JArr original) \<and> jprop env ''response'' = jprop given ''response'' \<and>
    length original = length every \<and> length ks = length every \<and>
    length entries = length blocks \<and> zip blocks entries = keep ks (zip every original)"
proof -
  from a obtain every where every: "every_block digits a = Inr every"
    "blocks = kept_blocks (kept_positions a every) every"
    "kept_replay (as_replay a) (kept_positions a every) every = Some env"
    by (auto simp: assembled_def Let_def result_simps)
  obtain given original where given: "as_replay a = Some given" "jprop given ''blocks'' = Some (JArr original)"
      "length original = length every"
    and env: "env = given \<and> (kept_positions a every = None \<or>
        (\<exists>ks. kept_positions a every = Some ks \<and> length (keep ks every) = length every)) \<or>
      (\<exists>ks. kept_positions a every = Some ks \<and>
        env = JObj (opt_field ''response'' id (jprop given ''response'') @ [(''blocks'', JArr (keep ks original))]))"
    using every(3) e by (auto simp: kept_replay_def split: option.splits jv.splits if_splits)
  have some: "length ks = length every" if "kept_positions a every = Some ks" for ks
    using that by (auto simp: kept_positions_def split: if_splits)
  let ?ks = "case kept_positions a every of None \<Rightarrow> replicate (length every) True | Some ks \<Rightarrow> ks"
  have ks: "length ?ks = length every" using some by (simp split: option.splits)
  have blocks: "blocks = keep ?ks every" using every(2) by (simp add: kept_blocks_def keep_everything split: option.splits)
  have entries: "entries = keep ?ks original \<and> jprop env ''response'' = jprop given ''response''"
    using env
  proof
    assume "env = given \<and> (kept_positions a every = None \<or>
        (\<exists>ks. kept_positions a every = Some ks \<and> length (keep ks every) = length every))"
    then have "env = given" and kept: "kept_positions a every = None \<or>
        (\<exists>ks. kept_positions a every = Some ks \<and> length (keep ks every) = length every)" by auto
    then have o: "entries = original" using e given(2) by simp
    have "keep ?ks original = original"
      using kept
    proof
      assume "kept_positions a every = None"
      then show ?thesis by (simp add: keep_everything flip: given(3))
    next
      assume "\<exists>ks. kept_positions a every = Some ks \<and> length (keep ks every) = length every"
      then obtain ks where k: "kept_positions a every = Some ks" "length (keep ks every) = length every" by blast
      have "keep ks original = original"
        by (rule keep_all [OF some [OF k(1)] k(2)]) (simp add: some [OF k(1)] given(3))
      then show ?thesis using k(1) by simp
    qed
    then show ?thesis using \<open>env = given\<close> o by simp
  next
    assume "\<exists>ks. kept_positions a every = Some ks \<and>
        env = JObj (opt_field ''response'' id (jprop given ''response'') @ [(''blocks'', JArr (keep ks original))])"
    then show ?thesis using e by (auto simp: map_of_opt_field map_add_def split: option.splits)
  qed
  have "length entries = length blocks" "zip blocks entries = keep ?ks (zip every original)"
    using keep_lengths [OF ks, of original] keep_zip [OF ks, of original] ks given(3) entries blocks by simp_all
  then show ?thesis using every(1) given ks entries by blast
qed

lemma traverse_total: "(\<And>x. x \<in> set xs \<Longrightarrow> f x = Inr (g x)) \<Longrightarrow> traverse f xs = Inr (map g xs)"
  by (induction xs) simp_all

text \<open>An interrupted stream can always be finalized: whatever arrived before the cut, incomplete blocks
  of unknown types included, the interrupted blocks are defined, are text or reasoning with something
  other than white space, and never a tool call whose result would have to be made up.\<close>

theorem interrupted_blocks_safe:
  "\<exists>bs. interrupted_blocks digits (feed cs new_assembler) = Inr bs \<and>
     list_all (\<lambda>b. speaks b \<and> \<not> is_call_block b) bs"
proof -
  have "\<exists>r. interrupted_block digits (reference_state cs) k = Inr r" if "k \<in> set (first_seen cs)" for k
    using first_seen_chunks [OF that]
    by (auto simp: interrupted_block_def must_get_def reference_state_def assemble_def Let_def split: option.splits)
  then obtain g where "\<And>k. k \<in> set (first_seen cs) \<Longrightarrow> interrupted_block digits (reference_state cs) k = Inr (g k)"
    by metis
  then have "traverse (interrupted_block digits (reference_state cs)) (first_seen cs) = Inr (map g (first_seen cs))"
    by (rule traverse_total)
  moreover have "speaks b \<longrightarrow> \<not> is_call_block b" for b by (cases b) (simp_all add: speaks_def)
  ultimately show ?thesis
    by (simp add: interrupted_blocks_def feed_reference list_all_iff) (simp add: reference_state_def)
qed

section \<open>Examples\<close>

definition example_chunks :: "stream_chunk list" where
  "example_chunks =
     [BlockStart (NInt 0) ''text'', TextDelta (NInt 0) ''he'', TextDelta (NInt 0) ''llo'',
      ToolCallDelta (NInt 1) ''c1'' (Some ''bash'') ''{'', ToolCallDelta (NInt 1) ''c1'' None ''}'',
      BlockEnd (NInt 0) (TextBlock ''hello''), TextDelta (NInt 0) ''late'',
      FinishChunk (JObj [(''kind'', JStr ''max-tokens'')])
        (Some (JObj [(''response'', JStr ''r''), (''blocks'', JArr [JStr ''b0'', JStr ''b1''])]))]"

theorem replay_metadata_aligned_witness:
  "\<exists>entries. length entries = 1 \<and>
     assembled (\<lambda>_. []) (feed example_chunks new_assembler) =
       Inr ([TextBlock ''hello''], Some (JObj [(''response'', JStr ''r''), (''blocks'', JArr entries)]))"
proof -
  have a: "assembled (\<lambda>_. []) (feed example_chunks new_assembler) =
      Inr ([TextBlock ''hello''], Some (JObj [(''response'', JStr ''r''), (''blocks'', JArr [JStr ''b0''])]))"
    by code_simp
  from replay_metadata_aligned [OF a] show ?thesis unfolding a by auto
qed

end
