(* ===== verification/Token_Meter.thy ===== *)
theory Token_Meter
  imports Token_Surface Block_Assembler
begin

text \<open>
  The replay token meter, \<^verbatim>\<open>packages/llm/token-meter/src/index.ts\<close>: a per-session replay state that
  catches up with the log on every read. The lemmas show that a cached read equals a replay from
  scratch, that the priced nodes are the session's surface, and that the measured pressure is never
  below the heuristic price of the request.
\<close>

section \<open>Numbers\<close>

text \<open>
  Provider token counts are arbitrary numbers. The sum of two finite doubles is exact as a rational and
  rounded to 53 significant bits; its denominator is a power of two, so rounding the numerator rounds
  the quotient.
\<close>

fun num_rat :: "jnum \<Rightarrow> rat" where
  "num_rat (NInt n) = of_int n"
| "num_rat (NFrac r) = r"
| "num_rat _ = 0"

definition rounded_rat :: "rat \<Rightarrow> jnum" where
  "rounded_rat q =
     (let (n, d) = quotient_of q; m = round_double n in
      if m mod d = 0 then NInt (m div d) else NFrac (Fract m d))"

fun num_plus :: "jnum \<Rightarrow> jnum \<Rightarrow> jnum" where
  "num_plus (NInt a) (NInt b) = NInt (round_double (a + b))"
| "num_plus NNegZero NNegZero = NNegZero"
| "num_plus (NInf s) _ = NInf s"
| "num_plus _ (NInf s) = NInf s"
| "num_plus a b = rounded_rat (num_rat a + num_rat b)"

text \<open>Comparison with an integer, and \<open>Math.max(0, n)\<close>.\<close>

fun at_least :: "jnum \<Rightarrow> int \<Rightarrow> bool" where
  "at_least (NInt n) k = (k \<le> n)"
| "at_least (NFrac r) k = (of_int k \<le> r)"
| "at_least NNegZero k = (k \<le> 0)"
| "at_least (NInf negative) k = (\<not> negative)"

definition num_max0 :: "jnum \<Rightarrow> jnum" where
  "num_max0 n = (if at_least n 0 \<and> n \<noteq> NNegZero then n else NInt 0)"

section \<open>State\<close>

datatype baseline = NoBaseline | Estimated int | Usage jnum token_usage

fun baseline_tokens :: "baseline \<Rightarrow> jnum" where
  "baseline_tokens NoBaseline = NInt 0"
| "baseline_tokens (Estimated t) = NInt t"
| "baseline_tokens (Usage n u) = n"

record measurement_anchor =
  an_header :: "epoch_header option"
  an_surface :: int
  an_baseline :: baseline

record replay_state =
  rs_consumed :: nat
  rs_header :: "epoch_header option"
  rs_surface :: "token_node list"
  rs_surface_tokens :: int
  rs_step :: "(int \<times> int \<times> int) option"
  rs_anchor :: "measurement_anchor option"

record measurement =
  me_revision :: nat
  me_baseline :: baseline
  me_delta :: int
  me_total :: jnum
  me_surface :: int
  me_nodes :: "token_node list"

datatype meter_error =
    StepStillOpen int
  | StepEndUnmatched int
  | MessageOutsideStep int
  | SourceNotEarlier int int
  | SourceRepeated int int
  | SourceMissing int int
  | SourceNotChunk int int
  | SourceOtherStep int int
  | AssemblyFailed assembly_error
  | RangeInvalid int

definition initial_replay :: replay_state where
  "initial_replay =
     \<lparr>rs_consumed = 0, rs_header = None, rs_surface = [], rs_surface_tokens = 0, rs_step = None, rs_anchor = None\<rparr>"

definition usage_tokens :: "token_usage \<Rightarrow> jnum" where
  "usage_tokens u =
     num_plus (num_plus (num_plus (input_tokens u) (case cache_read_tokens u of Some n \<Rightarrow> n | None \<Rightarrow> NInt 0))
                (case cache_write_tokens u of Some n \<Rightarrow> n | None \<Rightarrow> NInt 0))
       (output_tokens u)"

definition optional_header_equals :: "epoch_header option \<Rightarrow> epoch_header option \<Rightarrow> bool" where
  "optional_header_equals a b =
     (case (a, b) of (Some h, Some k) \<Rightarrow> header_equals h k | (None, None) \<Rightarrow> True | _ \<Rightarrow> False)"

section \<open>Folding one event\<close>

text \<open>
  The provider's own output, reassembled from the chunks the message cites. The session has already
  checked that the sources, when present, are sequence numbers.
\<close>

fun source_loop ::
  "session_event list \<Rightarrow> int \<Rightarrow> int \<Rightarrow> int \<Rightarrow> int list \<Rightarrow> assembler \<Rightarrow> int list \<Rightarrow> meter_error + assembler" where
  "source_loop events target turn step seen a [] = Inr a"
| "source_loop events target turn step seen a (seq # rest) =
     (if target \<le> seq then Inl (SourceNotEarlier target seq)
      else if seq \<in> set seen then Inl (SourceRepeated target seq)
      else case event_at events 0 seq of
        None \<Rightarrow> Inl (SourceMissing target seq)
      | Some source \<Rightarrow>
          (case ev_data source of
             AssistantChunk t s chunk \<Rightarrow>
               if t \<noteq> turn \<or> s \<noteq> step then Inl (SourceOtherStep target seq)
               else source_loop events target turn step (seq # seen) (push_chunk chunk a) rest
           | _ \<Rightarrow> Inl (SourceNotChunk target seq)))"

definition estimate_provider_assistant ::
  "(jnum \<Rightarrow> string) \<Rightarrow> session_event list \<Rightarrow> session_event \<Rightarrow> int \<Rightarrow> int \<Rightarrow> int \<Rightarrow> meter_error + int" where
  "estimate_provider_assistant digits events e turn step durable =
     (case ev_sources e of
        None \<Rightarrow> Inr durable
      | Some _ \<Rightarrow>
          and_then (source_loop events (ev_seq e) turn step [] new_assembler (cited_seqs e)) (\<lambda>a.
            case blocks_of digits a of
              Inl x \<Rightarrow> Inl (AssemblyFailed x)
            | Inr bs \<Rightarrow> Inr (if bs = [] then 0 else estimate_content digits bs + ROLE_OVERHEAD)))"

definition fold_header :: "replay_state \<Rightarrow> session_event \<Rightarrow> epoch_header option" where
  "fold_header st e =
     (case ev_data e of RequestHeader h _ \<Rightarrow> Some (canonical_header h) | _ \<Rightarrow> rs_header st)"

definition step_matches :: "replay_state \<Rightarrow> int \<Rightarrow> int \<Rightarrow> bool" where
  "step_matches st turn step = (case rs_step st of None \<Rightarrow> False | Some (t, s, _) \<Rightarrow> t = turn \<and> s = step)"

definition fold_step :: "replay_state \<Rightarrow> session_event \<Rightarrow> meter_error + (int \<times> int \<times> int) option" where
  "fold_step st e =
     (case ev_data e of
        StepStart turn step \<Rightarrow>
          if rs_step st \<noteq> None then Inl (StepStillOpen (ev_seq e))
          else Inr (Some (turn, step, rs_surface_tokens st))
      | StepEnd turn step \<Rightarrow>
          if step_matches st turn step then Inr None else Inl (StepEndUnmatched (ev_seq e))
      | _ \<Rightarrow> Inr (rs_step st))"

definition fold_surface_part ::
  "(jnum \<Rightarrow> string) \<Rightarrow> replay_state \<Rightarrow> session_event \<Rightarrow> meter_error + surface_token_fold option" where
  "fold_surface_part digits st e =
     (if is_surface_event e then
        (case fold_surface_tokens digits (rs_surface st) e of
           Inl seq \<Rightarrow> Inl (RangeInvalid seq) | Inr f \<Rightarrow> Inr (Some f))
      else Inr None)"

text \<open>The anchor a finished message sets: the provider's usage when it is not below the heuristic price.\<close>

definition usage_anchor ::
  "(jnum \<Rightarrow> string) \<Rightarrow> epoch_header option \<Rightarrow> int \<Rightarrow> token_usage \<Rightarrow> measurement_anchor" where
  "usage_anchor digits header surface u =
     (let provider = usage_tokens u; estimated = estimate_header digits header + surface in
      \<lparr>an_header = header, an_surface = surface,
       an_baseline = (if at_least provider estimated then Usage provider u else Estimated estimated)\<rparr>)"

definition estimated_anchor :: "(jnum \<Rightarrow> string) \<Rightarrow> epoch_header option \<Rightarrow> int \<Rightarrow> measurement_anchor" where
  "estimated_anchor digits header surface =
     \<lparr>an_header = header, an_surface = surface,
      an_baseline = Estimated (estimate_header digits header + surface)\<rparr>"

definition fold_anchor ::
  "(jnum \<Rightarrow> string) \<Rightarrow> session_event list \<Rightarrow> replay_state \<Rightarrow> epoch_header option \<Rightarrow> session_event
     \<Rightarrow> surface_token_fold option \<Rightarrow> meter_error + measurement_anchor option" where
  "fold_anchor digits events st header e surface =
     (case ev_data e of
        AssistantMessage turn step m usage _ \<Rightarrow>
          (case rs_step st of
             Some (t, s, before) \<Rightarrow>
               if t \<noteq> turn \<or> s \<noteq> step then Inl (MessageOutsideStep (ev_seq e))
               else
                 let tokens = (case surface of Some f \<Rightarrow> st_tokens f | None \<Rightarrow> 0) in
                 (case (usage, header) of
                    (Some u, Some _) \<Rightarrow>
                      and_then (estimate_provider_assistant digits events e turn step tokens) (\<lambda>provider.
                        Inr (Some (usage_anchor digits header (before + provider) u)))
                  | _ \<Rightarrow> Inr (Some (estimated_anchor digits header (before + tokens))))
           | None \<Rightarrow> Inl (MessageOutsideStep (ev_seq e)))
      | _ \<Rightarrow> Inr (rs_anchor st))"

definition fold_event ::
  "(jnum \<Rightarrow> string) \<Rightarrow> session_event list \<Rightarrow> replay_state \<Rightarrow> session_event \<Rightarrow> meter_error + replay_state" where
  "fold_event digits events st e =
     and_then (fold_step st e) (\<lambda>step.
     and_then (fold_surface_part digits st e) (\<lambda>surface.
     and_then (fold_anchor digits events st (fold_header st e) e surface) (\<lambda>anchor.
       Inr (st\<lparr>rs_header := fold_header st e, rs_step := step,
               rs_surface := (case surface of Some f \<Rightarrow> st_nodes f | None \<Rightarrow> rs_surface st),
               rs_surface_tokens := rs_surface_tokens st + (case surface of Some f \<Rightarrow> st_delta f | None \<Rightarrow> 0),
               rs_anchor := anchor\<rparr>))))"

section \<open>Reading\<close>

definition meter_step ::
  "(jnum \<Rightarrow> string) \<Rightarrow> session_event list \<Rightarrow> replay_state \<Rightarrow> session_event \<Rightarrow> meter_error + replay_state" where
  "meter_step digits events st e =
     and_then (fold_event digits events st e) (\<lambda>st'. Inr (st'\<lparr>rs_consumed := rs_consumed st + 1\<rparr>))"

text \<open>Catching up stops at a malformed event and keeps what was read before it.\<close>

fun replay_loop ::
  "(jnum \<Rightarrow> string) \<Rightarrow> session_event list \<Rightarrow> replay_state \<Rightarrow> session_event list
     \<Rightarrow> replay_state \<times> (meter_error + unit)" where
  "replay_loop digits events st [] = (st, Inr ())"
| "replay_loop digits events st (e # es) =
     (case meter_step digits events st e of
        Inl x \<Rightarrow> (st, Inl x)
      | Inr st' \<Rightarrow> replay_loop digits events st' es)"

definition token_sync ::
  "(jnum \<Rightarrow> string) \<Rightarrow> session_event list \<Rightarrow> replay_state option \<Rightarrow> replay_state \<times> (meter_error + unit)" where
  "token_sync digits events cache =
     (let st = (case cache of Some st \<Rightarrow> st | None \<Rightarrow> initial_replay)
      in replay_loop digits events st (drop (rs_consumed st) events))"

definition effective_header :: "replay_state \<Rightarrow> epoch_header option \<Rightarrow> epoch_header option" where
  "effective_header st requested =
     (case requested of None \<Rightarrow> rs_header st | Some h \<Rightarrow> Some (canonical_header h))"

definition estimated_baseline ::
  "(jnum \<Rightarrow> string) \<Rightarrow> replay_state \<Rightarrow> epoch_header option \<Rightarrow> baseline" where
  "estimated_baseline digits st header =
     (if header = None \<and> rs_surface_tokens st = 0 then NoBaseline
      else Estimated (estimate_header digits header + rs_surface_tokens st))"

definition baseline_of ::
  "(jnum \<Rightarrow> string) \<Rightarrow> replay_state \<Rightarrow> epoch_header option \<Rightarrow> baseline \<times> int" where
  "baseline_of digits st header =
     (case rs_anchor st of
        Some a \<Rightarrow>
          if optional_header_equals (an_header a) header
          then (an_baseline a, rs_surface_tokens st - an_surface a)
          else (estimated_baseline digits st header, 0)
      | None \<Rightarrow> (estimated_baseline digits st header, 0))"

definition measure_state ::
  "(jnum \<Rightarrow> string) \<Rightarrow> replay_state \<Rightarrow> epoch_header option \<Rightarrow> measurement" where
  "measure_state digits st requested =
     (case baseline_of digits st (effective_header st requested) of
        (base, delta) \<Rightarrow>
          \<lparr>me_revision = rs_consumed st, me_baseline = base, me_delta = delta,
           me_total = num_max0 (num_plus (baseline_tokens base) (NInt delta)),
           me_surface = rs_surface_tokens st, me_nodes = rs_surface st\<rparr>)"

definition token_measure ::
  "(jnum \<Rightarrow> string) \<Rightarrow> epoch_header option \<Rightarrow> session_event list \<Rightarrow> replay_state option
     \<Rightarrow> replay_state option \<times> (meter_error + measurement)" where
  "token_measure digits requested events cache =
     (case token_sync digits events cache of
        (st, Inl x) \<Rightarrow> (Some st, Inl x)
      | (st, Inr _) \<Rightarrow> (Some st, Inr (measure_state digits st requested)))"

section \<open>Folds of a growing log\<close>

text \<open>A fold looks back only, so it is the same on every extension of the log.\<close>

lemma source_loop_log:
  "target \<le> int (length es) \<Longrightarrow>
     source_loop (es @ xs) target turn step seen a seqs = source_loop es target turn step seen a seqs"
proof (induction seqs arbitrary: seen a)
  case (Cons q qs)
  show ?case
  proof (cases "target \<le> q")
    case False
    then have "event_at (es @ xs) 0 q = event_at es 0 q"
      using Cons.prems by (auto simp: event_at_def nth_append)
    then show ?thesis using Cons by (simp split: option.splits event_data.splits)
  qed simp
qed simp

lemma meter_step_log:
  "ev_seq e \<le> int (length es) \<Longrightarrow> meter_step digits (es @ xs) st e = meter_step digits es st e"
proof -
  assume "ev_seq e \<le> int (length es)"
  then have "estimate_provider_assistant digits (es @ xs) e turn step durable =
      estimate_provider_assistant digits es e turn step durable" for turn step durable
    by (simp add: estimate_provider_assistant_def source_loop_log split: option.splits)
  then have "fold_anchor digits (es @ xs) st h e f = fold_anchor digits es st h e f" for h f
    by (auto simp: fold_anchor_def Let_def split: event_data.splits option.splits)
  then show ?thesis by (simp add: meter_step_def fold_event_def)
qed

lemma fold_meter_log:
  "(\<And>e. e \<in> set fs \<Longrightarrow> ev_seq e \<le> int (length es)) \<Longrightarrow>
     fold_result (meter_step digits (es @ xs)) st fs = fold_result (meter_step digits es) st fs"
proof (induction fs arbitrary: st)
  case (Cons f fs)
  have "meter_step digits (es @ xs) st f = meter_step digits es st f"
    by (rule meter_step_log) (simp add: Cons.prems)
  then show ?case using Cons by (cases "meter_step digits es st f") simp_all
qed simp

text \<open>The replay of a log from scratch: what every read of the meter stands for.\<close>

definition meter_log :: "(jnum \<Rightarrow> string) \<Rightarrow> session_event list \<Rightarrow> meter_error + replay_state" where
  "meter_log digits es = fold_result (meter_step digits es) initial_replay es"

definition meter_read ::
  "(jnum \<Rightarrow> string) \<Rightarrow> epoch_header option \<Rightarrow> session_event list \<Rightarrow> meter_error + measurement" where
  "meter_read digits requested es =
     and_then (meter_log digits es) (\<lambda>st. Inr (measure_state digits st requested))"

lemma replay_seq_bound: "replay es = Inr acc \<Longrightarrow> e \<in> set es \<Longrightarrow> ev_seq e < int (length es)"
  by (metis in_set_conv_nth of_nat_less_iff replay_seqs)

lemma meter_log_snoc:
  assumes "replay (es @ [e]) = Inr acc"
  shows "meter_log digits (es @ [e]) = and_then (meter_log digits es) (\<lambda>st. meter_step digits (es @ [e]) st e)"
proof -
  obtain acc0 where "replay es = Inr acc0" using replay_prefix [OF assms] by blast
  then have "fold_result (meter_step digits (es @ [e])) initial_replay es = meter_log digits es"
    unfolding meter_log_def using replay_seq_bound by (intro fold_meter_log) (meson less_imp_le)
  then show ?thesis
    by (simp add: meter_log_def fold_result_append)
      (cases "meter_log digits es", simp_all add: meter_log_def and_then_Inr_iff,
       metis and_then.simps sum.exhaust)
qed

lemma meter_step_consumed: "meter_step digits es st e = Inr st' \<Longrightarrow> rs_consumed st' = rs_consumed st + 1"
  by (auto simp: meter_step_def result_simps)

lemma meter_log_consumed:
  assumes "fold_result (meter_step digits events) st es = Inr st'"
  shows "rs_consumed st' = rs_consumed st + length es"
  using assms by (induction es arbitrary: st) (auto simp: result_simps dest: meter_step_consumed)

section \<open>The cached state\<close>

text \<open>A cached state is the replay of a prefix of the log.\<close>

definition cache_at :: "(jnum \<Rightarrow> string) \<Rightarrow> session_event list \<Rightarrow> replay_state option \<Rightarrow> bool" where
  "cache_at digits es cache \<longleftrightarrow>
     (case cache of None \<Rightarrow> True
      | Some st \<Rightarrow> rs_consumed st \<le> length es \<and>
          fold_result (meter_step digits es) initial_replay (take (rs_consumed st) es) = Inr st)"

lemma cache_at_append:
  assumes c: "cache_at digits es cache" and r: "replay es = Inr acc"
  shows "cache_at digits (es @ xs) cache"
proof (cases cache)
  case (Some st)
  have "fold_result (meter_step digits (es @ xs)) initial_replay (take (rs_consumed st) es) =
      fold_result (meter_step digits es) initial_replay (take (rs_consumed st) es)"
    using replay_seq_bound [OF r] by (intro fold_meter_log) (meson in_set_takeD less_imp_le)
  then show ?thesis using c Some by (simp add: cache_at_def)
qed (simp add: cache_at_def)

lemma replay_loop_fold:
  "replay_loop digits events st es = (st', r) \<Longrightarrow>
     (\<exists>k \<le> length es. fold_result (meter_step digits events) st (take k es) = Inr st' \<and>
        (case r of Inr _ \<Rightarrow> k = length es
         | Inl x \<Rightarrow> k < length es \<and> meter_step digits events st' (es ! k) = Inl x))"
proof (induction es arbitrary: st)
  case Nil
  then show ?case by auto
next
  case (Cons e es)
  show ?case
  proof (cases "meter_step digits events st e")
    case (Inl x)
    then show ?thesis using Cons.prems by (intro exI [of _ 0]) auto
  next
    case (Inr st1)
    then obtain k where "k \<le> length es" "fold_result (meter_step digits events) st1 (take k es) = Inr st'"
      "case r of Inr _ \<Rightarrow> k = length es
       | Inl x \<Rightarrow> k < length es \<and> meter_step digits events st' (es ! k) = Inl x"
      using Cons by auto
    then show ?thesis using Inr by (intro exI [of _ "Suc k"]) (auto split: sum.splits)
  qed
qed

lemma token_sync_log:
  assumes c: "cache_at digits es cache" and s: "token_sync digits es cache = (st, r)"
  shows "cache_at digits es (Some st)"
    and "r = Inr u \<Longrightarrow> meter_log digits es = Inr st"
    and "r = Inl x \<Longrightarrow> meter_log digits es = Inl x"
    and "r = Inl x \<Longrightarrow> rs_consumed st < length es \<and> meter_step digits es st (es ! rs_consumed st) = Inl x"
proof -
  define st0 where "st0 = (case cache of Some st \<Rightarrow> st | None \<Rightarrow> initial_replay)"
  have st0: "rs_consumed st0 \<le> length es"
    "fold_result (meter_step digits es) initial_replay (take (rs_consumed st0) es) = Inr st0"
    using c by (auto simp: st0_def cache_at_def initial_replay_def split: option.splits)
  have "replay_loop digits es st0 (drop (rs_consumed st0) es) = (st, r)"
    using s by (simp add: token_sync_def st0_def Let_def)
  from replay_loop_fold [OF this] obtain k where k: "k \<le> length es - rs_consumed st0"
    "fold_result (meter_step digits es) st0 (take k (drop (rs_consumed st0) es)) = Inr st"
    "case r of Inr _ \<Rightarrow> k = length es - rs_consumed st0
     | Inl x \<Rightarrow> k < length es - rs_consumed st0 \<and>
         meter_step digits es st (drop (rs_consumed st0) es ! k) = Inl x"
    unfolding length_drop by blast
  have at: "rs_consumed st = rs_consumed st0 + k" using meter_log_consumed [OF k(2)] k(1) by simp
  have upto: "fold_result (meter_step digits es) initial_replay (take (rs_consumed st) es) = Inr st"
    unfolding at take_add by (rule fold_result_appendI [OF st0(2) k(2)])
  show "cache_at digits es (Some st)" using upto at k(1) st0(1) by (simp add: cache_at_def)
  show "r = Inr u \<Longrightarrow> meter_log digits es = Inr st" using upto at k st0(1) by (simp add: meter_log_def)
  show stop: "rs_consumed st < length es \<and> meter_step digits es st (es ! rs_consumed st) = Inl x" if "r = Inl x"
    using that at k st0(1) by auto
  show "meter_log digits es = Inl x" if "r = Inl x"
  proof -
    have "es = take (rs_consumed st) es @ es ! rs_consumed st # drop (Suc (rs_consumed st)) es"
      using stop [OF that] by (simp add: id_take_nth_drop)
    then have "meter_log digits es = fold_result (meter_step digits es) initial_replay
        (take (rs_consumed st) es @ es ! rs_consumed st # drop (Suc (rs_consumed st)) es)"
      unfolding meter_log_def by (rule arg_cong)
    also have "\<dots> = Inl x" using stop [OF that] by (simp add: fold_result_append upto)
    finally show ?thesis .
  qed
qed

section \<open>What a read returns\<close>

lemma fold_event_surface:
  assumes f: "meter_step digits events ms e = Inr ms'"
    and r: "replay (es @ [e]) = Inr (st', reps', x')" "replay es = Inr (st, reps, x)"
    and ms: "rs_surface ms = priced_nodes digits es (nodes st)" "rs_surface_tokens ms = surface_price digits es (nodes st)"
  shows "rs_surface ms' = priced_nodes digits (es @ [e]) (nodes st') \<and>
    rs_surface_tokens ms' = surface_price digits (es @ [e]) (nodes st')"
proof (cases "is_surface_event e")
  case True
  then show ?thesis
    using f fold_surface_tokens_follows [OF r True, of digits] ms
    by (auto simp: meter_step_def fold_event_def fold_surface_part_def result_simps)
next
  case False
  have "nodes st' = nodes st" using r False by (cases rule: replay_surface_cases) simp_all
  moreover have "nat n < length es" if "n \<in> set (nodes st)" for n using replay_nodes_less [OF r(2) that] by simp
  ultimately show ?thesis
    using f False ms priced_log [of "nodes st" es digits "[e]"]
    by (auto simp: meter_step_def fold_event_def fold_surface_part_def result_simps)
qed

lemma meter_log_surface:
  assumes "meter_log digits es = Inr ms" and "replay es = Inr (st, reps, x)"
  shows "rs_surface ms = priced_nodes digits es (nodes st) \<and> rs_surface_tokens ms = surface_price digits es (nodes st)"
  using assms
proof (induction es arbitrary: ms st reps x rule: rev_induct)
  case Nil
  then show ?case
    by (auto simp: meter_log_def initial_replay_def replay_def fold_window_def create_fold_state_def priced_nodes_def
        surface_price_def)
next
  case (snoc e es)
  obtain st0 reps0 x0 where r: "replay es = Inr (st0, reps0, x0)" using replay_prefix [OF snoc.prems(2)] by blast
  obtain ms0 where m: "meter_log digits es = Inr ms0" "meter_step digits (es @ [e]) ms0 e = Inr ms"
    using snoc.prems(1) unfolding meter_log_snoc [OF snoc.prems(2)] by (auto simp: result_simps)
  from fold_event_surface [OF m(2) snoc.prems(2) r] snoc.IH [OF m(1) r] show ?case by blast
qed

text \<open>Sessions grow one accepted event at a time; readers read when they like.\<close>

inductive meter_history ::
  "(jnum \<Rightarrow> string) \<Rightarrow> replay_state option \<Rightarrow> session_event list \<Rightarrow> bool" for digits where
  unread: "meter_history digits None []"
| appended: "meter_history digits cache es \<Longrightarrow> returns (replay (es @ [e])) \<Longrightarrow> meter_history digits cache (es @ [e])"
| read: "meter_history digits cache es \<Longrightarrow> token_measure digits requested es cache = (cache', r) \<Longrightarrow>
    meter_history digits cache' es"

lemma token_measure_cases:
  "token_measure digits requested es cache = (cache', r) \<Longrightarrow>
     \<exists>st q. token_sync digits es cache = (st, q) \<and> cache' = Some st \<and>
       r = (case q of Inl x \<Rightarrow> Inl x | Inr _ \<Rightarrow> Inr (measure_state digits st requested))"
  by (auto simp: token_measure_def split: prod.splits sum.splits)

lemma meter_history_cache: "meter_history digits cache es \<Longrightarrow> cache_at digits es cache \<and> returns (replay es)"
proof (induction rule: meter_history.induct)
  case unread
  show ?case by (simp add: cache_at_def replay_def fold_window_def)
next
  case (appended cache es e)
  then show ?case using cache_at_append by (auto simp: returns_iff)
next
  case (read cache es requested cache' r)
  then show ?case using token_measure_cases [OF read.hyps(2)] token_sync_log(1) by blast
qed

lemma meter_read_surface:
  assumes "meter_read digits requested es = Inr m" and "replay es = Inr (st, reps, x)"
  shows "me_nodes m = priced_nodes digits es (nodes st)" "me_surface m = surface_price digits es (nodes st)"
    "me_revision m = length es"
proof -
  obtain ms where log: "meter_log digits es = Inr ms" and m: "m = measure_state digits ms requested"
    using assms(1) by (auto simp: meter_read_def result_simps)
  have "rs_consumed ms = length es"
    using meter_log_consumed [OF log [unfolded meter_log_def]] by (simp add: initial_replay_def)
  then show "me_nodes m = priced_nodes digits es (nodes st)" "me_surface m = surface_price digits es (nodes st)"
    "me_revision m = length es"
    using m meter_log_surface [OF log assms(2)] by (simp_all add: measure_state_def split: prod.splits)
qed

text \<open>C22. Caching is invisible: in any history of accepted appends and reads, a read of the meter is a
  function of the log alone, failures included; what it returns are the nodes of the session's current
  surface in order, each at the price of the message it derives, and their sum.\<close>

theorem meter_reads_surface:
  assumes "meter_history digits cache es" and "replay es = Inr (st, reps, x)"
  shows "snd (token_measure digits requested es cache) = meter_read digits requested es \<and>
    (case meter_read digits requested es of Inl _ \<Rightarrow> True
     | Inr m \<Rightarrow> me_nodes m = priced_nodes digits es (nodes st) \<and> me_surface m = surface_price digits es (nodes st) \<and>
         me_revision m = length es)"
proof -
  obtain ms q where s: "token_sync digits es cache = (ms, q)" by fastforce
  note sync = token_sync_log [OF conjunct1 [OF meter_history_cache [OF assms(1)]] s]
  have "snd (token_measure digits requested es cache) = meter_read digits requested es"
    using s sync(2,3) by (cases q) (simp_all add: token_measure_def meter_read_def)
  then show ?thesis using meter_read_surface [OF _ assms(2)] by (simp split: sum.splits)
qed

text \<open>A malformed event is never half applied: a read that fails leaves the state before that event, so
  every later read, whatever was appended in between, fails with the same error.\<close>

theorem malformed_event_stays_unread:
  assumes h: "meter_history digits cache es" and f: "token_measure digits requested es cache = (cache', Inl err)"
    and r: "returns (replay (es @ fs))"
  shows "token_measure digits later (es @ fs) cache' = (cache', Inl err)"
proof -
  note c = meter_history_cache [OF h]
  obtain ms q where s: "token_sync digits es cache = (ms, q)" "cache' = Some ms"
    "Inl err = (case q of Inl x \<Rightarrow> Inl x | Inr _ \<Rightarrow> Inr (measure_state digits ms requested))"
    using token_measure_cases [OF f] by blast
  then have "q = Inl err" by (auto split: sum.splits)
  then have at: "rs_consumed ms < length es" "meter_step digits es ms (es ! rs_consumed ms) = Inl err"
    using token_sync_log(4) [OF _ s(1)] c by blast+
  obtain acc where acc: "replay es = Inr acc" using c by (auto simp: returns_iff)
  have "ev_seq (es ! rs_consumed ms) \<le> int (length es)"
    using replay_seq_bound [OF acc nth_mem [OF at(1)]] by simp
  then have "meter_step digits (es @ fs) ms (es ! rs_consumed ms) = Inl err"
    using meter_step_log at(2) by metis
  moreover have "drop (rs_consumed ms) (es @ fs) =
      es ! rs_consumed ms # drop (Suc (rs_consumed ms)) (es @ fs)"
    using at(1) Cons_nth_drop_Suc [of "rs_consumed ms" "es @ fs"] by (simp add: nth_append)
  ultimately show ?thesis using s(2) by (simp add: token_measure_def token_sync_def)
qed

section \<open>Pressure\<close>

lemma json_text_stringify: "json_text digits (stringify_tree v) = json_text digits v"
proof (induction v)
  case (JNum n)
  have "show_int 0 = ''0''" by code_simp
  then show ?case by (cases n) simp_all
next
  case (JArr xs)
  then show ?case by (simp add: comp_def cong: map_cong)
next
  case (JObj kvs)
  then have "map ((\<lambda>(k, v). json_quote k @ '':'' @ json_text digits v) \<circ> (\<lambda>(k, v). (k, stringify_tree v))) kvs =
      map (\<lambda>(k, v). json_quote k @ '':'' @ json_text digits v) kvs"
    by (intro map_cong) auto
  then show ?case by (simp only: stringify_tree.simps json_text.simps map_map)
qed simp_all

lemma stringify_same_text:
  "map stringify_tree xs = map stringify_tree ys \<Longrightarrow> json_text digits (JArr xs) = json_text digits (JArr ys)"
proof -
  assume "map stringify_tree xs = map stringify_tree ys"
  then have "json_text digits (stringify_tree (JArr xs)) = json_text digits (stringify_tree (JArr ys))" by simp
  then show ?thesis unfolding json_text_stringify .
qed

text \<open>Equal envelopes have equal prices.\<close>

lemma header_equals_price:
  assumes "optional_header_equals a b"
  shows "estimate_header digits a = estimate_header digits b"
proof (cases a)
  case None
  then show ?thesis using assms by (cases b) (simp_all add: optional_header_equals_def)
next
  case (Some h)
  then obtain k where k: "b = Some k" "header_equals h k"
    using assms by (auto simp: optional_header_equals_def split: option.splits)
  then have sys: "hdr_system h = hdr_system k"
    and tools: "map stringify_tree (tools_or_empty h) = map stringify_tree (tools_or_empty k)"
    by (simp_all add: header_equals_iff)
  have price: "estimate_tools_tokens digits (Some x) =
      (if tools_or_empty x = [] then 0 else estimate_text (json_text digits (JArr (tools_or_empty x))) + BLOCK_OVERHEAD)"
    for x
    by (simp add: estimate_tools_tokens_def tools_or_empty_def split: option.splits)
  have "tools_or_empty h = [] \<longleftrightarrow> tools_or_empty k = []" using tools by (metis map_is_Nil_conv)
  then have "estimate_tools_tokens digits (Some h) = estimate_tools_tokens digits (Some k)"
    unfolding price using stringify_same_text [OF tools, of digits] by simp
  then show ?thesis using Some k sys by (simp add: estimate_header_def estimate_system_tokens_def)
qed

text \<open>An anchor is never below the heuristic price of its own request and response.\<close>

definition anchor_ok :: "(jnum \<Rightarrow> string) \<Rightarrow> measurement_anchor \<Rightarrow> bool" where
  "anchor_ok digits a \<longleftrightarrow>
     (case an_baseline a of
        NoBaseline \<Rightarrow> False
      | Estimated t \<Rightarrow> t = estimate_header digits (an_header a) + an_surface a
      | Usage n u \<Rightarrow> n = usage_tokens u \<and> at_least n (estimate_header digits (an_header a) + an_surface a))"

lemma anchors_ok [simp]:
  "anchor_ok digits (usage_anchor digits h s u)" "anchor_ok digits (estimated_anchor digits h s)"
  by (simp_all add: anchor_ok_def usage_anchor_def estimated_anchor_def Let_def)

lemma fold_anchor_ok:
  assumes "fold_anchor digits events ms h e f = Inr (Some a)" and "\<And>a. rs_anchor ms = Some a \<Longrightarrow> anchor_ok digits a"
  shows "anchor_ok digits a"
proof (cases "\<exists>turn step m usage i. ev_data e = AssistantMessage turn step m usage i")
  case True
  then show ?thesis
    using assms(1) by (auto simp: fold_anchor_def Let_def result_simps split: option.splits if_splits)
next
  case False
  then have "rs_anchor ms = Some a" using assms(1) by (auto simp: fold_anchor_def split: event_data.splits)
  then show ?thesis by (rule assms(2))
qed

lemma meter_step_anchor:
  assumes "meter_step digits events ms e = Inr ms'" and "\<And>a. rs_anchor ms = Some a \<Longrightarrow> anchor_ok digits a"
    and "rs_anchor ms' = Some a"
  shows "anchor_ok digits a"
proof -
  obtain f where "fold_anchor digits events ms (fold_header ms e) e f = Inr (Some a)"
    using assms(1,3) by (auto simp: meter_step_def fold_event_def result_simps)
  then show ?thesis using assms(2) by (rule fold_anchor_ok)
qed

lemma meter_log_anchor:
  assumes "meter_log digits es = Inr ms" and "rs_anchor ms = Some a"
  shows "anchor_ok digits a"
proof -
  have "\<forall>a. rs_anchor ms = Some a \<longrightarrow> anchor_ok digits a"
    using assms(1) unfolding meter_log_def
    by (rule fold_result_invariant) (auto simp: initial_replay_def dest: meter_step_anchor)
  then show ?thesis using assms(2) by blast
qed

lemma meter_log_header:
  assumes "meter_log digits es = Inr ms"
  shows "rs_header ms = fold_request_header es None"
proof -
  have "rs_header ms' = foldl header_step (rs_header ms) fs"
    if "fold_result (meter_step digits es) ms fs = Inr ms'" for ms ms' fs
    using that
    by (induction fs arbitrary: ms)
      (auto simp: meter_step_def fold_event_def fold_header_def header_step_def result_simps)
  then show ?thesis using assms by (simp add: meter_log_def initial_replay_def fold_request_header_def)
qed

lemma total_exact: "safe_int n \<Longrightarrow> 0 \<le> n \<Longrightarrow> num_max0 (NInt (round_double n)) = NInt n"
  by (simp add: num_max0_def)

text \<open>The request a measurement is about.\<close>

definition measured_header :: "session_event list \<Rightarrow> epoch_header option \<Rightarrow> epoch_header option" where
  "measured_header es requested =
     (case requested of None \<Rightarrow> fold_request_header es None | Some h \<Rightarrow> Some (canonical_header h))"

text \<open>C23. The measured pressure never underestimates the next request: whatever usage a provider reported
  and however the surface was rewritten since, the total is at least the heuristic price of the
  request's envelope and of the whole current surface, and exactly that unless the baseline is a
  provider's usage. The sum of baseline and delta is assumed to stay inside the safe integers.\<close>

theorem pressure_never_underestimates:
  assumes t: "meter_read digits requested es = Inr m" and r: "replay es = Inr (st, reps, x)"
    and safe: "baseline_tokens (me_baseline m) = NInt k" "safe_int (k + me_delta m)"
  shows "at_least (me_total m)
      (estimate_header digits (measured_header es requested) + surface_price digits es (nodes st)) \<and>
    ((\<forall>n u. me_baseline m \<noteq> Usage n u) \<longrightarrow> me_total m =
      NInt (estimate_header digits (measured_header es requested) + surface_price digits es (nodes st)))"
proof -
  obtain ms where ms: "meter_log digits es = Inr ms" and m: "m = measure_state digits ms requested"
    using t by (auto simp: meter_read_def result_simps)
  let ?h = "measured_header es requested" and ?s = "surface_price digits es (nodes st)"
  have surface: "rs_surface_tokens ms = ?s" using meter_log_surface [OF ms r] by simp
  have header: "effective_header ms requested = ?h"
    using meter_log_header [OF ms] by (simp add: effective_header_def measured_header_def split: option.splits)
  have nonneg: "0 \<le> estimate_header digits ?h + ?s"
    by (intro add_nonneg_nonneg estimate_header_nonneg surface_price_nonneg)
  have total: "me_total m = num_max0 (NInt (k + me_delta m))"
    using safe m by (simp add: measure_state_def split: prod.splits)
  consider (anchored) a where "rs_anchor ms = Some a" "optional_header_equals (an_header a) ?h"
      "me_baseline m = an_baseline a" "me_delta m = ?s - an_surface a"
    | (none) "?h = None" "?s = 0" "me_baseline m = NoBaseline" "me_delta m = 0"
    | (fresh) "me_baseline m = Estimated (estimate_header digits ?h + ?s)" "me_delta m = 0"
    using m unfolding measure_state_def header baseline_of_def estimated_baseline_def surface
    by (auto split: option.splits if_splits)
  then show ?thesis
  proof cases
    case anchored
    have price: "estimate_header digits (an_header a) = estimate_header digits ?h"
      by (rule header_equals_price [OF anchored(2)])
    show ?thesis
    proof (cases "an_baseline a")
      case (Usage n u)
      then have "estimate_header digits ?h + an_surface a \<le> k"
        using meter_log_anchor [OF ms anchored(1)] price safe(1) anchored(3) by (auto simp: anchor_ok_def)
      then show ?thesis
        using total anchored(3,4) nonneg Usage by (auto simp: num_max0_def)
    next
      case (Estimated t)
      then have "k = estimate_header digits ?h + an_surface a"
        using meter_log_anchor [OF ms anchored(1)] price safe(1) anchored(3) by (simp add: anchor_ok_def)
      then show ?thesis using total anchored(4) nonneg by (simp add: num_max0_def)
    qed (use meter_log_anchor [OF ms anchored(1)] in \<open>simp add: anchor_ok_def\<close>)
  next
    case none
    then show ?thesis using safe(1) total
      by (simp add: num_max0_def estimate_header_def estimate_system_tokens_def estimate_tools_tokens_def)
  next
    case fresh
    then show ?thesis using safe(1) total nonneg by (simp add: num_max0_def)
  qed
qed

section \<open>Examples\<close>

definition example_usage :: token_usage where
  "example_usage =
     \<lparr>input_tokens = NInt 900, output_tokens = NInt 20, cache_read_tokens = Some (NInt 80),
      cache_write_tokens = None, reasoning_tokens = None\<rparr>"

definition example_metered :: "session_event list" where
  "example_metered =
     [example_event (TurnStart 1) 0 None None,
      example_event (UserMessage (example_prompt ''m0'')) 1 (Some append_op) None,
      example_event (RequestHeader (example_header (Some ''be brief'')) ''r0'') 2 None None,
      example_event (StepStart 1 1) 3 None None,
      example_event (AssistantMessage 1 1 (example_reply ''m1'' [TextBlock ''hello'']) (Some example_usage) False) 4
        (Some append_op) None,
      example_event (StepEnd 1 1) 5 None None,
      example_event (UserMessage (example_prompt ''m2'')) 6 (Some append_op) None]"

lemma unread_history: "returns (replay es) \<Longrightarrow> meter_history digits None es"
proof (induction es rule: rev_induct)
  case (snoc e es)
  then obtain acc where "replay (es @ [e]) = Inr acc" by (auto simp: returns_iff)
  then have "returns (replay es)" using replay_prefix by fastforce
  then show ?case using snoc appended by blast
qed (rule unread)

lemma example_metered_replay:
  "replay example_metered = Inr (\<lparr>nodes = [1, 4, 6], replace_generation = 0\<rparr>, [], 7)"
  by code_simp

theorem meter_reads_surface_witness:
  "map tn_seq (me_nodes (projr (snd (token_measure (\<lambda>_. []) None example_metered
     (fst (token_measure (\<lambda>_. []) None (take 5 example_metered) None)))))) = [1, 4, 6]"
proof -
  let ?d = "\<lambda>_::jnum. []::string" and ?pre = "take 5 example_metered"
  have five: "returns (replay ?pre)" "returns (replay (?pre @ [example_metered ! 5]))"
    "returns (replay ((?pre @ [example_metered ! 5]) @ [example_metered ! 6]))"
    by code_simp+
  have whole: "(?pre @ [example_metered ! 5]) @ [example_metered ! 6] = example_metered" by code_simp
  have "meter_history ?d (fst (token_measure ?d None ?pre None)) ?pre"
    using read [OF unread_history [OF five(1)] prod.collapse [symmetric]] .
  from appended [OF appended [OF this five(2)] five(3)]
  have "meter_history ?d (fst (token_measure ?d None ?pre None)) example_metered" unfolding whole .
  from meter_reads_surface [OF this example_metered_replay, of None]
  have "snd (token_measure ?d None example_metered (fst (token_measure ?d None ?pre None))) =
      meter_read ?d None example_metered \<and>
    (case meter_read ?d None example_metered of Inl _ \<Rightarrow> True
     | Inr m \<Rightarrow> me_nodes m = priced_nodes ?d example_metered [1, 4, 6])" by (auto split: sum.splits)
  moreover have "returns (meter_read ?d None example_metered)" by code_simp
  ultimately show ?thesis by (auto simp: returns_iff)
qed

definition example_malformed :: "session_event list" where
  "example_malformed =
     [example_event (StepStart 1 1) 0 None None, example_event (StepStart 1 2) 1 None None]"

theorem malformed_event_stays_unread_witness:
  "snd (token_measure (\<lambda>_. []) None (example_malformed @ [example_event EndSeed 2 None None])
     (fst (token_measure (\<lambda>_. []) None example_malformed None))) = Inl (StepStillOpen 1)"
proof -
  have h: "meter_history (\<lambda>_. []) None example_malformed" by (rule unread_history) code_simp
  have "snd (token_measure (\<lambda>_. []) None example_malformed None) = Inl (StepStillOpen 1)" by code_simp
  then have f: "token_measure (\<lambda>_. []) None example_malformed None =
      (fst (token_measure (\<lambda>_. []) None example_malformed None), Inl (StepStillOpen 1))" by (metis prod.collapse)
  have "returns (replay (example_malformed @ [example_event EndSeed 2 None None]))" by code_simp
  from malformed_event_stays_unread [OF h f this, of None] show ?thesis by simp
qed

theorem pressure_never_underestimates_witness:
  "at_least (me_total (projr (meter_read (\<lambda>_. []) None example_metered)))
     (estimate_header (\<lambda>_. []) (measured_header example_metered None) +
      surface_price (\<lambda>_. []) example_metered [1, 4, 6])"
proof -
  let ?d = "\<lambda>_::jnum. []::string"
  let ?m = "projr (meter_read ?d None example_metered)"
  have "returns (meter_read ?d None example_metered)" by code_simp
  then have m: "meter_read ?d None example_metered = Inr ?m" by (auto simp: returns_iff)
  have k: "baseline_tokens (me_baseline ?m) = NInt 1000" "safe_int (1000 + me_delta ?m)" by code_simp+
  show ?thesis using pressure_never_underestimates [OF m example_metered_replay k] by simp
qed

end
