(* ===== verification/Compaction_Region.thy ===== *)
theory Compaction_Region
  imports Tool_Pairing Token_Meter
begin

text \<open>
  The first half of \<^verbatim>\<open>packages/compaction/compaction-basic/src/region.ts\<close>: choosing
  a range of the surface to compact, validating one, and reading the compaction lock from the log.
  The lemmas characterise the chosen range as the best one, what validation accepts, and the lock
  by the last bracket event of the log.

  The token meter and the summarizer are the arguments they are in the code
  (\<open>RegionDependencies\<close>): the meter is a function of the log it replays. The one point
  where the transaction yields is the summarizer call; what the rest of the program appends to the
  session meanwhile is an argument, as are the clock, the outcome of every dispatch, the abort
  signal and the outcome of the durability flush.
\<close>

section \<open>Data\<close>

record surface_selection =
  se_start :: int
  se_end :: int
  se_start_idx :: nat
  se_end_idx :: nat
  se_shadowed :: "int list"

record summarization_input =
  in_system :: "string option"
  in_tools :: "jv list option"
  in_messages :: "message list"

record prepared_compaction = surface_selection +
  pc_measurement :: measurement
  pc_nodes :: "token_node list"
  pc_tokens :: int
  pc_input :: summarization_input

record summary_result =
  su_summary :: "content_block list"
  su_provider :: string
  su_model :: string
  su_max_tokens :: "int option"
  su_usage :: "token_usage option"
  su_raw_output :: "content_block list option"
  su_stream_call :: bool

text \<open>The bracket's owner, what must stay stable, and the optional parts of a request.\<close>

datatype owner_mode = CurrentTurn | Standalone

datatype stability = WholeSurface | SelectedSpan

record region_options =
  ro_owner :: owner_mode
  ro_stability :: stability
  ro_flush :: bool
  ro_command :: "string option"

datatype region_fault =
    RangeStartMissing int
  | RangeEndMissing int
  | RangeReversed int int
  | RangeStartUnbalanced int
  | RangeEndUnbalanced int
  | RangePairing pairing_error
  | RangeSurface surface_error
  | MeterMismatch
  | MeterFailed meter_error
  | SurfaceChanged
  | SummarizerFailed string
  | SummaryTooLarge int int
  | NoOpenTurn
  | AppendRejected session_error
  | AbortReason

datatype manual_code =
    ManualBusy
  | ManualCancelled
  | ManualChanged
  | ManualSummary
  | ManualCommit
  | ManualPersistence

datatype region_error = Fault region_fault | Manual manual_code

datatype stage = SummaryStage | CommitStage

record compaction_result =
  cr_compaction :: string
  cr_command :: "string option"
  cr_start_seq :: int
  cr_summary_seq :: int
  cr_end_seq :: int
  cr_summary :: "content_block list"
  cr_range :: "int \<times> int"
  cr_shadowed :: "int list"
  cr_tokens :: int

text \<open>
  Everything outside the transaction. The four appends of a transaction are numbered: start,
  summary, replacement, end.
\<close>

record region_env =
  ce_digits :: "jnum \<Rightarrow> string"
  ce_summarize :: "summarization_input \<Rightarrow> string + summary_result"
  ce_meanwhile :: "(int \<times> event_data \<times> surface_intent) list"
  ce_abort_entry :: bool
  ce_abort_summarized :: bool
  ce_abort_exit :: bool
  ce_flush_ok :: bool
  ce_id :: string
  ce_message_id :: string
  ce_clock :: "nat \<Rightarrow> int"
  ce_dispatch :: "nat \<Rightarrow> bool"
  ce_error_chain :: "region_fault \<Rightarrow> string"

section \<open>Selecting a range\<close>

text \<open>Walk back from the tail until the retained tokens reach the budget.\<close>

fun keep_loop :: "token_node list \<Rightarrow> int \<Rightarrow> int \<Rightarrow> nat \<Rightarrow> nat" where
  "keep_loop priced retain acc 0 = 0"
| "keep_loop priced retain acc (Suc i) =
     (let acc' = acc + tn_tokens (priced ! Suc i)
      in if retain \<le> acc' then Suc i else keep_loop priced retain acc' i)"

definition keep_from :: "token_node list \<Rightarrow> int \<Rightarrow> nat" where
  "keep_from priced retain = keep_loop priced retain 0 (length priced - 1)"

text \<open>Then walk back to a cut no tool call crosses.\<close>

fun retreat ::
  "int list \<Rightarrow> nat \<Rightarrow> paired_session \<Rightarrow> paired_session \<times> (pairing_error + nat)" where
  "retreat ns 0 w = (w, Inr 0)"
| "retreat ns (Suc k) w =
     (case tool_pairing_balanced_before (ns ! Suc k) w of
        (w', Inl err) \<Rightarrow> (w', Inl err)
      | (w', Inr True) \<Rightarrow> (w', Inr (Suc k))
      | (w', Inr False) \<Rightarrow> retreat ns k w')"

definition select_compactable_range ::
  "measurement \<Rightarrow> int \<Rightarrow> paired_session \<Rightarrow> paired_session \<times> (region_fault + (int \<times> int) option)" where
  "select_compactable_range measured retain w =
     (let priced = me_nodes measured in
      if priced = [] then (w, Inr None)
      else case read_surface (ps_session w) of
        (s, Inl err) \<Rightarrow> (w\<lparr>ps_session := s\<rparr>, Inl (RangeSurface err))
      | (s, Inr (ns, _)) \<Rightarrow>
          let w1 = w\<lparr>ps_session := s\<rparr> in
          if ns \<noteq> map tn_seq priced then (w1, Inl MeterMismatch)
          else case keep_from priced retain of
            0 \<Rightarrow> (w1, Inr None)
          | Suc k \<Rightarrow>
              (case retreat ns (Suc k) w1 of
                 (w2, Inl err) \<Rightarrow> (w2, Inl (RangePairing err))
               | (w2, Inr 0) \<Rightarrow> (w2, Inr None)
               | (w2, Inr (Suc j)) \<Rightarrow> (w2, Inr (Some (ns ! 0, ns ! j)))))"

section \<open>The compaction lock\<close>

record entry_state =
  es_open_turn :: "int option"
  es_unmatched :: "session_event option"
  es_end_seed :: "int option"
  es_turn_known :: bool
  es_compaction_known :: bool

definition initial_entry :: entry_state where
  "initial_entry =
     \<lparr>es_open_turn = None, es_unmatched = None, es_end_seed = None,
      es_turn_known = False, es_compaction_known = False\<rparr>"

definition note_end_seed :: "session_event \<Rightarrow> entry_state \<Rightarrow> entry_state" where
  "note_end_seed e st =
     (if es_end_seed st = None \<and> ev_type e = ''session/end-seed''
      then st\<lparr>es_end_seed := Some (ev_seq e)\<rparr> else st)"

definition note_compaction :: "session_event \<Rightarrow> entry_state \<Rightarrow> entry_state" where
  "note_compaction e st =
     (if es_compaction_known st then st
      else if ev_type e = ''compaction/start''
      then st\<lparr>es_unmatched := Some e, es_compaction_known := True\<rparr>
      else if ev_type e = ''compaction/end'' then st\<lparr>es_compaction_known := True\<rparr>
      else st)"

definition note_turn :: "session_event \<Rightarrow> entry_state \<Rightarrow> entry_state" where
  "note_turn e st =
     (if es_turn_known st then st
      else case ev_data e of
        TurnStart t \<Rightarrow> st\<lparr>es_open_turn := Some t, es_turn_known := True\<rparr>
      | TurnEnd _ _ \<Rightarrow> st\<lparr>es_turn_known := True\<rparr>
      | _ \<Rightarrow> st)"

fun entry_loop :: "session_event list \<Rightarrow> entry_state \<Rightarrow> entry_state" where
  "entry_loop [] st = st"
| "entry_loop (e # es) st =
     (let st' = note_turn e (note_compaction e (note_end_seed e st))
      in if es_turn_known st' \<and> es_compaction_known st' \<and> es_end_seed st' \<noteq> None then st'
         else entry_loop es st')"

definition inspect_compaction_entry_state :: "session_event list \<Rightarrow> entry_state" where
  "inspect_compaction_entry_state events = entry_loop (rev events) initial_entry"

definition compaction_inactive :: "entry_state \<Rightarrow> bool" where
  "compaction_inactive st =
     (case es_unmatched st of
        None \<Rightarrow> True
      | Some e \<Rightarrow> (case es_end_seed st of None \<Rightarrow> False | Some seed \<Rightarrow> ev_seq e < seed))"

definition assert_no_active_compaction :: "paired_session \<Rightarrow> paired_session \<times> (region_error + unit)" where
  "assert_no_active_compaction w =
     (case session_events (ps_session w) of
        (s, events) \<Rightarrow>
          (w\<lparr>ps_session := s\<rparr>,
           if compaction_inactive (inspect_compaction_entry_state events) then Inr ()
           else Inl (Manual ManualBusy)))"

section \<open>Validating and preparing a range\<close>

definition check_cut ::
  "paired_session \<times> (pairing_error + bool) \<Rightarrow> region_fault \<Rightarrow> paired_session \<times> (region_fault + unit)" where
  "check_cut answer fault =
     (fst answer,
      case snd answer of
        Inl err \<Rightarrow> Inl (RangePairing err)
      | Inr balanced \<Rightarrow> if balanced then Inr () else Inl fault)"

definition validate_surface_region ::
  "int \<Rightarrow> int \<Rightarrow> paired_session \<Rightarrow> paired_session \<times> (region_fault + surface_selection)" where
  "validate_surface_region start end' w =
     (case read_surface (ps_session w) of
        (s, Inl err) \<Rightarrow> (w\<lparr>ps_session := s\<rparr>, Inl (RangeSurface err))
      | (s, Inr (ns, _)) \<Rightarrow>
          let w1 = w\<lparr>ps_session := s\<rparr> in
          (case index_of start ns of
             None \<Rightarrow> (w1, Inl (RangeStartMissing start))
           | Some i \<Rightarrow>
               (case index_of end' ns of
                  None \<Rightarrow> (w1, Inl (RangeEndMissing end'))
                | Some j \<Rightarrow>
                    if j < i then (w1, Inl (RangeReversed start end'))
                    else
                      (case check_cut (tool_pairing_balanced_before (ns ! i) w1) (RangeStartUnbalanced start) of
                         (w2, Inl f) \<Rightarrow> (w2, Inl f)
                       | (w2, Inr _) \<Rightarrow>
                           (case check_cut (tool_pairing_balanced_after (ns ! j) w2) (RangeEndUnbalanced end') of
                              (w3, Inl f) \<Rightarrow> (w3, Inl f)
                            | (w3, Inr _) \<Rightarrow>
                                (w3, Inr \<lparr>se_start = start, se_end = end', se_start_idx = i,
                                          se_end_idx = j, se_shadowed = slice_incl i j ns\<rparr>))))))"

definition region_measure :: "region_env \<Rightarrow> paired_session \<Rightarrow> paired_session \<times> (region_fault + measurement)" where
  "region_measure env w =
     (case session_events (ps_session w) of
        (s, events) \<Rightarrow>
          (w\<lparr>ps_session := s\<rparr>,
           case meter_read (ce_digits env) None events of Inl err \<Rightarrow> Inl (MeterFailed err) | Inr m \<Rightarrow> Inr m))"

definition build_summarization_input :: "int list \<Rightarrow> paired_session \<Rightarrow> paired_session \<times> summarization_input" where
  "build_summarization_input shadowed w =
     (case request_header (ps_session w) of
        (s, header) \<Rightarrow>
          (case session_events s of
             (s', events) \<Rightarrow>
               (w\<lparr>ps_session := s'\<rparr>,
                \<lparr>in_system = Option.bind header hdr_system, in_tools = Option.bind header hdr_tools,
                 in_messages = project_nodes events shadowed\<rparr>)))"

definition prepare_compaction ::
  "region_env \<Rightarrow> surface_selection \<Rightarrow> paired_session \<Rightarrow> paired_session \<times> (region_fault + prepared_compaction)" where
  "prepare_compaction env sel w =
     (case region_measure env w of
        (w1, Inl f) \<Rightarrow> (w1, Inl f)
      | (w1, Inr m) \<Rightarrow>
          let selected = slice_incl (se_start_idx sel) (se_end_idx sel) (me_nodes m) in
          if map tn_seq selected \<noteq> se_shadowed sel then (w1, Inl SurfaceChanged)
          else
            (case build_summarization_input (se_shadowed sel) w1 of
               (w2, input) \<Rightarrow>
                 (w2, Inr \<lparr>se_start = se_start sel, se_end = se_end sel, se_start_idx = se_start_idx sel,
                           se_end_idx = se_end_idx sel, se_shadowed = se_shadowed sel,
                           pc_measurement = m, pc_nodes = selected,
                           pc_tokens = sum_list (map tn_tokens selected), pc_input = input\<rparr>)))"

section \<open>Reads leave the log alone\<close>

definition same_log :: "paired_session \<Rightarrow> paired_session \<Rightarrow> bool" where
  "same_log w w' \<longleftrightarrow> paired_ok w' \<and> ss_log (ps_session w') = ss_log (ps_session w)"

lemma same_log_refl: "paired_ok w \<Longrightarrow> same_log w w"
  and same_log_trans: "same_log w w' \<Longrightarrow> same_log w' w'' \<Longrightarrow> same_log w w''"
  and same_log_ok: "same_log w w' \<Longrightarrow> paired_ok w'"
  and same_log_eq: "same_log w w' \<Longrightarrow> ss_log (ps_session w') = ss_log (ps_session w)"
  by (simp_all add: same_log_def)

lemma same_log_session:
  "paired_ok w \<Longrightarrow> session_ok s \<Longrightarrow> ss_log s = ss_log (ps_session w) \<Longrightarrow> same_log w (w\<lparr>ps_session := s\<rparr>)"
  by (simp add: same_log_def paired_ok_def)

lemma paired_replays:
  "paired_ok w \<Longrightarrow> \<exists>st reps x. replay (ss_log (ps_session w)) = Inr (st, reps, x)"
  using session_replays by (simp add: paired_ok_def)

lemma read_paired:
  assumes "paired_ok w" and "replay (ss_log (ps_session w)) = Inr (st, reps, x)"
  obtains s where "read_surface (ps_session w) = (s, Inr (nodes st, replace_generation st))"
    "same_log w (w\<lparr>ps_session := s\<rparr>)"
  using read_surface_replay [OF _ assms(2)] same_log_session [OF assms(1)] assms(1)
  by (metis paired_ok_def)

lemma events_paired:
  assumes "paired_ok w"
  obtains s where "session_events (ps_session w) = (s, ss_log (ps_session w))"
    "same_log w (w\<lparr>ps_session := s\<rparr>)"
  using session_events_log [of "ps_session w"] same_log_session [OF assms] assms
  by (metis paired_ok_def surj_pair)

text \<open>A query of the pairing cache, by what it answers.\<close>

lemma before_exact:
  assumes "paired_ok w" "replay (ss_log (ps_session w)) = Inr (st, reps, x)"
    and "tool_pairing_balanced_before seq w = (w', r)"
  shows "same_log w w'"
    and "well_paired (ss_log (ps_session w)) (nodes st) \<Longrightarrow>
      r = counted_balance (ss_log (ps_session w)) (nodes st) 0 seq"
    and "r = Inr b \<Longrightarrow> well_paired (ss_log (ps_session w)) (nodes st)"
  using balanced_at_exact [OF assms(1,2) _ assms(3) [unfolded tool_pairing_balanced_before_def]]
  by (auto simp: same_log_def split: if_splits)

lemma after_exact:
  assumes "paired_ok w" "replay (ss_log (ps_session w)) = Inr (st, reps, x)"
    and "tool_pairing_balanced_after seq w = (w', r)"
  shows "same_log w w'"
    and "well_paired (ss_log (ps_session w)) (nodes st) \<Longrightarrow>
      r = counted_balance (ss_log (ps_session w)) (nodes st) 1 seq"
  using balanced_at_exact [OF assms(1,2) _ assms(3) [unfolded tool_pairing_balanced_after_def]]
  by (auto simp: same_log_def split: if_splits)

lemma counted_balance_nth:
  "distinct ns \<Longrightarrow> i < length ns \<Longrightarrow>
     counted_balance es ns offset (ns ! i) = Inr (open_calls es (take (i + offset) ns) = 0)"
  by (simp add: counted_balance_def index_of_nth)

section \<open>Range selection\<close>

definition tail_tokens :: "token_node list \<Rightarrow> nat \<Rightarrow> int" where
  "tail_tokens priced k = sum_list (map tn_tokens (drop k priced))"

lemma tail_tokens_step:
  "i < length priced \<Longrightarrow> tail_tokens priced i = tn_tokens (priced ! i) + tail_tokens priced (Suc i)"
  by (simp add: tail_tokens_def flip: Cons_nth_drop_Suc)

lemma keep_loop_bounds:
  assumes "i < length priced" and "keep_loop priced retain (tail_tokens priced (Suc i)) i = k"
  shows "k \<le> i \<and> (0 < k \<longrightarrow> retain \<le> tail_tokens priced k) \<and>
    (\<forall>j. k < j \<and> j \<le> i \<longrightarrow> tail_tokens priced j < retain)"
  using assms
proof (induction i)
  case (Suc i)
  have step: "tail_tokens priced (Suc (Suc i)) + tn_tokens (priced ! Suc i) = tail_tokens priced (Suc i)"
    using Suc.prems(1) tail_tokens_step by simp
  show ?case
  proof (cases "retain \<le> tail_tokens priced (Suc i)")
    case True
    then show ?thesis using Suc.prems(2) step by (auto simp: Let_def)
  next
    case False
    then have k: "keep_loop priced retain (tail_tokens priced (Suc i)) i = k"
      using Suc.prems(2) step by (simp add: Let_def)
    show ?thesis using Suc.IH [OF _ k] Suc.prems(1) False by (auto simp: le_Suc_eq)
  qed
qed auto

lemma keep_from_bounds:
  assumes "priced \<noteq> []" and "keep_from priced retain = k"
  shows "k < length priced" "0 < k \<Longrightarrow> retain \<le> tail_tokens priced k"
    "k < j \<Longrightarrow> j < length priced \<Longrightarrow> tail_tokens priced j < retain"
proof -
  have "tail_tokens priced (Suc (length priced - 1)) = 0" using assms(1) by (simp add: tail_tokens_def)
  then have "k \<le> length priced - 1 \<and> (0 < k \<longrightarrow> retain \<le> tail_tokens priced k) \<and>
      (\<forall>j. k < j \<and> j \<le> length priced - 1 \<longrightarrow> tail_tokens priced j < retain)"
    using keep_loop_bounds [of "length priced - 1" priced retain k] assms by (simp add: keep_from_def)
  moreover have "0 < length priced" using assms(1) by simp
  ultimately show "k < length priced" "0 < k \<Longrightarrow> retain \<le> tail_tokens priced k"
    "k < j \<Longrightarrow> j < length priced \<Longrightarrow> tail_tokens priced j < retain"
    by (linarith, simp, auto)
qed

lemma tail_tokens_antitone:
  assumes "\<And>t. t \<in> set priced \<Longrightarrow> 0 \<le> tn_tokens t" and "j \<le> k"
  shows "tail_tokens priced k \<le> tail_tokens priced j"
proof -
  have "drop j priced = take (k - j) (drop j priced) @ drop k priced"
    using assms(2) append_take_drop_id [of "k - j" "drop j priced"] by simp
  then have "tail_tokens priced j = sum_list (map tn_tokens (take (k - j) (drop j priced))) + tail_tokens priced k"
    unfolding tail_tokens_def by (metis map_append sum_list_append)
  moreover have "0 \<le> sum_list (map tn_tokens (take (k - j) (drop j priced)))"
    using assms(1) by (intro sum_list_nonneg) (auto dest!: in_set_takeD in_set_dropD)
  ultimately show ?thesis by simp
qed

lemma retreat_exact:
  assumes "paired_ok w" and "replay (ss_log (ps_session w)) = Inr (st, reps, x)"
    and "well_paired (ss_log (ps_session w)) (nodes st)" and "k < length (nodes st)"
    and "retreat (nodes st) k w = (w', r)"
  obtains j where "r = Inr j" "j \<le> k" "same_log w w'"
    "0 < j \<Longrightarrow> open_calls (ss_log (ps_session w)) (take j (nodes st)) = 0"
    "\<And>i. j < i \<Longrightarrow> i \<le> k \<Longrightarrow> open_calls (ss_log (ps_session w)) (take i (nodes st)) \<noteq> 0"
  using assms
proof (induction k arbitrary: w thesis)
  case 0
  then show ?case using same_log_refl by auto
next
  case (Suc k)
  let ?es = "ss_log (ps_session w)"
  obtain v q where q: "tool_pairing_balanced_before (nodes st ! Suc k) w = (v, q)" by fastforce
  note b = before_exact [OF Suc.prems(2,3) q]
  have cut: "q = Inr (open_calls ?es (take (Suc k) (nodes st)) = 0)"
    using b(2) Suc.prems(4,5) replay_distinct [OF Suc.prems(3)] by (simp add: counted_balance_nth)
  show ?case
  proof (cases "open_calls ?es (take (Suc k) (nodes st)) = 0")
    case True
    then show ?thesis using Suc.prems(1) [of "Suc k"] Suc.prems(6) q cut b(1) by auto
  next
    case False
    have eq: "ss_log (ps_session v) = ?es" by (rule same_log_eq [OF b(1)])
    have rest: "retreat (nodes st) k v = (w', r)" using Suc.prems(6) q cut False by simp
    show ?thesis
    proof (rule Suc.IH [OF _ same_log_ok [OF b(1)] _ _ _ rest])
      fix j
      assume j: "r = Inr j" "j \<le> k" "same_log v w'"
        "0 < j \<Longrightarrow> open_calls (ss_log (ps_session v)) (take j (nodes st)) = 0"
        "\<And>i. j < i \<Longrightarrow> i \<le> k \<Longrightarrow> open_calls (ss_log (ps_session v)) (take i (nodes st)) \<noteq> 0"
      show thesis
        using j(4,5) False eq
        by (intro Suc.prems(1) [OF j(1) _ same_log_trans [OF b(1) j(3)]]) (auto simp: le_Suc_eq j(2))
    qed (use Suc.prems eq in simp_all)
  qed
qed

text \<open>The latest cut that splits no call and leaves at least the budget behind it.\<close>

definition best_cut :: "session_event list \<Rightarrow> token_node list \<Rightarrow> int \<Rightarrow> int list \<Rightarrow> nat option" where
  "best_cut es priced retain ns =
     (case filter (\<lambda>k. open_calls es (take k ns) = 0 \<and> retain \<le> tail_tokens priced k)
             (rev [1..<length ns]) of
        [] \<Rightarrow> None
      | k # _ \<Rightarrow> Some k)"

lemma last_satisfying:
  "(case filter P (rev [1..<n]) of [] \<Rightarrow> None | k # _ \<Rightarrow> Some k) =
     (if \<exists>k. 0 < k \<and> k < n \<and> P k then Some (GREATEST k. 0 < k \<and> k < n \<and> P k) else None)"
proof (cases "\<exists>k. 0 < k \<and> k < n \<and> P k")
  case False
  then have "filter P (rev [1..<n]) = []" by (auto simp: filter_empty_conv)
  then show ?thesis using False by simp
next
  case True
  then obtain k ks where f: "filter P (rev [1..<n]) = k # ks"
    by (cases "filter P (rev [1..<n])") (auto simp: filter_empty_conv)
  obtain us vs where d: "rev [1..<n] = us @ k # vs" "P k" "\<forall>u \<in> set us. \<not> P u"
    using f by (auto simp: filter_eq_Cons_iff)
  have k: "0 < k" "k < n"
    using arg_cong [OF d(1), of set] by (auto dest: equalityD2)
  have "j \<le> k" if j: "0 < j" "j < n" "P j" for j
  proof -
    have "sorted_wrt (>) (us @ k # vs)"
      unfolding d(1) [symmetric] sorted_wrt_rev by (rule sorted_wrt_upt)
    moreover have "j \<in> set (us @ k # vs)" unfolding d(1) [symmetric] using j by simp
    ultimately show ?thesis using j(3) d(3) by (auto simp: sorted_wrt_append)
  qed
  then have "(GREATEST k. 0 < k \<and> k < n \<and> P k) = k"
    using k d(2) by (intro Greatest_equality) auto
  then show ?thesis using f True by simp
qed

lemma best_cut_None:
  "best_cut es priced retain ns = None \<longleftrightarrow>
     (\<forall>k. 0 < k \<and> k < length ns \<longrightarrow> \<not> (open_calls es (take k ns) = 0 \<and> retain \<le> tail_tokens priced k))"
  unfolding best_cut_def last_satisfying by auto

lemma best_cut_Some:
  assumes "0 < k" "k < length ns" "open_calls es (take k ns) = 0" "retain \<le> tail_tokens priced k"
    and "\<And>j. k < j \<Longrightarrow> j < length ns \<Longrightarrow> \<not> (open_calls es (take j ns) = 0 \<and> retain \<le> tail_tokens priced j)"
  shows "best_cut es priced retain ns = Some k"
proof -
  have top: "j \<le> k" if "0 < j \<and> j < length ns \<and> open_calls es (take j ns) = 0 \<and> retain \<le> tail_tokens priced j" for j
    using assms(5) [of j] that by (metis not_le)
  have "(GREATEST k. 0 < k \<and> k < length ns \<and> open_calls es (take k ns) = 0 \<and> retain \<le> tail_tokens priced k) = k"
    by (rule Greatest_equality [OF _ top]) (use assms(1-4) in simp)
  then show ?thesis unfolding best_cut_def last_satisfying using assms(1-4) by auto
qed

lemma select_exact:
  assumes ok: "paired_ok w" and r: "replay (ss_log (ps_session w)) = Inr (st, reps, x)"
    and wp: "well_paired (ss_log (ps_session w)) (nodes st)"
    and meter: "map tn_seq (me_nodes m) = nodes st"
    and pos: "\<And>t. t \<in> set (me_nodes m) \<Longrightarrow> 0 \<le> tn_tokens t"
    and sel: "select_compactable_range m retain w = (w', res)"
  shows "same_log w w'"
    "res = Inr (map_option (\<lambda>k. (nodes st ! 0, nodes st ! (k - 1)))
             (best_cut (ss_log (ps_session w)) (me_nodes m) retain (nodes st)))"
proof -
  let ?es = "ss_log (ps_session w)" and ?ns = "nodes st" and ?priced = "me_nodes m"
  let ?best = "best_cut ?es ?priced retain ?ns"
  have len: "length ?priced = length ?ns" using arg_cong [OF meter, of length] by simp
  have "same_log w w' \<and> res = Inr (map_option (\<lambda>k. (?ns ! 0, ?ns ! (k - 1))) ?best)"
  proof (cases "?priced = []")
    case True
    then have "?best = None" using len by (simp add: best_cut_def)
    then show ?thesis using sel True same_log_refl [OF ok] by (simp add: select_compactable_range_def Let_def)
  next
    case ne: False
    obtain s where s: "read_surface (ps_session w) = (s, Inr (?ns, replace_generation st))"
      "same_log w (w\<lparr>ps_session := s\<rparr>)"
      using read_paired [OF ok r] .
    let ?w = "w\<lparr>ps_session := s\<rparr>"
    note w1 = same_log_ok [OF s(2)] same_log_eq [OF s(2)]
    define k where "k = keep_from ?priced retain"
    note K = keep_from_bounds [OF ne k_def [symmetric]]
    have beyond: "\<not> (open_calls ?es (take j ?ns) = 0 \<and> retain \<le> tail_tokens ?priced j)"
      if "k < j" "j < length ?ns" for j
      using K(3) [OF that(1)] that(2) len by simp
    show ?thesis
    proof (cases k)
      case 0
      then have "?best = None" using beyond by (auto simp: best_cut_None)
      moreover have "(w', res) = (?w, Inr None)"
        using sel ne s(1) meter 0 k_def by (simp add: select_compactable_range_def Let_def)
      ultimately show ?thesis using s(2) by simp
    next
      case (Suc n)
      obtain v q where q: "retreat ?ns k ?w = (v, q)" by fastforce
      obtain j where j: "q = Inr j" "j \<le> k" "same_log ?w v"
        "0 < j \<Longrightarrow> open_calls ?es (take j ?ns) = 0"
        "\<And>i. j < i \<Longrightarrow> i \<le> k \<Longrightarrow> open_calls ?es (take i ?ns) \<noteq> 0"
        using retreat_exact [OF w1(1) _ _ _ q] r wp K(1) len w1(2) by auto
      have log: "same_log w v" using same_log_trans [OF s(2) j(3)] .
      have out: "(w', res) = (v, Inr (case j of 0 \<Rightarrow> None | Suc i \<Rightarrow> Some (?ns ! 0, ?ns ! i)))"
        using sel ne s(1) meter q Suc k_def j(1)
        by (cases j) (simp_all add: select_compactable_range_def Let_def)
      show ?thesis
      proof (cases j)
        case 0
        have "?best = None"
          unfolding best_cut_None using beyond j(5) unfolding 0 by (metis not_le)
        then show ?thesis using out log 0 by simp
      next
        case (Suc i)
        have tail: "retain \<le> tail_tokens ?priced j"
          using K(2) \<open>k = Suc n\<close> tail_tokens_antitone [of ?priced j k, OF pos j(2)] by simp
        have "?best = Some j"
        proof (rule best_cut_Some)
          fix i
          assume i: "j < i" "i < length ?ns"
          show "\<not> (open_calls ?es (take i ?ns) = 0 \<and> retain \<le> tail_tokens ?priced i)"
            using beyond [OF _ i(2)] j(5) [OF i(1)] by (metis not_le)
        qed (use tail j(2,4) Suc K(1) len in simp_all)
        then show ?thesis using out log Suc by simp
      qed
    qed
  qed
  then show "same_log w w'" "res = Inr (map_option (\<lambda>k. (?ns ! 0, ?ns ! (k - 1))) ?best)" by simp_all
qed

section \<open>Range validation\<close>

text \<open>What the two cut checks of a range answer on a well-paired surface.\<close>

lemma check_cuts:
  assumes ok: "paired_ok w" and r: "replay (ss_log (ps_session w)) = Inr (st, reps, x)"
    and wp: "well_paired (ss_log (ps_session w)) (nodes st)"
    and ij: "i < length (nodes st)" "j < length (nodes st)"
    and b: "tool_pairing_balanced_before (nodes st ! i) w = (w2, q)"
    and a: "tool_pairing_balanced_after (nodes st ! j) w2 = (w3, q')"
  shows "same_log w w2" "same_log w w3"
    "q = Inr (open_calls (ss_log (ps_session w)) (take i (nodes st)) = 0)"
    "q' = Inr (open_calls (ss_log (ps_session w)) (take (Suc j) (nodes st)) = 0)"
proof -
  note B = before_exact [OF ok r b] and d = replay_distinct [OF r]
  show s2: "same_log w w2" by (rule B(1))
  note A = after_exact [OF same_log_ok [OF s2] _ a]
  show "same_log w w3" using same_log_trans [OF s2 A(1)] r same_log_eq [OF s2] by simp
  show "q = Inr (open_calls (ss_log (ps_session w)) (take i (nodes st)) = 0)"
    using B(2) [OF wp] ij(1) d by (simp add: counted_balance_nth)
  show "q' = Inr (open_calls (ss_log (ps_session w)) (take (Suc j) (nodes st)) = 0)"
    using A(2) [of st reps x] r wp ij(2) d same_log_eq [OF s2] by (simp add: counted_balance_nth)
qed

lemma validate_log:
  assumes ok: "paired_ok w" and v: "validate_surface_region start end' w = (w', res)"
  shows "same_log w w'"
proof -
  obtain st reps x where r: "replay (ss_log (ps_session w)) = Inr (st, reps, x)"
    using paired_replays [OF ok] by blast
  obtain s where s: "read_surface (ps_session w) = (s, Inr (nodes st, replace_generation st))"
    "same_log w (w\<lparr>ps_session := s\<rparr>)"
    using read_paired [OF ok r] .
  let ?w = "w\<lparr>ps_session := s\<rparr>"
  have r1: "replay (ss_log (ps_session ?w)) = Inr (st, reps, x)" using r same_log_eq [OF s(2)] by simp
  have q: "same_log w v" if "tool_pairing_balanced_before n ?w = (v, q)" for n v q
    using same_log_trans [OF s(2)] before_exact(1) [OF same_log_ok [OF s(2)] r1 that] by blast
  have q': "same_log w u" if "same_log w v" "tool_pairing_balanced_after n v = (u, q)" for n v u q
    using same_log_trans [OF that(1)] after_exact(1) [OF same_log_ok [OF that(1)] _ that(2)] r
      same_log_eq [OF that(1)] by simp
  have "w' = ?w \<or> (\<exists>n q. tool_pairing_balanced_before n ?w = (w', q)) \<or>
      (\<exists>n q m p v. tool_pairing_balanced_before n ?w = (v, q) \<and> tool_pairing_balanced_after m v = (w', p))"
    using v s(1)
    by (auto simp: validate_surface_region_def check_cut_def Let_def
        split: option.splits if_splits sum.splits prod.splits) (metis prod.collapse)+
  then show ?thesis using s(2) q q' by blast
qed

lemma validate_Inr:
  assumes ok: "paired_ok w" and r: "replay (ss_log (ps_session w)) = Inr (st, reps, x)"
    and v: "validate_surface_region start end' w = (w', Inr sel)"
  obtains i j where "well_paired (ss_log (ps_session w)) (nodes st)"
    "i \<le> j" "j < length (nodes st)" "nodes st ! i = start" "nodes st ! j = end'"
    "open_calls (ss_log (ps_session w)) (take i (nodes st)) = 0"
    "open_calls (ss_log (ps_session w)) (take (Suc j) (nodes st)) = 0"
    "sel = \<lparr>se_start = start, se_end = end', se_start_idx = i, se_end_idx = j,
            se_shadowed = slice_incl i j (nodes st)\<rparr>"
proof -
  let ?es = "ss_log (ps_session w)" and ?ns = "nodes st"
  obtain s where s: "read_surface (ps_session w) = (s, Inr (?ns, replace_generation st))"
    "same_log w (w\<lparr>ps_session := s\<rparr>)"
    using read_paired [OF ok r] .
  let ?w = "w\<lparr>ps_session := s\<rparr>"
  have r1: "replay (ss_log (ps_session ?w)) = Inr (st, reps, x)" using r same_log_eq [OF s(2)] by simp
  obtain i j where ij: "index_of start ?ns = Some i" "index_of end' ?ns = Some j" "\<not> j < i"
    using v s(1) by (auto simp: validate_surface_region_def Let_def simp del: index_of_None
        split: option.splits if_splits)
  obtain w2 q where b: "tool_pairing_balanced_before (?ns ! i) ?w = (w2, q)" by fastforce
  obtain w3 q' where a: "tool_pairing_balanced_after (?ns ! j) w2 = (w3, q')" by fastforce
  have "q = Inr True \<and> q' = Inr True \<and> sel = \<lparr>se_start = start, se_end = end', se_start_idx = i,
      se_end_idx = j, se_shadowed = slice_incl i j ?ns\<rparr>"
    using v s(1) ij b a
    by (auto simp: validate_surface_region_def check_cut_def Let_def split: sum.splits if_splits)
  moreover from this have wp: "well_paired ?es ?ns"
    using before_exact(3) [OF same_log_ok [OF s(2)] r1 b] same_log_eq [OF s(2)] by auto
  moreover have "i < length ?ns" "j < length ?ns" "?ns ! i = start" "?ns ! j = end'"
    using index_of_Some [OF ij(1)] index_of_Some [OF ij(2)] by simp_all
  moreover note check_cuts [OF same_log_ok [OF s(2)] r1 _ _ _ b a]
  ultimately show thesis using that ij(3) same_log_eq [OF s(2)] by simp
qed

lemma validate_accepts:
  assumes ok: "paired_ok w" and r: "replay (ss_log (ps_session w)) = Inr (st, reps, x)"
    and wp: "well_paired (ss_log (ps_session w)) (nodes st)"
    and ij: "i \<le> j" "j < length (nodes st)"
    and cuts: "open_calls (ss_log (ps_session w)) (take i (nodes st)) = 0"
      "open_calls (ss_log (ps_session w)) (take (Suc j) (nodes st)) = 0"
  obtains w' where "validate_surface_region (nodes st ! i) (nodes st ! j) w = (w', Inr
      \<lparr>se_start = nodes st ! i, se_end = nodes st ! j, se_start_idx = i, se_end_idx = j,
       se_shadowed = slice_incl i j (nodes st)\<rparr>)" "same_log w w'"
proof -
  let ?ns = "nodes st"
  obtain s where s: "read_surface (ps_session w) = (s, Inr (?ns, replace_generation st))"
    "same_log w (w\<lparr>ps_session := s\<rparr>)"
    using read_paired [OF ok r] .
  let ?w = "w\<lparr>ps_session := s\<rparr>"
  have r1: "replay (ss_log (ps_session ?w)) = Inr (st, reps, x)" using r same_log_eq [OF s(2)] by simp
  obtain w2 q where b: "tool_pairing_balanced_before (?ns ! i) ?w = (w2, q)" by fastforce
  obtain w3 q' where a: "tool_pairing_balanced_after (?ns ! j) w2 = (w3, q')" by fastforce
  have idx: "index_of (?ns ! i) ?ns = Some i" "index_of (?ns ! j) ?ns = Some j"
    using index_of_nth [OF replay_distinct [OF r]] ij by simp_all
  note C = check_cuts [OF same_log_ok [OF s(2)] r1 _ _ ij(2) b a]
  have "q = Inr True" "q' = Inr True" "same_log w w3"
    using C wp cuts ij same_log_eq [OF s(2)] same_log_trans [OF s(2)] by simp_all
  then show thesis
    using that [of w3] s(1) idx b a ij(1)
    by (simp add: validate_surface_region_def check_cut_def Let_def)
qed

lemma best_cut_SomeD:
  assumes "best_cut es priced retain ns = Some k"
  shows "0 < k" "k < length ns" "open_calls es (take k ns) = 0" "retain \<le> tail_tokens priced k"
proof -
  have "k \<in> set (filter (\<lambda>k. open_calls es (take k ns) = 0 \<and> retain \<le> tail_tokens priced k) (rev [1..<length ns]))"
    using assms unfolding best_cut_def by (auto split: list.splits simp del: set_filter)
  then show "0 < k" "k < length ns" "open_calls es (take k ns) = 0" "retain \<le> tail_tokens priced k" by simp_all
qed

text \<open>C21. Range selection returns the best range there is: from the head of the surface to the last
  cut that splits no tool call from its result and leaves at least the retained budget behind it,
  and nothing when there is no such cut. The returned range passes the transaction's own validation.\<close>

theorem selected_range_is_best:
  assumes ok: "paired_ok w" and r: "replay (ss_log (ps_session w)) = Inr (st, reps, x)"
    and wp: "well_paired (ss_log (ps_session w)) (nodes st)"
    and read: "meter_read digits None (ss_log (ps_session w)) = Inr m"
    and sel: "select_compactable_range m retain w = (w', res)"
  shows "ss_log (ps_session w') = ss_log (ps_session w) \<and>
    res = Inr (map_option (\<lambda>k. (nodes st ! 0, nodes st ! (k - 1)))
           (best_cut (ss_log (ps_session w)) (me_nodes m) retain (nodes st))) \<and>
    (case res of Inr (Some (a, b)) \<Rightarrow> returns (snd (validate_surface_region a b w')) | _ \<Rightarrow> True)"
proof -
  let ?best = "best_cut (ss_log (ps_session w)) (me_nodes m) retain (nodes st)"
  have meter: "me_nodes m = priced_nodes digits (ss_log (ps_session w)) (nodes st)"
    using meter_read_surface [OF read r] by simp
  have pos: "\<And>t. t \<in> set (me_nodes m) \<Longrightarrow> 0 \<le> tn_tokens t"
    unfolding meter by (auto simp: priced_nodes_def event_tokens_nonneg)
  have "map tn_seq (me_nodes m) = nodes st" unfolding meter by simp
  note S = select_exact [OF ok r wp this pos sel]
  have eq: "ss_log (ps_session w') = ss_log (ps_session w)" by (rule same_log_eq [OF S(1)])
  show ?thesis
  proof (cases ?best)
    case None
    then show ?thesis using S(2) eq by simp
  next
    case (Some k)
    note K = best_cut_SomeD [OF Some]
    have r': "replay (ss_log (ps_session w')) = Inr (st, reps, x)" using r eq by simp
    have "returns (snd (validate_surface_region (nodes st ! 0) (nodes st ! (k - 1)) w'))"
      by (rule validate_accepts [OF same_log_ok [OF S(1)] r', of 0 "k - 1"]) (use K wp eq in simp_all)
    then show ?thesis using S(2) eq Some by simp
  qed
qed

section \<open>The entry state of a log\<close>

definition is_bracket :: "session_event \<Rightarrow> bool" where
  "is_bracket e \<longleftrightarrow> ev_type e = ''compaction/start'' \<or> ev_type e = ''compaction/end''"

definition is_end_seed :: "session_event \<Rightarrow> bool" where
  "is_end_seed e \<longleftrightarrow> ev_type e = ''session/end-seed''"

definition entry_note :: "entry_state \<Rightarrow> session_event \<Rightarrow> entry_state" where
  "entry_note st e = note_turn e (note_compaction e (note_end_seed e st))"

text \<open>Stopping early loses nothing: once all three facts are known, no event changes them.\<close>

lemma entry_note_known:
  "es_turn_known st \<Longrightarrow> es_compaction_known st \<Longrightarrow> es_end_seed st \<noteq> None \<Longrightarrow> entry_note st e = st"
  by (simp add: entry_note_def note_turn_def note_compaction_def note_end_seed_def)

lemma entry_loop_foldl: "entry_loop es st = foldl entry_note st es"
proof (induction es arbitrary: st)
  case (Cons e es)
  have stable: "foldl entry_note st' es = st'"
    if "es_turn_known st'" "es_compaction_known st'" "es_end_seed st' \<noteq> None" for st'
    using that by (induction es) (simp_all add: entry_note_known)
  show ?case using Cons.IH stable by (simp add: Let_def flip: entry_note_def)
qed simp

lemma entry_note_fields:
  "es_compaction_known (entry_note st e) = (es_compaction_known st \<or> is_bracket e)"
  "es_unmatched (entry_note st e) =
     (if \<not> es_compaction_known st \<and> ev_type e = ''compaction/start'' then Some e else es_unmatched st)"
  "es_end_seed (entry_note st e) =
     (if es_end_seed st = None \<and> is_end_seed e then Some (ev_seq e) else es_end_seed st)"
  by (auto simp: entry_note_def note_turn_def note_compaction_def note_end_seed_def is_bracket_def
      is_end_seed_def split: event_data.splits)

lemma foldl_unmatched:
  "es_unmatched (foldl entry_note st es) =
     (if es_compaction_known st then es_unmatched st
      else case find is_bracket es of
        Some e \<Rightarrow> if ev_type e = ''compaction/start'' then Some e else es_unmatched st
      | None \<Rightarrow> es_unmatched st)"
  by (induction es arbitrary: st) (auto simp: entry_note_fields is_bracket_def split: option.splits)

lemma foldl_end_seed:
  "es_end_seed (foldl entry_note st es) =
     (case es_end_seed st of Some n \<Rightarrow> Some n | None \<Rightarrow> map_option ev_seq (find is_end_seed es))"
  by (induction es arbitrary: st) (auto simp: entry_note_fields split: option.splits)

lemma inspect_unmatched:
  "es_unmatched (inspect_compaction_entry_state es) =
     (case find is_bracket (rev es) of
        Some e \<Rightarrow> if ev_type e = ''compaction/start'' then Some e else None
      | None \<Rightarrow> None)"
  by (simp add: inspect_compaction_entry_state_def entry_loop_foldl foldl_unmatched initial_entry_def
      split: option.splits)

lemma inspect_end_seed:
  "es_end_seed (inspect_compaction_entry_state es) = map_option ev_seq (find is_end_seed (rev es))"
  by (simp add: inspect_compaction_entry_state_def entry_loop_foldl foldl_end_seed initial_entry_def)

lemma find_append: "find P (xs @ ys) = (case find P xs of Some x \<Rightarrow> Some x | None \<Rightarrow> find P ys)"
  by (induction xs) (auto split: option.splits)

text \<open>A closing event frees the lock.\<close>

lemma closed_inactive:
  "ev_type e = ''compaction/end'' \<Longrightarrow> compaction_inactive (inspect_compaction_entry_state (es @ [e]))"
  by (simp add: compaction_inactive_def inspect_unmatched is_bracket_def)

text \<open>An opening that is neither closed nor followed by a seed boundary holds it.\<close>

lemma opened_active:
  assumes "ev_type begun = ''compaction/start''"
    and "\<And>e. e \<in> set others \<Longrightarrow> \<not> is_bracket e \<and> \<not> is_end_seed e"
    and "\<And>e. e \<in> set es \<Longrightarrow> ev_seq e \<le> ev_seq begun"
  shows "\<not> compaction_inactive (inspect_compaction_entry_state (es @ begun # others))"
proof -
  have none: "find is_bracket (rev others) = None" "find is_end_seed (rev others) = None"
    using assms(2) by (auto simp: find_None_iff)
  have "es_unmatched (inspect_compaction_entry_state (es @ begun # others)) = Some begun"
    using none assms(1) by (simp add: inspect_unmatched find_append is_bracket_def)
  moreover have "es_end_seed (inspect_compaction_entry_state (es @ begun # others)) =
      map_option ev_seq (find is_end_seed (rev es))"
    using none assms(1) by (simp add: inspect_end_seed find_append is_end_seed_def)
  moreover have "n \<le> ev_seq begun" if "find is_end_seed (rev es) = Some e" "ev_seq e = n" for e n
    using that assms(3) by (auto simp: find_Some_iff) (metis length_rev nth_mem set_rev)
  ultimately show ?thesis
    by (fastforce simp: compaction_inactive_def split: option.splits)
qed

section \<open>Instances\<close>

lemma example_pairing_ok: "paired_ok example_pairing"
  using pairing_history_ok opened [OF example_tools_ok] unfolding example_pairing_def by blast

theorem selected_range_is_best_witness:
  "snd (select_compactable_range (projr (meter_read (\<lambda>_. []) None (ss_log example_tools))) 20 example_pairing) =
     Inr (Some (1, 1))"
proof -
  let ?m = "projr (meter_read (\<lambda>_. []) None (ss_log example_tools))"
  let ?st = "\<lparr>nodes = [1, 2, 3, 4], replace_generation = 0\<rparr>"
  have s: "ps_session example_pairing = example_tools" by (simp add: example_pairing_def)
  have "returns (meter_read (\<lambda>_. []) None (ss_log example_tools))" by code_simp
  then have m: "meter_read (\<lambda>_. []) None (ss_log example_tools) = Inr ?m" by (auto simp: returns_iff)
  have "well_paired (ss_log (ps_session example_pairing)) (nodes ?st)" by code_simp
  moreover have "best_cut (ss_log (ps_session example_pairing)) (me_nodes ?m) 20 (nodes ?st) = Some 1" by code_simp
  ultimately show ?thesis
    using selected_range_is_best [OF example_pairing_ok example_tools_replay [folded s] _ m [folded s] prod.collapse [symmetric],
        of 20] by (simp add: s)
qed

end
