(* ===== verification/Compaction_Transaction.thy ===== *)
theory Compaction_Transaction
  imports Compaction_Region
begin

text \<open>
  The compaction transaction of \<^verbatim>\<open>packages/compaction/compaction-basic/src/region.ts\<close>,
  with the checkpoint source of \<^verbatim>\<open>packages/compaction/compaction/src/checkpoint.ts\<close>
  and the framing of \<^verbatim>\<open>packages/compaction/compaction-basic/src/summarizer.ts\<close>. The
  properties state what a success puts in the log and on the surface, that a failure leaves the
  conversation alone, that the lock is always released and that it excludes a second transaction.
\<close>

section \<open>The transaction\<close>

definition CHECKPOINT_PREAMBLE :: string where
  "CHECKPOINT_PREAMBLE = ''This is an automatically generated checkpoint condensing an earlier span of the conversation to free up context. Treat the captured context as established background and build on it without restating it. Continue the task directly from the messages that follow, without acknowledging this checkpoint.''"

definition frame_summary :: "content_block list \<Rightarrow> content_block list" where
  "frame_summary summary =
     [TextBlock (CHECKPOINT_PREAMBLE @ [CHR 0x0A, CHR 0x0A] @ ''<compacted-summary>'')]
      @ summary @ [TextBlock ''</compacted-summary>'']"

definition compact_checkpoint_source :: "string \<Rightarrow> string option \<Rightarrow> message_source" where
  "compact_checkpoint_source cid command =
     PluginSource ''compact'' False
       ([(''compactionId'', JStr cid)] @ opt_field ''sourceCommandId'' JStr command)"

definition is_compact_checkpoint_source :: "message_source \<Rightarrow> bool" where
  "is_compact_checkpoint_source source =
     (case source of PluginSource p _ _ \<Rightarrow> p = ''compact'' | _ \<Rightarrow> False)"

definition checkpoint_message :: "region_env \<Rightarrow> string option \<Rightarrow> summary_result \<Rightarrow> message" where
  "checkpoint_message env command res =
     \<lparr>msg_id = ce_message_id env, msg_role = UserRole, msg_content = frame_summary (su_summary res),
      msg_source = compact_checkpoint_source (ce_id env) command\<rparr>"

fun interleave :: "(int \<times> event_data \<times> surface_intent) list \<Rightarrow> paired_session \<Rightarrow> paired_session" where
  "interleave [] w = w"
| "interleave ((now, d, intent) # rest) w =
     interleave rest (w\<lparr>ps_session := fst (append_event False True now d intent (ps_session w))\<rparr>)"

text \<open>The summarizer runs while the rest of the program goes on appending.\<close>

definition summarize_compaction ::
  "region_env \<Rightarrow> string option \<Rightarrow> prepared_compaction \<Rightarrow> paired_session
     \<Rightarrow> paired_session \<times> (region_fault + summary_result \<times> message)" where
  "summarize_compaction env command prep w =
     (interleave (ce_meanwhile env) w,
      case ce_summarize env (pc_input prep) of
        Inl msg \<Rightarrow> Inl (SummarizerFailed msg)
      | Inr res \<Rightarrow>
          let checkpoint = checkpoint_message env command res; framed = estimate_message (ce_digits env) checkpoint in
          if pc_tokens prep \<le> framed then Inl (SummaryTooLarge framed (pc_tokens prep))
          else Inr (res, checkpoint))"

definition assert_whole_surface_unchanged ::
  "region_env \<Rightarrow> prepared_compaction \<Rightarrow> paired_session \<Rightarrow> paired_session \<times> (region_fault + unit)" where
  "assert_whole_surface_unchanged env prep w =
     (case region_measure env w of
        (w1, Inl f) \<Rightarrow> (w1, Inl f)
      | (w1, Inr m) \<Rightarrow>
          (w1, if me_nodes m \<noteq> me_nodes (pc_measurement prep) then Inl SurfaceChanged else Inr ()))"

definition assert_selected_span_stable ::
  "region_env \<Rightarrow> prepared_compaction \<Rightarrow> paired_session \<Rightarrow> paired_session \<times> (region_fault + unit)" where
  "assert_selected_span_stable env prep w =
     (case validate_surface_region (se_start prep) (se_end prep) w of
        (w1, Inl _) \<Rightarrow> (w1, Inl SurfaceChanged)
      | (w1, Inr current) \<Rightarrow>
          if se_shadowed current \<noteq> se_shadowed prep then (w1, Inl SurfaceChanged)
          else
            (case region_measure env w1 of
               (w2, Inl f) \<Rightarrow> (w2, Inl f)
             | (w2, Inr m) \<Rightarrow>
                 (w2, if slice_incl (se_start_idx current) (se_end_idx current) (me_nodes m) \<noteq> pc_nodes prep
                      then Inl SurfaceChanged else Inr ())))"

definition assert_stable ::
  "stability \<Rightarrow> region_env \<Rightarrow> prepared_compaction \<Rightarrow> paired_session \<Rightarrow> paired_session \<times> (region_fault + unit)" where
  "assert_stable rule =
     (case rule of WholeSurface \<Rightarrow> assert_whole_surface_unchanged
      | SelectedSpan \<Rightarrow> assert_selected_span_stable)"

definition region_append ::
  "region_env \<Rightarrow> nat \<Rightarrow> event_data \<Rightarrow> surface_intent \<Rightarrow> paired_session
     \<Rightarrow> paired_session \<times> (region_fault + session_event)" where
  "region_append env k d intent w =
     (case append_event False (ce_dispatch env k) (ce_clock env k) d intent (ps_session w) of
        (s, r) \<Rightarrow>
          (w\<lparr>ps_session := s\<rparr>, case r of Inl err \<Rightarrow> Inl (AppendRejected err) | Inr e \<Rightarrow> Inr e))"

definition turn_json :: "int option \<Rightarrow> jv" where
  "turn_json owner = (case owner of None \<Rightarrow> JNull | Some t \<Rightarrow> jint t)"

definition lifecycle_data :: "string \<Rightarrow> string option \<Rightarrow> int option \<Rightarrow> string option \<Rightarrow> jv" where
  "lifecycle_data cid command owner failure =
     JObj ([(''compactionId'', JStr cid)] @ opt_field ''sourceCommandId'' JStr command
           @ [(''turn'', turn_json owner)] @ opt_field ''error'' JStr failure)"

definition blocks_json :: "content_block list \<Rightarrow> jv" where
  "blocks_json bs = JArr (map block_json bs)"

definition summary_data ::
  "string \<Rightarrow> string option \<Rightarrow> prepared_compaction \<Rightarrow> summary_result \<Rightarrow> jv" where
  "summary_data cid command prep res =
     JObj ([(''compactionId'', JStr cid)] @ opt_field ''sourceCommandId'' JStr command
           @ [(''summary'', blocks_json (su_summary res))]
           @ opt_field ''rawOutput'' blocks_json (su_raw_output res)
           @ flag_field ''llmStreamCall'' (su_stream_call res)
           @ [(''shadowedRange'', JObj [(''start'', jint (se_start prep)), (''end'', jint (se_end prep))]),
              (''shadowedSeqs'', JArr (map jint (se_shadowed prep))),
              (''shadowedTokenCount'', jint (pc_tokens prep)),
              (''provider'', JStr (su_provider res)), (''model'', JStr (su_model res))]
           @ opt_field ''maxTokens'' jint (su_max_tokens res)
           @ opt_field ''usage'' usage_json (su_usage res))"

text \<open>The summary record and the replacement; the result lacks the closing sequence number.\<close>

definition commit_compaction_body ::
  "region_env \<Rightarrow> string option \<Rightarrow> session_event \<Rightarrow> prepared_compaction \<Rightarrow> summary_result \<Rightarrow> message
     \<Rightarrow> paired_session \<Rightarrow> paired_session \<times> (region_fault + compaction_result)" where
  "commit_compaction_body env command begun prep res checkpoint w =
     (case region_append env 1 (PluginEvent ''compaction/summary'' (summary_data (ce_id env) command prep res))
             (None, None) w of
        (w1, Inl f) \<Rightarrow> (w1, Inl f)
      | (w1, Inr summary) \<Rightarrow>
          (case region_append env 2 (UserMessage checkpoint)
                  (Some (JArr (map jint (ev_seq begun # ev_seq summary # se_shadowed prep))),
                   Some (replace_op (se_start prep) (se_end prep))) w1 of
             (w2, Inl f) \<Rightarrow> (w2, Inl f)
           | (w2, Inr _) \<Rightarrow>
               (w2, Inr \<lparr>cr_compaction = ce_id env, cr_command = command, cr_start_seq = ev_seq begun,
                         cr_summary_seq = ev_seq summary, cr_end_seq = 0, cr_summary = su_summary res,
                         cr_range = (se_start prep, se_end prep), cr_shadowed = se_shadowed prep,
                         cr_tokens = pc_tokens prep\<rparr>)))"

text \<open>The \<open>try\<close> block up to the closing append; a failure carries its stage.\<close>

definition transaction_body ::
  "region_env \<Rightarrow> region_options \<Rightarrow> surface_selection \<Rightarrow> session_event \<Rightarrow> paired_session
     \<Rightarrow> paired_session \<times> (stage \<times> region_fault + compaction_result)" where
  "transaction_body env opts sel begun w =
     (case prepare_compaction env sel w of
        (w1, Inl f) \<Rightarrow> (w1, Inl (SummaryStage, f))
      | (w1, Inr prep) \<Rightarrow>
          (case summarize_compaction env (ro_command opts) prep w1 of
             (w2, Inl f) \<Rightarrow> (w2, Inl (SummaryStage, f))
           | (w2, Inr (res, checkpoint)) \<Rightarrow>
               if ro_owner opts = Standalone \<and> ce_abort_summarized env
               then (w2, Inl (SummaryStage, AbortReason))
               else
                 (case assert_stable (ro_stability opts) env prep w2 of
                    (w3, Inl f) \<Rightarrow> (w3, Inl (SummaryStage, f))
                  | (w3, Inr _) \<Rightarrow>
                      (case commit_compaction_body env (ro_command opts) begun prep res checkpoint w3 of
                         (w4, Inl f) \<Rightarrow> (w4, Inl (CommitStage, f))
                       | (w4, Inr pending) \<Rightarrow> (w4, Inr pending)))))"

text \<open>The one closing attempt: whether it closed, and the result or the failure.\<close>

definition close_transaction ::
  "region_env \<Rightarrow> region_options \<Rightarrow> int option \<Rightarrow> paired_session
     \<Rightarrow> stage \<times> region_fault + compaction_result
     \<Rightarrow> paired_session \<times> bool \<times> (stage \<times> region_fault + compaction_result)" where
  "close_transaction env opts owner w outcome =
     (case outcome of
        Inr pending \<Rightarrow>
          (case region_append env 3
                  (PluginEvent ''compaction/end'' (lifecycle_data (ce_id env) (ro_command opts) owner None))
                  (None, None) w of
             (w', Inl f) \<Rightarrow> (w', False, Inl (CommitStage, f))
           | (w', Inr closing) \<Rightarrow> (w', True, Inr (pending\<lparr>cr_end_seq := ev_seq closing\<rparr>)))
      | Inl (stage, f) \<Rightarrow>
          (case region_append env 3
                  (PluginEvent ''compaction/end''
                    (lifecycle_data (ce_id env) (ro_command opts) owner (Some (ce_error_chain env f))))
                  (None, None) w of
             (w', Inl f') \<Rightarrow> (w', False, Inl (CommitStage, f'))
           | (w', Inr _) \<Rightarrow> (w', True, Inl (stage, f))))"

definition manual_failure :: "stage \<Rightarrow> region_fault \<Rightarrow> manual_code" where
  "manual_failure stage f =
     (if stage = CommitStage then ManualCommit
      else if f = SurfaceChanged then ManualChanged else ManualSummary)"

definition settle ::
  "region_env \<Rightarrow> region_options \<Rightarrow> bool \<Rightarrow> stage \<times> region_fault + compaction_result
     \<Rightarrow> region_error + compaction_result" where
  "settle env opts ended outcome =
     (if ro_owner opts = Standalone \<and> ce_abort_exit env then Inl (Fault AbortReason)
      else case outcome of
        Inl (stage, f) \<Rightarrow>
          Inl (if ro_owner opts = Standalone then Manual (manual_failure stage f) else Fault f)
      | Inr res \<Rightarrow>
          if ended \<and> ro_flush opts \<and> \<not> ce_flush_ok env then Inl (Manual ManualPersistence)
          else Inr res)"

definition run_transaction ::
  "region_env \<Rightarrow> region_options \<Rightarrow> int option \<Rightarrow> surface_selection \<Rightarrow> paired_session
     \<Rightarrow> paired_session \<times> (region_error + compaction_result)" where
  "run_transaction env opts owner sel w =
     (case region_append env 0
             (PluginEvent ''compaction/start'' (lifecycle_data (ce_id env) (ro_command opts) owner None))
             (None, None) w of
        (w1, Inl f) \<Rightarrow> (w1, Inl (Fault f))
      | (w1, Inr begun) \<Rightarrow>
          (case transaction_body env opts sel begun w1 of
             (w2, outcome) \<Rightarrow>
               (case close_transaction env opts owner w2 outcome of
                  (w3, ended, final) \<Rightarrow> (w3, settle env opts ended final))))"

definition owner_turn :: "region_options \<Rightarrow> entry_state \<Rightarrow> region_error + int option" where
  "owner_turn opts st =
     (case ro_owner opts of
        Standalone \<Rightarrow> if es_open_turn st \<noteq> None then Inl (Manual ManualBusy) else Inr None
      | CurrentTurn \<Rightarrow>
          (case es_open_turn st of None \<Rightarrow> Inl (Fault NoOpenTurn) | Some t \<Rightarrow> Inr (Some t)))"

definition compact_surface_region ::
  "region_env \<Rightarrow> region_options \<Rightarrow> int \<Rightarrow> int \<Rightarrow> paired_session
     \<Rightarrow> paired_session \<times> (region_error + compaction_result)" where
  "compact_surface_region env opts start end' w =
     (if ro_owner opts = Standalone \<and> ce_abort_entry env then (w, Inl (Fault AbortReason))
      else case validate_surface_region start end' w of
        (w1, Inl f) \<Rightarrow> (w1, Inl (Fault f))
      | (w1, Inr sel) \<Rightarrow>
          (case session_events (ps_session w1) of
             (s, events) \<Rightarrow>
               let w2 = w1\<lparr>ps_session := s\<rparr>; st = inspect_compaction_entry_state events in
               if \<not> compaction_inactive st then (w2, Inl (Manual ManualBusy))
               else case owner_turn opts st of
                 Inl err \<Rightarrow> (w2, Inl err)
               | Inr owner \<Rightarrow> run_transaction env opts owner sel w2))"

section \<open>The reads of a transaction\<close>

lemma region_measure_log:
  assumes "paired_ok w" and "region_measure env w = (w', res)"
  shows "same_log w w'" "res = Inr m \<longleftrightarrow> meter_read (ce_digits env) None (ss_log (ps_session w)) = Inr m"
proof -
  obtain s where s: "session_events (ps_session w) = (s, ss_log (ps_session w))"
    "same_log w (w\<lparr>ps_session := s\<rparr>)"
    using events_paired [OF assms(1)] .
  then show "same_log w w'" "res = Inr m \<longleftrightarrow> meter_read (ce_digits env) None (ss_log (ps_session w)) = Inr m"
    using assms(2) by (auto simp: region_measure_def split: sum.splits)
qed

lemma build_input_log:
  assumes "paired_ok w" and "build_summarization_input shadowed w = (w', input)"
  shows "same_log w w'" "in_messages input = project_nodes (ss_log (ps_session w)) shadowed"
proof -
  obtain s h where h: "request_header (ps_session w) = (s, h)" by fastforce
  note H = request_header_fold [OF _ h]
  have s: "session_ok s" "ss_log s = ss_log (ps_session w)" using H assms(1) by (simp_all add: paired_ok_def)
  obtain s' es where e: "session_events s = (s', es)" by fastforce
  note E = session_events_log [OF s(1) e]
  show "same_log w w'" "in_messages input = project_nodes (ss_log (ps_session w)) shadowed"
    using assms(2) h e E s same_log_session [OF assms(1), of s']
    by (auto simp: build_summarization_input_def)
qed

lemma prepare_log:
  assumes "paired_ok w" and "prepare_compaction env sel w = (w', res)"
  shows "same_log w w'"
    and "res = Inr prep \<Longrightarrow> meter_read (ce_digits env) None (ss_log (ps_session w)) = Inr (pc_measurement prep) \<and>
      se_start prep = se_start sel \<and> se_end prep = se_end sel \<and> se_shadowed prep = se_shadowed sel \<and>
      se_start_idx prep = se_start_idx sel \<and> se_end_idx prep = se_end_idx sel \<and>
      pc_nodes prep = slice_incl (se_start_idx sel) (se_end_idx sel) (me_nodes (pc_measurement prep)) \<and>
      map tn_seq (pc_nodes prep) = se_shadowed sel \<and>
      pc_tokens prep = sum_list (map tn_tokens (pc_nodes prep)) \<and>
      in_messages (pc_input prep) = project_nodes (ss_log (ps_session w)) (se_shadowed sel)"
proof -
  obtain w1 q where m: "region_measure env w = (w1, q)" by fastforce
  note M = region_measure_log [OF assms(1) m]
  obtain w2 input where b: "build_summarization_input (se_shadowed sel) w1 = (w2, input)" by fastforce
  note B = build_input_log [OF same_log_ok [OF M(1)] b]
  show "same_log w w'"
    using assms(2) m b M(1) same_log_trans [OF M(1) B(1)]
    by (auto simp: prepare_compaction_def Let_def split: sum.splits if_splits)
  show "res = Inr prep \<Longrightarrow> meter_read (ce_digits env) None (ss_log (ps_session w)) = Inr (pc_measurement prep) \<and>
      se_start prep = se_start sel \<and> se_end prep = se_end sel \<and> se_shadowed prep = se_shadowed sel \<and>
      se_start_idx prep = se_start_idx sel \<and> se_end_idx prep = se_end_idx sel \<and>
      pc_nodes prep = slice_incl (se_start_idx sel) (se_end_idx sel) (me_nodes (pc_measurement prep)) \<and>
      map tn_seq (pc_nodes prep) = se_shadowed sel \<and>
      pc_tokens prep = sum_list (map tn_tokens (pc_nodes prep)) \<and>
      in_messages (pc_input prep) = project_nodes (ss_log (ps_session w)) (se_shadowed sel)"
  proof -
    assume "res = Inr prep"
    then obtain mm where q: "q = Inr mm"
      and shadowed: "map tn_seq (slice_incl (se_start_idx sel) (se_end_idx sel) (me_nodes mm)) = se_shadowed sel"
      and prep: "prep = \<lparr>se_start = se_start sel, se_end = se_end sel, se_start_idx = se_start_idx sel,
                           se_end_idx = se_end_idx sel, se_shadowed = se_shadowed sel,
                           pc_measurement = mm,
                           pc_nodes = slice_incl (se_start_idx sel) (se_end_idx sel) (me_nodes mm),
                           pc_tokens = sum_list (map tn_tokens
                             (slice_incl (se_start_idx sel) (se_end_idx sel) (me_nodes mm))),
                           pc_input = input\<rparr>"
      using assms(2) m b by (auto simp: prepare_compaction_def Let_def split: sum.splits if_splits)
    have "meter_read (ce_digits env) None (ss_log (ps_session w)) = Inr mm" using M(2) q by blast
    then show ?thesis using shadowed B(2) same_log_eq [OF M(1)] unfolding prep by simp
  qed
qed

lemma assert_stable_log:
  assumes "paired_ok w" and "assert_stable rule env prep w = (w', res)"
  shows "same_log w w'"
proof (cases rule)
  case WholeSurface
  then show ?thesis
    using assms region_measure_log(1) [OF assms(1)]
    by (auto simp: assert_stable_def assert_whole_surface_unchanged_def split: prod.splits sum.splits)
next
  case SelectedSpan
  obtain w1 q where v: "validate_surface_region (se_start prep) (se_end prep) w = (w1, q)" by fastforce
  note V = validate_log [OF assms(1) v]
  obtain w2 p where m: "region_measure env w1 = (w2, p)" by fastforce
  note M = region_measure_log(1) [OF same_log_ok [OF V] m]
  show ?thesis
    using assms(2) SelectedSpan v m V same_log_trans [OF V M]
    by (auto simp: assert_stable_def assert_selected_span_stable_def split: sum.splits if_splits)
qed

section \<open>The appends of a transaction\<close>

lemma paired_ok_extends:
  assumes "paired_ok w" and "append_event appending dispatch now d intent (ps_session w) = (s', r)"
  shows "paired_ok (w\<lparr>ps_session := s'\<rparr>)"
  using paired_ok_append [OF assms] .

lemma region_append_cases:
  assumes "paired_ok w" and a: "region_append env k d intent w = (w', res)"
  obtains (refused) f where "res = Inl (AppendRejected f)" "same_log w w'"
  | (appended) e where "res = Inr e" "e = build_event (ss_log (ps_session w)) d intent (ce_clock env k)"
      "ss_log (ps_session w') = ss_log (ps_session w) @ [e]" "paired_ok w'"
proof -
  obtain s r where s: "append_event False (ce_dispatch env k) (ce_clock env k) d intent (ps_session w) = (s, r)"
    by fastforce
  have w': "w' = w\<lparr>ps_session := s\<rparr>" "res = (case r of Inl err \<Rightarrow> Inl (AppendRejected err) | Inr e \<Rightarrow> Inr e)"
    using a s by (simp_all add: region_append_def)
  have ok: "paired_ok w'" unfolding w'(1) by (rule paired_ok_append [OF assms(1) s])
  from s show thesis
  proof (cases rule: append_event_cases)
    case (accepted m e)
    then show thesis using appended [of e] w' ok by (simp add: push_event_def)
  qed (use refused w' ok in \<open>auto simp: same_log_def\<close>)
qed

lemma region_append_plugin:
  assumes "paired_ok w" and "ce_dispatch env k" and "json_lossless d"
    and "t \<notin> set SURFACE_EVENT_TYPES" "t \<noteq> ''request/header''" "t \<noteq> ''request/header-delta''"
  obtains w' where "region_append env k (PluginEvent t d) (None, None) w =
    (w', Inr (build_event (ss_log (ps_session w)) (PluginEvent t d) (None, None) (ce_clock env k)))"
    "ss_log (ps_session w') =
       ss_log (ps_session w) @ [build_event (ss_log (ps_session w)) (PluginEvent t d) (None, None) (ce_clock env k)]"
    "paired_ok w'"
proof -
  have "session_ok (ps_session w)" using assms(1) by (simp add: paired_ok_def)
  from plugin_append [OF this assms(3-6), of "ce_clock env k"]
  obtain s where s: "append_event False True (ce_clock env k) (PluginEvent t d) (None, None) (ps_session w) =
      (s, Inr (build_event (ss_log (ps_session w)) (PluginEvent t d) (None, None) (ce_clock env k)))"
    "ss_log s = ss_log (ps_session w) @ [build_event (ss_log (ps_session w)) (PluginEvent t d) (None, None) (ce_clock env k)]"
    by blast
  show thesis
    using that [of "w\<lparr>ps_session := s\<rparr>"] s assms(2) paired_ok_append [OF assms(1) s(1)]
    by (simp add: region_append_def)
qed

text \<open>Exactly what the appends of others add to a log: one event for each admitted append, in order.\<close>

fun meanwhile_events ::
  "(int \<times> event_data \<times> surface_intent) list \<Rightarrow> session_event list \<Rightarrow> session_event list" where
  "meanwhile_events [] es = []"
| "meanwhile_events ((now, d, intent) # rest) es =
     (if append_admitted False True now d intent es
      then build_event es d intent now # meanwhile_events rest (es @ [build_event es d intent now])
      else meanwhile_events rest es)"

lemma append_log_exact:
  assumes "session_ok s" and "append_event appending dispatch now d intent s = (s', r)"
  shows "ss_log s' = ss_log s @
    (if append_admitted appending dispatch now d intent (ss_log s) then [build_event (ss_log s) d intent now] else [])"
  using append_returns_iff [OF assms] assms(2)
  by (cases rule: append_event_cases [OF assms(2)]) (simp_all add: push_event_def)

lemma interleave_log:
  assumes "paired_ok w"
  shows "paired_ok (interleave xs w)"
    and "ss_log (ps_session (interleave xs w)) = ss_log (ps_session w) @ meanwhile_events xs (ss_log (ps_session w))"
proof -
  have "paired_ok (interleave xs w) \<and>
      ss_log (ps_session (interleave xs w)) = ss_log (ps_session w) @ meanwhile_events xs (ss_log (ps_session w))"
    using assms
  proof (induction xs arbitrary: w)
    case (Cons x xs)
    obtain now d intent where x: "x = (now, d, intent)" by (cases x)
    obtain s r where a: "append_event False True now d intent (ps_session w) = (s, r)" by fastforce
    have ok: "paired_ok (w\<lparr>ps_session := s\<rparr>)" by (rule paired_ok_append [OF Cons.prems a])
    have "session_ok (ps_session w)" using Cons.prems by (simp add: paired_ok_def)
    from append_log_exact [OF this a] Cons.IH [OF ok] show ?case using a x by simp
  qed simp
  then show "paired_ok (interleave xs w)"
    "ss_log (ps_session (interleave xs w)) = ss_log (ps_session w) @ meanwhile_events xs (ss_log (ps_session w))"
    by simp_all
qed

text \<open>These events carry the data and the surface operation they were appended with.\<close>

definition from_meanwhile :: "(int \<times> event_data \<times> surface_intent) list \<Rightarrow> session_event list \<Rightarrow> bool" where
  "from_meanwhile xs es \<longleftrightarrow>
     (\<lambda>e. (ev_data e, ev_surface_op e)) ` set es \<subseteq> (\<lambda>(now, d, intent). (d, snd intent)) ` set xs"

lemma from_meanwhile_events: "from_meanwhile xs (meanwhile_events xs es)"
proof (induction xs arbitrary: es)
  case (Cons x xs)
  obtain now d intent where "x = (now, d, intent)" by (cases x)
  then show ?case
    using Cons [of es] Cons [of "es @ [build_event es d intent now]"] by (auto simp: from_meanwhile_def build_event_def)
qed (simp add: from_meanwhile_def)

lemma from_meanwhile_or_none: "es = [] \<or> es = meanwhile_events xs es0 \<Longrightarrow> from_meanwhile xs es"
  by (erule disjE) (simp add: from_meanwhile_def, simp add: from_meanwhile_events)

lemma summarize_log:
  assumes "paired_ok w" and "summarize_compaction env command prep w = (w', res)"
  shows "paired_ok w'"
    "ss_log (ps_session w') = ss_log (ps_session w) @ meanwhile_events (ce_meanwhile env) (ss_log (ps_session w))"
    and "res = Inr (su, checkpoint) \<Longrightarrow> ce_summarize env (pc_input prep) = Inr su \<and>
      checkpoint = checkpoint_message env command su \<and> estimate_message (ce_digits env) checkpoint < pc_tokens prep"
  using assms(2) interleave_log [OF assms(1)]
  by (auto simp: summarize_compaction_def Let_def split: sum.splits if_splits)

section \<open>What the appended events do to the surface\<close>

text \<open>Putting one node without calls in the place of a balanced span keeps the pairing.\<close>

lemma splice_well_paired:
  assumes wp: "well_paired es (pre @ mid @ post)"
    and cuts: "open_calls es pre = 0" "open_calls es (pre @ mid) = 0"
    and named: "\<And>n. n \<in> set (pre @ mid @ post) \<Longrightarrow> nat n < length es"
    and fresh: "event_delta (ev_data ((es @ xs) ! nat m)) = 0"
  shows "well_paired (es @ xs) (pre @ [m] @ post)"
proof -
  have old: "open_calls (es @ xs) ns = open_calls es ns" if "set ns \<subseteq> set (pre @ mid @ post)" for ns
    using that named by (intro open_calls_log) auto
  have mid: "open_calls es mid = 0" using cuts by simp
  have "0 \<le> open_calls (es @ xs) (take k (pre @ [m] @ post))" for k
  proof (cases "k \<le> length pre")
    case True
    then have t: "take k (pre @ [m] @ post) = take k pre" by simp
    have "open_calls (es @ xs) (take k pre) = open_calls es (take k pre)"
      using set_take_subset [of k pre] by (intro old) auto
    moreover have "0 \<le> open_calls es (take k pre)" using well_paired_take [OF wp, of k] True by simp
    ultimately show ?thesis unfolding t by simp
  next
    case False
    then obtain j where j: "k = length pre + Suc j" by (metis less_iff_Suc_add not_le add_Suc_right)
    have t: "take k (pre @ [m] @ post) = pre @ [m] @ take j post" using j by simp
    have "open_calls (es @ xs) (take k (pre @ [m] @ post)) = open_calls es pre + open_calls es (take j post)"
      unfolding t using old [of pre] old [of "take j post"] set_take_subset [of j post] fresh by auto
    also have "\<dots> = open_calls es (take (length pre + length mid + j) (pre @ mid @ post))"
      using mid by simp
    finally show ?thesis using well_paired_take [OF wp, of "length pre + length mid + j"] by (simp only:)
  qed
  then show ?thesis by (auto simp: well_paired_iff)
qed

lemma ids_log:
  assumes "\<And>n. n \<in> set ns \<Longrightarrow> nat n < length es"
  shows "requests (es @ xs) ns = requests es ns" "answers (es @ xs) ns = answers es ns"
  using assms by (simp_all add: requests_def answers_def nth_append cong: map_cong)

text \<open>It also keeps which calls are answered: the span answers its own calls and no others.\<close>

lemma splice_matched:
  assumes ma: "matched es (pre @ mid @ post)"
    and cuts: "open_calls es pre = 0" "open_calls es (pre @ mid) = 0"
    and named: "\<And>n. n \<in> set (pre @ mid @ post) \<Longrightarrow> nat n < length es"
    and fresh: "requested (ev_data ((es @ xs) ! nat m)) = []" "answered (ev_data ((es @ xs) ! nat m)) = []"
  shows "matched (es @ xs) (pre @ [m] @ post)"
    and "unanswered (es @ xs) (pre @ [m] @ post) = unanswered es (pre @ mid @ post)"
proof -
  have one: "requests (es @ xs) (m # ns) = requests (es @ xs) ns" "answers (es @ xs) (m # ns) = answers (es @ xs) ns" for ns
    using fresh by (simp_all add: requests_def answers_def)
  have old: "requests (es @ xs) ns = requests es ns" "answers (es @ xs) ns = answers es ns"
    if "set ns \<subseteq> set (pre @ mid @ post)" for ns
    using ids_log [of ns es xs] that named by blast+
  have parts: "requests (es @ xs) pre = requests es pre" "answers (es @ xs) pre = answers es pre"
    "requests (es @ xs) (take k post) = requests es (take k post)"
    "answers (es @ xs) (take k post) = answers es (take k post)" for k
    using old [of pre] old [of "take k post"] set_take_subset [of k post] by auto
  have post: "requests (es @ xs) post = requests es post" "answers (es @ xs) post = answers es post"
    using parts(3,4) [of "length post"] by simp_all
  note mid = balanced_span [OF ma cuts]
  have d: "distinct (requests es pre @ requests es mid @ requests es post)"
    "distinct (answers es pre @ answers es mid @ answers es post)"
    using ma by (simp_all add: matched_def)
  have "set (answers (es @ xs) (take k (pre @ [m] @ post))) \<subseteq> set (requests (es @ xs) (take k (pre @ [m] @ post)))" for k
  proof (cases "k \<le> length pre")
    case True
    then have t: "take k (pre @ [m] @ post) = take k pre" "take k (pre @ mid @ post) = take k pre" by simp_all
    have "set (take k pre) \<subseteq> set (pre @ mid @ post)" using set_take_subset [of k pre] by auto
    from old [OF this] show ?thesis using matched_take [OF ma, of k] unfolding t by simp
  next
    case False
    then obtain j where j: "k = length pre + Suc j" by (metis less_iff_Suc_add not_le add_Suc_right)
    have "set (answers es (pre @ mid @ take j post)) \<subseteq> set (requests es (pre @ mid @ take j post))"
      using matched_take [OF ma, of "length pre + length mid + j"] by simp
    moreover have "set (answers es (take j post)) \<inter> set (answers es mid) = {}"
      using d(2) set_take_subset [of j post] by (auto simp: answers_def)
    ultimately have "set (answers es (pre @ take j post)) \<subseteq> set (requests es (pre @ take j post))"
      using matched_prefix [OF ma] mid by auto
    then show ?thesis using j one parts by simp
  qed
  then show "matched (es @ xs) (pre @ [m] @ post)"
    using d parts(1,2) post one by (auto simp: matched_def list_all_iff simp del: upt_Suc)
  show "unanswered (es @ xs) (pre @ [m] @ post) = unanswered es (pre @ mid @ post)"
    using d parts(1,2) post one mid by (auto simp: unanswered_def)
qed

lemma open_calls_off_surface: "well_paired es ns \<Longrightarrow> (\<And>n. n \<in> set ns \<Longrightarrow> nat n < length es) \<Longrightarrow>
    well_paired (es @ xs) ns"
  unfolding well_paired_iff by (metis in_set_takeD open_calls_log)

section \<open>The body of a transaction\<close>

lemma commit_body_cases:
  assumes ok: "paired_ok w"
    and c: "commit_compaction_body env command begun prep su checkpoint w = (w', res)"
  obtains (refused) f body where "res = Inl f" "paired_ok w'"
      "ss_log (ps_session w') = ss_log (ps_session w) @ body"
      "body = [] \<or> body = [build_event (ss_log (ps_session w))
         (PluginEvent ''compaction/summary'' (summary_data (ce_id env) command prep su)) (None, None) (ce_clock env 1)]"
  | (committed) summary replacement where "paired_ok w'"
      "ss_log (ps_session w') = ss_log (ps_session w) @ [summary, replacement]"
      "summary = build_event (ss_log (ps_session w))
         (PluginEvent ''compaction/summary'' (summary_data (ce_id env) command prep su)) (None, None) (ce_clock env 1)"
      "replacement = build_event (ss_log (ps_session w) @ [summary]) (UserMessage checkpoint)
         (Some (JArr (map jint (ev_seq begun # ev_seq summary # se_shadowed prep))),
          Some (replace_op (se_start prep) (se_end prep))) (ce_clock env 2)"
      "res = Inr \<lparr>cr_compaction = ce_id env, cr_command = command, cr_start_seq = ev_seq begun,
                  cr_summary_seq = ev_seq summary, cr_end_seq = 0, cr_summary = su_summary su,
                  cr_range = (se_start prep, se_end prep), cr_shadowed = se_shadowed prep,
                  cr_tokens = pc_tokens prep\<rparr>"
proof -
  obtain w1 q where a: "region_append env 1
      (PluginEvent ''compaction/summary'' (summary_data (ce_id env) command prep su)) (None, None) w = (w1, q)"
    by fastforce
  from ok a show thesis
  proof (cases rule: region_append_cases)
    case (refused f)
    then show thesis using that(1) [of "AppendRejected f" "[]"] c a
      by (simp add: commit_compaction_body_def same_log_def)
  next
    case (appended summary)
    obtain w2 p where b: "region_append env 2 (UserMessage checkpoint)
        (Some (JArr (map jint (ev_seq begun # ev_seq summary # se_shadowed prep))),
         Some (replace_op (se_start prep) (se_end prep))) w1 = (w2, p)"
      by fastforce
    from appended(4) b show thesis
    proof (cases rule: region_append_cases)
      case (refused f)
      then show thesis using that(1) [of "AppendRejected f" "[summary]"] c a b appended
        by (simp add: commit_compaction_body_def same_log_def)
    next
      case second: (appended replacement)
      then show thesis using that(2) [of summary replacement] c a b appended
        by (simp add: commit_compaction_body_def)
    qed
  qed
qed

lemma transaction_body_cases:
  assumes ok: "paired_ok w" and t: "transaction_body env opts sel begun w = (w', res)"
  obtains (summary) f others where "res = Inl (SummaryStage, f)" "paired_ok w'"
      "ss_log (ps_session w') = ss_log (ps_session w) @ others"
      "others = [] \<or> others = meanwhile_events (ce_meanwhile env) (ss_log (ps_session w))"
  | (commit) f others w1 prep su body where "res = Inl (CommitStage, f)" "paired_ok w'"
      "ss_log (ps_session w') = ss_log (ps_session w) @ others @ body"
      "others = meanwhile_events (ce_meanwhile env) (ss_log (ps_session w))"
      "prepare_compaction env sel w = (w1, Inr prep)"
      "body = [] \<or> body = [build_event (ss_log (ps_session w) @ others)
         (PluginEvent ''compaction/summary'' (summary_data (ce_id env) (ro_command opts) prep su))
         (None, None) (ce_clock env 1)]"
  | (committed) others w1 prep su v v' summary replacement where
      "prepare_compaction env sel w = (w1, Inr prep)"
      "ce_summarize env (pc_input prep) = Inr su"
      "estimate_message (ce_digits env) (checkpoint_message env (ro_command opts) su) < pc_tokens prep"
      "paired_ok v" "ss_log (ps_session v) = ss_log (ps_session w) @ others"
      "assert_stable (ro_stability opts) env prep v = (v', Inr ())"
      "paired_ok w'" "ss_log (ps_session w') = ss_log (ps_session v) @ [summary, replacement]"
      "summary = build_event (ss_log (ps_session v))
         (PluginEvent ''compaction/summary'' (summary_data (ce_id env) (ro_command opts) prep su))
         (None, None) (ce_clock env 1)"
      "replacement = build_event (ss_log (ps_session v) @ [summary])
         (UserMessage (checkpoint_message env (ro_command opts) su))
         (Some (JArr (map jint (ev_seq begun # ev_seq summary # se_shadowed prep))),
          Some (replace_op (se_start prep) (se_end prep))) (ce_clock env 2)"
      "res = Inr \<lparr>cr_compaction = ce_id env, cr_command = ro_command opts, cr_start_seq = ev_seq begun,
                  cr_summary_seq = ev_seq summary, cr_end_seq = 0, cr_summary = su_summary su,
                  cr_range = (se_start prep, se_end prep), cr_shadowed = se_shadowed prep,
                  cr_tokens = pc_tokens prep\<rparr>"
      "others = meanwhile_events (ce_meanwhile env) (ss_log (ps_session w))"
proof -
  obtain w1 p where p: "prepare_compaction env sel w = (w1, p)" by fastforce
  note P = prepare_log(1) [OF ok p]
  note ok1 = same_log_ok [OF P] and log1 = same_log_eq [OF P]
  show thesis
  proof (cases p)
    case (Inl f)
    then show thesis using summary [of f "[]"] t p ok1 log1 by (simp add: transaction_body_def)
  next
    case (Inr prep)
    obtain w2 q where q: "summarize_compaction env (ro_command opts) prep w1 = (w2, q)" by fastforce
    note S = summarize_log [OF ok1 q]
    define others where "others = meanwhile_events (ce_meanwhile env) (ss_log (ps_session w))"
    have others: "ss_log (ps_session w2) = ss_log (ps_session w) @ others"
      "others = meanwhile_events (ce_meanwhile env) (ss_log (ps_session w))"
      using S(2) log1 by (simp_all add: others_def)
    show thesis
    proof (cases q)
      case (Inl f)
      then show thesis using summary [of f others] t p q Inr S(1) others by (simp add: transaction_body_def)
    next
      case q': (Inr y)
      then obtain su checkpoint where y: "q = Inr (su, checkpoint)" by (cases y) simp
      note Y = S(3) [OF y]
      show thesis
      proof (cases "ro_owner opts = Standalone \<and> ce_abort_summarized env")
        case True
        then show thesis using summary [of AbortReason others] t p q Inr y S(1) others
          by (simp add: transaction_body_def)
      next
        case False
        obtain w3 r where r: "assert_stable (ro_stability opts) env prep w2 = (w3, r)" by fastforce
        note A = assert_stable_log [OF S(1) r]
        have log3: "ss_log (ps_session w3) = ss_log (ps_session w) @ others"
          using same_log_eq [OF A] others by simp
        show thesis
        proof (cases r)
          case (Inl f)
          then show thesis using summary [of f others] t p q Inr y r False same_log_ok [OF A] log3 others(2)
            by (simp add: transaction_body_def)
        next
          case r': (Inr u)
          obtain w4 z where z: "commit_compaction_body env (ro_command opts) begun prep su checkpoint w3 = (w4, z)"
            by fastforce
          from same_log_ok [OF A] z show thesis
          proof (cases rule: commit_body_cases)
            case (refused f body)
            then show thesis using commit [of f others body w1 prep su] t p q Inr y r r' False z log3 others(2)
              by (simp add: transaction_body_def)
          next
            case (committed smry replacement)
            note logs = same_log_eq [OF A]
            have out: "w' = w4" "res = (case z of Inl f \<Rightarrow> Inl (CommitStage, f) | Inr pending \<Rightarrow> Inr pending)"
              using t p q Inr y r r' False z committed(5) by (simp_all add: transaction_body_def)
            show thesis
            proof (rule that(3) [OF _ _ _ S(1) others(1)])
              show "prepare_compaction env sel w = (w1, Inr prep)" using p Inr by simp
              show "assert_stable (ro_stability opts) env prep w2 = (w3, Inr ())" using r r' by simp
              show "estimate_message (ce_digits env) (checkpoint_message env (ro_command opts) su) < pc_tokens prep"
                using Y by metis
            qed (use Y committed [unfolded logs] out others(2) in simp_all)
          qed
        qed
      qed
    qed
  qed
qed

lemma lifecycle_lossless: "json_lossless (lifecycle_data cid command owner failure)"
  by (cases command; cases failure; cases owner) (simp_all add: lifecycle_data_def turn_json_def)

lemma close_cases:
  assumes ok: "paired_ok w" and c: "close_transaction env opts owner w outcome = (w', ended, final)"
  obtains (closed) failure closing where "ended" "paired_ok w'"
      "ss_log (ps_session w') = ss_log (ps_session w) @ [closing]"
      "closing = build_event (ss_log (ps_session w))
         (PluginEvent ''compaction/end'' (lifecycle_data (ce_id env) (ro_command opts) owner failure))
         (None, None) (ce_clock env 3)"
      "final = (case outcome of Inl f \<Rightarrow> Inl f | Inr res \<Rightarrow> Inr (res\<lparr>cr_end_seq := ev_seq closing\<rparr>))"
      "failure = (case outcome of Inl f \<Rightarrow> Some (ce_error_chain env (snd f)) | Inr _ \<Rightarrow> None)"
  | (unclosed) f where "\<not> ended" "\<not> ce_dispatch env 3" "same_log w w'" "final = Inl (CommitStage, f)"
proof -
  let ?failure = "case outcome of Inl f \<Rightarrow> Some (ce_error_chain env (snd f)) | Inr _ \<Rightarrow> None"
  let ?d = "PluginEvent ''compaction/end'' (lifecycle_data (ce_id env) (ro_command opts) owner ?failure)"
  obtain v q where a: "region_append env 3 ?d (None, None) w = (v, q)" by fastforce
  have w': "w' = v" using c a by (auto simp: close_transaction_def split: sum.splits prod.splits)
  from ok a show thesis
  proof (cases rule: region_append_cases)
    case (refused f)
    have "\<not> ce_dispatch env 3"
    proof
      assume "ce_dispatch env 3"
      then have "\<exists>u e. region_append env 3 ?d (None, None) w = (u, Inr e)"
        by (rule region_append_plugin [OF ok _
              lifecycle_lossless [of "ce_id env" "ro_command opts" owner ?failure], of env 3 "''compaction/end''"])
          (simp add: SURFACE_EVENT_TYPES_def | blast)+
      then show False using a refused by simp
    qed
    then show thesis
      using unclosed [of "AppendRejected f"] refused c a w'
      by (auto simp: close_transaction_def split: sum.splits prod.splits)
  next
    case (appended e)
    then show thesis
      using closed [of e ?failure] c a w'
      by (auto simp: close_transaction_def split: sum.splits prod.splits)
  qed
qed

section \<open>The transaction as a whole\<close>

lemma settle_Inr: "settle env opts ended final = Inr res \<Longrightarrow> final = Inr res"
  by (auto simp: settle_def split: if_splits sum.splits)

lemma compact_cases:
  assumes ok: "paired_ok w" and c: "compact_surface_region env opts start end' w = (w', r)"
  obtains (rejected) err where "r = Inl err" "same_log w w'" "\<And>code. err = Manual code \<Longrightarrow> code = ManualBusy"
  | (opened) v sel owner begun w1 w2 outcome ended final where
      "validate_surface_region start end' w = (v, Inr sel)" "same_log w v"
      "compaction_inactive (inspect_compaction_entry_state (ss_log (ps_session w)))"
      "owner_turn opts (inspect_compaction_entry_state (ss_log (ps_session w))) = Inr owner"
      "begun = build_event (ss_log (ps_session w))
         (PluginEvent ''compaction/start'' (lifecycle_data (ce_id env) (ro_command opts) owner None))
         (None, None) (ce_clock env 0)"
      "paired_ok w1" "ss_log (ps_session w1) = ss_log (ps_session w) @ [begun]"
      "transaction_body env opts sel begun w1 = (w2, outcome)"
      "close_transaction env opts owner w2 outcome = (w', ended, final)"
      "r = settle env opts ended final"
proof (cases "ro_owner opts = Standalone \<and> ce_abort_entry env")
  case True
  then show thesis
    using rejected [of "Fault AbortReason"] c same_log_refl [OF ok] by (auto simp: compact_surface_region_def)
next
  case running: False
  obtain v q where v: "validate_surface_region start end' w = (v, q)" by fastforce
  note V = validate_log [OF ok v]
  show thesis
  proof (cases q)
    case (Inl f)
    then show thesis using rejected c v V running by (auto simp: compact_surface_region_def)
  next
    case (Inr sel)
    obtain s where s: "session_events (ps_session v) = (s, ss_log (ps_session v))"
      "same_log v (v\<lparr>ps_session := s\<rparr>)"
      using events_paired [OF same_log_ok [OF V]] .
    let ?w = "v\<lparr>ps_session := s\<rparr>" and ?st = "inspect_compaction_entry_state (ss_log (ps_session w))"
    note S = same_log_trans [OF V s(2)] and log = same_log_eq [OF V]
    have c': "(w', r) = (if \<not> compaction_inactive ?st then (?w, Inl (Manual ManualBusy))
        else case owner_turn opts ?st of
          Inl err \<Rightarrow> (?w, Inl err) | Inr owner \<Rightarrow> run_transaction env opts owner sel ?w)"
      using c v Inr s(1) running log by (auto simp: compact_surface_region_def Let_def)
    show thesis
    proof (cases "compaction_inactive ?st \<and> returns (owner_turn opts ?st)")
      case False
      then show thesis using c' S rejected
        by (cases "owner_turn opts ?st") (auto simp: owner_turn_def split: if_splits owner_mode.splits option.splits)
    next
      case True
      then obtain owner where owner: "owner_turn opts ?st = Inr owner" by (auto simp: returns_iff)
      let ?d = "PluginEvent ''compaction/start'' (lifecycle_data (ce_id env) (ro_command opts) owner None)"
      have run: "(w', r) = run_transaction env opts owner sel ?w" using c' True owner by simp
      obtain w1 z where a: "region_append env 0 ?d (None, None) ?w = (w1, z)" by fastforce
      from same_log_ok [OF S] a show thesis
      proof (cases rule: region_append_cases)
        case (refused f)
        then show thesis using run a rejected same_log_trans [OF S] by (simp add: run_transaction_def)
      next
        case (appended begun)
        obtain w2 outcome where b: "transaction_body env opts sel begun w1 = (w2, outcome)" by fastforce
        obtain w3 ended final where e: "close_transaction env opts owner w2 outcome = (w3, ended, final)"
          by (metis prod_cases3)
        have "w' = w3" "r = settle env opts ended final"
          using run a b e appended(1) by (simp_all add: run_transaction_def)
        then show thesis
          using opened [of v sel owner begun w1 w2 outcome ended final] v Inr V True owner
            appended b e same_log_eq [OF S] by simp
      qed
    qed
  qed
qed

lemma compact_ok:
  assumes "paired_ok w" and "compact_surface_region env opts start end' w = (w', r)"
  shows "paired_ok w'"
  using assms
proof (cases rule: compact_cases)
  case (rejected err)
  show ?thesis by (rule same_log_ok [OF rejected(2)])
next
  case (opened v sel owner begun w1 w2 outcome ended final)
  have "paired_ok w2" using opened(6,8) by (cases rule: transaction_body_cases)
  then show ?thesis using opened(9) by (cases rule: close_cases) (auto intro: same_log_ok)
qed

section \<open>Properties\<close>

text \<open>
  What a transaction needs of the meter: its nodes are the current surface. The token meter's own
  fold is shown to do this in its theory.
\<close>

text \<open>Where the span to replace lies when the replacement is committed.\<close>

lemma stable_span:
  assumes ok: "paired_ok w" and r: "replay (ss_log (ps_session w)) = Inr (st, reps, x)"
    and v: "validate_surface_region start end' w = (u, Inr sel)"
    and p: "prepare_compaction env sel w1 = (w2, Inr prep)" "paired_ok w1"
      "ss_log (ps_session w1) = ss_log (ps_session w) @ [e]" "ev_type e \<notin> set SURFACE_EVENT_TYPES"
    and v2: "paired_ok v" "ss_log (ps_session v) = ss_log (ps_session w1) @ others"
    and a: "assert_stable rule env prep v = (v', Inr ())"
    and rv: "replay (ss_log (ps_session v)) = Inr (stv, repsv, xv)"
  obtains i j where "i \<le> j" "j < length (nodes stv)" "nodes stv ! i = start" "nodes stv ! j = end'"
    "slice_incl i j (nodes stv) = se_shadowed sel"
    "well_paired (ss_log (ps_session v)) (nodes stv)"
    "open_calls (ss_log (ps_session v)) (take i (nodes stv)) = 0"
    "open_calls (ss_log (ps_session v)) (take (Suc j) (nodes stv)) = 0"
proof -
  note P = prepare_log(2) [OF p(2) p(1) refl]
  obtain i j where ij: "well_paired (ss_log (ps_session w)) (nodes st)"
    "i \<le> j" "j < length (nodes st)" "nodes st ! i = start" "nodes st ! j = end'"
    "open_calls (ss_log (ps_session w)) (take i (nodes st)) = 0"
    "open_calls (ss_log (ps_session w)) (take (Suc j) (nodes st)) = 0"
    "sel = \<lparr>se_start = start, se_end = end', se_start_idx = i, se_end_idx = j,
            se_shadowed = slice_incl i j (nodes st)\<rparr>"
    using validate_Inr [OF ok r v] .
  show thesis
  proof (cases rule)
    case SelectedSpan
    obtain v1 cur where c: "validate_surface_region (se_start prep) (se_end prep) v = (v1, Inr cur)"
      "se_shadowed cur = se_shadowed prep"
      using a SelectedSpan
      by (auto simp: assert_stable_def assert_selected_span_stable_def split: prod.splits sum.splits if_splits)
    show thesis
      using validate_Inr [OF v2(1) rv c(1)] that c(2) P ij(8) by (metis surface_selection.select_convs)
  next
    case WholeSurface
    then obtain v1 m where q: "region_measure env v = (v1, Inr m)"
      "me_nodes m = me_nodes (pc_measurement prep)"
      using a
      by (auto simp: assert_stable_def assert_whole_surface_unchanged_def split: prod.splits sum.splits if_splits)
    then have m: "meter_read (ce_digits env) None (ss_log (ps_session v)) = Inr m"
      "me_nodes m = me_nodes (pc_measurement prep)"
      using region_measure_log(2) [OF v2(1) q(1)] by blast+
    obtain st1 reps1 x1 where r1: "replay (ss_log (ps_session w1)) = Inr (st1, reps1, x1)"
      using paired_replays [OF p(2)] by blast
    have "nodes stv = map tn_seq (me_nodes (pc_measurement prep))"
      using meter_read_surface(1) [OF m(1) rv] m(2) by simp
    also have "\<dots> = nodes st1" using meter_read_surface(1) [OF conjunct1 [OF P] r1] by simp
    also have "\<dots> = nodes st" using replay_off_surface [OF _ r p(4)] r1 p(3) by simp
    finally have same: "nodes stv = nodes st" .
    have named: "nat n < length (ss_log (ps_session w))" if "n \<in> set (nodes st)" for n
      using replay_nodes_less [OF r that] by simp
    have log: "ss_log (ps_session v) = ss_log (ps_session w) @ e # others" using v2(2) p(3) by simp
    have "well_paired (ss_log (ps_session v)) (nodes stv)"
      unfolding same log using ij(1) named by (rule open_calls_off_surface)
    moreover have "open_calls (ss_log (ps_session v)) (take k (nodes stv)) =
        open_calls (ss_log (ps_session w)) (take k (nodes st))" for k
      unfolding same log using named by (intro open_calls_log) (meson in_set_takeD)
    ultimately show thesis using that [of i j] ij same by simp
  qed
qed

text \<open>The price a preparation states is the price of the selected span on the session's surface.\<close>

lemma prepared_price:
  assumes ok: "paired_ok w" and r: "replay (ss_log (ps_session w)) = Inr (st, reps, x)"
    and v: "validate_surface_region start end' w = (u, Inr sel)"
    and p: "prepare_compaction env sel w1 = (w2, Inr prep)" "paired_ok w1"
      "ss_log (ps_session w1) = ss_log (ps_session w) @ [e]" "ev_type e \<notin> set SURFACE_EVENT_TYPES"
  shows "pc_tokens prep = surface_price (ce_digits env) (ss_log (ps_session w)) (se_shadowed sel)"
proof -
  note P = prepare_log(2) [OF p(2) p(1) refl]
  obtain i j where sel: "sel = \<lparr>se_start = start, se_end = end', se_start_idx = i, se_end_idx = j,
      se_shadowed = slice_incl i j (nodes st)\<rparr>"
    using validate_Inr [OF ok r v] .
  obtain st1 reps1 x1 where r1: "replay (ss_log (ps_session w1)) = Inr (st1, reps1, x1)"
    using paired_replays [OF p(2)] by blast
  have same: "nodes st1 = nodes st" using replay_off_surface [OF _ r p(4)] r1 p(3) by simp
  have named: "nat n < length (ss_log (ps_session w))" if "n \<in> set (slice_incl i j (nodes st))" for n
    using replay_nodes_less [OF r] set_slice_incl_subset [of i j "nodes st"] that by blast
  have "pc_tokens prep = surface_price (ce_digits env) (ss_log (ps_session w1)) (slice_incl i j (nodes st))"
    using P meter_read_surface(1) [OF conjunct1 [OF P] r1] by (simp add: sel same slice_price)
  also have "\<dots> = surface_price (ce_digits env) (ss_log (ps_session w)) (slice_incl i j (nodes st))"
    unfolding p(3) using named by (rule priced_log(2))
  finally show ?thesis using sel by simp
qed

lemma built_event [simp]:
  "ev_seq (build_event es d intent now) = int (length es)"
  "ev_data (build_event es d intent now) = d"
  "ev_surface_op (build_event es d intent now) = snd intent"
  "ev_sources (build_event es d intent now) = fst intent"
  by (simp_all add: build_event_def)

lemma slice_ends:
  assumes "i \<le> j" "j < length ns"
  shows "slice_incl i j ns \<noteq> []" "hd (slice_incl i j ns) = ns ! i" "last (slice_incl i j ns) = ns ! j"
proof -
  have len: "length (slice_incl i j ns) = Suc j - i" using assms by (simp add: slice_incl_def)
  then show ne: "slice_incl i j ns \<noteq> []" using assms(1) by auto
  show "hd (slice_incl i j ns) = ns ! i" "last (slice_incl i j ns) = ns ! j"
    using ne len assms by (simp_all add: hd_conv_nth last_conv_nth slice_incl_def)
qed

lemma replay_three:
  assumes "replay (es @ [e1, e2, e3]) = Inr (st3, reps3, x3)" and "replay es = Inr (st, reps, x)"
    and "ev_type e1 \<notin> set SURFACE_EVENT_TYPES" "ev_type e3 \<notin> set SURFACE_EVENT_TYPES"
    and "ev_type e2 \<in> set SURFACE_EVENT_TYPES" "ev_surface_op e2 = Some (replace_op a b)"
  obtains i j where "i \<le> j" "j < length (nodes st)" "nodes st ! i = a" "nodes st ! j = b"
    "nodes st3 = take i (nodes st) @ [int (length es + 1)] @ drop (Suc j) (nodes st)"
proof -
  obtain st1 reps1 x1 where r1: "replay (es @ [e1]) = Inr (st1, reps1, x1)"
    using replay_prefix [of "es @ [e1]" "[e2, e3]"] assms(1) by auto
  obtain st2 reps2 x2 where r2: "replay ((es @ [e1]) @ [e2]) = Inr (st2, reps2, x2)"
    using replay_prefix [of "es @ [e1, e2]" "[e3]"] assms(1) by auto
  have r3: "replay (((es @ [e1]) @ [e2]) @ [e3]) = Inr (st3, reps3, x3)" using assms(1) by simp
  have "nodes st1 = nodes st" by (rule replay_off_surface [OF r1 assms(2,3)])
  moreover have "nodes st3 = nodes st2" by (rule replay_off_surface [OF r3 r2 assms(4)])
  moreover obtain i j where "i \<le> j" "j < length (nodes st1)" "nodes st1 ! i = a" "nodes st1 ! j = b"
    "nodes st2 = splice_one i j (int (length (es @ [e1]))) (nodes st1)"
    using replay_replacement [OF r2 r1 assms(5,6)] .
  ultimately show thesis using that [of i j] by (simp add: splice_one_def)
qed

lemma summary_members [simp]:
  "jprop (summary_data cid command prep su) ''compactionId'' = Some (JStr cid)"
  "jprop (summary_data cid command prep su) ''sourceCommandId'' = map_option JStr command"
  "jprop (summary_data cid command prep su) ''shadowedSeqs'' = Some (JArr (map jint (se_shadowed prep)))"
  "jprop (summary_data cid command prep su) ''shadowedRange'' =
     Some (JObj [(''start'', jint (se_start prep)), (''end'', jint (se_end prep))])"
  "jprop (summary_data cid command prep su) ''shadowedTokenCount'' = Some (jint (pc_tokens prep))"
  by (auto simp: summary_data_def map_of_opt_field map_of_flag_field map_add_def split: option.splits)

text \<open>Where a transaction that was prepared and found stable is about to write, and at what price.\<close>

lemma committed_span:
  assumes ok: "paired_ok w" and r: "replay (ss_log (ps_session w)) = Inr (st, reps, x)"
    and v: "validate_surface_region start end' w = (u, Inr sel)"
    and p: "prepare_compaction env sel w1 = (w2, Inr prep)" "paired_ok w1"
      "ss_log (ps_session w1) = ss_log (ps_session w) @ [e]" "ev_type e \<notin> set SURFACE_EVENT_TYPES"
    and v2: "paired_ok v" "ss_log (ps_session v) = ss_log (ps_session w1) @ others"
    and a: "assert_stable rule env prep v = (v', Inr ())"
  obtains st1 reps1 x1 i j where "replay (ss_log (ps_session v)) = Inr (st1, reps1, x1)"
    "i \<le> j" "j < length (nodes st1)" "nodes st1 ! i = start" "nodes st1 ! j = end'"
    "slice_incl i j (nodes st1) = se_shadowed prep" "set (se_shadowed prep) \<subseteq> set (nodes st)"
    "well_paired (ss_log (ps_session v)) (nodes st1)" "open_calls (ss_log (ps_session v)) (take i (nodes st1)) = 0"
    "open_calls (ss_log (ps_session v)) (take (Suc j) (nodes st1)) = 0"
    "se_start prep = start" "se_end prep = end'"
    "pc_tokens prep = surface_price (ce_digits env) (ss_log (ps_session w)) (se_shadowed prep)"
proof -
  note P = prepare_log(2) [OF p(2,1) refl]
  obtain st1 reps1 x1 where r1: "replay (ss_log (ps_session v)) = Inr (st1, reps1, x1)"
    using paired_replays [OF v2(1)] by blast
  obtain i j where span: "i \<le> j" "j < length (nodes st1)" "nodes st1 ! i = start" "nodes st1 ! j = end'"
    "slice_incl i j (nodes st1) = se_shadowed sel" "well_paired (ss_log (ps_session v)) (nodes st1)"
    "open_calls (ss_log (ps_session v)) (take i (nodes st1)) = 0"
    "open_calls (ss_log (ps_session v)) (take (Suc j) (nodes st1)) = 0"
    using stable_span [OF ok r v p v2 a r1] .
  obtain i0 j0 where "sel = \<lparr>se_start = start, se_end = end', se_start_idx = i0, se_end_idx = j0,
      se_shadowed = slice_incl i0 j0 (nodes st)\<rparr>"
    using validate_Inr [OF ok r v] .
  then have sel: "se_start sel = start" "se_end sel = end'" "set (se_shadowed sel) \<subseteq> set (nodes st)"
    using set_slice_incl_subset [of i0 j0 "nodes st"] by simp_all
  show thesis
    using that [OF r1 span(1-4)] span(5-8) sel P prepared_price [OF ok r v p] by simp
qed

text \<open>Everything a successful compaction did: what it appended to which log, and where its span stood then.\<close>

lemma compaction_committed:
  assumes ok: "paired_ok w"
    and c: "compact_surface_region env opts start end' w = (w', Inr res)"
    and r: "replay (ss_log (ps_session w)) = Inr (st, reps, x)"
  obtains es begun others prep su summary replacement closing st1 reps1 x1 i j where
    "es = ss_log (ps_session w) @ [begun] @ others" "paired_ok w'"
    "ss_log (ps_session w') = es @ [summary, replacement, closing]"
    "ev_type begun = ''compaction/start''" "others = meanwhile_events (ce_meanwhile env) (ss_log (ps_session w) @ [begun])"
    "summary = build_event es
       (PluginEvent ''compaction/summary'' (summary_data (ce_id env) (ro_command opts) prep su)) (None, None) (ce_clock env 1)"
    "replacement = build_event (es @ [summary]) (UserMessage (checkpoint_message env (ro_command opts) su))
       (Some (JArr (map jint (ev_seq begun # ev_seq summary # se_shadowed prep))),
        Some (replace_op start end')) (ce_clock env 2)"
    "ev_type closing = ''compaction/end''"
    "replay es = Inr (st1, reps1, x1)" "i \<le> j" "j < length (nodes st1)" "nodes st1 ! i = start" "nodes st1 ! j = end'"
    "slice_incl i j (nodes st1) = se_shadowed prep" "set (se_shadowed prep) \<subseteq> set (nodes st)"
    "well_paired es (nodes st1)" "open_calls es (take i (nodes st1)) = 0" "open_calls es (take (Suc j) (nodes st1)) = 0"
    "se_start prep = start" "se_end prep = end'"
    "pc_tokens prep = surface_price (ce_digits env) (ss_log (ps_session w)) (se_shadowed prep)"
    "estimate_message (ce_digits env) (checkpoint_message env (ro_command opts) su) < pc_tokens prep"
    "cr_start_seq res = ev_seq begun" "cr_summary_seq res = ev_seq summary" "cr_end_seq res = ev_seq closing"
    "cr_shadowed res = se_shadowed prep" "cr_range res = (start, end')" "cr_tokens res = pc_tokens prep"
  using ok c
proof (cases rule: compact_cases)
  case (opened v sel owner begun w1 w2 outcome ended final)
  have final: "final = Inr res" using opened(10) by (metis settle_Inr)
  have begun: "ev_type begun = ''compaction/start''" using opened(5) by (simp add: build_event_def)
  then have off: "ev_type begun \<notin> set SURFACE_EVENT_TYPES" by (simp add: SURFACE_EVENT_TYPES_def)
  from opened(6,8) show thesis
  proof (cases rule: transaction_body_cases)
    case (committed others w1' prep su v1 v1' summary replacement)
    from ok r opened(1) committed(1) opened(6,7) off committed(4,5,6) show thesis
    proof (rule committed_span)
      fix st1 reps1 x1 i j
      assume S: "replay (ss_log (ps_session v1)) = Inr (st1, reps1, x1)"
        "i \<le> j" "j < length (nodes st1)" "nodes st1 ! i = start" "nodes st1 ! j = end'"
        "slice_incl i j (nodes st1) = se_shadowed prep" "set (se_shadowed prep) \<subseteq> set (nodes st)"
        "well_paired (ss_log (ps_session v1)) (nodes st1)" "open_calls (ss_log (ps_session v1)) (take i (nodes st1)) = 0"
        "open_calls (ss_log (ps_session v1)) (take (Suc j) (nodes st1)) = 0"
        "se_start prep = start" "se_end prep = end'"
        "pc_tokens prep = surface_price (ce_digits env) (ss_log (ps_session w)) (se_shadowed prep)"
      from committed(7) opened(9) show thesis
      proof (cases rule: close_cases)
        case (closed failure closing)
        show thesis
          by (rule that [of "ss_log (ps_session v1)" begun others summary replacement closing prep su st1 reps1 x1 i j])
            (use begun S committed closed opened(7) final in \<open>simp_all add: build_event_def\<close>)
      qed (use final in simp)
    qed
  qed (use opened(9) final in \<open>auto simp: close_transaction_def split: sum.splits prod.splits\<close>)
qed simp

text \<open>What the three closing events of a transaction do to the surface.\<close>

lemma span_replaced:
  assumes r2: "replay (es @ [summary, replacement, closing]) = Inr (st2, reps2, x2)" and r1: "replay es = Inr (st1, reps1, x1)"
    and summary: "summary = build_event es (PluginEvent ''compaction/summary'' d) (None, None) t1"
    and replacement: "replacement = build_event (es @ [summary]) (UserMessage m) (src, Some (replace_op start end')) t2"
    and closing: "ev_type closing = ''compaction/end''"
    and span: "i \<le> j" "j < length (nodes st1)" "nodes st1 ! i = start" "nodes st1 ! j = end'"
      "slice_incl i j (nodes st1) = shadowed"
    and wp: "well_paired es (nodes st1)" "open_calls es (take i (nodes st1)) = 0"
      "open_calls es (take (Suc j) (nodes st1)) = 0"
  shows "nodes st1 = take i (nodes st1) @ shadowed @ drop (Suc j) (nodes st1)"
    "nodes st2 = take i (nodes st1) @ [ev_seq replacement] @ drop (Suc j) (nodes st1)"
    "well_paired (es @ [summary, replacement, closing]) (nodes st2)"
    "open_calls es shadowed = 0"
    "open_calls (es @ [summary, replacement, closing]) (nodes st2) = open_calls es (nodes st1)"
    "matched es (nodes st1) \<Longrightarrow> set (answers es shadowed) = set (requests es shadowed) \<and>
      matched (es @ [summary, replacement, closing]) (nodes st2) \<and>
      unanswered (es @ [summary, replacement, closing]) (nodes st2) = unanswered es (nodes st1)"
proof -
  let ?pre = "take i (nodes st1)" and ?post = "drop (Suc j) (nodes st1)"
  have seq: "ev_seq replacement = int (length es + 1)" using replacement by simp
  have types: "ev_type summary \<notin> set SURFACE_EVENT_TYPES" "ev_type closing \<notin> set SURFACE_EVENT_TYPES"
    "ev_type replacement \<in> set SURFACE_EVENT_TYPES" and op: "ev_surface_op replacement = Some (replace_op start end')"
    using summary replacement closing by (simp_all add: build_event_def SURFACE_EVENT_TYPES_def)
  obtain i' j' where "i' \<le> j'" "j' < length (nodes st1)" "nodes st1 ! i' = start" "nodes st1 ! j' = end'"
    "nodes st2 = take i' (nodes st1) @ [int (length es + 1)] @ drop (Suc j') (nodes st1)"
    using replay_three [OF r2 r1 types op] .
  then show after: "nodes st2 = ?pre @ [ev_seq replacement] @ ?post"
    using span(1-4) seq nth_eq_iff_index_eq [OF replay_distinct [OF r1]] by (metis le_less_trans)
  show split: "nodes st1 = ?pre @ shadowed @ ?post"
    using slice_decomp [OF span(1), of "nodes st1"] span(5) by simp
  have upto: "?pre @ shadowed = take (Suc j) (nodes st1)"
    using take_add [of i "Suc j - i" "nodes st1"] span(1,5) by (simp add: slice_incl_def)
  have cuts: "open_calls es ?pre = 0" "open_calls es (?pre @ shadowed) = 0" using wp(2,3) upto by simp_all
  have named: "\<And>n. n \<in> set (?pre @ shadowed @ ?post) \<Longrightarrow> nat n < length es"
    using replay_nodes_less [OF r1] split by metis
  have quiet: "ev_data ((es @ [summary, replacement, closing]) ! nat (ev_seq replacement)) = UserMessage m"
    using replacement by (simp add: nth_append seq nat_add_distrib)
  show "well_paired (es @ [summary, replacement, closing]) (nodes st2)"
    unfolding after
  proof (rule splice_well_paired [OF _ cuts named])
    show "well_paired es (?pre @ shadowed @ ?post)" using wp(1) split by simp
    show "event_delta (ev_data ((es @ [summary, replacement, closing]) ! nat (ev_seq replacement))) = 0"
      using quiet by simp
  qed
  show zero: "open_calls es shadowed = 0" using cuts by simp
  have "open_calls (es @ [summary, replacement, closing]) (?pre @ ?post) = open_calls es (?pre @ ?post)"
    using named by (intro open_calls_log) auto
  then show "open_calls (es @ [summary, replacement, closing]) (nodes st2) = open_calls es (nodes st1)"
    using quiet zero arg_cong [OF split, of "open_calls es"] unfolding after by simp
  show "set (answers es shadowed) = set (requests es shadowed) \<and>
      matched (es @ [summary, replacement, closing]) (nodes st2) \<and>
      unanswered (es @ [summary, replacement, closing]) (nodes st2) = unanswered es (nodes st1)"
    if ma: "matched es (nodes st1)"
  proof -
    have ma': "matched es (?pre @ shadowed @ ?post)" using ma split by simp
    note M = splice_matched [OF ma' cuts named]
    show ?thesis
      using balanced_span [OF ma' cuts] M [of "[summary, replacement, closing]" "ev_seq replacement"] quiet
        arg_cong [OF split, of "unanswered es"] unfolding after by simp
  qed
qed

text \<open>C10. A successful compaction adds to the log exactly its four events - start, summary,
  replacement, end - around exactly the events that the admitted appends of others give meanwhile.
  The replacement stands where the selected span stood at that moment and the rest of the surface is
  untouched. No tool call is open at either end of the span and as many are open on the surface
  after as before. When calls and results matched by identity before (distinct calls, each result
  with an earlier call of its own), the span held exactly the calls whose results it held, they
  match after, and the unanswered calls are the same: no call loses its result, no result its call.
  The summary is cheaper than what it shadows, and the result reports these events, the span and the
  span's price under the meter.\<close>

theorem compaction_replaces_span:
  assumes ok: "paired_ok w"
    and c: "compact_surface_region env opts start end' w = (w', Inr res)"
    and r: "replay (ss_log (ps_session w)) = Inr (st, reps, x)"
  shows "\<exists>begun others summary replacement closing pre post st1 st2 reps1 reps2 x1 x2 su.
    ss_log (ps_session w') = ss_log (ps_session w) @ [begun] @ others @ [summary, replacement, closing] \<and>
    others = meanwhile_events (ce_meanwhile env) (ss_log (ps_session w) @ [begun]) \<and>
    map ev_type [begun, summary, replacement, closing] =
      [''compaction/start'', ''compaction/summary'', ''user/message'', ''compaction/end''] \<and>
    [cr_start_seq res, cr_summary_seq res, cr_end_seq res] = map ev_seq [begun, summary, closing] \<and>
    replay (ss_log (ps_session w) @ [begun] @ others) = Inr (st1, reps1, x1) \<and>
    nodes st1 = pre @ cr_shadowed res @ post \<and>
    replay (ss_log (ps_session w')) = Inr (st2, reps2, x2) \<and>
    nodes st2 = pre @ [ev_seq replacement] @ post \<and>
    well_paired (ss_log (ps_session w')) (nodes st2) \<and>
    open_calls (ss_log (ps_session w) @ [begun] @ others) pre = 0 \<and>
    open_calls (ss_log (ps_session w) @ [begun] @ others) (cr_shadowed res) = 0 \<and>
    open_calls (ss_log (ps_session w')) (nodes st2) =
      open_calls (ss_log (ps_session w) @ [begun] @ others) (nodes st1) \<and>
    (matched (ss_log (ps_session w) @ [begun] @ others) (nodes st1) \<longrightarrow>
      set (answers (ss_log (ps_session w) @ [begun] @ others) (cr_shadowed res)) =
        set (requests (ss_log (ps_session w) @ [begun] @ others) (cr_shadowed res)) \<and>
      matched (ss_log (ps_session w')) (nodes st2) \<and>
      unanswered (ss_log (ps_session w')) (nodes st2) =
        unanswered (ss_log (ps_session w) @ [begun] @ others) (nodes st1)) \<and>
    cr_shadowed res \<noteq> [] \<and> set (cr_shadowed res) \<subseteq> set (nodes st) \<and>
    cr_range res = (start, end') \<and> (start, end') = (hd (cr_shadowed res), last (cr_shadowed res)) \<and>
    ev_data replacement = UserMessage (checkpoint_message env (ro_command opts) su) \<and>
    cr_tokens res = surface_price (ce_digits env) (ss_log (ps_session w)) (cr_shadowed res) \<and>
    estimate_message (ce_digits env) (checkpoint_message env (ro_command opts) su) < cr_tokens res"
proof -
  from ok c r show ?thesis
  proof (rule compaction_committed)
    fix es begun others prep su summary replacement closing st1 reps1 x1 i j
    assume es: "es = ss_log (ps_session w) @ [begun] @ others" and ok': "paired_ok w'"
      and log: "ss_log (ps_session w') = es @ [summary, replacement, closing]"
      and begun: "ev_type begun = ''compaction/start''"
      and others: "others = meanwhile_events (ce_meanwhile env) (ss_log (ps_session w) @ [begun])"
      and summary: "summary = build_event es
        (PluginEvent ''compaction/summary'' (summary_data (ce_id env) (ro_command opts) prep su)) (None, None) (ce_clock env 1)"
      and replacement: "replacement = build_event (es @ [summary]) (UserMessage (checkpoint_message env (ro_command opts) su))
        (Some (JArr (map jint (ev_seq begun # ev_seq summary # se_shadowed prep))),
         Some (replace_op start end')) (ce_clock env 2)"
      and closing: "ev_type closing = ''compaction/end''"
      and r1: "replay es = Inr (st1, reps1, x1)"
      and span: "i \<le> j" "j < length (nodes st1)" "nodes st1 ! i = start" "nodes st1 ! j = end'"
        "slice_incl i j (nodes st1) = se_shadowed prep" and sub: "set (se_shadowed prep) \<subseteq> set (nodes st)"
      and wp: "well_paired es (nodes st1)" "open_calls es (take i (nodes st1)) = 0"
        "open_calls es (take (Suc j) (nodes st1)) = 0"
      and price: "pc_tokens prep = surface_price (ce_digits env) (ss_log (ps_session w)) (se_shadowed prep)"
        "estimate_message (ce_digits env) (checkpoint_message env (ro_command opts) su) < pc_tokens prep"
      and res: "cr_start_seq res = ev_seq begun" "cr_summary_seq res = ev_seq summary" "cr_end_seq res = ev_seq closing"
        "cr_shadowed res = se_shadowed prep" "cr_range res = (start, end')" "cr_tokens res = pc_tokens prep"
    obtain st2 reps2 x2 where r2: "replay (ss_log (ps_session w')) = Inr (st2, reps2, x2)"
      using paired_replays [OF ok'] by blast
    note S = span_replaced [OF r2 [unfolded log] r1 summary replacement closing span wp]
    have ends: "cr_shadowed res \<noteq> []" "(start, end') = (hd (cr_shadowed res), last (cr_shadowed res))"
      using slice_ends [OF span(1,2)] span(3-5) res(4) by simp_all
    show ?thesis
    proof (intro exI conjI)
      show "ss_log (ps_session w') = ss_log (ps_session w) @ [begun] @ others @ [summary, replacement, closing]"
        using es log by simp
      show "map ev_type [begun, summary, replacement, closing] =
          [''compaction/start'', ''compaction/summary'', ''user/message'', ''compaction/end'']"
        using begun summary replacement closing by (simp add: build_event_def)
      show "[cr_start_seq res, cr_summary_seq res, cr_end_seq res] = map ev_seq [begun, summary, closing]"
        using res(1-3) by simp
      show "replay (ss_log (ps_session w) @ [begun] @ others) = Inr (st1, reps1, x1)" using r1 es by simp
      show "replay (ss_log (ps_session w')) = Inr (st2, reps2, x2)" by (rule r2)
      show "nodes st1 = take i (nodes st1) @ cr_shadowed res @ drop (Suc j) (nodes st1)" using S(1) res(4) by simp
      show "nodes st2 = take i (nodes st1) @ [ev_seq replacement] @ drop (Suc j) (nodes st1)" by (rule S(2))
      show "well_paired (ss_log (ps_session w')) (nodes st2)" using S(3) log by simp
      show "others = meanwhile_events (ce_meanwhile env) (ss_log (ps_session w) @ [begun])" by (rule others)
      show "open_calls (ss_log (ps_session w) @ [begun] @ others) (take i (nodes st1)) = 0"
        "open_calls (ss_log (ps_session w) @ [begun] @ others) (cr_shadowed res) = 0"
        "open_calls (ss_log (ps_session w')) (nodes st2) =
          open_calls (ss_log (ps_session w) @ [begun] @ others) (nodes st1)"
        using wp(2) S(4,5) es log res(4) by simp_all
      show "matched (ss_log (ps_session w) @ [begun] @ others) (nodes st1) \<longrightarrow>
        set (answers (ss_log (ps_session w) @ [begun] @ others) (cr_shadowed res)) =
          set (requests (ss_log (ps_session w) @ [begun] @ others) (cr_shadowed res)) \<and>
        matched (ss_log (ps_session w')) (nodes st2) \<and>
        unanswered (ss_log (ps_session w')) (nodes st2) =
          unanswered (ss_log (ps_session w) @ [begun] @ others) (nodes st1)"
        using S(6) es log res(4) by simp
      show "ev_data replacement = UserMessage (checkpoint_message env (ro_command opts) su)" using replacement by simp
      show "cr_tokens res = surface_price (ce_digits env) (ss_log (ps_session w)) (cr_shadowed res)"
        "estimate_message (ce_digits env) (checkpoint_message env (ro_command opts) su) < cr_tokens res"
        "set (cr_shadowed res) \<subseteq> set (nodes st)"
        using price res sub by simp_all
    qed (rule ends res(5))+
  qed
qed

lemma start_types: "''compaction/start'' \<notin> set SURFACE_EVENT_TYPES" "''compaction/end'' \<notin> set SURFACE_EVENT_TYPES"
  by (simp_all add: SURFACE_EVENT_TYPES_def)

text \<open>C12. The lock is released on every path: a compaction whose opening entered the log has, unless the
  closing event itself could not be published, that closing event as the last event of the log, and
  the log is free for the next compaction, whatever failed and whatever was appended meanwhile.\<close>

theorem compaction_lock_released:
  assumes "paired_ok w" and "compact_surface_region env opts start end' w = (w', r)"
    and "ce_dispatch env 3"
  shows "(ss_log (ps_session w') = ss_log (ps_session w) \<and> \<not> returns r) \<or>
    (\<exists>begun middle closing.
       ss_log (ps_session w') = ss_log (ps_session w) @ [begun] @ middle @ [closing] \<and>
       ev_type begun = ''compaction/start'' \<and> ev_type closing = ''compaction/end'' \<and>
       compaction_inactive (inspect_compaction_entry_state (ss_log (ps_session w'))))"
  using assms(1,2)
proof (cases rule: compact_cases)
  case (rejected err)
  then show ?thesis by (simp add: same_log_eq)
next
  case (opened v sel owner begun w1 w2 outcome ended final)
  have b: "ev_type begun = ''compaction/start''" using opened(5) by simp
  obtain middle where w2: "paired_ok w2" "ss_log (ps_session w2) = ss_log (ps_session w) @ [begun] @ middle"
    using opened(6,8)
  proof (cases rule: transaction_body_cases)
    case (summary f others)
    then show thesis using that [of others] opened(7) by simp
  next
    case (commit f others w1' prep su body)
    then show thesis using that [of "others @ body"] opened(7) by simp
  next
    case (committed others w1' prep su v1 v1' smry replacement)
    show thesis using that [of "others @ [smry, replacement]"] opened(7) committed(5,7,8) by simp
  qed
  from w2(1) opened(9) show ?thesis
  proof (cases rule: close_cases)
    case (closed failure closing)
    have "ev_type closing = ''compaction/end''" using closed(4) by simp
    then show ?thesis
      using closed(3) w2(2) b closed_inactive [of closing "ss_log (ps_session w) @ [begun] @ middle"]
      by (intro disjI2 exI [of _ begun] exI [of _ middle] exI [of _ closing]) simp
  qed (use assms(3) in simp)
qed

text \<open>C13. While a compaction is open, until its closing event or a session boundary, every other
  compaction of the session is refused as busy and leaves the log untouched.\<close>

theorem open_compaction_excludes:
  assumes ok: "paired_ok w" and log: "ss_log (ps_session w) = before @ [begun] @ others"
    and b: "ev_type begun = ''compaction/start''"
    and quiet: "list_all (\<lambda>e. \<not> is_bracket e \<and> \<not> is_end_seed e) others"
    and c: "compact_surface_region env opts start end' w = (w', r)"
  shows "ss_log (ps_session w') = ss_log (ps_session w) \<and> \<not> returns r \<and>
    (returns (snd (validate_surface_region start end' w)) \<and>
       \<not> (ro_owner opts = Standalone \<and> ce_abort_entry env) \<longrightarrow> r = Inl (Manual ManualBusy))"
proof -
  obtain st reps x where r: "replay (ss_log (ps_session w)) = Inr (st, reps, x)"
    using paired_replays [OF ok] by blast
  have "ev_seq e \<le> ev_seq begun" if "e \<in> set before" for e
  proof -
    obtain i where i: "i < length before" "e = before ! i" using \<open>e \<in> set before\<close> by (metis in_set_conv_nth)
    have "ev_seq (ss_log (ps_session w) ! i) = int i"
      "ev_seq (ss_log (ps_session w) ! length before) = int (length before)"
      by (rule replay_seqs [OF r], use i(1) in \<open>simp add: log\<close>)+
    then show ?thesis using i by (simp add: log nth_append)
  qed
  then have active: "\<not> compaction_inactive (inspect_compaction_entry_state (ss_log (ps_session w)))"
    unfolding log using opened_active [OF b, of others before] quiet by (auto simp: list_all_iff)
  from ok c have rejected: "ss_log (ps_session w') = ss_log (ps_session w) \<and> \<not> returns r"
  proof (cases rule: compact_cases)
    case (rejected err)
    then show ?thesis by (simp add: same_log_eq)
  qed (use active in simp)
  moreover have "r = Inl (Manual ManualBusy)"
    if "returns (snd (validate_surface_region start end' w))"
      "\<not> (ro_owner opts = Standalone \<and> ce_abort_entry env)"
  proof -
    obtain v sel where v: "validate_surface_region start end' w = (v, Inr sel)"
      using \<open>returns (snd (validate_surface_region start end' w))\<close> by (metis returns_iff prod.collapse)
    note V = validate_log [OF ok v]
    obtain s where "session_events (ps_session v) = (s, ss_log (ps_session v))"
      using events_paired [OF same_log_ok [OF V]] by blast
    then show ?thesis
      using c v that(2) active same_log_eq [OF V] by (simp add: compact_surface_region_def Let_def)
  qed
  ultimately show ?thesis by blast
qed

lemma manual_failure_not_busy [simp]: "manual_failure stage f \<noteq> ManualBusy" "ManualBusy \<noteq> manual_failure stage f"
  by (simp_all add: manual_failure_def)

lemma manual_failure_summary:
  "manual_failure stage f \<in> {ManualChanged, ManualSummary} \<Longrightarrow> stage = SummaryStage"
  by (cases stage) (auto simp: manual_failure_def)

text \<open>C11. A manual compaction that reports \<open>changed\<close> or \<open>summary\<close> leaves the conversation as
  it was and records the attempt: the only events it adds itself are the bracket, and between them
  stand exactly the events that the admitted appends of others gave meanwhile, or none (it may fail
  before the summarizer runs). The surface is the one these events produced, and so are the derived messages.
  One that reports \<open>busy\<close> writes nothing.\<close>

theorem failed_compaction_keeps_conversation:
  assumes ok: "paired_ok w" and manual: "ro_owner opts = Standalone"
    and c: "compact_surface_region env opts start end' w = (w', Inl (Manual code))"
    and r: "replay (ss_log (ps_session w')) = Inr (st', reps', x')"
  shows "(code = ManualBusy \<longrightarrow> ss_log (ps_session w') = ss_log (ps_session w)) \<and>
    (code \<in> {ManualChanged, ManualSummary} \<longrightarrow>
      (\<exists>begun others closing st reps x.
        ss_log (ps_session w') = ss_log (ps_session w) @ [begun] @ others @ [closing] \<and>
        ev_type begun = ''compaction/start'' \<and> ev_type closing = ''compaction/end'' \<and>
        (others = [] \<or> others = meanwhile_events (ce_meanwhile env) (ss_log (ps_session w) @ [begun])) \<and>
        replay (ss_log (ps_session w) @ [begun] @ others) = Inr (st, reps, x) \<and> nodes st' = nodes st \<and>
        project_nodes (ss_log (ps_session w')) (nodes st') =
          project_nodes (ss_log (ps_session w) @ [begun] @ others) (nodes st)))"
  using ok c
proof (cases rule: compact_cases)
  case (rejected err)
  then have "code = ManualBusy" by simp
  then show ?thesis using rejected by (simp add: same_log_eq)
next
  case (opened v sel owner begun w1 w2 outcome ended final)
  have b: "ev_type begun = ''compaction/start''" using opened(5) by simp
  have code: "\<not> ce_abort_exit env" "(\<exists>stage f. final = Inl (stage, f) \<and> code = manual_failure stage f) \<or>
      code = ManualPersistence"
    using opened(10) manual by (auto simp: settle_def split: if_splits sum.splits)
  then have busy: "code \<noteq> ManualBusy" by auto
  show ?thesis
  proof (cases "code \<in> {ManualChanged, ManualSummary}")
    case False
    then show ?thesis using busy by simp
  next
    case True
    then obtain stage f where "final = Inl (stage, f)" "code = manual_failure stage f"
      using code(2) by auto
    then have final: "final = Inl (SummaryStage, f)"
      using True manual_failure_summary [of stage f] by simp
    from opened(6,8) show ?thesis
    proof (cases rule: transaction_body_cases)
      case (summary g others)
      from summary(2) opened(9) show ?thesis
      proof (cases rule: close_cases)
        case (closed failure closing)
        have e: "ev_type closing = ''compaction/end''" using closed(4) by simp
        let ?es = "ss_log (ps_session w) @ [begun] @ others"
        have log: "ss_log (ps_session w') = ?es @ [closing]" "ss_log (ps_session w2) = ?es"
          using closed(3) summary(3) opened(7) by simp_all
        obtain st reps x where r2: "replay ?es = Inr (st, reps, x)"
          using paired_replays [OF summary(2)] log(2) by auto
        have n: "nodes st' = nodes st"
          using replay_off_surface [OF _ r2, of closing] r e start_types unfolding log(1) by simp
        have "project_nodes (ss_log (ps_session w')) (nodes st') = project_nodes ?es (nodes st)"
          unfolding log(1) n using replay_nodes_less [OF r2] by (intro project_nodes_snoc) simp
        moreover have "others = [] \<or> others = meanwhile_events (ce_meanwhile env) (ss_log (ps_session w) @ [begun])"
          using summary(4) opened(7) by simp
        ultimately show ?thesis using busy log(1) b e r2 n
          by (intro conjI impI exI [of _ begun] exI [of _ others] exI [of _ closing] exI [of _ st] exI [of _ reps] exI [of _ x]) simp_all
      qed (use final in simp)
    next
      case (commit g others w1' prep su body)
      then show ?thesis
        using opened(9) final by (auto simp: close_transaction_def split: prod.splits sum.splits)
    next
      case committed
      then show ?thesis
        using opened(9) final by (auto simp: close_transaction_def split: prod.splits sum.splits)
    qed
  qed
qed

section \<open>Instances\<close>

text \<open>A summarizer that answers with one line while a prompt arrives.\<close>

definition example_env :: region_env where
  "example_env =
     \<lparr>ce_digits = (\<lambda>_. []),
      ce_summarize = (\<lambda>_. Inr \<lparr>su_summary = [TextBlock ''done''], su_provider = ''p'', su_model = ''m'',
        su_max_tokens = Some 100, su_usage = None, su_raw_output = None, su_stream_call = False\<rparr>),
      ce_meanwhile = [(1500, UserMessage (example_prompt ''m9''), (None, Some append_op))],
      ce_abort_entry = False, ce_abort_summarized = False, ce_abort_exit = False, ce_flush_ok = True,
      ce_id = ''k1'', ce_message_id = ''m8'', ce_clock = (\<lambda>k. 2000 + int k), ce_dispatch = (\<lambda>_. True),
      ce_error_chain = (\<lambda>_. ''error'')\<rparr>"

definition example_long_summary :: summary_result where
  "example_long_summary =
     \<lparr>su_summary = [TextBlock (replicate 120 (CHR 0xE9))], su_provider = ''p'', su_model = ''m'',
      su_max_tokens = None, su_usage = None, su_raw_output = None, su_stream_call = False\<rparr>"

definition example_manual :: region_options where
  "example_manual =
     \<lparr>ro_owner = Standalone, ro_stability = SelectedSpan, ro_flush = True, ro_command = None\<rparr>"

lemma example_pairing_replay:
  "replay (ss_log (ps_session example_pairing)) = Inr (\<lparr>nodes = [1, 2, 3, 4], replace_generation = 0\<rparr>, [], 5)"
  using example_tools_replay by (simp add: example_pairing_def)

theorem compaction_replaces_span_witness:
  "\<exists>w' res st reps x. compact_surface_region example_env example_manual 1 3 example_pairing = (w', Inr res) \<and>
     cr_range res = (1, 3) \<and> replay (ss_log (ps_session w')) = Inr (st, reps, x) \<and>
     matched (ss_log (ps_session w')) (nodes st) \<and> unanswered (ss_log (ps_session w')) (nodes st) = {}"
proof -
  let ?out = "compact_surface_region example_env example_manual 1 3 example_pairing"
  let ?es = "take 7 (ss_log (ps_session (fst ?out)))"
  have e: "returns (snd ?out)" "length (ss_log (ps_session (fst ?out))) = 10" "matched ?es [1, 2, 3, 4, 6]"
    "map_sum id (nodes \<circ> fst) (replay ?es) = Inr [1, 2, 3, 4, 6]"
    "requests ?es [1, 2, 3, 4, 6] = answers ?es [1, 2, 3, 4, 6]" by code_simp+
  obtain w' res where c: "?out = (w', Inr res)" using e(1) by (metis returns_iff prod.collapse)
  from compaction_replaces_span [OF example_pairing_ok c example_pairing_replay] show ?thesis
  proof (elim exE conjE)
    fix begun others summary replacement closing st1 st2 reps1 reps2 x1 x2
    let ?es1 = "ss_log (ps_session example_pairing) @ [begun] @ others"
    assume log: "ss_log (ps_session w') = ss_log (ps_session example_pairing) @ [begun] @ others @ [summary, replacement, closing]"
      and r1: "replay ?es1 = Inr (st1, reps1, x1)" and r2: "replay (ss_log (ps_session w')) = Inr (st2, reps2, x2)"
      and m: "matched ?es1 (nodes st1) \<longrightarrow>
        set (answers ?es1 (cr_shadowed res)) = set (requests ?es1 (cr_shadowed res)) \<and>
        matched (ss_log (ps_session w')) (nodes st2) \<and>
        unanswered (ss_log (ps_session w')) (nodes st2) = unanswered ?es1 (nodes st1)"
      and range: "cr_range res = (1, 3)"
    have "length ?es1 = 7" using e(2) log c by simp
    moreover have "take (length ?es1) (ss_log (ps_session w')) = ?es1" unfolding log by simp
    ultimately have es: "?es1 = ?es" using c by simp
    then have "nodes st1 = [1, 2, 3, 4, 6]" using e(4) r1 by simp
    then show ?thesis using c range r2 m e(3,5) es by (auto simp: unanswered_def)
  qed
qed

theorem compaction_lock_released_witness:
  "compaction_inactive (inspect_compaction_entry_state (ss_log (ps_session (fst
     (compact_surface_region (example_env\<lparr>ce_summarize := \<lambda>_. Inl ''down''\<rparr>) example_manual 1 3 example_pairing)))))"
proof -
  let ?env = "example_env\<lparr>ce_summarize := \<lambda>_. Inl ''down''\<rparr>"
  obtain w' r where c: "compact_surface_region ?env example_manual 1 3 example_pairing = (w', r)" by fastforce
  have "length (ss_log (ps_session (fst (compact_surface_region ?env example_manual 1 3 example_pairing)))) \<noteq>
      length (ss_log (ps_session example_pairing))" by code_simp
  then show ?thesis
    using compaction_lock_released [OF example_pairing_ok c] unfolding c by (auto simp: example_env_def)
qed

definition example_open :: paired_session where
  "example_open =
     fst (region_append example_env 0 (PluginEvent ''compaction/start'' (lifecycle_data ''k0'' None None None))
            (None, None) example_pairing)"

lemma example_open_log:
  "ss_log (ps_session example_open) =
     ss_log example_tools @ [last (ss_log (ps_session example_open))] @ []"
  "ev_type (last (ss_log (ps_session example_open))) = ''compaction/start''"
  by code_simp+

theorem open_compaction_excludes_witness:
  "snd (compact_surface_region example_env example_manual 1 3 example_open) = Inl (Manual ManualBusy)"
proof -
  have ok: "paired_ok example_open"
    unfolding example_open_def using region_append_cases [OF example_pairing_ok prod.collapse [symmetric]]
    by (metis same_log_ok)
  have "returns (snd (validate_surface_region 1 3 example_open))" by code_simp
  then show ?thesis
    using open_compaction_excludes [OF ok example_open_log(1,2) _ prod.collapse [symmetric],
        where env = example_env and opts = example_manual and start = 1 and end' = 3]
    by (simp add: example_env_def)
qed

lemma reports_summary: "(case r of Inl (Manual ManualSummary) \<Rightarrow> True | _ \<Rightarrow> False) \<Longrightarrow> r = Inl (Manual ManualSummary)"
  by (auto split: sum.splits region_error.splits manual_code.splits)

theorem failed_compaction_keeps_conversation_witness:
  "\<exists>begun others closing.
     ss_log (ps_session (fst (compact_surface_region (example_env\<lparr>ce_summarize := \<lambda>_. Inr example_long_summary\<rparr>) example_manual 1 3 example_pairing))) =
       ss_log (ps_session example_pairing) @ [begun] @ others @ [closing] \<and>
     ev_type closing = ''compaction/end''"
proof -
  let ?env = "example_env\<lparr>ce_summarize := \<lambda>_. Inr example_long_summary\<rparr>"
  let ?run = "compact_surface_region ?env example_manual 1 3 example_pairing"
  have "(case snd ?run of Inl (Manual ManualSummary) \<Rightarrow> True | _ \<Rightarrow> False)" by code_simp
  then have "snd ?run = Inl (Manual ManualSummary)" by (rule reports_summary)
  then obtain w' where c: "?run = (w', Inl (Manual ManualSummary))" by (metis prod.collapse)
  note ok = compact_ok [OF example_pairing_ok c]
  obtain st reps x where "replay (ss_log (ps_session w')) = Inr (st, reps, x)"
    using paired_replays [OF ok] by blast
  from failed_compaction_keeps_conversation [OF example_pairing_ok _ c this]
  show ?thesis unfolding c by (auto simp: example_manual_def)
qed

end
