(* ===== verification/Compaction_Trace.thy ===== *)
theory Compaction_Trace
  imports Compaction_Transaction
begin

text \<open>
  The log-stream check of the compaction package,
  \<^verbatim>\<open>packages/compaction/compaction/src/invariant.ts\<close>: every bracket is opened once,
  summarised at most once and closed by its own owner, inside one turn or between turns. The lemmas
  show that the check and the lock of the transaction, two independent readings of the log, agree,
  and that every event a transaction appends passes the check.
\<close>

section \<open>State\<close>

text \<open>
  Event payloads are read as the JSON they are: an absent member is \<open>None\<close>. A bracket's owner is a
  turn number or \<open>null\<close>.
\<close>

record compaction_trace =
  ct_id :: string
  ct_command :: "string option"
  ct_start_seq :: int
  ct_turn :: "jv option"
  ct_summarized :: bool

record trace_state =
  ts_open_turn :: "int option"
  ts_compaction :: "compaction_trace option"

datatype compaction_transition =
    StartTransition string "string option" int "jv option"
  | SummaryTransition string "string option" int "jv option"
  | EndTransition
  | EndSeedTransition

datatype compaction_fault =
    IdInvalid string
  | CommandMismatch string
  | CheckpointWithoutStart
  | CheckpointIdMismatch
  | StartWhileOpen
  | StandaloneInsideTurn string
  | OwnerOutsideTurn string
  | OwnerMismatch string
  | SummaryWithoutStart
  | SummaryIdMismatch
  | SummaryRepeated
  | SummaryMalformed
  | ShadowedEmpty
  | ShadowedRangeMismatch
  | ShadowedTokensInvalid
  | EndWithoutStart
  | EndIdMismatch
  | EndOwnerMismatch
  | EndWithoutSummary
  | BoundaryCrossesOpen string

definition fresh_trace_state :: trace_state where
  "fresh_trace_state = \<lparr>ts_open_turn = None, ts_compaction = None\<rparr>"

section \<open>Validation\<close>

definition validate_id :: "string \<Rightarrow> jv option \<Rightarrow> compaction_fault + string" where
  "validate_id label v =
     (case v of Some (JStr s) \<Rightarrow> if s = [] then Inl (IdInvalid label) else Inr s | _ \<Rightarrow> Inl (IdInvalid label))"

text \<open>An optional command identity: absent, or a valid one.\<close>

definition optional_id :: "string \<Rightarrow> jv option \<Rightarrow> compaction_fault + string option" where
  "optional_id label v =
     (case v of None \<Rightarrow> Inr None | Some _ \<Rightarrow> and_then (validate_id label v) (\<lambda>s. Inr (Some s)))"

definition validate_source_command_id ::
  "string \<Rightarrow> jv option \<Rightarrow> string option \<Rightarrow> compaction_fault + unit" where
  "validate_source_command_id event v expected =
     and_then (optional_id event v) (\<lambda>command.
       if command \<noteq> expected then Inl (CommandMismatch event) else Inr ())"

fun source_member :: "message_source \<Rightarrow> string \<Rightarrow> jv option" where
  "source_member (PluginSource _ _ fs) k = map_of fs k"
| "source_member _ k = None"

definition validate_checkpoint :: "trace_state \<Rightarrow> message_source \<Rightarrow> compaction_fault + unit" where
  "validate_checkpoint tr source =
     and_then (validate_id ''checkpoint'' (source_member source ''compactionId'')) (\<lambda>cid.
     and_then (optional_id ''checkpoint'' (source_member source ''sourceCommandId'')) (\<lambda>_.
       case ts_compaction tr of
         None \<Rightarrow> Inl CheckpointWithoutStart
       | Some open' \<Rightarrow>
           if cid \<noteq> ct_id open' then Inl CheckpointIdMismatch
           else validate_source_command_id ''checkpoint''
                  (source_member source ''sourceCommandId'') (ct_command open')))"

definition crosses_boundary :: "event_data \<Rightarrow> bool" where
  "crosses_boundary d = (case d of TurnStart _ \<Rightarrow> True | TurnEnd _ _ \<Rightarrow> True | _ \<Rightarrow> False)"

definition validate_turn_boundary :: "trace_state \<Rightarrow> session_event \<Rightarrow> compaction_fault + unit" where
  "validate_turn_boundary tr e =
     (if crosses_boundary (ev_data e) \<and> ts_compaction tr \<noteq> None then Inl (BoundaryCrossesOpen (ev_type e))
      else Inr ())"

definition apply_turn_boundary :: "session_event \<Rightarrow> trace_state \<Rightarrow> trace_state" where
  "apply_turn_boundary e tr =
     (case ev_data e of
        TurnStart t \<Rightarrow> tr\<lparr>ts_open_turn := Some t\<rparr>
      | TurnEnd _ _ \<Rightarrow> tr\<lparr>ts_open_turn := None\<rparr>
      | _ \<Rightarrow> tr)"

text \<open>\<open>===\<close> of an owner with a turn number, and of two owners.\<close>

definition owner_is :: "jv option \<Rightarrow> int \<Rightarrow> bool" where
  "owner_is v t = (case v of Some (JNum n) \<Rightarrow> num_eq n (NInt t) | _ \<Rightarrow> False)"

definition same_owner :: "jv option \<Rightarrow> jv option \<Rightarrow> bool" where
  "same_owner a b =
     (case (a, b) of
        (Some (JNum m), Some (JNum n)) \<Rightarrow> num_eq m n
      | (Some JNull, Some JNull) \<Rightarrow> True
      | (None, None) \<Rightarrow> True
      | _ \<Rightarrow> False)"

definition validate_owner :: "jv option \<Rightarrow> int option \<Rightarrow> string \<Rightarrow> compaction_fault + unit" where
  "validate_owner owner open_turn event =
     (if owner = Some JNull then
        (if open_turn \<noteq> None then Inl (StandaloneInsideTurn event) else Inr ())
      else case open_turn of
        None \<Rightarrow> Inl (OwnerOutsideTurn event)
      | Some t \<Rightarrow> if \<not> owner_is owner t then Inl (OwnerMismatch event) else Inr ())"

definition validate_start :: "trace_state \<Rightarrow> int \<Rightarrow> jv \<Rightarrow> compaction_fault + compaction_transition" where
  "validate_start tr seq d =
     and_then (validate_id ''compaction/start'' (jprop d ''compactionId'')) (\<lambda>cid.
     and_then (optional_id ''compaction/start'' (jprop d ''sourceCommandId'')) (\<lambda>command.
       if ts_compaction tr \<noteq> None then Inl StartWhileOpen
       else and_then (validate_owner (jprop d ''turn'') (ts_open_turn tr) ''compaction/start'') (\<lambda>_.
         Inr (StartTransition cid command seq (jprop d ''turn'')))))"

text \<open>\<open>shadowedSeqs\<close>, its first and last members, and the range they must equal.\<close>

definition strict_num_eq :: "jv option \<Rightarrow> jv \<Rightarrow> bool" where
  "strict_num_eq a b = (case (a, b) of (Some (JNum m), JNum n) \<Rightarrow> num_eq m n | _ \<Rightarrow> False)"

definition validate_shadow :: "jv \<Rightarrow> compaction_fault + unit" where
  "validate_shadow d =
     (case jprop d ''shadowedSeqs'' of
        Some (JArr seqs) \<Rightarrow>
          if seqs = [] then Inl ShadowedEmpty
          else (case jprop d ''shadowedRange'' of
            Some (JObj bounds) \<Rightarrow>
              if \<not> strict_num_eq (jprop (JObj bounds) ''start'') (hd seqs) \<or>
                 \<not> strict_num_eq (jprop (JObj bounds) ''end'') (last seqs)
              then Inl ShadowedRangeMismatch
              else (case jprop d ''shadowedTokenCount'' of
                Some (JNum n) \<Rightarrow>
                  if \<not> is_safe_integer n \<or> num_int n < 0 then Inl ShadowedTokensInvalid else Inr ()
              | _ \<Rightarrow> Inl ShadowedTokensInvalid)
          | _ \<Rightarrow> Inl SummaryMalformed)
      | _ \<Rightarrow> Inl SummaryMalformed)"

definition validate_summary :: "trace_state \<Rightarrow> jv \<Rightarrow> compaction_fault + compaction_transition" where
  "validate_summary tr d =
     and_then (validate_id ''compaction/summary'' (jprop d ''compactionId'')) (\<lambda>cid.
     and_then (optional_id ''compaction/summary'' (jprop d ''sourceCommandId'')) (\<lambda>_.
       case ts_compaction tr of
         None \<Rightarrow> Inl SummaryWithoutStart
       | Some open' \<Rightarrow>
           if cid \<noteq> ct_id open' then Inl SummaryIdMismatch
           else
             and_then (validate_source_command_id ''compaction/summary''
                         (jprop d ''sourceCommandId'') (ct_command open')) (\<lambda>_.
             and_then (validate_owner (ct_turn open') (ts_open_turn tr) ''compaction/summary'') (\<lambda>_.
               if ct_summarized open' then Inl SummaryRepeated
               else and_then (validate_shadow d) (\<lambda>_.
                 Inr (SummaryTransition (ct_id open') (ct_command open') (ct_start_seq open') (ct_turn open')))))))"

definition validate_end :: "trace_state \<Rightarrow> jv \<Rightarrow> compaction_fault + compaction_transition" where
  "validate_end tr d =
     and_then (validate_id ''compaction/end'' (jprop d ''compactionId'')) (\<lambda>cid.
     and_then (optional_id ''compaction/end'' (jprop d ''sourceCommandId'')) (\<lambda>_.
       case ts_compaction tr of
         None \<Rightarrow> Inl EndWithoutStart
       | Some open' \<Rightarrow>
           if cid \<noteq> ct_id open' then Inl EndIdMismatch
           else
             and_then (validate_source_command_id ''compaction/end''
                         (jprop d ''sourceCommandId'') (ct_command open')) (\<lambda>_.
               if \<not> same_owner (jprop d ''turn'') (ct_turn open') then Inl EndOwnerMismatch
               else and_then (validate_owner (ct_turn open') (ts_open_turn tr) ''compaction/end'') (\<lambda>_.
                 if jprop d ''error'' = None \<and> \<not> ct_summarized open' then Inl EndWithoutSummary
                 else Inr EndTransition))))"

definition is_checkpoint_event :: "session_event \<Rightarrow> bool" where
  "is_checkpoint_event e =
     (case ev_data e of
        UserMessage m \<Rightarrow> is_replacement_surface_event e \<and> is_compact_checkpoint_source (msg_source m)
      | _ \<Rightarrow> False)"

definition validate_compaction_event ::
  "trace_state \<Rightarrow> session_event \<Rightarrow> compaction_fault + compaction_transition option" where
  "validate_compaction_event tr e =
     (if ev_type e = ''session/end-seed'' then Inr (Some EndSeedTransition)
      else case ev_data e of
        UserMessage m \<Rightarrow>
          if is_checkpoint_event e then and_then (validate_checkpoint tr (msg_source m)) (\<lambda>_. Inr None)
          else Inr None
      | PluginEvent t d \<Rightarrow>
          if t = ''compaction/start'' then and_then (validate_start tr (ev_seq e) d) (\<lambda>x. Inr (Some x))
          else if t = ''compaction/summary'' then and_then (validate_summary tr d) (\<lambda>x. Inr (Some x))
          else if t = ''compaction/end'' then and_then (validate_end tr d) (\<lambda>x. Inr (Some x))
          else Inr None
      | _ \<Rightarrow> Inr None)"

fun apply_compaction_transition :: "compaction_transition \<Rightarrow> compaction_trace option" where
  "apply_compaction_transition (StartTransition cid command seq turn) =
     Some \<lparr>ct_id = cid, ct_command = command, ct_start_seq = seq, ct_turn = turn, ct_summarized = False\<rparr>"
| "apply_compaction_transition (SummaryTransition cid command seq turn) =
     Some \<lparr>ct_id = cid, ct_command = command, ct_start_seq = seq, ct_turn = turn, ct_summarized = True\<rparr>"
| "apply_compaction_transition _ = None"

section \<open>Replay and live checking\<close>

text \<open>Starts that a later seed boundary shows to belong to an earlier process.\<close>

fun orphan_step :: "int list \<times> int option \<Rightarrow> session_event \<Rightarrow> int list \<times> int option" where
  "orphan_step (stale, open_start) e =
     (if ev_type e = ''compaction/start'' then (stale, Some (ev_seq e))
      else if ev_type e = ''compaction/end'' then (stale, None)
      else if ev_type e = ''session/end-seed''
      then ((case open_start of Some n \<Rightarrow> stale @ [n] | None \<Rightarrow> stale), None)
      else (stale, open_start))"

definition inherited_orphan_starts :: "session_event list \<Rightarrow> int list" where
  "inherited_orphan_starts events = fst (foldl orphan_step ([], None) events)"

definition commit_transition ::
  "session_event \<Rightarrow> compaction_transition option \<Rightarrow> trace_state \<Rightarrow> trace_state" where
  "commit_transition e transition tr =
     apply_turn_boundary e
       (case transition of None \<Rightarrow> tr | Some x \<Rightarrow> tr\<lparr>ts_compaction := apply_compaction_transition x\<rparr>)"

definition trace_seed_step ::
  "int list \<Rightarrow> trace_state \<Rightarrow> session_event \<Rightarrow> compaction_fault + trace_state" where
  "trace_seed_step stale tr e =
     and_then
       (case ts_compaction tr of
          Some c \<Rightarrow> if ct_start_seq c \<in> set stale then Inr () else validate_turn_boundary tr e
        | None \<Rightarrow> validate_turn_boundary tr e) (\<lambda>_.
     and_then (validate_compaction_event tr e) (\<lambda>transition.
       Inr (commit_transition e transition tr)))"

definition seed_trace :: "session_event list \<Rightarrow> compaction_fault + trace_state" where
  "seed_trace events =
     fold_result (trace_seed_step (inherited_orphan_starts events)) fresh_trace_state events"

text \<open>
  A live event is validated before it is committed; the staged transition is applied when the
  committed event is published.
\<close>

definition compaction_step :: "trace_state \<Rightarrow> session_event \<Rightarrow> compaction_fault + trace_state" where
  "compaction_step tr e =
     and_then (validate_turn_boundary tr e) (\<lambda>_.
     and_then (validate_compaction_event tr e) (\<lambda>transition.
       Inr (commit_transition e transition tr)))"

section \<open>The check and the lock agree\<close>

lemma boundary_kept [simp]: "ts_compaction (apply_turn_boundary e tr) = ts_compaction tr"
  by (simp add: apply_turn_boundary_def split: event_data.splits)

lemma commit_compaction:
  "ts_compaction (commit_transition e transition tr) =
     (case transition of None \<Rightarrow> ts_compaction tr | Some x \<Rightarrow> apply_compaction_transition x)"
  by (simp add: commit_transition_def split: option.splits)

text \<open>What a validated event does to the open bracket.\<close>

lemma validated_transition:
  assumes "validate_compaction_event tr e = Inr transition"
  shows "ev_type e = ''compaction/start'' \<Longrightarrow>
      \<exists>cid command turn. transition = Some (StartTransition cid command (ev_seq e) turn)"
    and "ev_type e = ''compaction/end'' \<Longrightarrow> transition = Some EndTransition"
    and "is_end_seed e \<Longrightarrow> transition = Some EndSeedTransition"
    and "\<not> is_bracket e \<Longrightarrow> \<not> is_end_seed e \<Longrightarrow>
      transition = None \<or>
      (\<exists>c. ts_compaction tr = Some c \<and>
         transition = Some (SummaryTransition (ct_id c) (ct_command c) (ct_start_seq c) (ct_turn c)))"
proof -
  note defs = validate_compaction_event_def validate_start_def validate_summary_def validate_end_def
  show "ev_type e = ''compaction/start'' \<Longrightarrow>
      \<exists>cid command turn. transition = Some (StartTransition cid command (ev_seq e) turn)"
    using assms by (cases "ev_data e") (auto simp: defs result_simps split: if_splits)
  show "ev_type e = ''compaction/end'' \<Longrightarrow> transition = Some EndTransition"
    using assms by (cases "ev_data e") (auto simp: defs result_simps split: if_splits option.splits)
  show "is_end_seed e \<Longrightarrow> transition = Some EndSeedTransition"
    using assms by (simp add: defs is_end_seed_def)
  show "\<not> is_bracket e \<Longrightarrow> \<not> is_end_seed e \<Longrightarrow>
      transition = None \<or>
      (\<exists>c. ts_compaction tr = Some c \<and>
         transition = Some (SummaryTransition (ct_id c) (ct_command c) (ct_start_seq c) (ct_turn c)))"
    using assms
    by (cases "ev_data e")
      (auto simp: defs result_simps is_bracket_def is_end_seed_def split: if_splits option.splits)
qed

text \<open>The state of the check, by the entry state of the same log.\<close>

definition trace_agrees :: "trace_state \<Rightarrow> session_event list \<Rightarrow> bool" where
  "trace_agrees tr es \<longleftrightarrow>
     ts_open_turn tr = es_open_turn (inspect_compaction_entry_state es) \<and>
     (ts_compaction tr = None) = compaction_inactive (inspect_compaction_entry_state es) \<and>
     (\<forall>c. ts_compaction tr = Some c \<longrightarrow>
        (\<exists>e. es_unmatched (inspect_compaction_entry_state es) = Some e \<and> ct_start_seq c = ev_seq e))"

lemma entry_turn:
  "es_turn_known (entry_note st e) = (es_turn_known st \<or> crosses_boundary (ev_data e))"
  "es_open_turn (entry_note st e) =
     (if es_turn_known st then es_open_turn st
      else case ev_data e of TurnStart t \<Rightarrow> Some t | _ \<Rightarrow> es_open_turn st)"
  by (auto simp: entry_note_def note_turn_def note_compaction_def note_end_seed_def crosses_boundary_def
      split: event_data.splits)

lemma foldl_open_turn:
  "es_open_turn (foldl entry_note st es) =
     (if es_turn_known st then es_open_turn st
      else case find (\<lambda>e. crosses_boundary (ev_data e)) es of
        None \<Rightarrow> es_open_turn st
      | Some e \<Rightarrow> (case ev_data e of TurnStart t \<Rightarrow> Some t | _ \<Rightarrow> es_open_turn st))"
  by (induction es arbitrary: st) (auto simp: entry_turn crosses_boundary_def split: option.splits event_data.splits)

lemma inspect_open_turn_find:
  "es_open_turn (inspect_compaction_entry_state es) =
     (case find (\<lambda>e. crosses_boundary (ev_data e)) (rev es) of
        None \<Rightarrow> None | Some e \<Rightarrow> (case ev_data e of TurnStart t \<Rightarrow> Some t | _ \<Rightarrow> None))"
  by (simp add: inspect_compaction_entry_state_def entry_loop_foldl foldl_open_turn initial_entry_def
      split: option.splits event_data.splits)

lemma inspect_open_turn:
  "es_open_turn (inspect_compaction_entry_state (es @ [e])) =
     (case ev_data e of TurnStart t \<Rightarrow> Some t | TurnEnd _ _ \<Rightarrow> None
      | _ \<Rightarrow> es_open_turn (inspect_compaction_entry_state es))"
  by (cases "ev_data e") (simp_all add: inspect_open_turn_find crosses_boundary_def)

lemma apply_boundary_turn:
  "ts_open_turn (apply_turn_boundary e tr) =
     (case ev_data e of TurnStart t \<Rightarrow> Some t | TurnEnd _ _ \<Rightarrow> None | _ \<Rightarrow> ts_open_turn tr)"
  by (simp add: apply_turn_boundary_def split: event_data.splits)

lemma inspect_snoc_other:
  "\<not> is_bracket e \<Longrightarrow> es_unmatched (inspect_compaction_entry_state (es @ [e])) = es_unmatched (inspect_compaction_entry_state es)"
  "\<not> is_end_seed e \<Longrightarrow> es_end_seed (inspect_compaction_entry_state (es @ [e])) = es_end_seed (inspect_compaction_entry_state es)"
  by (simp_all add: inspect_unmatched inspect_end_seed)

lemma inspect_unmatched_seq:
  "es_unmatched (inspect_compaction_entry_state es) = Some e \<Longrightarrow> e \<in> set es"
  unfolding inspect_unmatched by (auto simp: find_Some_iff split: option.splits if_splits) (metis length_rev nth_mem set_rev)

lemma trace_agrees_step:
  assumes a: "trace_agrees tr es" and v: "validate_compaction_event tr e = Inr transition"
    and later: "\<And>e'. e' \<in> set es \<Longrightarrow> ev_seq e' < ev_seq e"
  shows "trace_agrees (commit_transition e transition tr) (es @ [e])"
proof -
  let ?in = "inspect_compaction_entry_state es" and ?in' = "inspect_compaction_entry_state (es @ [e])"
  let ?tr = "commit_transition e transition tr"
  have turn: "ts_open_turn ?tr = es_open_turn ?in'"
    using a by (simp add: commit_transition_def apply_boundary_turn inspect_open_turn trace_agrees_def
        split: event_data.splits option.splits)
  have "(ts_compaction ?tr = None) = compaction_inactive ?in' \<and>
     (\<forall>c. ts_compaction ?tr = Some c \<longrightarrow> (\<exists>e. es_unmatched ?in' = Some e \<and> ct_start_seq c = ev_seq e))"
  proof (cases "is_bracket e")
    case True
    show ?thesis
    proof (cases "ev_type e = ''compaction/start''")
      case start: True
      then obtain c where c: "ts_compaction ?tr = Some c" "ct_start_seq c = ev_seq e"
        using validated_transition(1) [OF v] by (auto simp: commit_compaction)
      moreover have "\<not> compaction_inactive ?in'"
        using opened_active [OF start, of "[]" es] later by (simp add: order.strict_implies_order)
      moreover have "es_unmatched ?in' = Some e"
        using start by (simp add: inspect_unmatched is_bracket_def)
      ultimately show ?thesis by simp
    next
      case False
      then have e: "ev_type e = ''compaction/end''" using True by (simp add: is_bracket_def)
      then show ?thesis
        using validated_transition(2) [OF v] closed_inactive [OF e] by (simp add: commit_compaction)
    qed
  next
    case other: False
    show ?thesis
    proof (cases "is_end_seed e")
      case True
      have "es_end_seed ?in' = Some (ev_seq e)" using True by (simp add: inspect_end_seed)
      then have "compaction_inactive ?in'"
        using later inspect_unmatched_seq [of es] inspect_snoc_other(1) [OF other]
        by (auto simp: compaction_inactive_def split: option.splits)
      then show ?thesis using validated_transition(3) [OF v True] by (simp add: commit_compaction)
    next
      case False
      have same: "compaction_inactive ?in' = compaction_inactive ?in"
        unfolding compaction_inactive_def inspect_snoc_other(1) [OF other] inspect_snoc_other(2) [OF False]
        by (rule refl)
      from validated_transition(4) [OF v other False] show ?thesis
      proof
        assume "transition = None"
        then show ?thesis
          using a same inspect_snoc_other(1) [OF other] by (simp add: commit_compaction trace_agrees_def)
      next
        assume "\<exists>c. ts_compaction tr = Some c \<and>
          transition = Some (SummaryTransition (ct_id c) (ct_command c) (ct_start_seq c) (ct_turn c))"
        then show ?thesis
          using a same inspect_snoc_other(1) [OF other] by (auto simp: commit_compaction trace_agrees_def)
      qed
    qed
  qed
  then show ?thesis using turn by (simp add: trace_agrees_def)
qed

lemma trace_seed_step_Inr:
  "trace_seed_step stale tr e = Inr tr' \<Longrightarrow>
     \<exists>transition. validate_compaction_event tr e = Inr transition \<and> tr' = commit_transition e transition tr"
  by (auto simp: trace_seed_step_def result_simps)

lemma compaction_step_Inr:
  "compaction_step tr e = Inr tr' \<Longrightarrow>
     \<exists>transition. validate_compaction_event tr e = Inr transition \<and> tr' = commit_transition e transition tr"
  by (auto simp: compaction_step_def result_simps)

lemma seed_steps_agree:
  assumes "fold_result (trace_seed_step stale) fresh_trace_state es = Inr tr"
    and "\<And>i. i < length es \<Longrightarrow> ev_seq (es ! i) = int i"
  shows "trace_agrees tr es"
  using assms
proof (induction es arbitrary: tr rule: rev_induct)
  case Nil
  then show ?case
    by (auto simp: trace_agrees_def fresh_trace_state_def inspect_compaction_entry_state_def initial_entry_def
        compaction_inactive_def)
next
  case (snoc e es)
  obtain tr0 where f: "fold_result (trace_seed_step stale) fresh_trace_state es = Inr tr0"
    and step: "trace_seed_step stale tr0 e = Inr tr"
    using snoc.prems(1) unfolding fold_result_append_Inr by (auto simp: result_simps)
  from trace_seed_step_Inr [OF step] obtain transition
    where v: "validate_compaction_event tr0 e = Inr transition" and tr: "tr = commit_transition e transition tr0"
    by blast
  have seqs: "ev_seq (es ! i) = int i" if "i < length es" for i
    using snoc.prems(2) [of i] that by (simp add: nth_append)
  have last: "ev_seq e = int (length es)" using snoc.prems(2) [of "length es"] by simp
  have "ev_seq e' < ev_seq e" if "e' \<in> set es" for e'
    using that seqs last by (auto simp: in_set_conv_nth)
  from trace_agrees_step [OF snoc.IH [OF f seqs] v this] show ?case unfolding tr .
qed

lemma live_steps_agree:
  assumes "trace_agrees tr es" and "fold_result compaction_step tr fs = Inr tr'"
    and "\<And>i. i < length (es @ fs) \<Longrightarrow> ev_seq ((es @ fs) ! i) = int i"
  shows "trace_agrees tr' (es @ fs)"
  using assms
proof (induction fs arbitrary: tr es)
  case (Cons f fs)
  obtain tr1 where step: "compaction_step tr f = Inr tr1" and rest: "fold_result compaction_step tr1 fs = Inr tr'"
    using Cons.prems(2) by (auto simp: result_simps split: sum.splits)
  from compaction_step_Inr [OF step] obtain transition
    where v: "validate_compaction_event tr f = Inr transition" and tr: "tr1 = commit_transition f transition tr"
    by blast
  have last: "ev_seq f = int (length es)" using Cons.prems(3) [of "length es"] by simp
  have "ev_seq e' = int i" if "i < length es" "e' = es ! i" for e' i
    using Cons.prems(3) [of i] that by (simp add: nth_append)
  then have "ev_seq e' < ev_seq f" if "e' \<in> set es" for e'
    using that last by (metis in_set_conv_nth of_nat_less_iff)
  then have "trace_agrees tr1 (es @ [f])"
    unfolding tr using trace_agrees_step [OF Cons.prems(1) v] by blast
  from Cons.IH [OF this rest] show ?case using Cons.prems(3) by simp
qed simp

text \<open>C15. The checks of a compaction bracket and the lock of the transaction are two independent
  readings of the log, one forwards over every event, the other backwards and stopping early. After
  any accepted seed and any accepted live events they agree on the open turn and on whether a
  compaction is open.\<close>

theorem check_agrees_with_lock:
  assumes "seed_trace es = Inr tr0" and "fold_result compaction_step tr0 fs = Inr tr"
    and "replay (es @ fs) = Inr (st, reps, x)"
  shows "ts_open_turn tr = es_open_turn (inspect_compaction_entry_state (es @ fs)) \<and>
    (ts_compaction tr = None) = compaction_inactive (inspect_compaction_entry_state (es @ fs))"
proof -
  have seqs: "ev_seq ((es @ fs) ! i) = int i" if "i < length (es @ fs)" for i
    by (rule replay_seqs [OF assms(3) that])
  have "ev_seq (es ! i) = int i" if "i < length es" for i
    using seqs [of i] that by (simp add: nth_append)
  then have "trace_agrees tr0 es" by (rule seed_steps_agree [OF assms(1) [unfolded seed_trace_def]])
  from live_steps_agree [OF this assms(2) seqs] show ?thesis by (simp add: trace_agrees_def)
qed

section \<open>The events of a transaction pass the check\<close>

text \<open>Payloads that leave the bracket and the turn alone.\<close>

definition undisturbing :: "event_data \<Rightarrow> bool" where
  "undisturbing d \<longleftrightarrow>
     \<not> crosses_boundary d \<and>
     event_type d \<notin> {''session/end-seed'', ''compaction/start'', ''compaction/summary'', ''compaction/end''} \<and>
     (case d of UserMessage m \<Rightarrow> \<not> is_compact_checkpoint_source (msg_source m) | _ \<Rightarrow> True)"

lemma undisturbing_step: "undisturbing (ev_data e) \<Longrightarrow> compaction_step tr e = Inr tr"
  by (cases "ev_data e")
    (simp_all add: compaction_step_def undisturbing_def crosses_boundary_def validate_turn_boundary_def
      validate_compaction_event_def is_checkpoint_event_def commit_transition_def apply_turn_boundary_def)

lemma undisturbing_steps:
  "(\<And>e. e \<in> set es \<Longrightarrow> undisturbing (ev_data e)) \<Longrightarrow> fold_result compaction_step tr es = Inr tr"
  by (induction es) (simp_all add: undisturbing_step)

lemma meanwhile_steps:
  assumes "from_meanwhile xs es" and "list_all (\<lambda>(now, d, intent). undisturbing d) xs"
  shows "fold_result compaction_step tr es = Inr tr"
proof (rule undisturbing_steps)
  fix e assume "e \<in> set es"
  then show "undisturbing (ev_data e)" using assms by (fastforce simp: from_meanwhile_def list_all_iff)
qed

lemma lifecycle_members [simp]:
  "jprop (lifecycle_data cid command owner failure) ''compactionId'' = Some (JStr cid)"
  "jprop (lifecycle_data cid command owner failure) ''sourceCommandId'' = map_option JStr command"
  "jprop (lifecycle_data cid command owner failure) ''turn'' = Some (turn_json owner)"
  "jprop (lifecycle_data cid command owner failure) ''error'' = map_option JStr failure"
  by (auto simp: lifecycle_data_def map_of_opt_field map_add_def split: option.splits)

lemma optional_id_command [simp]:
  "command \<noteq> Some [] \<Longrightarrow> optional_id label (map_option JStr command) = Inr command"
  by (cases command) (simp_all add: optional_id_def validate_id_def)

lemma source_command_kept [simp]:
  "command \<noteq> Some [] \<Longrightarrow> validate_source_command_id label (map_option JStr command) command = Inr ()"
  by (simp add: validate_source_command_id_def)

lemma same_owner_refl: "same_owner (Some (turn_json owner)) (Some (turn_json owner))"
  by (simp add: same_owner_def turn_json_def split: option.splits)

lemma owner_valid [simp]: "validate_owner (Some (turn_json owner)) owner label = Inr ()"
  by (simp add: validate_owner_def turn_json_def owner_is_def split: option.splits)

text \<open>The state of the check inside a bracket, and the four events of a transaction in it.\<close>

definition bracketed ::
  "string \<Rightarrow> string option \<Rightarrow> int \<Rightarrow> int option \<Rightarrow> bool \<Rightarrow> trace_state \<Rightarrow> trace_state" where
  "bracketed cid command seq owner summarized tr =
     tr\<lparr>ts_compaction := Some \<lparr>ct_id = cid, ct_command = command, ct_start_seq = seq,
        ct_turn = Some (turn_json owner), ct_summarized = summarized\<rparr>\<rparr>"

lemma bracketed_simps [simp]:
  "ts_open_turn (bracketed cid command seq owner b tr) = ts_open_turn tr"
  "ts_compaction (bracketed cid command seq owner b tr) =
     Some \<lparr>ct_id = cid, ct_command = command, ct_start_seq = seq, ct_turn = Some (turn_json owner), ct_summarized = b\<rparr>"
  "bracketed cid command seq owner b tr\<lparr>ts_compaction := c\<rparr> = tr\<lparr>ts_compaction := c\<rparr>"
  by (simp_all add: bracketed_def)

lemmas step_defs = compaction_step_def validate_turn_boundary_def validate_compaction_event_def
  crosses_boundary_def commit_transition_def apply_turn_boundary_def

lemma start_passes:
  assumes "ts_compaction tr = None" "ts_open_turn tr = owner" "cid \<noteq> []" "command \<noteq> Some []"
    and "ev_data e = PluginEvent ''compaction/start'' (lifecycle_data cid command owner None)"
  shows "compaction_step tr e = Inr (bracketed cid command (ev_seq e) owner False tr)"
  using assms by (auto simp: step_defs validate_start_def validate_id_def bracketed_def)

lemma summary_passes:
  assumes "ts_open_turn tr = owner" "cid \<noteq> []" "command \<noteq> Some []"
    and "ev_data e = PluginEvent ''compaction/summary'' (summary_data cid command prep su)"
    and "se_shadowed prep \<noteq> []" "se_start prep = hd (se_shadowed prep)" "se_end prep = last (se_shadowed prep)"
    and "safe_int (pc_tokens prep)" "0 \<le> pc_tokens prep"
  shows "compaction_step (bracketed cid command seq owner False tr) e = Inr (bracketed cid command seq owner True tr)"
proof -
  have "validate_shadow (summary_data cid command prep su) = Inr ()"
    using assms(5-9) by (simp add: validate_shadow_def strict_num_eq_def hd_map last_map)
  then show ?thesis
    using assms(1-4) by (auto simp: step_defs validate_summary_def validate_id_def bracketed_def)
qed

lemma checkpoint_passes:
  assumes "cid \<noteq> []" "command \<noteq> Some []"
    and "ev_data e = UserMessage m" "msg_source m = compact_checkpoint_source cid command"
  shows "compaction_step (bracketed cid command seq owner b tr) e = Inr (bracketed cid command seq owner b tr)"
proof -
  have members: "source_member (msg_source m) ''compactionId'' = Some (JStr cid)"
    "source_member (msg_source m) ''sourceCommandId'' = map_option JStr command"
    using assms(4) by (simp_all add: compact_checkpoint_source_def map_of_opt_field)
  have "validate_checkpoint (bracketed cid command seq owner b tr) (msg_source m) = Inr ()"
    using assms(1,2) members by (simp add: validate_checkpoint_def validate_id_def)
  then show ?thesis using assms(3) by (simp add: step_defs)
qed

lemma end_passes:
  assumes "ts_open_turn tr = owner" "cid \<noteq> []" "command \<noteq> Some []" "b \<or> failure \<noteq> None"
    and "ev_data e = PluginEvent ''compaction/end'' (lifecycle_data cid command owner failure)"
  shows "compaction_step (bracketed cid command seq owner b tr) e = Inr (tr\<lparr>ts_compaction := None\<rparr>)"
  using assms by (auto simp: step_defs validate_end_def validate_id_def same_owner_refl)

text \<open>A surface whose price stays inside the safe integers.\<close>

definition safe_surface :: "region_env \<Rightarrow> session_event list \<Rightarrow> bool" where
  "safe_surface env es \<longleftrightarrow>
     (case replay es of Inl _ \<Rightarrow> True
      | Inr (st, _, _) \<Rightarrow> safe_int (surface_price (ce_digits env) es (nodes st)))"

lemma slice_sum:
  assumes "list_all (\<lambda>n. 0 \<le> f n) ns"
  shows "0 \<le> sum_list (map f (slice_incl i j ns))" "sum_list (map f (slice_incl i j ns)) \<le> (sum_list (map f ns) :: int)"
proof -
  have nonneg: "0 \<le> sum_list (map f xs)" if "set xs \<subseteq> set ns" for xs
    using that assms by (intro sum_list_nonneg) (auto simp: list_all_iff)
  show "0 \<le> sum_list (map f (slice_incl i j ns))"
    by (rule nonneg) (rule set_slice_incl_subset)
  have "sum_list (map f ns) =
      sum_list (map f (take i ns)) + sum_list (map f (slice_incl i j ns)) + sum_list (map f (drop (Suc j - i) (drop i ns)))"
    unfolding slice_incl_def by (metis append_take_drop_id map_append sum_list_append add.assoc)
  moreover have "0 \<le> sum_list (map f (take i ns))" by (rule nonneg) (rule set_take_subset)
  moreover have "0 \<le> sum_list (map f (drop (Suc j - i) (drop i ns)))"
    by (rule nonneg) (auto dest: in_set_dropD)
  ultimately show "sum_list (map f (slice_incl i j ns)) \<le> (sum_list (map f ns) :: int)" by linarith
qed

lemma safe_surface_kept:
  assumes ok: "paired_ok w" and safe: "safe_surface env (ss_log (ps_session w))"
    and e: "ev_type e \<notin> set SURFACE_EVENT_TYPES"
  shows "safe_surface env (ss_log (ps_session w) @ [e])"
proof (cases "replay (ss_log (ps_session w) @ [e])")
  case (Inr acc)
  then obtain st' reps' x' where r': "replay (ss_log (ps_session w) @ [e]) = Inr (st', reps', x')"
    by (cases acc) simp
  obtain st reps x where r: "replay (ss_log (ps_session w)) = Inr (st, reps, x)"
    using paired_replays [OF ok] by blast
  have "nat n < length (ss_log (ps_session w))" if "n \<in> set (nodes st)" for n
    using replay_nodes_less [OF r that] by simp
  from priced_log(2) [OF this, where digits = "ce_digits env" and xs = "[e]"] show ?thesis
    using safe r r' replay_off_surface [OF r' r e] by (simp add: safe_surface_def)
qed (simp add: safe_surface_def)

lemma prepared_span:
  assumes ok: "paired_ok w" and v: "validate_surface_region start end' w = (v, Inr sel)"
    and ok1: "paired_ok w1" and p: "prepare_compaction env sel w1 = (w2, Inr prep)"
    and safe: "safe_surface env (ss_log (ps_session w1))"
  shows "se_shadowed prep \<noteq> []" "se_start prep = hd (se_shadowed prep)" "se_end prep = last (se_shadowed prep)"
    "safe_int (pc_tokens prep)" "0 \<le> pc_tokens prep"
proof -
  obtain st reps x where r: "replay (ss_log (ps_session w)) = Inr (st, reps, x)"
    using paired_replays [OF ok] by blast
  obtain i j where ij: "i \<le> j" "j < length (nodes st)" "nodes st ! i = start" "nodes st ! j = end'"
    "sel = \<lparr>se_start = start, se_end = end', se_start_idx = i, se_end_idx = j,
            se_shadowed = slice_incl i j (nodes st)\<rparr>"
    using validate_Inr [OF ok r v] .
  note P = prepare_log(2) [OF ok1 p refl]
  show "se_shadowed prep \<noteq> []" "se_start prep = hd (se_shadowed prep)" "se_end prep = last (se_shadowed prep)"
    using P ij(3,4,5) slice_ends [OF ij(1,2)] by simp_all
  have nn: "list_all (\<lambda>n. 0 \<le> tn_tokens n) (me_nodes (pc_measurement prep))"
    "safe_int (sum_list (map tn_tokens (me_nodes (pc_measurement prep))))"
  proof -
    obtain st1 reps1 x1 where r1: "replay (ss_log (ps_session w1)) = Inr (st1, reps1, x1)"
      using paired_replays [OF ok1] by blast
    have m: "me_nodes (pc_measurement prep) = priced_nodes (ce_digits env) (ss_log (ps_session w1)) (nodes st1)"
      using meter_read_surface(1) [OF conjunct1 [OF P] r1] .
    show "list_all (\<lambda>n. 0 \<le> tn_tokens n) (me_nodes (pc_measurement prep))"
      unfolding m by (simp add: priced_nodes_def list_all_iff event_tokens_nonneg)
    show "safe_int (sum_list (map tn_tokens (me_nodes (pc_measurement prep))))"
      using safe r1 unfolding m by (simp add: safe_surface_def)
  qed
  from slice_sum [OF nn(1), of i j] nn(2)
  show "safe_int (pc_tokens prep)" "0 \<le> pc_tokens prep"
    using P ij(5) by (simp_all add: safe_int_def max_safe_def)
qed

text \<open>
  What the body leaves in the log, and the state of the check after it: still inside the bracket, and
  summarised when the body succeeded.
\<close>

lemma body_passes:
  assumes ok: "paired_ok w" and v: "validate_surface_region start end' w = (v, Inr sel)"
    and ok1: "paired_ok w1" and body: "transaction_body env opts sel begun w1 = (w2, outcome)"
    and safe: "safe_surface env (ss_log (ps_session w1))"
    and quiet: "list_all (\<lambda>(now, d, intent). undisturbing d) (ce_meanwhile env)"
    and ids: "ce_id env \<noteq> []" "ro_command opts \<noteq> Some []" and turn: "ts_open_turn tr = owner"
  obtains es b where "ss_log (ps_session w2) = ss_log (ps_session w1) @ es" "paired_ok w2"
    "fold_result compaction_step (bracketed (ce_id env) (ro_command opts) seq owner False tr) es =
       Inr (bracketed (ce_id env) (ro_command opts) seq owner b tr)"
    "returns outcome \<Longrightarrow> b"
proof -
  let ?in = "\<lambda>b. bracketed (ce_id env) (ro_command opts) seq owner b tr"
  note quiet_steps = meanwhile_steps [OF from_meanwhile_or_none quiet]
  have summary_event: "compaction_step (?in False) e = Inr (?in True)"
    if "prepare_compaction env sel w1 = (u, Inr prep)"
      "ev_data e = PluginEvent ''compaction/summary'' (summary_data (ce_id env) (ro_command opts) prep su)"
    for e u prep su
    using summary_passes [OF turn ids that(2) prepared_span [OF ok v ok1 that(1) safe]] .
  from ok1 body show thesis
  proof (cases rule: transaction_body_cases)
    case (summary f others)
    then show thesis using that [of others False] quiet_steps [OF summary(4)] by simp
  next
    case (commit f others u prep su body)
    from commit(6) show thesis
    proof
      assume "body = []"
      then show thesis using that [of others False] commit(1-3) quiet_steps [OF disjI2 [OF commit(4)]] by simp
    next
      assume b: "body = [build_event (ss_log (ps_session w1) @ others)
         (PluginEvent ''compaction/summary'' (summary_data (ce_id env) (ro_command opts) prep su))
         (None, None) (ce_clock env 1)]"
      have "fold_result compaction_step (?in False) (others @ body) = Inr (?in True)"
        by (rule fold_result_appendI [OF quiet_steps [OF disjI2 [OF commit(4)]]])
          (simp add: b summary_event [OF commit(5)])
      then show thesis using that [of "others @ body" True] commit(1,2,3) by simp
    qed
  next
    case (committed others u prep su v1 v1' smry replacement)
    have "compaction_step (?in True) replacement = Inr (?in True)"
      using ids by (rule checkpoint_passes [where m = "checkpoint_message env (ro_command opts) su"])
        (simp_all add: committed(10) checkpoint_message_def)
    then have "fold_result compaction_step (?in False) (others @ [smry, replacement]) = Inr (?in True)"
      by (intro fold_result_appendI [OF quiet_steps [OF disjI2 [OF committed(12)]]])
        (simp add: summary_event [OF committed(1)] committed(9))
    then show thesis using that [of "others @ [smry, replacement]" True] committed(5,7,8) by simp
  qed
qed

text \<open>C14. A transaction satisfies its own log checks: whatever it appends, on success and on every
  failure, is accepted by the checks of the package from any state the log so far led to, and unless
  the closing event could not be published no bracket is left open. The rest of the program may
  append anything but turn boundaries and compaction events meanwhile.\<close>

theorem transaction_passes_checks:
  assumes ok: "paired_ok w" and tr: "trace_agrees tr (ss_log (ps_session w))"
    and c: "compact_surface_region env opts start end' w = (w', r)"
    and quiet: "list_all (\<lambda>(now, d, intent). undisturbing d) (ce_meanwhile env)"
    and ids: "ce_id env \<noteq> []" "ro_command opts \<noteq> Some []"
    and safe: "safe_surface env (ss_log (ps_session w))"
  shows "\<exists>es tr'. ss_log (ps_session w') = ss_log (ps_session w) @ es \<and>
    fold_result compaction_step tr es = Inr tr' \<and>
    (ce_dispatch env 3 \<and> es \<noteq> [] \<longrightarrow> ts_compaction tr' = None)"
  using ok c
proof (cases rule: compact_cases)
  case (rejected err)
  then show ?thesis by (simp add: same_log_eq)
next
  case (opened v sel owner begun w1 w2 outcome ended final)
  let ?in = "\<lambda>b. bracketed (ce_id env) (ro_command opts) (ev_seq begun) owner b tr"
  have "ts_compaction tr = None" "ts_open_turn tr = owner"
    using tr opened(3,4) by (auto simp: trace_agrees_def owner_turn_def split: owner_mode.splits option.splits if_splits)
  then have start: "compaction_step tr begun = Inr (?in False)"
    using ids opened(5) by (intro start_passes) simp_all
  have turn: "ts_open_turn tr = owner" by fact
  have "safe_surface env (ss_log (ps_session w1))"
    using safe_surface_kept [OF ok safe] opened(5,7) by (simp add: start_types)
  then obtain es b where es: "ss_log (ps_session w2) = ss_log (ps_session w1) @ es" "paired_ok w2"
    "fold_result compaction_step (?in False) es = Inr (?in b)" "returns outcome \<Longrightarrow> b"
    using body_passes [OF ok opened(1,6,8) _ quiet ids turn] by blast
  have upto: "fold_result compaction_step tr (begun # es) = Inr (?in b)" using start es(3) by simp
  from es(2) opened(9) show ?thesis
  proof (cases rule: close_cases)
    case (closed failure closing)
    have "b \<or> failure \<noteq> None" using es(4) closed(6) by (cases outcome) simp_all
    then have "compaction_step (?in b) closing = Inr (tr\<lparr>ts_compaction := None\<rparr>)"
      using closed(4) by (intro end_passes [OF turn ids]) simp_all
    then have "fold_result compaction_step tr ((begun # es) @ [closing]) = Inr (tr\<lparr>ts_compaction := None\<rparr>)"
      by (intro fold_result_appendI [OF upto]) simp
    then show ?thesis
      using closed(3) es(1) opened(7)
      by (intro exI [of _ "(begun # es) @ [closing]"] exI [of _ "tr\<lparr>ts_compaction := None\<rparr>"]) simp
  next
    case (unclosed f)
    then show ?thesis
      using upto es(1) opened(7) by (intro exI [of _ "begun # es"] exI [of _ "?in b"]) (simp add: same_log_eq)
  qed
qed

section \<open>Examples\<close>

definition example_bracket :: "session_event list" where
  "example_bracket =
     [example_event (TurnStart 1) 0 None None,
      example_event (PluginEvent ''compaction/start'' (lifecycle_data ''k0'' None (Some 1) None)) 1 None None,
      example_event EndSeed 2 None None]"

definition example_reopened :: "session_event list" where
  "example_reopened =
     [example_event (TurnEnd 1 Completed) 3 None None,
      example_event (TurnStart 2) 4 None None,
      example_event (PluginEvent ''compaction/start'' (lifecycle_data ''k1'' None (Some 2) None)) 5 None None]"

theorem check_agrees_with_lock_witness:
  "es_open_turn (inspect_compaction_entry_state (example_bracket @ example_reopened)) = Some 2 \<and>
   \<not> compaction_inactive (inspect_compaction_entry_state (example_bracket @ example_reopened))"
proof -
  have seed: "seed_trace example_bracket = Inr \<lparr>ts_open_turn = Some 1, ts_compaction = None\<rparr>" by code_simp
  have live: "fold_result compaction_step \<lparr>ts_open_turn = Some 1, ts_compaction = None\<rparr> example_reopened =
      Inr (bracketed ''k1'' None 5 (Some 2) False \<lparr>ts_open_turn = Some 2, ts_compaction = None\<rparr>)"
    by code_simp
  have "replay (example_bracket @ example_reopened) = Inr (\<lparr>nodes = [], replace_generation = 0\<rparr>, [], 6)"
    by code_simp
  from check_agrees_with_lock [OF seed live this] show ?thesis by simp
qed

theorem transaction_passes_checks_witness:
  "\<exists>es tr. ss_log (ps_session (fst (compact_surface_region example_env example_manual 1 3 example_pairing))) =
     ss_log (ps_session example_pairing) @ es \<and>
     fold_result compaction_step fresh_trace_state es = Inr tr \<and> ts_compaction tr = None"
proof -
  let ?log = "ss_log (ps_session example_pairing)"
  obtain w' r where c: "compact_surface_region example_env example_manual 1 3 example_pairing = (w', r)" by fastforce
  have "fold_result (trace_seed_step []) fresh_trace_state ?log = Inr fresh_trace_state" by code_simp
  then have agrees: "trace_agrees fresh_trace_state ?log"
    by (rule seed_steps_agree) (rule replay_seqs [OF example_pairing_replay])
  have safe: "safe_surface example_env ?log" by code_simp
  have "list_all (\<lambda>(now, d, intent). undisturbing d) (ce_meanwhile example_env)" by code_simp
  from transaction_passes_checks [OF example_pairing_ok agrees c this _ _ safe]
  obtain es tr where es: "ss_log (ps_session w') = ?log @ es"
    "fold_result compaction_step fresh_trace_state es = Inr tr"
    "ce_dispatch example_env 3 \<and> es \<noteq> [] \<longrightarrow> ts_compaction tr = None"
    by (auto simp: example_env_def example_manual_def)
  have "es = [] \<Longrightarrow> ts_compaction tr = None" using es(2) by (auto simp: fresh_trace_state_def)
  then show ?thesis using es unfolding c by (cases "es = []") (auto simp: example_env_def)
qed

end
