(* ===== verification/Compaction_Config.thy ===== *)
theory Compaction_Config
  imports Token_Meter
begin

text \<open>
  The configuration of the compaction engine, \<^verbatim>\<open>packages/compaction/compaction-basic/src/config.ts\<close>:
  validation of the untrusted plugin configuration with its exact-target overrides, the policy of one
  routed model, and the budgets of that policy in a concrete context window; and the automatic threshold
  a user selects, \<^verbatim>\<open>packages/compaction/compaction-policy/src/index.ts\<close>. The lemmas show what a
  resolved configuration guarantees of every routed model.

  A ratio is the rational value of its double. The two default ratios are the doubles nearest to their
  decimal literals.
\<close>

section \<open>Policy fields\<close>

definition POINT_EIGHT :: rat where
  "POINT_EIGHT = Fract 3602879701896397 4503599627370496"

definition DEFAULT_THRESHOLD_RATIO :: rat where
  "DEFAULT_THRESHOLD_RATIO = POINT_EIGHT"

definition DEFAULT_RETAIN_RATIO :: rat where
  "DEFAULT_RETAIN_RATIO = Fract 5764607523034235 36028797018963968"

datatype policy_error =
    PolicyUnknownKey string string
  | PolicyNotObject string
  | PolicyNotArray
  | PolicyDuplicate string string
  | PolicyBad string string
  | PolicyExclusive string
  | PolicyPair string
  | PolicyRetain string

record policy_fields =
  pf_threshold :: "rat option"
  pf_retain_ratio :: "rat option"
  pf_retain_tokens :: "int option"
  pf_provider :: "string option"
  pf_model :: "string option"
  pf_max_tokens :: "int option"
  pf_retries :: "int option"
  pf_overflow :: "int option"

record model_policy = policy_fields +
  mp_provider :: string
  mp_model :: string

datatype retention = RetainRatio rat | RetainTokens int

definition POLICY_CONFIG_KEYS :: "string list" where
  "POLICY_CONFIG_KEYS =
     [''thresholdRatio'', ''retainRatio'', ''retainTokens'', ''summarizationProvider'', ''summarizationModel'',
      ''maxTokens'', ''compactionRetries'', ''maxOverflowRetries'']"

text \<open>A finite number as a rational, and an integer.\<close>

fun finite_of :: "jv \<Rightarrow> rat option" where
  "finite_of (JNum (NInt n)) = Some (of_int n)"
| "finite_of (JNum (NFrac r)) = Some r"
| "finite_of (JNum NNegZero) = Some 0"
| "finite_of v = None"

fun whole_of :: "jv \<Rightarrow> int option" where
  "whole_of (JNum (NInt n)) = Some n"
| "whole_of (JNum NNegZero) = Some 0"
| "whole_of v = None"

definition assert_ratio :: "string \<Rightarrow> string \<Rightarrow> jv \<Rightarrow> policy_error + rat" where
  "assert_ratio name k v =
     (case finite_of v of
        Some q \<Rightarrow> if q \<le> 0 \<or> 1 < q then Inl (PolicyBad name k) else Inr q
      | None \<Rightarrow> Inl (PolicyBad name k))"

definition assert_at_least :: "int \<Rightarrow> string \<Rightarrow> string \<Rightarrow> jv \<Rightarrow> policy_error + int" where
  "assert_at_least low name k v =
     (case whole_of v of
        Some n \<Rightarrow> if n < low then Inl (PolicyBad name k) else Inr n
      | None \<Rightarrow> Inl (PolicyBad name k))"

definition assert_text :: "string \<Rightarrow> string \<Rightarrow> jv \<Rightarrow> policy_error + string" where
  "assert_text name k v = (case v of JStr s \<Rightarrow> Inr s | _ \<Rightarrow> Inl (PolicyBad name k))"

text \<open>A field that is checked when it is present.\<close>

definition optional_field ::
  "(string \<Rightarrow> string \<Rightarrow> jv \<Rightarrow> policy_error + 'a) \<Rightarrow> string \<Rightarrow> jv \<Rightarrow> string \<Rightarrow> policy_error + 'a option" where
  "optional_field check name config k =
     (case jprop config k of None \<Rightarrow> Inr None | Some v \<Rightarrow> and_then (check name k v) (\<lambda>x. Inr (Some x)))"

definition validate_keys :: "string list \<Rightarrow> string \<Rightarrow> jv \<Rightarrow> policy_error + unit" where
  "validate_keys ks name config =
     (case find (\<lambda>k. k \<notin> set ks) (jkeys config) of Some k \<Rightarrow> Inl (PolicyUnknownKey name k) | None \<Rightarrow> Inr ())"

definition validate_summarization_pair ::
  "string \<Rightarrow> jv \<Rightarrow> policy_error + string option \<times> string option" where
  "validate_summarization_pair name config =
     and_then (optional_field assert_text name config ''summarizationProvider'') (\<lambda>provider.
     and_then (optional_field assert_text name config ''summarizationModel'') (\<lambda>model.
       case (provider, model) of
         (None, None) \<Rightarrow> Inr (None, None)
       | (Some p, Some m) \<Rightarrow> if (p = []) \<noteq> (m = []) then Inl (PolicyPair name) else Inr (Some p, Some m)
       | _ \<Rightarrow> Inl (PolicyPair name)))"

definition validate_policy :: "string \<Rightarrow> jv \<Rightarrow> policy_error + policy_fields" where
  "validate_policy name config =
     and_then (optional_field assert_ratio name config ''thresholdRatio'') (\<lambda>threshold.
     and_then (optional_field assert_ratio name config ''retainRatio'') (\<lambda>retain_ratio.
     and_then (optional_field (assert_at_least 0) name config ''retainTokens'') (\<lambda>retain_tokens.
     if retain_ratio \<noteq> None \<and> retain_tokens \<noteq> None then Inl (PolicyExclusive name)
     else
       and_then (optional_field (assert_at_least 1) name config ''maxTokens'') (\<lambda>max_tokens.
       and_then (optional_field (assert_at_least 0) name config ''compactionRetries'') (\<lambda>retries.
       and_then (optional_field (assert_at_least 0) name config ''maxOverflowRetries'') (\<lambda>overflow.
       and_then (validate_summarization_pair name config) (\<lambda>(provider, model).
         Inr \<lparr>pf_threshold = threshold, pf_retain_ratio = retain_ratio, pf_retain_tokens = retain_tokens,
              pf_provider = provider, pf_model = model, pf_max_tokens = max_tokens, pf_retries = retries,
              pf_overflow = overflow\<rparr>)))))))"

section \<open>Exact-target overrides\<close>

definition assert_non_empty :: "string \<Rightarrow> string \<Rightarrow> jv option \<Rightarrow> policy_error + string" where
  "assert_non_empty name k v =
     (case v of Some (JStr s) \<Rightarrow> if s = [] then Inl (PolicyBad name k) else Inr s | _ \<Rightarrow> Inl (PolicyBad name k))"

definition assert_model_policy :: "string \<Rightarrow> jv \<Rightarrow> policy_error + model_policy" where
  "assert_model_policy name source =
     (if \<not> is_record source then Inl (PolicyNotObject name)
      else
        and_then (validate_keys ([''provider'', ''model''] @ POLICY_CONFIG_KEYS) name source) (\<lambda>_.
        and_then (assert_non_empty name ''provider'' (jprop source ''provider'')) (\<lambda>provider.
        and_then (assert_non_empty name ''model'' (jprop source ''model'')) (\<lambda>model.
        and_then (validate_policy name source) (\<lambda>fields.
          Inr (policy_fields.extend fields (model_policy.fields provider model)))))))"

text \<open>The table key of a route, \<open>provider\u0000model\<close>, and the name of an override in errors.\<close>

definition route_key :: "string \<times> string \<Rightarrow> string" where
  "route_key target = fst target @ [CHR 0x00] @ snd target"

definition override_name :: "nat \<Rightarrow> string" where
  "override_name i = ''BasicCompactionConfig: modelPolicies['' @ show_nat i @ '']''"

fun model_policies_from ::
  "nat \<Rightarrow> string list \<Rightarrow> jv list \<Rightarrow> policy_error + model_policy list" where
  "model_policies_from i seen [] = Inr []"
| "model_policies_from i seen (source # rest) =
     and_then (assert_model_policy (override_name i) source) (\<lambda>p.
       let key = route_key (mp_provider p, mp_model p) in
       if key \<in> set seen then Inl (PolicyDuplicate (mp_provider p) (mp_model p))
       else and_then (model_policies_from (i + 1) (key # seen) rest) (\<lambda>ps. Inr (p # ps)))"

definition resolve_model_policies :: "jv option \<Rightarrow> policy_error + model_policy list" where
  "resolve_model_policies configured =
     (case configured of
        None \<Rightarrow> Inr []
      | Some (JArr sources) \<Rightarrow> model_policies_from 0 [] sources
      | Some _ \<Rightarrow> Inl PolicyNotArray)"

section \<open>The resolved configuration\<close>

definition resolve_retention :: "'a policy_fields_scheme \<Rightarrow> retention \<Rightarrow> retention" where
  "resolve_retention config fallback =
     (case pf_retain_tokens config of
        Some n \<Rightarrow> RetainTokens n
      | None \<Rightarrow> (case pf_retain_ratio config of Some q \<Rightarrow> RetainRatio q | None \<Rightarrow> fallback))"

definition validate_ratio_retention :: "rat \<Rightarrow> retention \<Rightarrow> string \<Rightarrow> policy_error + unit" where
  "validate_ratio_retention threshold r name =
     (case r of
        RetainRatio q \<Rightarrow> if threshold \<le> q then Inl (PolicyRetain name) else Inr ()
      | RetainTokens n \<Rightarrow> Inr ())"

definition given :: "'a option \<Rightarrow> 'a \<Rightarrow> 'a" where
  "given x d = (case x of Some y \<Rightarrow> y | None \<Rightarrow> d)"

fun check_overrides :: "nat \<Rightarrow> rat \<Rightarrow> retention \<Rightarrow> model_policy list \<Rightarrow> policy_error + unit" where
  "check_overrides i threshold r [] = Inr ()"
| "check_overrides i threshold r (p # ps) =
     and_then (validate_ratio_retention (given (pf_threshold p) threshold) (resolve_retention p r) (override_name i))
       (\<lambda>_. check_overrides (i + 1) threshold r ps)"

record compaction_config =
  cc_threshold :: rat
  cc_retention :: retention
  cc_provider :: string
  cc_model :: string
  cc_max_tokens :: int
  cc_retries :: int
  cc_overflow :: int
  cc_policies :: "model_policy list"
  cc_auto :: bool

definition assert_boolean :: "string \<Rightarrow> string \<Rightarrow> jv \<Rightarrow> policy_error + bool" where
  "assert_boolean name k v = (case v of JBool b \<Rightarrow> Inr b | _ \<Rightarrow> Inl (PolicyBad name k))"

definition resolve_compaction_config :: "jv \<Rightarrow> policy_error + compaction_config" where
  "resolve_compaction_config config =
     (let name = ''BasicCompactionConfig'' in
      and_then (validate_keys (POLICY_CONFIG_KEYS @ [''modelPolicies'', ''auto'']) name config) (\<lambda>_.
      and_then (validate_policy name config) (\<lambda>fields.
      and_then (optional_field assert_boolean name config ''auto'') (\<lambda>auto.
        let threshold = given (pf_threshold fields) DEFAULT_THRESHOLD_RATIO;
            r = resolve_retention fields (RetainRatio DEFAULT_RETAIN_RATIO)
        in and_then (validate_ratio_retention threshold r name) (\<lambda>_.
           and_then (resolve_model_policies (jprop config ''modelPolicies'')) (\<lambda>policies.
           and_then (check_overrides 0 threshold r policies) (\<lambda>_.
             Inr \<lparr>cc_threshold = threshold, cc_retention = r, cc_provider = given (pf_provider fields) [],
                  cc_model = given (pf_model fields) [], cc_max_tokens = given (pf_max_tokens fields) 8192,
                  cc_retries = given (pf_retries fields) 1, cc_overflow = given (pf_overflow fields) 1,
                  cc_policies = policies, cc_auto = given auto True\<rparr>)))))))"

section \<open>The policy of a routed model\<close>

record target_policy =
  tp_target :: "string \<times> string"
  tp_threshold :: rat
  tp_retention :: retention
  tp_provider :: string
  tp_model :: string
  tp_max_tokens :: int
  tp_retries :: int
  tp_overflow :: int

definition matching_policy :: "compaction_config \<Rightarrow> string \<times> string \<Rightarrow> model_policy option" where
  "matching_policy config target = find (\<lambda>p. (mp_provider p, mp_model p) = target) (cc_policies config)"

definition resolve_target_policy :: "compaction_config \<Rightarrow> string \<times> string \<Rightarrow> target_policy" where
  "resolve_target_policy config target =
     (case matching_policy config target of
        None \<Rightarrow>
          \<lparr>tp_target = target, tp_threshold = cc_threshold config, tp_retention = cc_retention config,
           tp_provider = cc_provider config, tp_model = cc_model config, tp_max_tokens = cc_max_tokens config,
           tp_retries = cc_retries config, tp_overflow = cc_overflow config\<rparr>
      | Some p \<Rightarrow>
          \<lparr>tp_target = target, tp_threshold = given (pf_threshold p) (cc_threshold config),
           tp_retention = resolve_retention p (cc_retention config),
           tp_provider = given (pf_provider p) (cc_provider config), tp_model = given (pf_model p) (cc_model config),
           tp_max_tokens = given (pf_max_tokens p) (cc_max_tokens config),
           tp_retries = given (pf_retries p) (cc_retries config),
           tp_overflow = given (pf_overflow p) (cc_overflow config)\<rparr>)"

text \<open>\<open>Math.floor(n * ratio)\<close>: the product is rounded to a double before it is floored.\<close>

definition floor_product :: "jnum \<Rightarrow> rat \<Rightarrow> int" where
  "floor_product n q = \<lfloor>num_rat (rounded_rat (num_rat n * q))\<rfloor>"

record compact_spec =
  cs_target :: "string \<times> string"
  cs_window :: int
  cs_ratio :: rat
  cs_threshold :: int
  cs_retain :: int
  cs_provider :: string
  cs_model :: string
  cs_max_tokens :: int
  cs_retries :: int
  cs_overflow :: int

datatype capacity_fault =
    NoCapacity
  | InvalidMaxTokens jnum
  | OutputReserved jnum
  | WindowNotPositive jnum
  | RetainTooLarge int int

definition resolve_compact_spec :: "target_policy \<Rightarrow> jnum \<Rightarrow> capacity_fault + compact_spec" where
  "resolve_compact_spec policy window =
     (case whole_of (JNum window) of
        None \<Rightarrow> Inl (WindowNotPositive window)
      | Some n \<Rightarrow>
          if n \<le> 0 then Inl (WindowNotPositive window)
          else
            let threshold = floor_product window (tp_threshold policy);
                retain = (case tp_retention policy of RetainTokens k \<Rightarrow> k | RetainRatio q \<Rightarrow> floor_product window q)
            in if threshold \<le> retain then Inl (RetainTooLarge retain threshold)
               else Inr \<lparr>cs_target = tp_target policy, cs_window = n, cs_ratio = tp_threshold policy,
                         cs_threshold = threshold, cs_retain = retain, cs_provider = tp_provider policy,
                         cs_model = tp_model policy, cs_max_tokens = tp_max_tokens policy,
                         cs_retries = tp_retries policy, cs_overflow = tp_overflow policy\<rparr>)"

text \<open>A user-selected threshold keeps an inherited tail below it.\<close>

definition times_rat :: "rat \<Rightarrow> rat \<Rightarrow> rat" where
  "times_rat p q = num_rat (rounded_rat (p * q))"

definition policy_for_automatic_threshold :: "target_policy \<Rightarrow> rat \<Rightarrow> target_policy" where
  "policy_for_automatic_threshold policy ratio =
     (case tp_retention policy of
        RetainTokens n \<Rightarrow> policy\<lparr>tp_threshold := ratio\<rparr>
      | RetainRatio q \<Rightarrow>
          if q < ratio then policy\<lparr>tp_threshold := ratio\<rparr>
          else policy\<lparr>tp_threshold := ratio, tp_retention := RetainRatio (times_rat ratio POINT_EIGHT)\<rparr>)"

section \<open>The user's automatic threshold\<close>

record policy_override =
  po_target :: "string \<times> string"
  po_ratio :: "rat option"

record policy_settings =
  pl_ratio :: rat
  pl_overrides :: "policy_override list"

definition override_for :: "policy_settings \<Rightarrow> string \<times> string \<Rightarrow> policy_override option" where
  "override_for settings target = find (\<lambda>p. po_target p = target) (pl_overrides settings)"

definition ratio_for :: "policy_settings \<Rightarrow> string \<times> string \<Rightarrow> rat" where
  "ratio_for settings target = given (Option.bind (override_for settings target) po_ratio) (pl_ratio settings)"

text \<open>The validation of a new value; the error is the route named twice.\<close>

fun validate_overrides :: "string list \<Rightarrow> policy_override list \<Rightarrow> (string \<times> string) + unit" where
  "validate_overrides seen [] = Inr ()"
| "validate_overrides seen (p # ps) =
     (let key = route_key (po_target p) in
      if key \<in> set seen then Inl (po_target p) else validate_overrides (key # seen) ps)"

definition validate_settings :: "policy_settings \<Rightarrow> (string \<times> string) + unit" where
  "validate_settings settings = validate_overrides [] (pl_overrides settings)"

section \<open>What a resolved configuration guarantees\<close>

lemma optional_field_Inr:
  "optional_field check name config k = Inr x \<longleftrightarrow>
     (case jprop config k of None \<Rightarrow> x = None | Some v \<Rightarrow> (\<exists>y. check name k v = Inr y \<and> x = Some y))"
  by (auto simp: optional_field_def result_simps split: option.splits)

lemma checked_values:
  "assert_at_least low name k v = Inr n \<Longrightarrow> low \<le> n"
  "assert_ratio name k v = Inr q \<Longrightarrow> 0 < q \<and> q \<le> 1"
  by (auto simp: assert_at_least_def assert_ratio_def split: option.splits if_splits)

lemma optional_values:
  "optional_field (assert_at_least low) name config k = Inr x \<Longrightarrow> x = Some n \<Longrightarrow> low \<le> n"
  "optional_field assert_ratio name config k = Inr y \<Longrightarrow> y = Some q \<Longrightarrow> 0 < q \<and> q \<le> 1"
  by (auto simp: optional_field_Inr dest: checked_values split: option.splits)

text \<open>The fields of one scope, and the two halves of its summarization target.\<close>

definition pair_sound :: "string option \<Rightarrow> string option \<Rightarrow> bool" where
  "pair_sound provider model \<longleftrightarrow>
     (case (provider, model) of (None, None) \<Rightarrow> True | (Some p, Some m) \<Rightarrow> (p = []) = (m = []) | _ \<Rightarrow> False)"

definition fields_sound :: "'a policy_fields_scheme \<Rightarrow> bool" where
  "fields_sound p \<longleftrightarrow>
     (\<forall>q. pf_threshold p = Some q \<longrightarrow> 0 < q \<and> q \<le> 1) \<and> (\<forall>q. pf_retain_ratio p = Some q \<longrightarrow> 0 < q \<and> q \<le> 1) \<and>
     (\<forall>n. pf_retain_tokens p = Some n \<longrightarrow> 0 \<le> n) \<and> (\<forall>n. pf_max_tokens p = Some n \<longrightarrow> 1 \<le> n) \<and>
     (\<forall>n. pf_retries p = Some n \<longrightarrow> 0 \<le> n) \<and> (\<forall>n. pf_overflow p = Some n \<longrightarrow> 0 \<le> n) \<and>
     pair_sound (pf_provider p) (pf_model p)"

lemma pair_checked: "validate_summarization_pair name config = Inr (p, m) \<Longrightarrow> pair_sound p m"
  by (auto simp: validate_summarization_pair_def pair_sound_def result_simps split: option.splits if_splits)

lemma validate_policy_sound:
  assumes "validate_policy name config = Inr p"
  shows "fields_sound p"
proof -
  obtain a b c d e f g h where
    "optional_field assert_ratio name config ''thresholdRatio'' = Inr a"
    "optional_field assert_ratio name config ''retainRatio'' = Inr b"
    "optional_field (assert_at_least 0) name config ''retainTokens'' = Inr c"
    "optional_field (assert_at_least 1) name config ''maxTokens'' = Inr d"
    "optional_field (assert_at_least 0) name config ''compactionRetries'' = Inr e"
    "optional_field (assert_at_least 0) name config ''maxOverflowRetries'' = Inr f"
    "validate_summarization_pair name config = Inr (g, h)"
    "p = \<lparr>pf_threshold = a, pf_retain_ratio = b, pf_retain_tokens = c, pf_provider = g, pf_model = h,
          pf_max_tokens = d, pf_retries = e, pf_overflow = f\<rparr>"
    using assms by (auto simp: validate_policy_def result_simps split: if_splits)
  then show ?thesis
    unfolding fields_sound_def using optional_values pair_checked by (simp del: split_paired_All) blast
qed

lemma model_policy_sound: "assert_model_policy name source = Inr p \<Longrightarrow> fields_sound p"
  unfolding assert_model_policy_def
  by (clarsimp simp: result_simps split: if_splits)
    (drule validate_policy_sound, simp add: fields_sound_def policy_fields.defs model_policy.defs)

lemma model_policies_sound:
  "model_policies_from i seen sources = Inr ps \<Longrightarrow> p \<in> set ps \<Longrightarrow> fields_sound p"
  "model_policies_from i seen sources = Inr ps \<Longrightarrow>
     distinct (map (\<lambda>p. route_key (mp_provider p, mp_model p)) ps) \<and>
     set seen \<inter> set (map (\<lambda>p. route_key (mp_provider p, mp_model p)) ps) = {}"
proof (induction i seen sources arbitrary: ps rule: model_policies_from.induct)
  case (2 i seen source rest)
  {
    case 1
    then show ?case using "2.IH"(1) model_policy_sound by (auto simp: result_simps Let_def split: if_splits)
  next
    case 2
    then show ?case using "2.IH"(2) by (fastforce simp: result_simps Let_def split: if_splits)
  }
qed simp_all


text \<open>What is required of the thresholds, for the defaults and for every target.\<close>

definition retention_sound :: "rat \<Rightarrow> retention \<Rightarrow> bool" where
  "retention_sound threshold r \<longleftrightarrow> 0 < threshold \<and> threshold \<le> 1 \<and>
     (case r of RetainRatio q \<Rightarrow> 0 < q \<and> q < threshold | RetainTokens n \<Rightarrow> 0 \<le> n)"

lemma retention_checked:
  assumes "validate_ratio_retention threshold r name = Inr ()" and "0 < threshold" "threshold \<le> 1"
    and "case r of RetainRatio q \<Rightarrow> 0 < q | RetainTokens n \<Rightarrow> 0 \<le> n"
  shows "retention_sound threshold r"
  using assms by (auto simp: validate_ratio_retention_def retention_sound_def split: retention.splits if_splits)

lemma retention_kept:
  assumes "fields_sound p" and "case r of RetainRatio q \<Rightarrow> 0 < q | RetainTokens n \<Rightarrow> 0 \<le> n"
  shows "case resolve_retention p r of RetainRatio q \<Rightarrow> 0 < q | RetainTokens n \<Rightarrow> 0 \<le> n"
  using assms by (auto simp: resolve_retention_def fields_sound_def split: option.splits)

lemma overrides_checked:
  assumes "check_overrides i threshold r ps = Inr ()" and "p \<in> set ps"
  obtains name where "validate_ratio_retention (given (pf_threshold p) threshold) (resolve_retention p r) name = Inr ()"
  using assms by (induction i threshold r ps rule: check_overrides.induct) (auto simp: result_simps)

text \<open>What a loaded configuration is made of.\<close>

lemma resolved_config:
  assumes "resolve_compaction_config raw = Inr config"
  shows "retention_sound (cc_threshold config) (cc_retention config)" "1 \<le> cc_max_tokens config" "0 \<le> cc_retries config"
    "0 \<le> cc_overflow config" "(cc_provider config = []) = (cc_model config = [])"
    "p \<in> set (cc_policies config) \<Longrightarrow> fields_sound p \<and>
       retention_sound (given (pf_threshold p) (cc_threshold config)) (resolve_retention p (cc_retention config))"
    "distinct (map (\<lambda>p. (mp_provider p, mp_model p)) (cc_policies config))"
proof -
  obtain fields where v: "validate_policy ''BasicCompactionConfig'' raw = Inr fields" and c: "cc_threshold config = given (pf_threshold fields) DEFAULT_THRESHOLD_RATIO"
    "cc_retention config = resolve_retention fields (RetainRatio DEFAULT_RETAIN_RATIO)"
    "cc_max_tokens config = given (pf_max_tokens fields) 8192" "cc_retries config = given (pf_retries fields) 1"
    "cc_overflow config = given (pf_overflow fields) 1" "cc_provider config = given (pf_provider fields) []"
    "cc_model config = given (pf_model fields) []"
    and own: "validate_ratio_retention (cc_threshold config) (cc_retention config) ''BasicCompactionConfig'' = Inr ()"
    and policies: "resolve_model_policies (jprop raw ''modelPolicies'') = Inr (cc_policies config)"
    "check_overrides 0 (cc_threshold config) (cc_retention config) (cc_policies config) = Inr ()"
    using assms by (auto simp: resolve_compaction_config_def result_simps Let_def)
  note f = validate_policy_sound [OF v]
  have base: "0 < cc_threshold config" "cc_threshold config \<le> 1"
    "case cc_retention config of RetainRatio q \<Rightarrow> 0 < q | RetainTokens n \<Rightarrow> 0 \<le> n"
    using f retention_kept [OF f, of "RetainRatio DEFAULT_RETAIN_RATIO"] unfolding c fields_sound_def
    by (auto simp: given_def DEFAULT_THRESHOLD_RATIO_def POINT_EIGHT_def DEFAULT_RETAIN_RATIO_def zero_less_Fract_iff
        Fract_le_one_iff split: option.splits)
  show "1 \<le> cc_max_tokens config" "0 \<le> cc_retries config" "0 \<le> cc_overflow config"
    "(cc_provider config = []) = (cc_model config = [])"
    using f unfolding c fields_sound_def by (auto simp: given_def pair_sound_def split: option.splits)
  have sound: "fields_sound p" if "p \<in> set (cc_policies config)" for p
    using policies(1) that model_policies_sound(1) by (auto simp: resolve_model_policies_def split: option.splits jv.splits)
  have "distinct (map (\<lambda>p. route_key (mp_provider p, mp_model p)) (cc_policies config))"
    using policies(1) model_policies_sound(2) by (fastforce simp: resolve_model_policies_def split: option.splits jv.splits)
  then have "distinct (map route_key (map (\<lambda>p. (mp_provider p, mp_model p)) (cc_policies config)))" by (simp add: comp_def)
  then show "distinct (map (\<lambda>p. (mp_provider p, mp_model p)) (cc_policies config))" unfolding distinct_map by blast
  show "fields_sound p \<and>
      retention_sound (given (pf_threshold p) (cc_threshold config)) (resolve_retention p (cc_retention config))"
    if p: "p \<in> set (cc_policies config)"
  proof -
    have "0 < given (pf_threshold p) (cc_threshold config) \<and> given (pf_threshold p) (cc_threshold config) \<le> 1"
      using sound [OF p] base by (auto simp: fields_sound_def given_def split: option.splits)
    then show ?thesis
      using overrides_checked [OF policies(2) p] retention_checked retention_kept [OF sound [OF p] base(3)] sound [OF p]
      by metis
  qed
  show "retention_sound (cc_threshold config) (cc_retention config)" by (rule retention_checked [OF own base])
qed

lemma matching_policy_member: "matching_policy config target = Some p \<Longrightarrow> p \<in> set (cc_policies config)"
  by (auto simp: matching_policy_def find_Some_iff)

lemma resolved_retries:
  assumes "resolve_compaction_config raw = Inr config"
  shows "0 \<le> tp_retries (resolve_target_policy config target)" "0 \<le> tp_overflow (resolve_target_policy config target)"
  using resolved_config [OF assms] matching_policy_member [of config target]
  by (auto simp: resolve_target_policy_def fields_sound_def given_def split: option.splits)

text \<open>The budgets of a target in a window.\<close>

lemma floor_product_nonneg:
  assumes "0 \<le> num_rat n" "0 \<le> q"
  shows "0 \<le> floor_product n q"
proof -
  obtain a d where ad: "quotient_of (num_rat n * q) = (a, d)" by fastforce
  then have "0 < d" "num_rat n * q = of_int a / of_int d" using quotient_of_denom_pos quotient_of_div by blast+
  then have "0 \<le> a" using assms by (metis mult_nonneg_nonneg of_int_0_le_iff zero_le_divide_iff of_int_0_less_iff less_le_not_le)
  then have "0 \<le> round_double a" by (simp add: round_double_def)
  then show ?thesis using ad \<open>0 < d\<close>
    by (auto simp: floor_product_def rounded_rat_def Let_def zero_le_Fract_iff pos_imp_zdiv_nonneg_iff)
qed

lemma resolved_spec_bounds:
  assumes "resolve_compact_spec policy window = Inr spec" and "retention_sound (tp_threshold policy) (tp_retention policy)"
  shows "0 \<le> cs_retain spec" "cs_retain spec < cs_threshold spec"
proof -
  have "0 \<le> num_rat window" using assms(1) by (cases window) (auto simp: resolve_compact_spec_def split: if_splits)
  then have "0 \<le> floor_product window q" if "tp_retention policy = RetainRatio q" for q
    using assms(2) that by (simp add: retention_sound_def floor_product_nonneg)
  then show "0 \<le> cs_retain spec" "cs_retain spec < cs_threshold spec"
    using assms by (auto simp: resolve_compact_spec_def Let_def retention_sound_def split: option.splits if_splits retention.splits)
qed

text \<open>C19. A configuration that loads gives every routed model a usable policy, whatever its overrides set or
  inherit: the threshold is a positive fraction of the window, at most all of it; the verbatim tail is either a
  count of tokens that is not negative (zero is allowed) or a positive ratio below the threshold that applies
  to this model; the summary has room for at least one token, the retry counts are never negative, and the
  summarizer's provider and model are set together; no two overrides name the same model. Whenever the
  budgets for a window are accepted, the tail they give is not negative and stays below the threshold.\<close>

theorem resolved_policies_sound:
  assumes "resolve_compaction_config raw = Inr config"
  shows "retention_sound (tp_threshold (resolve_target_policy config target)) (tp_retention (resolve_target_policy config target)) \<and>
    1 \<le> tp_max_tokens (resolve_target_policy config target) \<and> 0 \<le> tp_retries (resolve_target_policy config target) \<and>
    0 \<le> tp_overflow (resolve_target_policy config target) \<and>
    (tp_provider (resolve_target_policy config target) = []) = (tp_model (resolve_target_policy config target) = []) \<and>
    distinct (map (\<lambda>p. (mp_provider p, mp_model p)) (cc_policies config)) \<and>
    (\<forall>window spec. resolve_compact_spec (resolve_target_policy config target) window = Inr spec \<longrightarrow>
       0 \<le> cs_retain spec \<and> cs_retain spec < cs_threshold spec)"
proof -
  note c = resolved_config [OF assms]
  have "1 \<le> given (pf_max_tokens p) (cc_max_tokens config)"
    "(given (pf_provider p) (cc_provider config) = []) = (given (pf_model p) (cc_model config) = [])"
    if "p \<in> set (cc_policies config)" for p
    using c(6) [OF that] c(2,5) by (auto simp: fields_sound_def given_def pair_sound_def split: option.splits)
  moreover have "retention_sound (tp_threshold (resolve_target_policy config target)) (tp_retention (resolve_target_policy config target))"
    using c matching_policy_member [of config target] by (simp add: resolve_target_policy_def split: option.splits)
  ultimately show ?thesis
    using c resolved_retries [OF assms, of target] matching_policy_member [of config target] resolved_spec_bounds(1,2)
    by (simp add: resolve_target_policy_def split: option.splits)
qed

section \<open>Example\<close>

definition example_policy_config :: jv where
  "example_policy_config =
     JObj [(''retainTokens'', jint 1000), (''modelPolicies'', JArr [JObj [(''provider'', JStr ''p''), (''model'', JStr ''m''),
       (''thresholdRatio'', JNum (NFrac (1 / 2))), (''maxOverflowRetries'', jint 3)]])]"

theorem resolved_policies_sound_witness:
  "case resolve_compaction_config example_policy_config of
     Inr config \<Rightarrow> retention_sound (tp_threshold (resolve_target_policy config (''p'', ''m'')))
       (tp_retention (resolve_target_policy config (''p'', ''m''))) \<and>
       tp_overflow (resolve_target_policy config (''p'', ''m'')) = 3
   | Inl _ \<Rightarrow> False"
proof -
  have "(case resolve_compaction_config example_policy_config of
     Inr config \<Rightarrow> tp_overflow (resolve_target_policy config (''p'', ''m'')) = 3 | Inl _ \<Rightarrow> False)" by code_simp
  then show ?thesis
    using resolved_policies_sound [of example_policy_config _ "(''p'', ''m'')"] by (auto split: sum.splits)
qed

end
