(* ===== verification/Token_Projections.thy ===== *)
theory Token_Projections
  imports Token_Meter
begin

text \<open>
  The token meter's pure projections: \<^verbatim>\<open>packages/llm/token-meter/src/surface-projection.ts\<close>,
  \<^verbatim>\<open>breakdown-projection.ts\<close> and \<^verbatim>\<open>usage-projection.ts\<close>. Their states are a handful of
  numbers: a replacement is priced by the metering event just before it instead of by the nodes it
  shadows. The lemmas show that on fully metered logs they agree with the meter, and that the usage
  totals count every step once.
\<close>

section \<open>Differences of numbers\<close>

fun num_neg :: "jnum \<Rightarrow> jnum" where
  "num_neg (NInt n) = (if n = 0 then NNegZero else NInt (- n))"
| "num_neg (NFrac r) = NFrac (- r)"
| "num_neg NNegZero = NInt 0"
| "num_neg (NInf s) = NInf (\<not> s)"

fun num_minus :: "jnum \<Rightarrow> jnum \<Rightarrow> jnum" where
  "num_minus (NInt a) (NInt b) = NInt (round_double (a - b))"
| "num_minus a b = num_plus a (num_neg b)"

section \<open>The surface total\<close>

record shadow_claim =
  sc_start :: jnum
  sc_end :: jnum
  sc_tokens :: jnum

datatype projection_error = ShadowMalformed int | ShadowMismatch int

definition is_shadow_price :: "session_event \<Rightarrow> bool" where
  "is_shadow_price e \<longleftrightarrow> ev_type e = ''compaction/summary'' \<or> ev_type e = ''compaction/prune''"

fun metering_payload :: "event_data \<Rightarrow> jv" where
  "metering_payload (PluginEvent t d) = d"
| "metering_payload _ = JNull"

text \<open>The range and price a metering event declares. Both payloads carry them as numbers; a payload without
  them is outside the vocabulary of the program and has an error of its own here.\<close>

definition claim_of :: "session_event \<Rightarrow> shadow_claim option" where
  "claim_of e =
     (let d = metering_payload (ev_data e) in
      case jprop d ''shadowedRange'' of
        None \<Rightarrow> None
      | Some range' \<Rightarrow>
          (case (jprop range' ''start'', jprop range' ''end'', jprop d ''shadowedTokenCount'') of
             (Some (JNum a), Some (JNum b), Some (JNum n)) \<Rightarrow> Some \<lparr>sc_start = a, sc_end = b, sc_tokens = n\<rparr>
           | _ \<Rightarrow> None))"

definition same_bound :: "jnum \<Rightarrow> jv option \<Rightarrow> bool" where
  "same_bound n v = (case v of Some (JNum k) \<Rightarrow> num_eq n k | _ \<Rightarrow> False)"

definition fold_surface_projection ::
  "(jnum \<Rightarrow> string) \<Rightarrow> shadow_claim option \<Rightarrow> session_event
     \<Rightarrow> projection_error + jnum \<times> shadow_claim option" where
  "fold_surface_projection digits claim e =
     (if is_shadow_price e then
        (case claim_of e of None \<Rightarrow> Inl (ShadowMalformed (ev_seq e)) | Some c \<Rightarrow> Inr (NInt 0, Some c))
      else if \<not> is_surface_event e then Inr (NInt 0, None)
      else
        let tokens = NInt (event_tokens digits e) in
        if ev_surface_op e = Some append_op then Inr (tokens, None)
        else
          (case claim of
             None \<Rightarrow> Inr (NInt 0, None)
           | Some c \<Rightarrow>
               if \<not> same_bound (sc_start c) (Option.bind (ev_surface_op e) (\<lambda>op. jprop op ''start'')) \<or>
                  \<not> same_bound (sc_end c) (Option.bind (ev_surface_op e) (\<lambda>op. jprop op ''end''))
               then Inl (ShadowMismatch (ev_seq e))
               else Inr (num_minus tokens (sc_tokens c), None)))"

section \<open>The context breakdown\<close>

record breakdown_state =
  bd_system :: int
  bd_tools :: int
  bd_messages :: jnum
  bd_claim :: "shadow_claim option"

definition initial_breakdown :: breakdown_state where
  "initial_breakdown = \<lparr>bd_system = 0, bd_tools = 0, bd_messages = NInt 0, bd_claim = None\<rparr>"

definition apply_breakdown ::
  "(jnum \<Rightarrow> string) \<Rightarrow> breakdown_state \<Rightarrow> session_event \<Rightarrow> projection_error + breakdown_state" where
  "apply_breakdown digits st e =
     and_then (fold_surface_projection digits (bd_claim st) e) (\<lambda>(delta, claim).
       let header = (case ev_data e of RequestHeader h _ \<Rightarrow> Some (canonical_header h) | _ \<Rightarrow> None);
           system = (if header = None then bd_system st else estimate_system_tokens header);
           tools = (if header = None then bd_tools st else estimate_tools_tokens digits header)
       in if system = bd_system st \<and> tools = bd_tools st \<and> num_eq delta (NInt 0) \<and> claim = None \<and>
             bd_claim st = None
          then Inr st
          else Inr \<lparr>bd_system = system, bd_tools = tools, bd_messages = num_plus (bd_messages st) delta,
                    bd_claim = claim\<rparr>)"

text \<open>The published figures: everything but the claim.\<close>

definition breakdown_view :: "breakdown_state \<Rightarrow> int \<times> int \<times> jnum" where
  "breakdown_view st = (bd_system st, bd_tools st, bd_messages st)"

section \<open>Token usage\<close>

record usage_buckets =
  ub_input :: jnum
  ub_output :: jnum
  ub_cache_read :: jnum
  ub_cache_write :: jnum

record token_usage_state =
  tu_totals :: usage_buckets
  tu_last :: "(int \<times> int \<times> usage_buckets) option"

definition zero_buckets :: usage_buckets where
  "zero_buckets = \<lparr>ub_input = NInt 0, ub_output = NInt 0, ub_cache_read = NInt 0, ub_cache_write = NInt 0\<rparr>"

definition or_zero :: "jnum option \<Rightarrow> jnum" where
  "or_zero n = (case n of Some k \<Rightarrow> k | None \<Rightarrow> NInt 0)"

definition buckets_from :: "token_usage \<Rightarrow> usage_buckets" where
  "buckets_from u =
     \<lparr>ub_input = input_tokens u, ub_output = output_tokens u,
      ub_cache_read = or_zero (cache_read_tokens u), ub_cache_write = or_zero (cache_write_tokens u)\<rparr>"

definition buckets_equal :: "usage_buckets \<Rightarrow> usage_buckets \<Rightarrow> bool" where
  "buckets_equal a b \<longleftrightarrow>
     num_eq (ub_input a) (ub_input b) \<and> num_eq (ub_output a) (ub_output b) \<and>
     num_eq (ub_cache_read a) (ub_cache_read b) \<and> num_eq (ub_cache_write a) (ub_cache_write b)"

definition replace_in :: "(usage_buckets \<Rightarrow> jnum) \<Rightarrow> usage_buckets \<Rightarrow> usage_buckets option \<Rightarrow> usage_buckets \<Rightarrow> jnum" where
  "replace_in f totals previous next' =
     num_plus (num_minus (f totals) (case previous of Some p \<Rightarrow> f p | None \<Rightarrow> NInt 0)) (f next')"

definition add_replacing :: "usage_buckets \<Rightarrow> usage_buckets option \<Rightarrow> usage_buckets \<Rightarrow> usage_buckets" where
  "add_replacing totals previous next' =
     \<lparr>ub_input = replace_in ub_input totals previous next',
      ub_output = replace_in ub_output totals previous next',
      ub_cache_read = replace_in ub_cache_read totals previous next',
      ub_cache_write = replace_in ub_cache_write totals previous next'\<rparr>"

text \<open>The usage an event reports for its step: a usage chunk, or the finished message.\<close>

fun usage_report :: "event_data \<Rightarrow> (int \<times> int \<times> token_usage) option" where
  "usage_report (AssistantChunk turn step (UsageChunk u)) = Some (turn, step, u)"
| "usage_report (AssistantMessage turn step m (Some u) i) = Some (turn, step, u)"
| "usage_report _ = None"

definition initial_usage :: token_usage_state where
  "initial_usage = \<lparr>tu_totals = zero_buckets, tu_last = None\<rparr>"

definition apply_usage :: "token_usage_state \<Rightarrow> session_event \<Rightarrow> token_usage_state" where
  "apply_usage st e =
     (case usage_report (ev_data e) of
        None \<Rightarrow> st
      | Some (turn, step, u) \<Rightarrow>
          let buckets = buckets_from u;
              previous = (case tu_last st of
                Some (t, s, b) \<Rightarrow> if t = turn \<and> s = step then Some b else None | None \<Rightarrow> None)
          in case previous of
               Some p \<Rightarrow>
                 if buckets_equal p buckets then st
                 else \<lparr>tu_totals = add_replacing (tu_totals st) previous buckets,
                       tu_last = Some (turn, step, buckets)\<rparr>
             | None \<Rightarrow> \<lparr>tu_totals = add_replacing (tu_totals st) previous buckets,
                       tu_last = Some (turn, step, buckets)\<rparr>)"

section \<open>Context pressure\<close>

record context_pressure =
  cp_route :: "(string \<times> string) option"
  cp_window :: "jnum option"
  cp_pressure :: "jnum option"
  cp_header :: int
  cp_surface :: jnum
  cp_sampled_header :: "int option"
  cp_sampled_surface :: "jnum option"
  cp_claim :: "shadow_claim option"

definition initial_pressure :: context_pressure where
  "initial_pressure =
     \<lparr>cp_route = None, cp_window = None, cp_pressure = None, cp_header = 0, cp_surface = NInt 0,
      cp_sampled_header = None, cp_sampled_surface = None, cp_claim = None\<rparr>"

definition pressure_from :: "token_usage \<Rightarrow> jnum" where
  "pressure_from u =
     num_plus (num_plus (input_tokens u) (or_zero (cache_read_tokens u))) (or_zero (cache_write_tokens u))"

text \<open>
  A routed model change clears the sample; the capacity follows the newest record. An update that changes
  nothing keeps the old value, which matters for the sign of zero only.
\<close>

definition note_context :: "session_event \<Rightarrow> context_pressure \<Rightarrow> context_pressure" where
  "note_context e st =
     (case ev_data e of
        RequestContext c \<Rightarrow>
          let route = (ctx_provider c, ctx_model c);
              st1 = (if cp_route st \<noteq> Some route
                     then st\<lparr>cp_pressure := None, cp_sampled_header := None, cp_sampled_surface := None,
                             cp_route := Some route\<rparr>
                     else st)
          in if opt_num_eq (ctx_window c) (cp_window st) then st1 else st1\<lparr>cp_window := ctx_window c\<rparr>
      | _ \<Rightarrow> st)"

definition note_header :: "(jnum \<Rightarrow> string) \<Rightarrow> session_event \<Rightarrow> context_pressure \<Rightarrow> context_pressure" where
  "note_header digits e st =
     (case ev_data e of RequestHeader h _ \<Rightarrow> st\<lparr>cp_header := estimate_header digits (Some h)\<rparr> | _ \<Rightarrow> st)"

definition note_usage :: "session_event \<Rightarrow> context_pressure \<Rightarrow> context_pressure" where
  "note_usage e st =
     (case usage_report (ev_data e) of
        None \<Rightarrow> st
      | Some (turn, step, u) \<Rightarrow>
          if opt_num_eq (Some (pressure_from u)) (cp_pressure st) \<and> cp_sampled_header st = Some (cp_header st) \<and>
             opt_num_eq (cp_sampled_surface st) (Some (cp_surface st))
          then st
          else st\<lparr>cp_pressure := Some (pressure_from u), cp_sampled_header := Some (cp_header st),
                  cp_sampled_surface := Some (cp_surface st)\<rparr>)"

definition apply_pressure ::
  "(jnum \<Rightarrow> string) \<Rightarrow> context_pressure \<Rightarrow> session_event \<Rightarrow> projection_error + context_pressure" where
  "apply_pressure digits st e =
     and_then (fold_surface_projection digits (cp_claim st) e) (\<lambda>(delta, claim).
       let st1 = note_usage e (note_context e (note_header digits e st));
           st2 = (if num_eq delta (NInt 0) then st1 else st1\<lparr>cp_surface := num_plus (cp_surface st1) delta\<rparr>)
       in Inr (st2\<lparr>cp_claim := claim\<rparr>))"

definition projected_tokens :: "context_pressure \<Rightarrow> jnum option" where
  "projected_tokens st =
     (case (cp_pressure st, cp_sampled_header st, cp_sampled_surface st) of
        (Some p, Some h, Some s) \<Rightarrow>
          Some (num_max0 (num_minus (num_minus (num_plus (num_plus p (NInt (cp_header st))) (cp_surface st)) (NInt h)) s))
      | _ \<Rightarrow> None)"

section \<open>Metered logs\<close>

text \<open>
  The protocol the projections rely on: a replacement follows directly a metering event that names its
  range and the price of the surface nodes it shadows.
\<close>

definition shadowed_span :: "session_event list \<Rightarrow> session_event \<Rightarrow> int list" where
  "shadowed_span es e =
     (case (replay es, ev_surface_op e) of
        (Inr (st, reps, x), Some op) \<Rightarrow>
          (case (index_of (seq_of (the (jprop op ''start''))) (nodes st),
                 index_of (seq_of (the (jprop op ''end''))) (nodes st)) of
             (Some i, Some j) \<Rightarrow> slice_incl i j (nodes st)
           | _ \<Rightarrow> [])
      | _ \<Rightarrow> [])"

definition claims_span :: "(jnum \<Rightarrow> string) \<Rightarrow> session_event list \<Rightarrow> session_event \<Rightarrow> shadow_claim \<Rightarrow> bool" where
  "claims_span digits es e c \<longleftrightarrow>
     same_bound (sc_start c) (Option.bind (ev_surface_op e) (\<lambda>op. jprop op ''start'')) \<and>
     same_bound (sc_end c) (Option.bind (ev_surface_op e) (\<lambda>op. jprop op ''end'')) \<and>
     sc_tokens c = NInt (surface_price digits es (shadowed_span es e))"

definition armed_claim :: "session_event list \<Rightarrow> shadow_claim option" where
  "armed_claim es = (if es = [] \<or> \<not> is_shadow_price (last es) then None else claim_of (last es))"

definition metered_event :: "(jnum \<Rightarrow> string) \<Rightarrow> session_event list \<Rightarrow> session_event \<Rightarrow> bool" where
  "metered_event digits es e \<longleftrightarrow>
     (is_shadow_price e \<longrightarrow> claim_of e \<noteq> None) \<and>
     (is_surface_event e \<and> ev_surface_op e \<noteq> Some append_op \<longrightarrow>
        (case armed_claim es of Some c \<Rightarrow> claims_span digits es e c | None \<Rightarrow> False))"

definition metered_log :: "(jnum \<Rightarrow> string) \<Rightarrow> session_event list \<Rightarrow> bool" where
  "metered_log digits es \<longleftrightarrow> list_all (\<lambda>i. metered_event digits (take i es) (es ! i)) [0..<length es]"

lemma metered_log_snoc [simp]:
  "metered_log digits (es @ [e]) \<longleftrightarrow> metered_log digits es \<and> metered_event digits es e"
  "metered_log digits []"
  by (auto simp: metered_log_def list_all_iff nth_append)

lemma metered_log_prefix: "metered_log digits (es @ fs) \<Longrightarrow> metered_log digits es"
  by (induction fs rule: rev_induct) (auto simp flip: append_assoc)

text \<open>The price of everything a log ever put on its surface bounds all prices of its surfaces.\<close>

definition logged_price :: "(jnum \<Rightarrow> string) \<Rightarrow> session_event list \<Rightarrow> int" where
  "logged_price digits es = sum_list (map (event_tokens digits) es)"

lemma logged_price_simps [simp]:
  "logged_price digits [] = 0"
  "logged_price digits (es @ fs) = logged_price digits es + logged_price digits fs"
  "logged_price digits [e] = event_tokens digits e"
  by (simp_all add: logged_price_def)

lemma logged_price_nonneg: "0 \<le> logged_price digits es"
  by (auto simp: logged_price_def event_tokens_nonneg intro!: sum_list_nonneg)

lemma shadow_price_off_surface: "is_shadow_price e \<Longrightarrow> \<not> is_surface_event e"
  by (auto simp: is_shadow_price_def is_surface_event_def is_surface_eligible_type_def SURFACE_EVENT_TYPES_def)

text \<open>On a metered log the fold returns exactly how much the surface price changes.\<close>

lemma shadowed_span_price:
  assumes r: "replay (es @ [e]) = Inr (st', reps', x')" "replay es = Inr (st, reps, x)"
    and e: "is_surface_event e" "ev_surface_op e \<noteq> Some append_op"
  shows "surface_price digits (es @ [e]) (nodes st') =
      surface_price digits es (nodes st) + event_tokens digits e - surface_price digits es (shadowed_span es e) \<and>
    0 \<le> surface_price digits es (shadowed_span es e) \<and>
    surface_price digits es (shadowed_span es e) \<le> surface_price digits es (nodes st)"
  using r
proof (cases rule: replay_surface_cases)
  case (spliced op i j)
  have named: "nat n < length es" if "n \<in> set (nodes st)" for n
    using replay_nodes_less [OF r(2) that] by simp
  have ij: "index_of (seq_of (the (jprop op ''start''))) (nodes st) = Some i"
    "index_of (seq_of (the (jprop op ''end''))) (nodes st) = Some j"
    using index_of_nth [OF replay_distinct [OF r(2)]] spliced(5-8) by (metis le_less_trans)+
  have span: "shadowed_span es e = slice_incl i j (nodes st)"
    using r(2) spliced(2) ij by (simp add: shadowed_span_def)
  have split: "surface_price digits es (nodes st) = surface_price digits es (take i (nodes st)) +
      surface_price digits es (slice_incl i j (nodes st)) + surface_price digits es (drop (Suc j) (nodes st))"
    using slice_decomp [OF spliced(5), of "nodes st"] by (metis surface_price_append add.assoc)
  have "surface_price digits (es @ [e]) (take i (nodes st)) = surface_price digits es (take i (nodes st))"
    "surface_price digits (es @ [e]) (drop (Suc j) (nodes st)) = surface_price digits es (drop (Suc j) (nodes st))"
    by (rule priced_log(2); meson in_set_takeD in_set_dropD named)+
  moreover have "surface_price digits (es @ [e]) [int (length es)] = event_tokens digits e"
    by (simp add: surface_price_def)
  ultimately show ?thesis
    using split surface_price_nonneg [of digits es] unfolding span spliced(9) splice_one_def
    by (simp only: surface_price_append) (simp add: add_increasing add_increasing2 surface_price_nonneg)
qed (use e in simp_all)

lemma surface_price_logged:
  assumes "replay es = Inr (st, reps, x)"
  shows "surface_price digits es (nodes st) \<le> logged_price digits es"
  using assms
proof (induction es arbitrary: st reps x rule: rev_induct)
  case Nil
  then show ?case by (auto simp: replay_def fold_window_def create_fold_state_def surface_price_def)
next
  case (snoc e es)
  obtain st0 reps0 x0 where r: "replay es = Inr (st0, reps0, x0)" using replay_prefix [OF snoc.prems] by blast
  note IH = snoc.IH [OF r] and nonneg = event_tokens_nonneg [of digits e]
  have named: "nat n < length es" if "n \<in> set (nodes st0)" for n
    using replay_nodes_less [OF r that] by simp
  from snoc.prems r show ?case
  proof (cases rule: replay_surface_cases)
    case off
    then show ?thesis using IH nonneg priced_log(2) [of "nodes st0" es digits "[e]"] named by simp
  next
    case joined
    then show ?thesis using IH nonneg priced_log(2) [of "nodes st0" es digits "[e]"] named
      by (simp add: surface_price_def)
  next
    case spliced
    then show ?thesis using IH nonneg shadowed_span_price [OF snoc.prems r, of digits] by simp
  qed
qed

definition armed_after :: "session_event \<Rightarrow> shadow_claim option" where
  "armed_after e = (if is_shadow_price e then claim_of e else None)"

lemma armed_claim_snoc [simp]: "armed_claim (es @ [e]) = armed_after e" "armed_claim [] = None"
  by (simp_all add: armed_claim_def armed_after_def)

lemma fold_surface_projection_metered:
  assumes r: "replay (es @ [e]) = Inr (st', reps', x')" "replay es = Inr (st, reps, x)"
    and m: "metered_event digits es e" and safe: "safe_int (logged_price digits (es @ [e]))"
  shows "fold_surface_projection digits (armed_claim es) e =
    Inr (NInt (surface_price digits (es @ [e]) (nodes st') - surface_price digits es (nodes st)), armed_after e)"
proof (cases "is_surface_event e")
  case False
  have "nodes st' = nodes st" using r False by (cases rule: replay_surface_cases) simp_all
  moreover have "surface_price digits (es @ [e]) (nodes st) = surface_price digits es (nodes st)"
    using replay_nodes_less [OF r(2)] by (intro priced_log(2)) auto
  ultimately show ?thesis
    using m False by (auto simp: fold_surface_projection_def armed_after_def metered_event_def)
next
  case surf: True
  then have unarmed: "\<not> is_shadow_price e" using shadow_price_off_surface by blast
  show ?thesis
  proof (cases "ev_surface_op e = Some append_op")
    case True
    have "surface_price digits (es @ [e]) (nodes st) = surface_price digits es (nodes st)"
      using replay_nodes_less [OF r(2)] by (intro priced_log(2)) auto
    moreover from r have "nodes st' = nodes st @ [int (length es)]"
      using surf True by (cases rule: replay_surface_cases) simp_all
    ultimately show ?thesis
      using surf unarmed True
      by (simp add: fold_surface_projection_def armed_after_def) (simp add: surface_price_def)
  next
    case False
    then obtain c where c: "armed_claim es = Some c" "claims_span digits es e c"
      using m surf by (auto simp: metered_event_def split: option.splits)
    note P = shadowed_span_price [OF r surf False, of digits]
    have "safe_int (event_tokens digits e - surface_price digits es (shadowed_span es e))"
      using P surface_price_logged [OF r(2), of digits] event_tokens_nonneg [of digits e] safe
        logged_price_nonneg [of digits es]
      unfolding safe_int_def logged_price_simps by linarith
    then show ?thesis
      using surf unarmed False c P by (simp add: fold_surface_projection_def armed_after_def claims_span_def)
  qed
qed

lemma replacement_metered:
  assumes r: "replay es = Inr (st, reps, x)"
    and claim: "armed_claim es = Some \<lparr>sc_start = NInt start, sc_end = NInt end', sc_tokens = NInt n\<rparr>"
    and e: "ev_surface_op e = Some (replace_op start end')" "\<not> is_shadow_price e"
    and span: "i \<le> j" "j < length (nodes st)" "nodes st ! i = start" "nodes st ! j = end'"
    and n: "n = surface_price digits es (slice_incl i j (nodes st))"
  shows "metered_event digits es e"
proof -
  have "index_of start (nodes st) = Some i" "index_of end' (nodes st) = Some j"
    using index_of_nth [OF replay_distinct [OF r]] span by (metis le_less_trans)+
  then have "shadowed_span es e = slice_incl i j (nodes st)"
    using r e(1) by (simp add: shadowed_span_def replace_op_def)
  then have "claims_span digits es e \<lparr>sc_start = NInt start, sc_end = NInt end', sc_tokens = NInt n\<rparr>"
    using n e(1) by (simp add: claims_span_def same_bound_def replace_op_def)
  then show ?thesis using claim e(2) by (simp add: metered_event_def)
qed

section \<open>The breakdown is the meter's reading\<close>

lemma breakdown_follows:
  assumes "replay es = Inr (st, reps, x)" and "metered_log digits es" and "safe_int (logged_price digits es)"
  shows "fold_result (apply_breakdown digits) initial_breakdown es =
    Inr \<lparr>bd_system = estimate_system_tokens (fold_request_header es None),
         bd_tools = estimate_tools_tokens digits (fold_request_header es None),
         bd_messages = NInt (surface_price digits es (nodes st)), bd_claim = armed_claim es\<rparr>"
  using assms
proof (induction es arbitrary: st reps x rule: rev_induct)
  case Nil
  then show ?case
    by (auto simp: replay_def fold_window_def create_fold_state_def surface_price_def initial_breakdown_def
        fold_request_header_def estimate_system_tokens_def estimate_tools_tokens_def)
next
  case (snoc e es)
  obtain st0 reps0 x0 where r: "replay es = Inr (st0, reps0, x0)" using replay_prefix [OF snoc.prems(1)] by blast
  have safe: "safe_int (logged_price digits es)"
    using snoc.prems(3) logged_price_nonneg [of digits es] event_tokens_nonneg [of digits e]
    by (simp add: safe_int_def)
  note IH = snoc.IH [OF r _ safe]
  have "surface_price digits (es @ [e]) (nodes st) \<le> logged_price digits (es @ [e])"
    by (rule surface_price_logged [OF snoc.prems(1)])
  then have now: "safe_int (surface_price digits (es @ [e]) (nodes st))"
    using snoc.prems(3) surface_price_nonneg [of digits "es @ [e]" "nodes st"] by (simp add: safe_int_def)
  have "fold_surface_projection digits (armed_claim es) e =
      Inr (NInt (surface_price digits (es @ [e]) (nodes st) - surface_price digits es (nodes st0)), armed_after e)"
    using fold_surface_projection_metered [OF snoc.prems(1) r _ snoc.prems(3)] snoc.prems(2) by simp
  then show ?case
    using IH snoc.prems(2) now
    by (auto simp: fold_result_append apply_breakdown_def Let_def fold_request_header_def header_step_def
        split: event_data.splits)
qed

text \<open>C25. The composition a status display shows is the meter's own reading, on a log that
  the surface replay accepts and the meter can read, in which every replacement claims its price and whose surface events, shadowed ones included,
  have a total price that is a safe integer. A replacement claims its price when the event before it
  is the metering event of a compaction or a prune that names exactly the range it replaces and the
  meter's price of the nodes there, and every metering event carries a well formed claim. Then the
  incremental projection's system, tools and message tokens are the meter's estimates of the last
  logged request header and of the current surface. Nothing is stated of other logs: after a
  replacement without such a claim the display may drift from the meter.\<close>

theorem breakdown_is_measurement:
  assumes "meter_read digits None es = Inr m" and "returns (replay es)"
    and "metered_log digits es" and "safe_int (logged_price digits es)"
  shows "\<exists>b. fold_result (apply_breakdown digits) initial_breakdown es = Inr b \<and>
    breakdown_view b =
      (estimate_system_tokens (measured_header es None), estimate_tools_tokens digits (measured_header es None),
       NInt (me_surface m))"
proof -
  obtain st reps x where r: "replay es = Inr (st, reps, x)" using assms(2) by (metis prod_cases3 returns_iff)
  show ?thesis
    using breakdown_follows [OF r assms(3,4)] meter_read_surface(2) [OF assms(1) r]
    by (simp add: breakdown_view_def measured_header_def)
qed

section \<open>Usage totals\<close>

text \<open>All usage reports of a log, and the ones no later report of the same step corrects.\<close>

fun usage_reports :: "session_event list \<Rightarrow> (int \<times> int \<times> token_usage) list" where
  "usage_reports [] = []"
| "usage_reports (e # es) =
     (case usage_report (ev_data e) of Some r \<Rightarrow> r # usage_reports es | None \<Rightarrow> usage_reports es)"

definition same_step :: "int \<times> int \<times> 'a \<Rightarrow> int \<times> int \<times> 'b \<Rightarrow> bool" where
  "same_step r q \<longleftrightarrow> fst r = fst q \<and> fst (snd r) = fst (snd q)"

fun final_reports :: "(int \<times> int \<times> 'a) list \<Rightarrow> (int \<times> int \<times> 'a) list" where
  "final_reports [] = []"
| "final_reports (r # rs) = (if list_ex (same_step r) rs then final_reports rs else r # final_reports rs)"

fun whole :: "jnum \<Rightarrow> bool" where
  "whole (NInt n) = (0 \<le> n)"
| "whole _ = False"

fun whole_count :: "jnum \<Rightarrow> int" where
  "whole_count (NInt n) = n"
| "whole_count _ = 0"

definition bucket_fields :: "(usage_buckets \<Rightarrow> jnum) list" where
  "bucket_fields = [ub_input, ub_output, ub_cache_read, ub_cache_write]"

definition bucket_sum :: "(usage_buckets \<Rightarrow> jnum) \<Rightarrow> (int \<times> int \<times> token_usage) list \<Rightarrow> int" where
  "bucket_sum f rs = sum_list (map (\<lambda>(t, s, u). whole_count (f (buckets_from u))) rs)"

definition summed_usage :: "(int \<times> int \<times> token_usage) list \<Rightarrow> usage_buckets" where
  "summed_usage rs =
     \<lparr>ub_input = NInt (bucket_sum ub_input rs), ub_output = NInt (bucket_sum ub_output rs),
      ub_cache_read = NInt (bucket_sum ub_cache_read rs), ub_cache_write = NInt (bucket_sum ub_cache_write rs)\<rparr>"

text \<open>Whole counts whose sum over all reports is a safe integer.\<close>

definition countable_usage :: "(int \<times> int \<times> token_usage) list \<Rightarrow> bool" where
  "countable_usage rs \<longleftrightarrow>
     list_all (\<lambda>f. list_all (\<lambda>(t, s, u). whole (f (buckets_from u))) rs \<and> safe_int (bucket_sum f rs)) bucket_fields"

lemma usage_reports_snoc [simp]:
  "usage_reports (es @ [e]) =
     usage_reports es @ (case usage_report (ev_data e) of Some r \<Rightarrow> [r] | None \<Rightarrow> [])"
  by (induction es) (auto split: option.splits)

lemma final_reports_snoc:
  "final_reports (rs @ [r]) = filter (\<lambda>q. \<not> same_step q r) (final_reports rs) @ [r]"
  by (induction rs) (auto simp: same_step_def)

lemma final_reports_subset: "set (final_reports rs) \<subseteq> set rs"
  by (induction rs) auto

text \<open>Reports come in the order of their steps, so a step reported before is the last one reported.\<close>

definition reported_until :: "session_trace \<Rightarrow> (int \<times> int \<times> 'a) list \<Rightarrow> bool" where
  "reported_until tr rs \<longleftrightarrow>
     (\<forall>(t, s, u) \<in> set rs. t < tr_next_turn tr \<or>
        t = tr_next_turn tr \<and> tr_open_turn tr \<noteq> None \<and>
          (s < tr_next_step tr \<or> s = tr_next_step tr \<and> tr_open_step tr \<noteq> None)) \<and>
     sorted_wrt (\<lambda>(t, s, u) (t', s', u'). t < t' \<or> t = t' \<and> s \<le> s') rs"

lemma reported_until_kept:
  assumes "reported_until tr rs" and "trace_inv tr" and "trace_step tr e = Inr tr'"
  shows "reported_until tr' rs"
proof -
  have "t < tr_next_turn tr' \<or> t = tr_next_turn tr' \<and> tr_open_turn tr' \<noteq> None \<and>
      (s < tr_next_step tr' \<or> s = tr_next_step tr' \<and> tr_open_step tr' \<noteq> None)"
    if "t < tr_next_turn tr \<or> t = tr_next_turn tr \<and> tr_open_turn tr \<noteq> None \<and>
      (s < tr_next_step tr \<or> s = tr_next_step tr \<and> tr_open_step tr \<noteq> None)" for t s
    using that assms(2,3)
    by (auto simp: trace_step_Inr validate_event_def Let_def result_simps trace_inv_def split: validate_event_splits)
  then show ?thesis using assms(1) by (fastforce simp: reported_until_def)
qed

lemma report_in_step:
  assumes "usage_report (ev_data e) = Some (t, s, u)" and "trace_step tr e = Inr tr'"
  shows "tr_open_turn tr = Some t" "tr_open_step tr = Some s" "tr_open_turn tr' = Some t" "tr_open_step tr' = Some s"
    "tr_next_turn tr' = tr_next_turn tr" "tr_next_step tr' = tr_next_step tr"
  using assms
  by (auto simp: trace_step_Inr validate_event_def Let_def split: if_splits elim!: usage_report.elims)

lemma reported_until_step:
  assumes r: "reported_until tr (usage_reports es)" and inv: "trace_inv tr" and s: "trace_step tr e = Inr tr'"
  shows "reported_until tr' (usage_reports (es @ [e]))"
proof (cases "usage_report (ev_data e)")
  case None
  then show ?thesis using reported_until_kept [OF assms] by simp
next
  case (Some q)
  obtain t k u where q: "q = (t, k, u)" by (cases q)
  note S = report_in_step [OF Some [unfolded q] s]
  have now: "t = tr_next_turn tr" "k = tr_next_step tr" using inv S(1,2) by (simp_all add: trace_inv_def)
  show ?thesis
    using r reported_until_kept [OF assms] S now Some q
    by (fastforce simp: reported_until_def sorted_wrt_append)
qed

lemma reports_in_order: "seed_session es = Inr tr \<Longrightarrow> reported_until tr (usage_reports es)"
proof (induction es arbitrary: tr rule: rev_induct)
  case (snoc e es)
  then obtain tr0 where s: "seed_session es = Inr tr0" "trace_step tr0 e = Inr tr"
    by (auto simp: seed_session_snoc result_simps)
  show ?case by (rule reported_until_step [OF snoc.IH [OF s(1)] seed_session_inv [OF s(1)] s(2)])
qed (simp add: reported_until_def)

text \<open>A step's earlier reports directly precede its next one.\<close>

lemma earlier_report_last:
  assumes s: "seed_session (es @ [e]) = Inr tr" and e: "usage_report (ev_data e) = Some r"
    and q: "q \<in> set (usage_reports es)" "same_step q r"
  shows "same_step (last (usage_reports es)) r"
proof -
  obtain rs z where rs: "usage_reports es = rs @ [z]" using q(1) by (metis list.set_cases append_butlast_last_id list.distinct(1))
  have "sorted_wrt (\<lambda>(t, s, u) (t', s', u'). t < t' \<or> t = t' \<and> s \<le> s') (rs @ [z] @ [r])"
    using reports_in_order [OF s] e rs by (simp add: reported_until_def)
  then show ?thesis using q rs by (auto simp: sorted_wrt_append same_step_def)
qed

lemma bucket_sum_simps [simp]:
  "bucket_sum f [] = 0"
  "bucket_sum f (rs @ qs) = bucket_sum f rs + bucket_sum f qs"
  "bucket_sum f ((t, s, u) # rs) = whole_count (f (buckets_from u)) + bucket_sum f rs"
  by (simp_all add: bucket_sum_def)

lemma whole_iff: "whole n \<longleftrightarrow> (\<exists>k\<ge>0. n = NInt k)"
  by (cases n) auto

lemma bucket_sum_bounds:
  assumes "\<And>t s u. (t, s, u) \<in> set rs \<Longrightarrow> whole (f (buckets_from u))"
  shows "0 \<le> bucket_sum f rs" "bucket_sum f (filter P rs) \<le> bucket_sum f rs"
    "bucket_sum f (final_reports rs) \<le> bucket_sum f rs"
proof -
  have nonneg: "0 \<le> whole_count (f (buckets_from u))" if "(t, s, u) \<in> set rs" for t s u
    using assms [OF that] by (auto simp: whole_iff)
  then show "0 \<le> bucket_sum f rs" "bucket_sum f (filter P rs) \<le> bucket_sum f rs"
    "bucket_sum f (final_reports rs) \<le> bucket_sum f rs"
    by (induction rs) (fastforce simp: bucket_sum_def)+
qed

lemma countable_whole:
  assumes "countable_usage rs" and "f \<in> set bucket_fields"
  shows "(t, s, u) \<in> set rs \<Longrightarrow> whole (f (buckets_from u))" "safe_int (bucket_sum f rs)"
  using assms by (auto simp: countable_usage_def list_all_iff)

lemma countable_snoc:
  assumes "countable_usage (rs @ [r])"
  shows "countable_usage rs"
proof -
  have "safe_int (bucket_sum f rs)" if f: "f \<in> set bucket_fields" for f
  proof -
    have "0 \<le> bucket_sum f rs" "0 \<le> bucket_sum f [r]"
      by (rule bucket_sum_bounds(1); use countable_whole(1) [OF assms f] in auto)+
    then show ?thesis using countable_whole(2) [OF assms f] by (simp add: safe_int_def)
  qed
  then show ?thesis using assms by (auto simp: countable_usage_def list_all_iff)
qed

text \<open>Replacing one report by its correction, in one bucket.\<close>

lemma replace_bucket:
  assumes "whole (f n)" "whole (f p)" "f totals = NInt (a + whole_count (f p))" "0 \<le> a"
    "safe_int (a + whole_count (f p))" "safe_int (a + whole_count (f n))"
  shows "replace_in f totals (Some p) n = NInt (a + whole_count (f n))"
  using assms by (auto simp: replace_in_def whole_iff safe_int_def)

lemma add_bucket:
  assumes "whole (f n)" "f totals = NInt a" "safe_int a" "safe_int (a + whole_count (f n))"
  shows "replace_in f totals None n = NInt (a + whole_count (f n))"
  using assms by (auto simp: replace_in_def whole_iff)

lemma equal_whole_buckets:
  assumes "list_all (\<lambda>f. whole (f a) \<and> whole (f b)) bucket_fields"
  shows "buckets_equal a b \<longleftrightarrow> a = b"
  using assms by (auto simp: buckets_equal_def bucket_fields_def whole_iff)

lemma summed_field: "f \<in> set bucket_fields \<Longrightarrow> f (summed_usage rs) = NInt (bucket_sum f rs)"
  by (auto simp: bucket_fields_def summed_usage_def)

lemma add_replacing_summed:
  "(\<And>f. f \<in> set bucket_fields \<Longrightarrow> replace_in f totals previous b = NInt (bucket_sum f rs)) \<Longrightarrow>
     add_replacing totals previous b = summed_usage rs"
  by (simp add: add_replacing_def summed_usage_def bucket_fields_def)

lemma new_step_summed:
  assumes c: "countable_usage (rs @ [(t, s, u)])" and new: "\<And>q. q \<in> set rs \<Longrightarrow> \<not> same_step q (t, s, u)"
  shows "add_replacing (summed_usage (final_reports rs)) None (buckets_from u) =
    summed_usage (final_reports (rs @ [(t, s, u)]))"
proof (rule add_replacing_summed)
  fix f assume f: "f \<in> set bucket_fields"
  note W = countable_whole [OF c f] and W0 = countable_whole [OF countable_snoc [OF c] f]
  have kept: "final_reports (rs @ [(t, s, u)]) = final_reports rs @ [(t, s, u)]"
    using new final_reports_subset [of rs] by (auto simp: final_reports_snoc filter_id_conv)
  have "0 \<le> bucket_sum f (final_reports rs)"
    by (rule bucket_sum_bounds(1)) (use W0(1) final_reports_subset [of rs] in blast)
  moreover have "bucket_sum f (final_reports rs) \<le> bucket_sum f rs" by (rule bucket_sum_bounds(3)) (rule W0(1))
  moreover have "whole (f (buckets_from u))" using W(1) [of t s u] by simp
  ultimately show "replace_in f (summed_usage (final_reports rs)) None (buckets_from u) =
      NInt (bucket_sum f (final_reports (rs @ [(t, s, u)])))"
    using add_bucket [of f "buckets_from u" "summed_usage (final_reports rs)" "bucket_sum f (final_reports rs)"]
      W(2) W0(2) summed_field [OF f] kept by (auto simp: safe_int_def whole_iff)
qed

lemma final_reports_replaced:
  "final_reports (rs @ [(t, s, p), (t, s, u)]) =
     filter (\<lambda>q. \<not> same_step q (t, s, p)) (final_reports rs) @ [(t, s, u)]"
  using final_reports_snoc [of "rs @ [(t, s, p)]" "(t, s, u)"]
  by (simp add: final_reports_snoc [of rs]) (simp add: same_step_def)

lemma same_step_summed:
  assumes c: "countable_usage (rs @ [(t, s, p), (t, s, u)])"
  shows "add_replacing (summed_usage (final_reports (rs @ [(t, s, p)]))) (Some (buckets_from p)) (buckets_from u) =
    summed_usage (final_reports (rs @ [(t, s, p), (t, s, u)]))"
proof (rule add_replacing_summed)
  fix f assume f: "f \<in> set bucket_fields"
  note W = countable_whole [OF c f]
  let ?old = "filter (\<lambda>q. \<not> same_step q (t, s, p)) (final_reports rs)"
  have final: "final_reports (rs @ [(t, s, p)]) = ?old @ [(t, s, p)]"
    "final_reports (rs @ [(t, s, p), (t, s, u)]) = ?old @ [(t, s, u)]"
    by (simp_all add: final_reports_snoc final_reports_replaced)
  have rs: "whole (f (buckets_from v))" if "(a, b, v) \<in> set rs" for a b v
    using W(1) [of a b v] that by simp
  have "0 \<le> bucket_sum f ?old"
    by (rule bucket_sum_bounds(1)) (use rs final_reports_subset [of rs] in auto)
  moreover have "bucket_sum f ?old \<le> bucket_sum f (final_reports rs)"
    by (rule bucket_sum_bounds(2)) (use rs final_reports_subset [of rs] in blast)
  moreover have "bucket_sum f (final_reports rs) \<le> bucket_sum f rs" by (rule bucket_sum_bounds(3)) (rule rs)
  moreover have "whole (f (buckets_from p))" "whole (f (buckets_from u))" using W(1) [of t s p] W(1) [of t s u] by simp_all
  ultimately show "replace_in f (summed_usage (final_reports (rs @ [(t, s, p)]))) (Some (buckets_from p)) (buckets_from u) =
      NInt (bucket_sum f (final_reports (rs @ [(t, s, p), (t, s, u)])))"
    unfolding final
    using replace_bucket [of f "buckets_from u" "buckets_from p" "summed_usage (?old @ [(t, s, p)])" "bucket_sum f ?old"]
      W(2) summed_field [OF f] by (auto simp: safe_int_def whole_iff)
qed

definition last_report :: "(int \<times> int \<times> token_usage) list \<Rightarrow> (int \<times> int \<times> usage_buckets) option" where
  "last_report rs = (if rs = [] then None else case last rs of (t, s, u) \<Rightarrow> Some (t, s, buckets_from u))"

lemma usage_fold:
  assumes "seed_session es = Inr tr" and "countable_usage (usage_reports es)"
  shows "foldl apply_usage initial_usage es =
    \<lparr>tu_totals = summed_usage (final_reports (usage_reports es)), tu_last = last_report (usage_reports es)\<rparr>"
  using assms
proof (induction es arbitrary: tr rule: rev_induct)
  case Nil
  then show ?case by (simp add: initial_usage_def zero_buckets_def summed_usage_def last_report_def)
next
  case (snoc e es)
  let ?rs = "usage_reports es"
  obtain tr0 where s: "seed_session es = Inr tr0" using snoc.prems(1) by (auto simp: seed_session_snoc result_simps)
  show ?case
  proof (cases "usage_report (ev_data e)")
    case None
    then show ?thesis using snoc.IH [OF s] snoc.prems(2) by (simp add: apply_usage_def)
  next
    case (Some r)
    obtain t k u where r: "r = (t, k, u)" by (cases r)
    have c: "countable_usage (?rs @ [(t, k, u)])" using snoc.prems(2) Some r by simp
    note IH = snoc.IH [OF s countable_snoc [OF c]]
    show ?thesis
    proof (cases "?rs \<noteq> [] \<and> same_step (last ?rs) r")
      case True
      then have "last ?rs = (t, k, snd (snd (last ?rs)))" using r by (simp add: same_step_def prod_eq_iff)
      then obtain rs p where rs: "?rs = rs @ [(t, k, p)]" using True append_butlast_last_id by metis
      have "whole (f (buckets_from p))" "whole (f (buckets_from u))" if "f \<in> set bucket_fields" for f
        using countable_whole(1) [OF c that] rs by auto
      then have eq: "buckets_equal (buckets_from p) (buckets_from u) \<longleftrightarrow> buckets_from p = buckets_from u"
        by (intro equal_whole_buckets) (simp add: list_all_iff)
      have same: "summed_usage (final_reports (rs @ [(t, k, p), (t, k, u)])) = summed_usage (final_reports (rs @ [(t, k, p)]))"
        if "buckets_from p = buckets_from u"
        using that by (simp add: final_reports_replaced final_reports_snoc summed_usage_def)
      have c': "countable_usage (rs @ [(t, k, p), (t, k, u)])" using c rs by simp
      show ?thesis
        using IH eq same Some r rs same_step_summed [OF c']
        by (simp add: apply_usage_def last_report_def Let_def)
    next
      case False
      then have "\<not> same_step q (t, k, u)" if "q \<in> set ?rs" for q
        using earlier_report_last [OF snoc.prems(1) Some that] r that by (cases "?rs = []") auto
      then have new: "add_replacing (summed_usage (final_reports ?rs)) None (buckets_from u) =
          summed_usage (final_reports (?rs @ [(t, k, u)]))"
        by (rule new_step_summed [OF c])
      show ?thesis
        using IH new Some r False
        by (auto simp: apply_usage_def last_report_def Let_def same_step_def split: prod.splits)
    qed
  qed
qed

text \<open>C27. The usage totals count every step once: on a log the relational checks accept, however the early
  and the final samples of the steps arrive, each bucket is the sum over all steps of the step's last
  report.\<close>

theorem usage_counts_steps_once:
  assumes "seed_session es = Inr tr" and "countable_usage (usage_reports es)"
  shows "tu_totals (foldl apply_usage initial_usage es) = summed_usage (final_reports (usage_reports es))"
  using usage_fold [OF assms] by simp

section \<open>Projected pressure\<close>

definition envelope_step :: "(jnum \<Rightarrow> string) \<Rightarrow> int \<Rightarrow> session_event \<Rightarrow> int" where
  "envelope_step digits n e =
     (case ev_data e of RequestHeader h _ \<Rightarrow> estimate_header digits (Some h) | _ \<Rightarrow> n)"

definition envelope_price :: "(jnum \<Rightarrow> string) \<Rightarrow> session_event list \<Rightarrow> int" where
  "envelope_price digits es = foldl (envelope_step digits) 0 es"

definition route_step :: "(string \<times> string) option \<Rightarrow> session_event \<Rightarrow> (string \<times> string) option" where
  "route_step r e = (case ev_data e of RequestContext c \<Rightarrow> Some (ctx_provider c, ctx_model c) | _ \<Rightarrow> r)"

definition latest_route :: "session_event list \<Rightarrow> (string \<times> string) option" where
  "latest_route es = foldl route_step None es"

text \<open>An event that neither reports usage nor changes the route.\<close>

definition keeps_sample :: "(string \<times> string) option \<Rightarrow> session_event \<Rightarrow> bool" where
  "keeps_sample r e \<longleftrightarrow> usage_report (ev_data e) = None \<and> route_step r e = r"

lemma envelope_price_nonneg: "0 \<le> envelope_price digits es"
  by (induction es rule: rev_induct)
    (auto simp: envelope_price_def envelope_step_def estimate_header_nonneg split: event_data.splits)

lemma note_fields [simp]:
  "cp_surface (note_context e st) = cp_surface st" "cp_header (note_context e st) = cp_header st"
  "cp_surface (note_header digits e st) = cp_surface st" "cp_route (note_header digits e st) = cp_route st"
  "cp_surface (note_usage e st) = cp_surface st" "cp_header (note_usage e st) = cp_header st"
  "cp_route (note_usage e st) = cp_route st"
  "cp_header (note_header digits e st) = envelope_step digits (cp_header st) e"
  "cp_route (note_context e st) = route_step (cp_route st) e"
  by (auto simp: note_context_def note_header_def note_usage_def envelope_step_def route_step_def Let_def
      split: event_data.splits option.splits)

lemma apply_pressure_metered:
  assumes r: "replay (es @ [e]) = Inr (st', reps', x')" "replay es = Inr (st, reps, x)"
    and m: "metered_event digits es e" and safe: "safe_int (logged_price digits (es @ [e]))"
    and q: "cp_surface q = NInt (surface_price digits es (nodes st))" "cp_claim q = armed_claim es"
  shows "apply_pressure digits q e =
    Inr ((note_usage e (note_context e (note_header digits e q)))
      \<lparr>cp_surface := NInt (surface_price digits (es @ [e]) (nodes st')), cp_claim := armed_after e\<rparr>)"
proof -
  have "safe_int (surface_price digits (es @ [e]) (nodes st'))"
    using surface_price_logged [OF r(1), of digits] surface_price_nonneg [of digits "es @ [e]" "nodes st'"] safe
    by (simp add: safe_int_def)
  moreover have "st\<lparr>cp_surface := cp_surface st\<rparr> = st" for st :: context_pressure by simp
  ultimately show ?thesis
    using fold_surface_projection_metered [OF r m safe] q
    by (auto simp: apply_pressure_def Let_def intro!: context_pressure.equality)
qed

lemma pressure_follows:
  assumes "replay es = Inr (st, reps, x)" and "metered_log digits es" and "safe_int (logged_price digits es)"
  shows "\<exists>q. fold_result (apply_pressure digits) initial_pressure es = Inr q \<and>
    cp_header q = envelope_price digits es \<and> cp_surface q = NInt (surface_price digits es (nodes st)) \<and>
    cp_claim q = armed_claim es \<and> cp_route q = latest_route es"
  using assms
proof (induction es arbitrary: st reps x rule: rev_induct)
  case Nil
  then show ?case
    by (auto simp: replay_def fold_window_def create_fold_state_def surface_price_def initial_pressure_def
        envelope_price_def latest_route_def)
next
  case (snoc e es)
  obtain st0 reps0 x0 where r: "replay es = Inr (st0, reps0, x0)" using replay_prefix [OF snoc.prems(1)] by blast
  have safe: "safe_int (logged_price digits es)"
    using snoc.prems(3) logged_price_nonneg [of digits es] event_tokens_nonneg [of digits e]
    by (simp add: safe_int_def)
  have m: "metered_log digits es" "metered_event digits es e" using snoc.prems(2) by simp_all
  obtain q where q: "fold_result (apply_pressure digits) initial_pressure es = Inr q"
    "cp_header q = envelope_price digits es" "cp_surface q = NInt (surface_price digits es (nodes st0))"
    "cp_claim q = armed_claim es" "cp_route q = latest_route es" using snoc.IH [OF r m(1) safe] by blast
  then show ?case
    using apply_pressure_metered [OF snoc.prems(1) r m(2) snoc.prems(3) q(3,4)]
    by (simp add: fold_result_append envelope_price_def latest_route_def)
qed

text \<open>A sample stays until the next report or the next route.\<close>

definition sample_of :: "context_pressure \<Rightarrow> jnum option \<times> int option \<times> jnum option" where
  "sample_of q = (cp_pressure q, cp_sampled_header q, cp_sampled_surface q)"

lemma apply_pressure_quiet:
  assumes "apply_pressure digits q e = Inr q'" and "keeps_sample (cp_route q) e"
  shows "sample_of q' = sample_of q" "cp_route q' = cp_route q"
  using assms
  by (auto simp: apply_pressure_def keeps_sample_def sample_of_def note_usage_def note_context_def note_header_def
      route_step_def Let_def result_simps split: event_data.splits if_splits)

lemma pressure_quiet:
  assumes "fold_result (apply_pressure digits) q fs = Inr q'" and "list_all (keeps_sample (cp_route q)) fs"
  shows "sample_of q' = sample_of q \<and> cp_route q' = cp_route q"
  using assms
proof (induction fs arbitrary: q)
  case (Cons f fs)
  obtain q1 where q1: "apply_pressure digits q f = Inr q1" "fold_result (apply_pressure digits) q1 fs = Inr q'"
    using Cons.prems(1) by (auto simp: result_simps)
  then show ?case using Cons.IH [OF q1(2)] apply_pressure_quiet [OF q1(1)] Cons.prems(2) by simp
qed simp

text \<open>An unchanged sample may hold the other zero, which does not show in the projection.\<close>

definition sampled :: "context_pressure \<Rightarrow> int \<Rightarrow> int \<Rightarrow> int \<Rightarrow> bool" where
  "sampled q p h k \<longleftrightarrow>
     (case sample_of q of
        (Some p', Some h', Some k') \<Rightarrow> num_eq p' (NInt p) \<and> h' = h \<and> num_eq k' (NInt k)
      | _ \<Rightarrow> False)"

lemma sampled_update [simp]:
  "sampled (q\<lparr>cp_claim := c\<rparr>) p h k = sampled q p h k" "sampled (q\<lparr>cp_surface := a\<rparr>) p h k = sampled q p h k"
  by (simp_all add: sampled_def sample_of_def)

lemma usage_sample:
  assumes "usage_report (ev_data e) = Some (t, s, u)" and "pressure_from u = NInt p"
    and "cp_surface q = NInt k"
  shows "sampled (note_usage e (note_context e (note_header digits e q))) p (cp_header q) k"
    "route_step r e = r" "envelope_step digits n e = n"
proof -
  have off: "note_context e (note_header digits e q) = q" "route_step r e = r" "envelope_step digits n e = n"
    using assms(1) by (auto simp: note_context_def note_header_def route_step_def envelope_step_def
        elim!: usage_report.elims)
  then show "route_step r e = r" "envelope_step digits n e = n" by simp_all
  show "sampled (note_usage e (note_context e (note_header digits e q))) p (cp_header q) k"
    unfolding off using assms
    by (auto simp: note_usage_def sampled_def sample_of_def elim!: opt_num_eq.elims num_eq.elims)
qed

lemma num_eq_NInt: "num_eq n (NInt k) \<longleftrightarrow> n = NInt k \<or> n = NNegZero \<and> k = 0"
  by (cases n) auto

lemma rounded_rat_of_int [simp]: "rounded_rat (of_int k) = NInt (round_double k)"
  by (simp add: rounded_rat_def)

lemma projected_from_sample:
  assumes s: "sampled q p h k" and q: "cp_header q = h'" "cp_surface q = NInt k'"
    and bounds: "0 \<le> p" "0 \<le> h" "0 \<le> k" "0 \<le> h'" "0 \<le> k'" "safe_int (p + h' + k')" "safe_int (h + k)"
  shows "projected_tokens q = Some (NInt (max 0 (p + (h' - h) + (k' - k))))"
proof -
  have "safe_int (p + h')" "safe_int (p + h' + k' - h)" "safe_int (p + h' + k' - h - k)" "safe_int h'" "safe_int p"
    using bounds by (simp_all add: safe_int_def)
  moreover have "p + (h' - h) + (k' - k) = p + h' + k' - h - k" by simp
  ultimately show ?thesis
    using s q bounds(6)
    by (auto simp: projected_tokens_def sampled_def sample_of_def num_eq_NInt num_max0_def split: option.splits)
qed

lemma fold_result_cons: "fold_result f s (e # es) = and_then (f s e) (\<lambda>s'. fold_result f s' es)"
  by (cases "f s e") simp_all

text \<open>C26. The projected pressure follows the next request: after a provider reported usage, and until the next
  report or a change of route, the projection is the reported prompt size plus what the envelope and the
  surface have changed in price since the request was made, never below zero; a compaction is seen
  through the price it logs.\<close>

theorem projection_follows_request:
  assumes r: "replay (es @ e # fs) = Inr (st', reps', x')" "replay es = Inr (st, reps, x)"
    and metered: "metered_log digits (es @ e # fs)"
    and u: "usage_report (ev_data e) = Some (turn, step, u)" "pressure_from u = NInt p" "0 \<le> p"
    and quiet: "list_all (keeps_sample (latest_route es)) fs"
    and safe: "safe_int (p + envelope_price digits (es @ e # fs) + logged_price digits (es @ e # fs))"
      "safe_int (envelope_price digits es + logged_price digits es)"
  shows "\<exists>q. fold_result (apply_pressure digits) initial_pressure (es @ e # fs) = Inr q \<and>
    projected_tokens q = Some (NInt (max 0 (p +
      (envelope_price digits (es @ e # fs) - envelope_price digits es) +
      (surface_price digits (es @ e # fs) (nodes st') - surface_price digits es (nodes st)))))"
proof -
  let ?all = "es @ e # fs"
  note nonneg = envelope_price_nonneg [of digits es] envelope_price_nonneg [of digits ?all]
    surface_price_nonneg [of digits es "nodes st"] surface_price_nonneg [of digits ?all "nodes st'"]
    surface_price_logged [OF r(1), of digits] surface_price_logged [OF r(2), of digits]
    logged_price_nonneg [of digits es] logged_price_nonneg [of digits "e # fs"]
    logged_price_nonneg [of digits "es @ [e]"] logged_price_nonneg [of digits fs]
  have split: "logged_price digits ?all = logged_price digits es + logged_price digits (e # fs)"
    "logged_price digits ?all = logged_price digits (es @ [e]) + logged_price digits fs"
    by (simp_all add: logged_price_def)
  have S: "safe_int (logged_price digits ?all)" "safe_int (logged_price digits es)" "safe_int (logged_price digits (es @ [e]))"
    using safe(1) u(3) nonneg split by (auto simp: safe_int_def)
  have pre: "replay ((es @ [e]) @ fs) = Inr (st', reps', x')" using r(1) by simp
  obtain st1 reps1 x1 where r1: "replay (es @ [e]) = Inr (st1, reps1, x1)" using replay_prefix [OF pre] by blast
  have m: "metered_log digits es" "metered_event digits es e"
    using metered_log_prefix [of digits "es @ [e]" fs] metered by simp_all
  obtain q where q: "fold_result (apply_pressure digits) initial_pressure es = Inr q"
    "cp_header q = envelope_price digits es" "cp_surface q = NInt (surface_price digits es (nodes st))"
    "cp_claim q = armed_claim es" "cp_route q = latest_route es" using pressure_follows [OF r(2) m(1) S(2)] by blast
  obtain z where z: "fold_result (apply_pressure digits) initial_pressure ?all = Inr z"
    "cp_header z = envelope_price digits ?all" "cp_surface z = NInt (surface_price digits ?all (nodes st'))"
    using pressure_follows [OF r(1) metered S(1)] by blast
  note sample = usage_sample(1) [OF u(1,2) q(3), where digits = digits] usage_sample(2,3) [OF u(1,2) q(3)]
  obtain q1 where q1: "apply_pressure digits q e = Inr q1" "cp_route q1 = latest_route es"
    "sampled q1 p (envelope_price digits es) (surface_price digits es (nodes st))"
    using apply_pressure_metered [OF r1 r(2) m(2) S(3) q(3,4)] sample q(2,5) by auto
  have "fold_result (apply_pressure digits) q1 fs = Inr z"
    using z(1) q(1) q1(1) by (simp add: fold_result_append fold_result_cons)
  then have "sample_of z = sample_of q1" using pressure_quiet quiet q1(2) by metis
  then have "sampled z p (envelope_price digits es) (surface_price digits es (nodes st))"
    using q1(3) by (simp add: sampled_def)
  then have "projected_tokens z = Some (NInt (max 0 (p + (envelope_price digits ?all - envelope_price digits es) +
      (surface_price digits ?all (nodes st') - surface_price digits es (nodes st)))))"
    by (rule projected_from_sample [OF _ z(2,3)]) (use nonneg safe u(3) S in \<open>auto simp: safe_int_def\<close>)
  then show ?thesis using z(1) by blast
qed

section \<open>Examples\<close>

text \<open>A prompt, a reply with usage, and a metered replacement of the prompt.\<close>

definition example_shadow :: "int \<Rightarrow> event_data" where
  "example_shadow price = PluginEvent ''compaction/summary''
     (JObj [(''shadowedRange'', JObj [(''start'', jint 1), (''end'', jint 1)]), (''shadowedTokenCount'', jint price)])"

definition example_before :: "session_event list" where
  "example_before =
     [example_event (StepStart 1 1) 0 None None,
      example_event (UserMessage \<lparr>msg_id = ''m0'', msg_role = UserRole, msg_content = [TextBlock (replicate 40 (CHR 0xE9))],
        msg_source = UserSource\<rparr>) 1 (Some append_op) None,
      example_event (RequestHeader (example_header (Some ''be brief'')) ''r0'') 2 None None]"

definition example_answer :: session_event where
  "example_answer =
     example_event (AssistantMessage 1 1 (example_reply ''m1'' [TextBlock ''hello'']) (Some example_usage) False) 3
       (Some append_op) None"

definition example_after :: "session_event list" where
  "example_after =
     [example_event (example_shadow 48) 4 None None,
      example_event (UserMessage (example_prompt ''m2'')) 5 (Some (replace_op 1 1)) (Some (JArr [jint 1, jint 4]))]"

lemma example_projected_replay:
  "replay (example_before @ example_answer # example_after) =
     Inr (\<lparr>nodes = [5, 3], replace_generation = 1\<rparr>,
          [\<lparr>rep_seq = 5, rep_start = 1, rep_end = 1, rep_shadowed = [1]\<rparr>], 6)"
  "replay example_before = Inr (\<lparr>nodes = [1], replace_generation = 0\<rparr>, [], 3)"
  by code_simp+

theorem breakdown_is_measurement_witness:
  "breakdown_view (projr (fold_result (apply_breakdown (\<lambda>_. [])) initial_breakdown
     (example_before @ example_answer # example_after))) = (6, 0, NInt 20)"
proof -
  let ?es = "example_before @ example_answer # example_after" and ?d = "\<lambda>_::jnum. []::string"
  have m: "meter_read ?d None ?es = Inr (projr (meter_read ?d None ?es))" by code_simp
  have v: "returns (replay ?es)" "metered_log ?d ?es" "safe_int (logged_price ?d ?es)"
    "estimate_system_tokens (measured_header ?es None) = 6" "estimate_tools_tokens ?d (measured_header ?es None) = 0"
    "me_surface (projr (meter_read ?d None ?es)) = 20"
    by code_simp+
  from breakdown_is_measurement [OF m v(1-3)] v(4-6) show ?thesis by auto
qed

theorem projection_follows_request_witness:
  "projected_tokens (projr (fold_result (apply_pressure (\<lambda>_. [])) initial_pressure
     (example_before @ example_answer # example_after))) = Some (NInt 952)"
proof -
  let ?es = "example_before @ example_answer # example_after" and ?d = "\<lambda>_::jnum. []::string"
  have u: "usage_report (ev_data example_answer) = Some (1, 1, example_usage)" "pressure_from example_usage = NInt 980"
    by code_simp+
  have v: "metered_log ?d ?es" "list_all (keeps_sample (latest_route example_before)) example_after"
    "safe_int (980 + envelope_price ?d ?es + logged_price ?d ?es)"
    "safe_int (envelope_price ?d example_before + logged_price ?d example_before)"
    "980 + (envelope_price ?d ?es - envelope_price ?d example_before) +
      (surface_price ?d ?es [5, 3] - surface_price ?d example_before [1]) = 952"
    by code_simp+
  from projection_follows_request [OF example_projected_replay v(1) u _ v(2-4)] v(5) show ?thesis by auto
qed

text \<open>Two steps: an early sample corrected by the final one, and an early sample only.\<close>

definition example_samples :: "session_event list" where
  "example_samples =
     [example_event (TurnStart 1) 0 None None, example_event (StepStart 1 1) 1 None None,
      example_event (AssistantChunk 1 1 (UsageChunk (example_usage\<lparr>output_tokens := NInt 1\<rparr>))) 2 None None,
      example_event (AssistantMessage 1 1 (example_reply ''m1'' [TextBlock ''hello'']) (Some example_usage) False) 3
        (Some append_op) None,
      example_event (StepEnd 1 1) 4 None None, example_event (StepStart 1 2) 5 None None,
      example_event (AssistantChunk 1 2 (UsageChunk (example_usage\<lparr>output_tokens := NInt 7\<rparr>))) 6 None None]"

theorem usage_counts_steps_once_witness:
  "tu_totals (foldl apply_usage initial_usage example_samples) =
     \<lparr>ub_input = NInt 1800, ub_output = NInt 27, ub_cache_read = NInt 160, ub_cache_write = NInt 0\<rparr>"
proof -
  have "seed_session example_samples = Inr (projr (seed_session example_samples))" by code_simp
  moreover have "countable_usage (usage_reports example_samples)"
    "summed_usage (final_reports (usage_reports example_samples)) =
      \<lparr>ub_input = NInt 1800, ub_output = NInt 27, ub_cache_read = NInt 160, ub_cache_write = NInt 0\<rparr>"
    by code_simp+
  ultimately show ?thesis using usage_counts_steps_once by metis
qed

end
