(* ===== verification/Compaction_Metering.thy ===== *)
theory Compaction_Metering
  imports Compaction_Transaction Token_Projections
begin

text \<open>
  Compaction and the token projections together: a committed transaction logs the exact price of what it
  shadows, so the projections, which never see the shadowed nodes, stay exact.
\<close>

lemma claim_of_summary:
  "claim_of (build_event es (PluginEvent ''compaction/summary'' (summary_data cid command prep su)) intent now) =
     Some \<lparr>sc_start = NInt (se_start prep), sc_end = NInt (se_end prep), sc_tokens = NInt (pc_tokens prep)\<rparr>"
  by (simp add: claim_of_def)

lemma summary_metered:
  assumes s: "summary = build_event es (PluginEvent ''compaction/summary'' (summary_data cid command prep su)) (None, None) t1"
  shows "metered_event digits es summary" "armed_claim (es @ [summary]) =
    Some \<lparr>sc_start = NInt (se_start prep), sc_end = NInt (se_end prep), sc_tokens = NInt (pc_tokens prep)\<rparr>"
proof -
  have "is_shadow_price summary" using s by (simp add: is_shadow_price_def build_event_def)
  moreover have "\<not> is_surface_event summary"
    using s by (simp add: is_surface_event_def build_event_def)
  ultimately show "metered_event digits es summary" "armed_claim (es @ [summary]) =
      Some \<lparr>sc_start = NInt (se_start prep), sc_end = NInt (se_end prep), sc_tokens = NInt (pc_tokens prep)\<rparr>"
    using claim_of_summary [of es cid command prep su "(None, None)" t1] s
    by (simp_all add: metered_event_def armed_after_def)
qed

lemma derived_price: "estimate_message digits (derive_user_message m) = estimate_message digits m"
  by (simp add: derive_user_message_def estimate_message_def split: message_source.split bool.split)

lemma respliced_price:
  assumes "replay es = Inr (st, reps, x)" and "nodes st = pre @ mid @ post"
  shows "surface_price digits (es @ xs) (pre @ [n] @ post) = surface_price digits es (nodes st) -
    (surface_price digits es mid - event_tokens digits ((es @ xs) ! nat n))"
proof -
  have "surface_price digits (es @ xs) ns = surface_price digits es ns" if "set ns \<subseteq> set (nodes st)" for ns
    using replay_nodes_less [OF assms(1)] that by (intro priced_log(2)) auto
  then have "surface_price digits (es @ xs) pre = surface_price digits es pre"
    "surface_price digits (es @ xs) post = surface_price digits es post" using assms(2) by auto
  then show ?thesis
    unfolding assms(2) by (simp only: surface_price_append) (simp add: surface_price_def)
qed

text \<open>The two events of a commit, in a log that was metered before them.\<close>

lemma commit_metered:
  assumes r1: "replay es = Inr (st1, reps1, x1)" and metered: "metered_log digits es"
    and summary: "summary = build_event es
      (PluginEvent ''compaction/summary'' (summary_data cid command prep su)) (None, None) t1"
    and replacement: "replacement = build_event (es @ [summary]) (UserMessage m)
      (src, Some (replace_op (se_start prep) (se_end prep))) t2"
    and span: "i \<le> j" "j < length (nodes st1)" "nodes st1 ! i = se_start prep" "nodes st1 ! j = se_end prep"
    and price: "pc_tokens prep = surface_price digits es (slice_incl i j (nodes st1))"
    and ok: "returns (replay (es @ [summary]))"
  shows "metered_log digits (es @ [summary, replacement])"
proof -
  obtain st3 reps3 x3 where r3: "replay (es @ [summary]) = Inr (st3, reps3, x3)" using ok by (auto simp: returns_iff)
  have st3: "nodes st3 = nodes st1"
    by (rule replay_off_surface [OF r3 r1]) (simp add: summary build_event_def SURFACE_EVENT_TYPES_def)
  have type: "\<not> is_shadow_price replacement" using replacement by (simp add: is_shadow_price_def build_event_def)
  have "surface_price digits (es @ [summary]) (slice_incl i j (nodes st3)) =
      surface_price digits es (slice_incl i j (nodes st1))"
    unfolding st3 using replay_nodes_less [OF r1] set_slice_incl_subset [of i j "nodes st1"]
    by (intro priced_log(2)) blast
  then have "metered_event digits (es @ [summary]) replacement"
    by (intro replacement_metered [OF r3 summary_metered(2) [OF summary] _ type span(1) span(2-4) [folded st3]])
      (use replacement price in simp_all)
  moreover have "metered_log digits (es @ [summary])" using metered summary_metered(1) [OF summary] by simp
  ultimately have "metered_log digits ((es @ [summary]) @ [replacement])" by (simp del: append_assoc)
  then show ?thesis by simp
qed

lemma two_snoc: "es @ [a, b, c] = (es @ [a, b]) @ [c]" by simp

text \<open>C24. A status display sees a compaction exactly: if the log was fully metered up to the commit, it
  still is afterwards, and the message figure of the breakdown falls from before to after by the price
  of the shadowed span, less the cheaper price of the summary that replaced it.\<close>

theorem compaction_shrinks_breakdown:
  assumes ok: "paired_ok w"
    and c: "compact_surface_region env opts start end' w = (w', Inr res)"
    and log: "ss_log (ps_session w') = before @ [summary, replacement, closing]"
    and metered: "metered_log (ce_digits env) before"
    and safe: "safe_int (logged_price (ce_digits env) (ss_log (ps_session w')))"
  shows "metered_log (ce_digits env) (ss_log (ps_session w')) \<and>
    (\<exists>b b' k. fold_result (apply_breakdown (ce_digits env)) initial_breakdown before = Inr b \<and>
      fold_result (apply_breakdown (ce_digits env)) initial_breakdown (ss_log (ps_session w')) = Inr b' \<and>
      bd_messages b = NInt k \<and>
      bd_messages b' = NInt (k - (cr_tokens res - event_tokens (ce_digits env) replacement)) \<and>
      event_tokens (ce_digits env) replacement < cr_tokens res)"
proof -
  let ?d = "ce_digits env" and ?all = "before @ [summary, replacement, closing]"
  obtain st reps x where r: "replay (ss_log (ps_session w)) = Inr (st, reps, x)" using paired_replays [OF ok] by blast
  from ok c r show ?thesis
  proof (rule compaction_committed)
    fix es begun others prep su s1 s2 s3 st1 reps1 x1 i j
    assume es: "es = ss_log (ps_session w) @ [begun] @ others" and ok': "paired_ok w'"
      and log': "ss_log (ps_session w') = es @ [s1, s2, s3]"
      and summary: "s1 = build_event es
        (PluginEvent ''compaction/summary'' (summary_data (ce_id env) (ro_command opts) prep su)) (None, None) (ce_clock env 1)"
      and replacement: "s2 = build_event (es @ [s1]) (UserMessage (checkpoint_message env (ro_command opts) su))
        (Some (JArr (map jint (ev_seq begun # ev_seq s1 # se_shadowed prep))),
         Some (replace_op start end')) (ce_clock env 2)"
      and closing: "ev_type s3 = ''compaction/end''"
      and r1: "replay es = Inr (st1, reps1, x1)"
      and span: "i \<le> j" "j < length (nodes st1)" "nodes st1 ! i = start" "nodes st1 ! j = end'"
        "slice_incl i j (nodes st1) = se_shadowed prep" and sub: "set (se_shadowed prep) \<subseteq> set (nodes st)"
      and wp: "well_paired es (nodes st1)" "open_calls es (take i (nodes st1)) = 0"
        "open_calls es (take (Suc j) (nodes st1)) = 0"
      and sel: "se_start prep = start" "se_end prep = end'"
      and price: "pc_tokens prep = surface_price ?d (ss_log (ps_session w)) (se_shadowed prep)"
        "estimate_message ?d (checkpoint_message env (ro_command opts) su) < pc_tokens prep"
      and res: "cr_tokens res = pc_tokens prep"
    have same: "es = before" "s1 = summary" "s2 = replacement" "s3 = closing" using log log' by simp_all
    note built = summary [unfolded same] replacement [unfolded same] closing [unfolded same]
    note r1 = r1 [unfolded same]
    obtain st2 reps2 x2 where r2: "replay ?all = Inr (st2, reps2, x2)"
      using paired_replays [OF ok'] log by auto
    note S = span_replaced [OF r2 r1 built span wp [unfolded same]]
    obtain st3 reps3 x3 where "replay (before @ [summary]) = Inr (st3, reps3, x3)"
      using replay_prefix [of "before @ [summary]" "[replacement, closing]"] r2 by auto
    then have ret: "returns (replay (before @ [summary]))" by (simp add: returns_iff)
    have earlier: "nat n < length (ss_log (ps_session w))" if "n \<in> set (se_shadowed prep)" for n
      using replay_nodes_less [OF r] sub that by auto
    have shadowed: "pc_tokens prep = surface_price ?d (ss_log (ps_session w) @ xs) (se_shadowed prep)" for xs
      unfolding price(1) by (rule priced_log(2) [symmetric]) (rule earlier)
    have tokens: "event_tokens ?d replacement = estimate_message ?d (checkpoint_message env (ro_command opts) su)"
      using built(2) by (simp add: event_tokens_def derived_price)
    have types: "\<not> is_shadow_price closing" "\<not> is_surface_event closing"
      using built(3) by (auto simp: is_shadow_price_def is_surface_event_def is_surface_eligible_type_def SURFACE_EVENT_TYPES_def)
    have "metered_log ?d (before @ [summary, replacement])"
      by (rule commit_metered [OF r1 metered built(1) built(2) [folded sel] span(1,2) _ _ _ ret])
        (use span(3-5) sel shadowed [of "[begun] @ others"] es same in simp_all)
    then have metered': "metered_log ?d ?all"
      unfolding two_snoc using types by (simp add: metered_event_def del: append_assoc)
    have drop: "surface_price ?d ?all (nodes st2) =
        surface_price ?d before (nodes st1) - (pc_tokens prep - event_tokens ?d replacement)"
      unfolding S(2) respliced_price [OF r1 S(1)] using built(2) shadowed [of "[begun] @ others"] es same
      by (simp add: nth_append nat_add_distrib)
    have safe': "safe_int (logged_price ?d before)"
      using safe log logged_price_nonneg [of ?d before] logged_price_nonneg [of ?d "[summary, replacement, closing]"]
      by (simp add: safe_int_def)
    show ?thesis
      using metered' drop breakdown_follows [OF r1 metered safe'] breakdown_follows [OF r2 metered'] safe tokens price(2) res
      by (simp add: log)
  qed
qed

theorem compaction_shrinks_breakdown_witness:
  "\<exists>w' res. compact_surface_region example_env example_manual 1 3 example_pairing = (w', Inr res) \<and>
     metered_log (ce_digits example_env) (ss_log (ps_session w'))"
proof -
  let ?out = "compact_surface_region example_env example_manual 1 3 example_pairing"
  have "returns (snd ?out)" by code_simp
  then obtain w' res where c: "?out = (w', Inr res)" by (metis returns_iff prod.collapse)
  have s: "length (ss_log (ps_session (fst ?out))) = 10"
    "metered_log (ce_digits example_env) (take 7 (ss_log (ps_session (fst ?out))))"
    "safe_int (logged_price (ce_digits example_env) (ss_log (ps_session (fst ?out))))"
    by code_simp+
  let ?log = "ss_log (ps_session w')"
  have "?log = take 7 ?log @ [?log ! 7, ?log ! 8, ?log ! 9]"
    using s(1) c id_take_nth_drop [of 7 ?log] by (simp add: Cons_nth_drop_Suc [symmetric])
  from compaction_shrinks_breakdown [OF example_pairing_ok c this] s(2,3) c show ?thesis by auto
qed


text \<open>Events that leave the accounts of the projections alone.\<close>

definition quiet_append :: "event_data \<Rightarrow> jv option \<Rightarrow> bool" where
  "quiet_append d op \<longleftrightarrow>
     event_type d \<notin> {''compaction/summary'', ''compaction/prune''} \<and> (op = None \<or> op = Some append_op)"

lemma quiet_metered: "quiet_append (ev_data e) (ev_surface_op e) \<Longrightarrow> metered_event digits es e"
  by (auto simp: quiet_append_def metered_event_def is_shadow_price_def is_surface_event_def)

lemma quiet_meanwhile:
  assumes "from_meanwhile xs ys" and "list_all (\<lambda>(now, d, intent). quiet_append d (snd intent)) xs" and "metered_log digits es"
  shows "metered_log digits (es @ ys)"
proof -
  have "\<forall>e \<in> set ys. quiet_append (ev_data e) (ev_surface_op e)"
    using assms(1,2) by (fastforce simp: from_meanwhile_def list_all_iff)
  then show ?thesis
    by (induction ys rule: rev_induct) (use assms(3) quiet_metered in \<open>simp_all flip: append_assoc\<close>)
qed

text \<open>Every outcome of a transaction keeps a metered log metered.\<close>

lemma compaction_keeps_metered:
  assumes ok: "paired_ok w" and c: "compact_surface_region env opts start end' w = (w', r)"
    and quiet: "list_all (\<lambda>(now, d, intent). quiet_append d (snd intent)) (ce_meanwhile env)"
    and metered: "metered_log (ce_digits env) (ss_log (ps_session w))"
  shows "metered_log (ce_digits env) (ss_log (ps_session w'))"
  using ok c
proof (cases rule: compact_cases)
  case (rejected err)
  then show ?thesis using metered by (simp add: same_log_eq)
next
  case (opened v sel owner begun w1 w2 outcome ended final)
  let ?d = "ce_digits env"
  have "event_type (ev_data begun) = ''compaction/start''" "ev_surface_op begun = None" using opened(5) by simp_all
  then have "metered_log ?d (ss_log (ps_session w1))"
    unfolding opened(7) using metered by (simp add: quiet_metered quiet_append_def)
  note others = quiet_meanwhile [OF from_meanwhile_or_none quiet this]
  have "metered_log ?d (ss_log (ps_session w2))"
    using opened(6,8)
  proof (cases rule: transaction_body_cases)
    case (summary f others)
    then show ?thesis using others [OF summary(4)] by simp
  next
    case (commit f others w1' prep su body)
    have "metered_event ?d (ss_log (ps_session w1) @ others) e" if "e \<in> set body" for e
      using commit(6) that summary_metered(1) by auto
    then show ?thesis using commit(6) others [OF disjI2 [OF commit(4)]] unfolding commit(3) by (auto simp flip: append_assoc)
  next
    case (committed others w1' prep su v1 v1' summary replacement)
    obtain st reps x where r: "replay (ss_log (ps_session w)) = Inr (st, reps, x)" using paired_replays [OF ok] by blast
    have off: "ev_type begun \<notin> set SURFACE_EVENT_TYPES" using opened(5) by (simp add: build_event_def SURFACE_EVENT_TYPES_def)
    have ret: "returns (replay (ss_log (ps_session v1) @ [summary]))"
      using paired_replays [OF committed(7)] replay_prefix [of "ss_log (ps_session v1) @ [summary]" "[replacement]"]
      unfolding committed(8) by (auto simp: returns_iff)
    from ok r opened(1) committed(1) opened(6,7) off committed(4,5,6) show ?thesis
    proof (rule committed_span)
      fix st1 reps1 x1 i j
      assume S: "replay (ss_log (ps_session v1)) = Inr (st1, reps1, x1)"
        "i \<le> j" "j < length (nodes st1)" "nodes st1 ! i = start" "nodes st1 ! j = end'"
        "slice_incl i j (nodes st1) = se_shadowed prep" "set (se_shadowed prep) \<subseteq> set (nodes st)"
        and sel: "se_start prep = start" "se_end prep = end'"
        and price: "pc_tokens prep = surface_price ?d (ss_log (ps_session w)) (se_shadowed prep)"
      have "surface_price ?d (ss_log (ps_session v1)) (se_shadowed prep) = pc_tokens prep"
        unfolding committed(5) opened(7) price append_assoc using replay_nodes_less [OF r] S(7) by (intro priced_log(2)) blast
      then show ?thesis
        unfolding committed(8)
        by (intro commit_metered [OF S(1) _ committed(9,10) S(2,3) _ _ _ ret])
          (use others [OF disjI2 [OF committed(12)]] committed(5) S(4-6) sel in simp_all)
    qed
  qed
  moreover have "paired_ok w2" using opened(6,8) by (cases rule: transaction_body_cases) simp_all
  from this opened(9) have "ss_log (ps_session w') = ss_log (ps_session w2) \<or>
      (\<exists>closing. ss_log (ps_session w') = ss_log (ps_session w2) @ [closing] \<and>
         quiet_append (ev_data closing) (ev_surface_op closing))"
    by (cases rule: close_cases) (auto simp: same_log_eq quiet_append_def)
  ultimately show ?thesis using quiet_metered by auto
qed

end
