(* ===== verification/Result_Pruner.thy ===== *)
theory Result_Pruner
  imports Tool_Pairing Token_Projections
begin

text \<open>
  Model-free pruning of tool results, \<^verbatim>\<open>packages/compaction/compaction-tool-result-pruner/src\<close>: the
  character budgets (\<^verbatim>\<open>config.ts\<close>), the head-and-tail cut of one result, and the pass over the current
  surface (\<^verbatim>\<open>index.ts\<close>). The lemmas show what is kept of a result, that a pass rewrites exactly the
  results over budget and a second one finds nothing, and that pruning keeps the tool pairing and the logged
  prices, also when the session refuses an event in the middle.

  The clock and whether publication succeeds are arguments, indexed by the appends of one pass.
\<close>

section \<open>Budgets\<close>

definition PRUNE_MARKER :: string where
  "PRUNE_MARKER =
     [CHR 0x0A, CHR 0x0A] @ ''[... tool result middle pruned ...]'' @ [CHR 0x0A, CHR 0x0A]"

record prune_config =
  pr_threshold :: int
  pr_head :: int
  pr_tail :: int

definition PRUNE_DEFAULTS :: prune_config where
  "PRUNE_DEFAULTS = \<lparr>pr_threshold = 8192, pr_head = 4096, pr_tail = 1024\<rparr>"

datatype config_error = UnknownKey string | NotPositive string | NegativeOrFraction string | BudgetTooLarge int

definition code_point_length :: "string \<Rightarrow> int" where
  "code_point_length s = int (length s)"

text \<open>\<open>Number.isInteger\<close>, with the integer.\<close>

fun integer_of :: "jv \<Rightarrow> int option" where
  "integer_of (JNum (NInt n)) = Some n"
| "integer_of (JNum NNegZero) = Some 0"
| "integer_of v = None"

text \<open>\<open>config.key ?? DEFAULTS.key\<close>.\<close>

definition config_value :: "jv \<Rightarrow> string \<Rightarrow> int \<Rightarrow> jv" where
  "config_value config k d = (case jprop config k of None \<Rightarrow> jint d | Some JNull \<Rightarrow> jint d | Some v \<Rightarrow> v)"

definition assert_positive_integer :: "string \<Rightarrow> jv \<Rightarrow> config_error + int" where
  "assert_positive_integer name v =
     (case integer_of v of Some n \<Rightarrow> if n \<le> 0 then Inl (NotPositive name) else Inr n | None \<Rightarrow> Inl (NotPositive name))"

definition assert_non_negative_integer :: "string \<Rightarrow> jv \<Rightarrow> config_error + int" where
  "assert_non_negative_integer name v =
     (case integer_of v of
        Some n \<Rightarrow> if n < 0 then Inl (NegativeOrFraction name) else Inr n
      | None \<Rightarrow> Inl (NegativeOrFraction name))"

definition CONFIG_KEYS :: "string list" where
  "CONFIG_KEYS = [''thresholdChars'', ''headChars'', ''tailChars'']"

definition resolve_config :: "jv \<Rightarrow> config_error + prune_config" where
  "resolve_config config =
     (case find (\<lambda>k. k \<notin> set CONFIG_KEYS) (jkeys config) of
        Some k \<Rightarrow> Inl (UnknownKey k)
      | None \<Rightarrow>
          and_then (assert_positive_integer ''thresholdChars'' (config_value config ''thresholdChars'' (pr_threshold PRUNE_DEFAULTS)))
            (\<lambda>threshold.
          and_then (assert_non_negative_integer ''headChars'' (config_value config ''headChars'' (pr_head PRUNE_DEFAULTS)))
            (\<lambda>head.
          and_then (assert_non_negative_integer ''tailChars'' (config_value config ''tailChars'' (pr_tail PRUNE_DEFAULTS)))
            (\<lambda>tail.
             let emitted = round_double (round_double (head + code_point_length PRUNE_MARKER) + tail)
             in if threshold < emitted then Inl (BudgetTooLarge emitted)
                else Inr \<lparr>pr_threshold = threshold, pr_head = head, pr_tail = tail\<rparr>))))"

section \<open>One result\<close>

fun measure_content :: "content_block list \<Rightarrow> int" where
  "measure_content [] = 0"
| "measure_content (TextBlock s # bs) = code_point_length s + measure_content bs"
| "measure_content (b # bs) = measure_content bs"

text \<open>The loop over the blocks: the characters consumed so far and whether the marker is in.\<close>

fun prune_blocks ::
  "int \<Rightarrow> int \<Rightarrow> int \<Rightarrow> bool \<Rightarrow> content_block list \<Rightarrow> content_block list \<times> bool" where
  "prune_blocks removed_start removed_end consumed inserted [] = ([], inserted)"
| "prune_blocks removed_start removed_end consumed inserted (TextBlock s # bs) =
     (let size' = code_point_length s; block_end = consumed + size';
          head_end = min size' (max 0 (removed_start - consumed));
          tail_start = min size' (max 0 (removed_end - consumed));
          marked = consumed < removed_end \<and> removed_start < block_end \<and> \<not> inserted;
          text' = take (nat head_end) s @ (if marked then PRUNE_MARKER else []) @ drop (nat tail_start) s;
          rest = prune_blocks removed_start removed_end block_end (inserted \<or> marked) bs
      in (if text' = [] then fst rest else TextBlock text' # fst rest, snd rest))"
| "prune_blocks removed_start removed_end consumed inserted (b # bs) =
     (let rest = prune_blocks removed_start removed_end consumed inserted bs in (b # fst rest, snd rest))"

datatype prune_fault = SpanNotFound | NotSmaller

definition prune_content :: "prune_config \<Rightarrow> content_block list \<Rightarrow> prune_fault + content_block list option" where
  "prune_content cfg bs =
     (let total = measure_content bs in
      if total \<le> pr_threshold cfg then Inr None
      else
        let (pruned, inserted) = prune_blocks (pr_head cfg) (total - pr_tail cfg) 0 False bs;
            after = measure_content pruned
        in if \<not> inserted then Inl SpanNotFound
           else if pr_threshold cfg < after \<or> total \<le> after then Inl NotSmaller
           else Inr (Some pruned))"

section \<open>A pass over the surface\<close>

datatype pruner_error =
    PruneSurface surface_error
  | PruneMalformed int
  | PruneFault prune_fault
  | PruneRejected session_error

record pruned_entry =
  pe_original :: int
  pe_replacement :: int
  pe_call :: "string option"
  pe_before :: int
  pe_after :: int

record prune_env =
  pn_digits :: "jnum \<Rightarrow> string"
  pn_clock :: "nat \<Rightarrow> int"
  pn_dispatch :: "nat \<Rightarrow> bool"

text \<open>The tool results of the surface snapshot.\<close>

definition prune_candidates :: "session_event list \<Rightarrow> int list \<Rightarrow> (int \<times> session_event) list" where
  "prune_candidates events ns =
     List.map_filter (\<lambda>n. case event_at events 0 n of
        Some e \<Rightarrow> if is_tool_result (ev_data e) then Some (n, e) else None
      | None \<Rightarrow> None) ns"

definition prune_data :: "int \<Rightarrow> int \<Rightarrow> jv" where
  "prune_data seq tokens =
     JObj [(''shadowedRange'', JObj [(''start'', jint seq), (''end'', jint seq)]),
           (''shadowedSeqs'', JArr [jint seq]), (''shadowedTokenCount'', jint tokens)]"

text \<open>What becomes of one candidate: untouched, or its rewritten data with the entry that reports it.\<close>

fun rewrite_result ::
  "prune_config \<Rightarrow> int \<Rightarrow> event_data \<Rightarrow> pruner_error + (message \<times> event_data \<times> pruned_entry) option" where
  "rewrite_result cfg seq (ToolResult turn step m err meta) =
     (case msg_content m of
        ToolResultBlock i content is_error # _ \<Rightarrow>
          (case prune_content cfg content of
             Inl f \<Rightarrow> Inl (PruneFault f)
           | Inr None \<Rightarrow> Inr None
           | Inr (Some content') \<Rightarrow>
               Inr (Some (m, ToolResult turn step (m\<lparr>msg_content := [ToolResultBlock i content' is_error]\<rparr>) err meta,
                 \<lparr>pe_original = seq, pe_replacement = 0, pe_call = source_call_id m,
                  pe_before = measure_content content, pe_after = measure_content content'\<rparr>)))
      | _ \<Rightarrow> Inl (PruneMalformed seq))"
| "rewrite_result cfg seq d = Inr None"

fun prune_each ::
  "prune_env \<Rightarrow> prune_config \<Rightarrow> nat \<Rightarrow> (int \<times> session_event) list \<Rightarrow> session_obj
     \<Rightarrow> session_obj \<times> (pruner_error + pruned_entry list)" where
  "prune_each env cfg k [] s = (s, Inr [])"
| "prune_each env cfg k ((seq, e) # rest) s =
     (case rewrite_result cfg seq (ev_data e) of
        Inl err \<Rightarrow> (s, Inl err)
      | Inr None \<Rightarrow> prune_each env cfg k rest s
      | Inr (Some (m, d, entry)) \<Rightarrow>
          (case append_event False (pn_dispatch env k) (pn_clock env k)
                  (PluginEvent ''compaction/prune'' (prune_data seq (estimate_message (pn_digits env) m))) (None, None) s of
             (s1, Inl err) \<Rightarrow> (s1, Inl (PruneRejected err))
           | (s1, Inr _) \<Rightarrow>
               (case append_event False (pn_dispatch env (k + 1)) (pn_clock env (k + 1)) d
                       (Some (JArr [jint seq]), Some (replace_op seq seq)) s1 of
                  (s2, Inl err) \<Rightarrow> (s2, Inl (PruneRejected err))
                | (s2, Inr replacement) \<Rightarrow>
                    (case prune_each env cfg (k + 2) rest s2 of
                       (s3, Inl err) \<Rightarrow> (s3, Inl err)
                     | (s3, Inr entries) \<Rightarrow> (s3, Inr (entry\<lparr>pe_replacement := ev_seq replacement\<rparr> # entries))))))"

definition prune_session ::
  "prune_env \<Rightarrow> prune_config \<Rightarrow> session_obj \<Rightarrow> session_obj \<times> (pruner_error + pruned_entry list \<times> int)" where
  "prune_session env cfg s =
     (case read_surface s of
        (s1, Inl err) \<Rightarrow> (s1, Inl (PruneSurface err))
      | (s1, Inr (ns, _)) \<Rightarrow>
          (case session_events s1 of (s2, events) \<Rightarrow>
             (case prune_each env cfg 0 (prune_candidates events ns) s2 of
                (s3, Inl err) \<Rightarrow> (s3, Inl err)
              | (s3, Inr entries) \<Rightarrow>
                  (s3, Inr (entries, sum_list (map (\<lambda>p. pe_before p - pe_after p) entries))))))"

section \<open>What is kept of a result\<close>

fun content_text :: "content_block list \<Rightarrow> string" where
  "content_text [] = []"
| "content_text (TextBlock s # bs) = s @ content_text bs"
| "content_text (b # bs) = content_text bs"

fun is_text_block :: "content_block \<Rightarrow> bool" where
  "is_text_block (TextBlock s) = True"
| "is_text_block b = False"

lemma measure_content_text: "measure_content bs = int (length (content_text bs))"
  by (induction bs rule: measure_content.induct) (simp_all add: code_point_length_def)

lemma prune_blocks_others:
  "filter (\<lambda>b. \<not> is_text_block b) (fst (prune_blocks a b c m bs)) = filter (\<lambda>b. \<not> is_text_block b) bs"
  by (induction a b c m bs rule: prune_blocks.induct) (simp_all add: Let_def)

lemma clipped:
  "take (nat (min (int (length s)) (max 0 x))) s = take (nat x) s"
  "drop (nat (min (int (length s)) (max 0 x))) s = drop (nat x) s"
  by (cases "int (length s) \<le> x"; cases "0 \<le> x"; simp add: min_def max_def)+

lemma content_text_if: "content_text (if t = [] then bs else TextBlock t # bs) = t @ content_text bs"
  by simp

text \<open>The kept text, from any point of the loop on.\<close>

lemma prune_blocks_text:
  assumes "a < b" and "m \<or> c \<le> a \<or> b \<le> c"
  shows "content_text (fst (prune_blocks a b c m bs)) =
      take (nat (a - c)) (content_text bs) @
      (if c < b \<and> a < c + measure_content bs \<and> \<not> m then PRUNE_MARKER else []) @
      drop (nat (b - c)) (content_text bs) \<and>
    snd (prune_blocks a b c m bs) = (m \<or> c < b \<and> a < c + measure_content bs)"
  using assms
proof (induction a b c m bs rule: prune_blocks.induct)
  case (2 a b c m s bs)
  let ?n = "int (length s)" and ?t = "measure_content bs"
  let ?marked = "c < b \<and> a < c + ?n \<and> \<not> m"
  have t: "0 \<le> ?t" by (simp add: measure_content_text)
  let ?rest = "prune_blocks a b (c + ?n) (m \<or> ?marked) bs"
  have step: "content_text (fst (prune_blocks a b c m (TextBlock s # bs))) =
      take (nat (a - c)) s @ (if ?marked then PRUNE_MARKER else []) @ drop (nat (b - c)) s @ content_text (fst ?rest)"
    "snd (prune_blocks a b c m (TextBlock s # bs)) = snd ?rest"
    by (simp_all only: prune_blocks.simps Let_def fst_conv snd_conv content_text_if code_point_length_def clipped
        append_assoc)
  have "(m \<or> ?marked) \<or> c + ?n \<le> a \<or> b \<le> c + ?n" using 2(3) by linarith
  note IH = 2(1) [unfolded code_point_length_def, OF refl refl refl refl refl refl 2(2) this]
  have skip: "nat (x - (c + ?n)) = nat (x - c) - length s" for x by simp
  show ?case
  proof (cases "c + ?n \<le> a")
    case True
    then have "take (nat (a - c)) s = s" "drop (nat (b - c)) s = []" using 2(2) by simp_all
    then show ?thesis unfolding step IH [THEN conjunct1] IH [THEN conjunct2] using True 2(2) t
      by (auto simp: code_point_length_def skip algebra_simps)
  next
    case False
    then have "nat (a - c) - length s = 0" by simp
    then show ?thesis unfolding step IH [THEN conjunct1] IH [THEN conjunct2] using False 2(2) t
      by (cases "c < b"; cases m) (auto simp: code_point_length_def skip)
  qed
qed (auto simp: Let_def)

text \<open>A checked budget leaves room for the marker.\<close>

definition budget_ok :: "prune_config \<Rightarrow> bool" where
  "budget_ok cfg \<longleftrightarrow> 0 < pr_threshold cfg \<and> 0 \<le> pr_head cfg \<and> 0 \<le> pr_tail cfg \<and>
     pr_head cfg + code_point_length PRUNE_MARKER + pr_tail cfg \<le> pr_threshold cfg"

lemma marker_length: "code_point_length PRUNE_MARKER = 39"
  by (simp add: code_point_length_def PRUNE_MARKER_def)

lemma resolve_config_ok:
  assumes "resolve_config config = Inr cfg" and "safe_int (pr_threshold cfg)"
  shows "budget_ok cfg"
proof -
  let ?n = "round_double (round_double (pr_head cfg + 39) + pr_tail cfg)"
  have c: "0 < pr_threshold cfg" "0 \<le> pr_head cfg" "0 \<le> pr_tail cfg" "?n \<le> pr_threshold cfg"
    using assms(1)
    by (auto simp: resolve_config_def assert_positive_integer_def assert_non_negative_integer_def result_simps
        Let_def marker_length split: option.splits if_splits)
  have nonneg: "0 \<le> round_double (pr_head cfg + 39)" "0 \<le> ?n" using c by (simp_all add: round_double_def)
  then have safe: "safe_int ?n" using c(4) assms(2) by (simp add: safe_int_def)
  then have outer: "safe_int (round_double (pr_head cfg + 39) + pr_tail cfg)" by simp
  then have "safe_int (round_double (pr_head cfg + 39))" using nonneg c(3) by (simp add: safe_int_def)
  moreover have "?n = round_double (pr_head cfg + 39) + pr_tail cfg" using outer by simp
  ultimately show ?thesis using c by (simp add: budget_ok_def marker_length)
qed

lemma prune_content_over:
  assumes "budget_ok cfg" and "pr_threshold cfg < measure_content bs"
  obtains out where "prune_content cfg bs = Inr (Some out)"
    "content_text out = take (nat (pr_head cfg)) (content_text bs) @ PRUNE_MARKER @
       drop (nat (measure_content bs - pr_tail cfg)) (content_text bs)"
    "filter (\<lambda>b. \<not> is_text_block b) out = filter (\<lambda>b. \<not> is_text_block b) bs"
    "measure_content out = pr_head cfg + code_point_length PRUNE_MARKER + pr_tail cfg"
proof -
  let ?b = "measure_content bs - pr_tail cfg"
  let ?p = "prune_blocks (pr_head cfg) ?b 0 False bs"
  have ab: "pr_head cfg < ?b" "0 \<le> pr_head cfg" "0 \<le> pr_tail cfg" "pr_head cfg < measure_content bs" "0 < ?b"
    using assms by (auto simp: budget_ok_def marker_length)
  have kept: "content_text (fst ?p) = take (nat (pr_head cfg)) (content_text bs) @ PRUNE_MARKER @
      drop (nat ?b) (content_text bs)" and marked: "snd ?p"
    using prune_blocks_text [OF ab(1), of False 0 bs] ab by simp_all
  moreover have after: "measure_content (fst ?p) = pr_head cfg + code_point_length PRUNE_MARKER + pr_tail cfg"
    unfolding measure_content_text [of "fst ?p"] kept using ab
    by (simp add: code_point_length_def measure_content_text [of bs] min_def)
  moreover have "prune_content cfg bs = Inr (Some (fst ?p))"
    using assms marked after by (cases ?p) (simp add: prune_content_def budget_ok_def Let_def)
  ultimately show thesis using that prune_blocks_others by blast
qed

lemma prune_content_under: "measure_content bs \<le> pr_threshold cfg \<Longrightarrow> prune_content cfg bs = Inr None"
  by (simp add: prune_content_def)

lemma prune_content_Inr:
  assumes "prune_content cfg bs = Inr (Some out)"
  shows "pr_threshold cfg < measure_content bs" "measure_content out \<le> pr_threshold cfg"
  using assms by (auto simp: prune_content_def Let_def split: if_splits prod.splits)

text \<open>C30. Pruning keeps the two ends of a tool result: content within the threshold is left alone, and of any other
  the text becomes the configured head, the marker and the configured tail, with every non-text block
  kept in order; the result is within the threshold and strictly smaller. The two internal checks
  never fail under a resolved configuration.\<close>

theorem pruned_content_keeps_ends:
  assumes "resolve_config config = Inr cfg" and "safe_int (pr_threshold cfg)"
  shows "if measure_content bs \<le> pr_threshold cfg then prune_content cfg bs = Inr None
    else \<exists>out. prune_content cfg bs = Inr (Some out) \<and>
      content_text out = take (nat (pr_head cfg)) (content_text bs) @ PRUNE_MARKER @
        drop (nat (measure_content bs - pr_tail cfg)) (content_text bs) \<and>
      filter (\<lambda>b. \<not> is_text_block b) out = filter (\<lambda>b. \<not> is_text_block b) bs \<and>
      measure_content out = pr_head cfg + code_point_length PRUNE_MARKER + pr_tail cfg \<and>
      measure_content out \<le> pr_threshold cfg \<and> measure_content out < measure_content bs"
proof (cases "measure_content bs \<le> pr_threshold cfg")
  case True
  then show ?thesis by (simp add: prune_content_under)
next
  case False
  have ok: "budget_ok cfg" by (rule resolve_config_ok [OF assms])
  obtain out where out: "prune_content cfg bs = Inr (Some out)"
    "content_text out = take (nat (pr_head cfg)) (content_text bs) @ PRUNE_MARKER @
       drop (nat (measure_content bs - pr_tail cfg)) (content_text bs)"
    "filter (\<lambda>b. \<not> is_text_block b) out = filter (\<lambda>b. \<not> is_text_block b) bs"
    "measure_content out = pr_head cfg + code_point_length PRUNE_MARKER + pr_tail cfg"
    using prune_content_over [OF ok, of bs] False by auto
  then show ?thesis using ok False prune_content_Inr(2) [OF out(1)] by (auto simp: budget_ok_def)
qed

section \<open>The surface after a pass\<close>

definition surface_data :: "session_event list \<Rightarrow> int list \<Rightarrow> event_data list" where
  "surface_data es ns = map (\<lambda>n. ev_data (es ! nat n)) ns"

text \<open>The data of a surface entry after pruning.\<close>

definition pruned_data :: "prune_config \<Rightarrow> event_data \<Rightarrow> event_data" where
  "pruned_data cfg d = (case rewrite_result cfg 0 d of Inr (Some (m, d', entry)) \<Rightarrow> d' | _ \<Rightarrow> d)"

lemma rewrite_result_Some:
  assumes "rewrite_result cfg seq d = Inr (Some (m, d', entry))"
  obtains turn step err meta i content is_error rest content' where
    "d = ToolResult turn step m err meta" "msg_content m = ToolResultBlock i content is_error # rest"
    "prune_content cfg content = Inr (Some content')"
    "d' = ToolResult turn step (m\<lparr>msg_content := [ToolResultBlock i content' is_error]\<rparr>) err meta"
    "entry = \<lparr>pe_original = seq, pe_replacement = 0, pe_call = source_call_id m,
              pe_before = measure_content content, pe_after = measure_content content'\<rparr>"
  using assms by (cases d) (auto split: list.splits content_block.splits sum.splits option.splits)

lemma rewrite_result_seq: "rewrite_result cfg seq d = Inr None \<longleftrightarrow> rewrite_result cfg 0 d = Inr None"
  "rewrite_result cfg seq d = Inr (Some (m, d', entry)) \<Longrightarrow>
     rewrite_result cfg 0 d = Inr (Some (m, d', entry\<lparr>pe_original := 0\<rparr>))"
  by (cases d; auto split: list.splits content_block.splits sum.splits option.splits)+

lemma pruned_data_simps:
  "rewrite_result cfg seq d = Inr None \<Longrightarrow> pruned_data cfg d = d"
  "rewrite_result cfg seq d = Inr (Some (m, d', entry)) \<Longrightarrow> pruned_data cfg d = d'"
  "\<not> is_tool_result d \<Longrightarrow> pruned_data cfg d = d"
  using rewrite_result_seq(1) [of cfg seq d] rewrite_result_seq(2) [of cfg seq d m d' entry]
  by (auto simp: pruned_data_def) (cases d; simp)

lemma pruned_data_kept:
  "event_delta (pruned_data cfg d) = event_delta d" "is_tool_result (pruned_data cfg d) = is_tool_result d"
  by (cases "rewrite_result cfg 0 d"; auto simp: pruned_data_def split: option.splits elim!: rewrite_result_Some)+

text \<open>One rewrite, if both events are accepted.\<close>

lemma rewrite_step:
  assumes s: "session_ok s" and r: "replay (ss_log s) = Inr (st, reps, x)" and ns: "nodes st = pre @ seq # post"
    and d: "rewrite_result cfg seq (ev_data (ss_log s ! nat seq)) = Inr (Some (m, d, entry))"
    and p: "append_event False dp tp (PluginEvent ''compaction/prune'' (prune_data seq (estimate_message digits m))) (None, None) s =
      (s1, Inr p)"
    and q: "append_event False dq tq d (Some (JArr [jint seq]), Some (replace_op seq seq)) s1 = (s2, Inr q)"
  obtains st2 reps2 x2 where "session_ok s2" "ss_log s2 = ss_log s @ [p, q]" "ev_seq q = int (length (ss_log s) + 1)"
    "replay (ss_log s2) = Inr (st2, reps2, x2)" "nodes st2 = pre @ [ev_seq q] @ post" "ev_data q = d"
    "metered_log digits (ss_log s) \<longrightarrow> metered_log digits (ss_log s2)"
proof -
  obtain p': "p = build_event (ss_log s) (PluginEvent ''compaction/prune'' (prune_data seq (estimate_message digits m))) (None, None) tp"
    "ss_log s1 = ss_log s @ [p]" and ok1: "session_ok s1"
    using p session_ok_append [OF s p] by (cases rule: append_event_cases) (auto simp: push_event_def)
  have q': "q = build_event (ss_log s1) d (Some (JArr [jint seq]), Some (replace_op seq seq)) tq"
    "ss_log s2 = ss_log s @ [p, q]" and ok2: "session_ok s2"
    using q session_ok_append [OF ok1 q] p'(2) by (cases rule: append_event_cases; simp add: push_event_def)+
  from d obtain turn step err meta m' where tool: "ev_data (ss_log s ! nat seq) = ToolResult turn step m err meta"
    "d = ToolResult turn step m' err meta"
    by (rule rewrite_result_Some)
  obtain st1 reps1 x1 where r1: "replay (ss_log s @ [p]) = Inr (st1, reps1, x1)"
    using session_replays [OF ok1] p'(2) by auto
  obtain st2 reps2 x2 where r2: "replay ((ss_log s @ [p]) @ [q]) = Inr (st2, reps2, x2)"
    using session_replays [OF ok2] q'(2) by auto
  have type_q: "ev_type q \<in> set SURFACE_EVENT_TYPES" "\<not> is_shadow_price q"
    using q'(1) tool(2) by (simp_all add: build_event_def SURFACE_EVENT_TYPES_def is_shadow_price_def)
  have type_p: "is_shadow_price p" "\<not> is_surface_event p" "ev_type p \<notin> set SURFACE_EVENT_TYPES"
    using p'(1) by (simp_all add: build_event_def SURFACE_EVENT_TYPES_def is_shadow_price_def is_surface_event_def)
  have nodes1: "nodes st1 = pre @ seq # post" using replay_off_surface [OF r1 r type_p(3)] ns by simp
  have op: "ev_surface_op q = Some (replace_op seq seq)" using q'(1) by (simp add: build_event_def)
  obtain i j where ij: "i \<le> j" "j < length (nodes st1)" "nodes st1 ! i = seq" "nodes st1 ! j = seq"
    "nodes st2 = splice_one i j (int (length (ss_log s @ [p]))) (nodes st1)"
    using replay_replacement [OF r2 r1 type_q(1) op] by blast
  have "nodes st1 ! length pre = seq" "length pre < length (nodes st1)" using nodes1 by simp_all
  then have at': "i = length pre" "j = length pre"
    using ij(1-4) nth_eq_iff_index_eq [OF replay_distinct [OF r1]] by (metis le_less_trans)+
  have seq: "ev_seq q = int (length (ss_log s) + 1)" using q'(1) p'(2) by (simp add: build_event_def)
  have nodes2: "nodes st2 = pre @ [ev_seq q] @ post"
    using ij(5) nodes1 seq unfolding at' by (simp add: splice_one_def)
  have named: "nat seq < length (ss_log s)" using replay_nodes_less [OF r, of seq] ns by simp
  have claim: "claim_of p = Some \<lparr>sc_start = NInt seq, sc_end = NInt seq, sc_tokens = NInt (estimate_message digits m)\<rparr>"
    using p'(1) by (simp add: claim_of_def build_event_def prune_data_def)
  have price: "estimate_message digits m = surface_price digits (ss_log s @ [p]) (slice_incl (length pre) (length pre) (nodes st1))"
    using nodes1 named tool(1) by (simp add: slice_incl_def surface_price_def nth_append event_tokens_def)
  have "metered_event digits (ss_log s) p" using type_p claim by (simp add: metered_event_def)
  moreover have "metered_event digits (ss_log s @ [p]) q"
    by (rule replacement_metered [OF r1 _ op type_q(2) le_refl _ _ _ price])
      (use nodes1 claim type_p in \<open>simp_all add: armed_after_def\<close>)
  moreover have "ss_log s2 = (ss_log s @ [p]) @ [q]" using q'(2) by simp
  ultimately have "metered_log digits (ss_log s) \<longrightarrow> metered_log digits (ss_log s2)" by (simp del: append_assoc)
  moreover have "ev_data q = d" using q'(1) by (simp add: build_event_def)
  ultimately show thesis using that [OF ok2 q'(2) seq _ nodes2] r2 q'(2) by simp
qed

text \<open>A pass prunes a prefix of its candidates, all of them unless it fails.\<close>

lemma prune_candidates_simps [simp]:
  "prune_candidates es [] = []"
  "0 \<le> n \<Longrightarrow> nat n < length es \<Longrightarrow> prune_candidates es (n # ns) =
     (if is_tool_result (ev_data (es ! nat n)) then [(n, es ! nat n)] else []) @ prune_candidates es ns"
  by (simp_all add: prune_candidates_def List.map_filter_def event_at_def)

lemma surface_data_simps [simp]:
  "surface_data es [] = []" "surface_data es (n # ns) = ev_data (es ! nat n) # surface_data es ns"
  "surface_data es (ns @ ms) = surface_data es ns @ surface_data es ms" "length (surface_data es ns) = length ns"
  by (simp_all add: surface_data_def)

lemma surface_data_log:
  "(\<And>n. n \<in> set ns \<Longrightarrow> nat n < length es) \<Longrightarrow> surface_data (es @ xs) ns = surface_data es ns"
  by (simp add: surface_data_def nth_append)

text \<open>What holds of a pass that started on \<open>pre @ todo\<close>, with \<open>pre\<close> done.\<close>

definition pass_effect ::
  "prune_env \<Rightarrow> prune_config \<Rightarrow> session_obj \<Rightarrow> int list \<Rightarrow> int list \<Rightarrow> session_obj \<Rightarrow> bool \<Rightarrow> bool" where
  "pass_effect env cfg s pre todo s' finished \<longleftrightarrow>
     session_ok s' \<and> (\<exists>ys st reps x todo' j.
       ss_log s' = ss_log s @ ys \<and> replay (ss_log s') = Inr (st, reps, x) \<and> nodes st = pre @ todo' \<and>
       (finished \<longrightarrow> j = length todo) \<and>
       surface_data (ss_log s') todo' =
         map (pruned_data cfg) (take j (surface_data (ss_log s) todo)) @ drop j (surface_data (ss_log s) todo) \<and>
       (metered_log (pn_digits env) (ss_log s) \<longrightarrow> metered_log (pn_digits env) (ss_log s')))"

lemma replay_off_events:
  assumes "replay (es @ ys) = Inr (st', reps', x')" "replay es = Inr (st, reps, x)" "list_all (\<lambda>e. \<not> is_surface_event e) ys"
  shows "nodes st' = nodes st"
  using assms
proof (induction ys arbitrary: st' reps' x' rule: rev_induct)
  case (snoc y ys)
  obtain st1 reps1 x1 where r1: "replay (es @ ys) = Inr (st1, reps1, x1)"
    using replay_prefix [of "es @ ys" "[y]"] snoc.prems(1) by auto
  from snoc.prems(1) have "replay ((es @ ys) @ [y]) = Inr (st', reps', x')" by simp
  then have "nodes st' = nodes st1" using r1 snoc.prems(3) by (cases rule: replay_surface_cases) simp_all
  then show ?case using snoc.IH [OF r1 snoc.prems(2)] snoc.prems(3) by simp
qed simp

lemma pass_effect_stopped:
  assumes s: "session_ok s" and r: "replay (ss_log s) = Inr (st, reps, x)" and ns: "nodes st = pre @ todo"
    and s': "session_ok s'" "ss_log s' = ss_log s @ ys" "list_all (\<lambda>e. \<not> is_surface_event e) ys"
    and m: "metered_log (pn_digits env) (ss_log s) \<longrightarrow> metered_log (pn_digits env) (ss_log s')"
    and f: "finished \<Longrightarrow> todo = []"
  shows "pass_effect env cfg s pre todo s' finished"
proof -
  obtain st' reps' x' where r': "replay (ss_log s') = Inr (st', reps', x')" using session_replays [OF s'(1)] by blast
  have "nodes st' = pre @ todo" using replay_off_events [OF r' [unfolded s'(2)] r s'(3)] ns by simp
  moreover have "surface_data (ss_log s') todo = surface_data (ss_log s) todo"
    unfolding s'(2) using replay_nodes_less [OF r] ns by (intro surface_data_log) simp
  ultimately show ?thesis
    unfolding pass_effect_def using s'(1,2) r' m f
    by (intro conjI exI [of _ ys] exI [of _ st'] exI [of _ reps'] exI [of _ x'] exI [of _ todo] exI [of _ 0]) auto
qed

text \<open>A pass on the rest, after one entry was kept or rewritten.\<close>

lemma pass_effect_next:
  assumes e: "pass_effect env cfg s1 (pre @ [n']) todo s' finished"
    and s1: "ss_log s1 = ss_log s @ ys" "metered_log (pn_digits env) (ss_log s) \<longrightarrow> metered_log (pn_digits env) (ss_log s1)"
    and n': "nat n' < length (ss_log s1)" "ev_data (ss_log s1 ! nat n') = pruned_data cfg (ev_data (ss_log s ! nat n))"
    and todo: "\<And>k. k \<in> set todo \<Longrightarrow> nat k < length (ss_log s)"
  shows "pass_effect env cfg s pre (n # todo) s' finished"
proof -
  obtain zs st reps x todo' j where z: "session_ok s'" "ss_log s' = ss_log s1 @ zs" "replay (ss_log s') = Inr (st, reps, x)"
    "nodes st = (pre @ [n']) @ todo'" "finished \<longrightarrow> j = length todo"
    "surface_data (ss_log s') todo' =
       map (pruned_data cfg) (take j (surface_data (ss_log s1) todo)) @ drop j (surface_data (ss_log s1) todo)"
    "metered_log (pn_digits env) (ss_log s1) \<longrightarrow> metered_log (pn_digits env) (ss_log s')"
    using e unfolding pass_effect_def by blast
  have same: "surface_data (ss_log s1) todo = surface_data (ss_log s) todo"
    unfolding s1(1) by (rule surface_data_log) (rule todo)
  have "ev_data (ss_log s' ! nat n') = pruned_data cfg (ev_data (ss_log s ! nat n))"
    using z(2) n' by (simp add: nth_append)
  then show ?thesis
    unfolding pass_effect_def using z s1 same
    by (intro conjI exI [of _ "ys @ zs"] exI [of _ st] exI [of _ reps] exI [of _ x] exI [of _ "n' # todo'"] exI [of _ "Suc j"])
      auto
qed

lemma prune_each_rewrite:
  assumes s: "session_ok s" and r: "replay (ss_log s) = Inr (st, reps, x)" and ns: "nodes st = pre @ n # todo"
    and d: "rewrite_result cfg n (ev_data (ss_log s ! nat n)) = Inr (Some (m, d, entry))"
    and p: "prune_each env cfg k ((n, ss_log s ! nat n) # rest) s = (s', r')"
  obtains (stopped) ys err where "r' = Inl err" "session_ok s'" "ss_log s' = ss_log s @ ys"
      "list_all (\<lambda>e. \<not> is_surface_event e) ys"
      "metered_log (pn_digits env) (ss_log s) \<longrightarrow> metered_log (pn_digits env) (ss_log s')"
  | (rewritten) s2 y q st2 reps2 x2 r2 where "session_ok s2" "ss_log s2 = ss_log s @ [y, q]"
      "ev_seq q = int (length (ss_log s) + 1)" "replay (ss_log s2) = Inr (st2, reps2, x2)"
      "nodes st2 = pre @ [ev_seq q] @ todo" "ev_data q = d"
      "metered_log (pn_digits env) (ss_log s) \<longrightarrow> metered_log (pn_digits env) (ss_log s2)"
      "prune_each env cfg (k + 2) rest s2 = (s', r2)" "returns r' = returns r2"
proof -
  let ?p = "PluginEvent ''compaction/prune'' (prune_data n (estimate_message (pn_digits env) m))"
  obtain s1 v where a: "append_event False (pn_dispatch env k) (pn_clock env k) ?p (None, None) s = (s1, v)" by fastforce
  from s a show thesis
  proof (cases rule: append_log_cases)
    case (refused err)
    then show thesis using stopped [of "PruneRejected err" "[]"] p a d by simp
  next
    case (appended y)
    obtain s2 w where b: "append_event False (pn_dispatch env (k + 1)) (pn_clock env (k + 1)) d
        (Some (JArr [jint n]), Some (replace_op n n)) s1 = (s2, w)" by fastforce
    have off: "\<not> is_surface_event y" "is_shadow_price y" "claim_of y \<noteq> None"
      using appended(2)
      by (simp_all add: build_event_def is_surface_event_def is_shadow_price_def claim_of_def prune_data_def)
    show thesis
    proof (cases w)
      case (Inl err)
      have "ss_log s2 = ss_log s1" using b Inl by (cases rule: append_event_cases) simp_all
      moreover have "session_ok s2" by (rule session_ok_append [OF appended(4) b])
      ultimately show thesis
        using stopped [of "PruneRejected err" "[y]"] p a b d appended(1,3) Inl off by (simp add: metered_event_def)
    next
      case (Inr q)
      obtain st2 reps2 x2 where R: "session_ok s2" "ss_log s2 = ss_log s @ [y, q]" "ev_seq q = int (length (ss_log s) + 1)"
        "replay (ss_log s2) = Inr (st2, reps2, x2)" "nodes st2 = pre @ [ev_seq q] @ todo" "ev_data q = d"
        "metered_log (pn_digits env) (ss_log s) \<longrightarrow> metered_log (pn_digits env) (ss_log s2)"
        using rewrite_step [OF s r ns d a [unfolded appended(1)] b [unfolded Inr]] .
      obtain s3 u where c: "prune_each env cfg (k + 2) rest s2 = (s3, u)" by fastforce
      have "s' = s3" "returns r' = returns u" using p a b c d appended(1) Inr by (auto split: sum.splits)
      then show thesis using rewritten [OF R _ ] c by simp
    qed
  qed
qed

lemma prune_each_effect:
  assumes "session_ok s" "replay (ss_log s) = Inr (st, reps, x)" "nodes st = pre @ todo"
    and "ss_log s = events @ xs" "\<And>n. n \<in> set todo \<Longrightarrow> 0 \<le> n \<and> nat n < length events"
    and "prune_each env cfg k (prune_candidates events todo) s = (s', r)"
  shows "pass_effect env cfg s pre todo s' (returns r)"
  using assms
proof (induction todo arbitrary: s st reps x pre xs k s' r)
  case Nil
  then show ?case by (intro pass_effect_stopped [where ys = "[]"]) auto
next
  case (Cons n todo)
  let ?d = "ev_data (events ! nat n)"
  note s = Cons.prems(1) and r0 = Cons.prems(2) and ns = Cons.prems(3)
  have n: "0 \<le> n" "nat n < length events" using Cons.prems(5) by auto
  have todo: "0 \<le> k \<and> nat k < length events" if "k \<in> set todo" for k using Cons.prems(5) that by auto
  have earlier: "nat k < length (ss_log s)" if "k \<in> set todo" for k using todo [OF that] Cons.prems(4) by simp
  have event: "ss_log s ! nat n = events ! nat n" "nat n < length (ss_log s)"
    using n Cons.prems(4) by (simp_all add: nth_append)
  have skip: "pass_effect env cfg s pre (n # todo) s' (returns r)"
    if "prune_each env cfg k (prune_candidates events todo) s = (s', r)" "pruned_data cfg ?d = ?d"
  proof (rule pass_effect_next [where ys = "[]"])
    show "pass_effect env cfg s (pre @ [n]) todo s' (returns r)"
      by (rule Cons.IH [OF s r0 _ Cons.prems(4) todo that(1)]) (simp add: ns)
  qed (use event that(2) earlier in simp_all)
  show ?case
  proof (cases "rewrite_result cfg n ?d")
    case (Inl err)
    then have "is_tool_result ?d" by (cases ?d) simp_all
    then have "s' = s" "r = Inl err" using Cons.prems(6) n Inl by simp_all
    then show ?thesis using s r0 ns by (intro pass_effect_stopped [where ys = "[]"]) auto
  next
    case (Inr o')
    show ?thesis
    proof (cases o')
      case None
      then show ?thesis
        using skip Cons.prems(6) n Inr pruned_data_simps(1) by (cases "is_tool_result ?d") simp_all
    next
      case (Some t)
      then obtain m d entry where t: "rewrite_result cfg n ?d = Inr (Some (m, d, entry))" using Inr by (cases t) simp
      then have "is_tool_result ?d" by (cases ?d) simp_all
      then have run: "prune_each env cfg k ((n, ss_log s ! nat n) # prune_candidates events todo) s = (s', r)"
        using Cons.prems(6) n event by simp
      have t': "rewrite_result cfg n (ev_data (ss_log s ! nat n)) = Inr (Some (m, d, entry))" using t event by simp
      from s r0 ns t' run show ?thesis
      proof (cases rule: prune_each_rewrite)
        case (stopped ys err)
        then show ?thesis using s r0 ns by (intro pass_effect_stopped [where ys = ys]) auto
      next
        case (rewritten s2 y q st2 reps2 x2 r2)
        have "pass_effect env cfg s2 (pre @ [ev_seq q]) todo s' (returns r2)"
          by (rule Cons.IH [OF rewritten(1,4) _ _ todo rewritten(8)]) (use rewritten(2,5) Cons.prems(4) in simp_all)
        then show ?thesis
          unfolding rewritten(9)
        proof (rule pass_effect_next [OF _ rewritten(2,7)])
          show "nat (ev_seq q) < length (ss_log s2)" using rewritten(2,3) by simp
          show "ev_data (ss_log s2 ! nat (ev_seq q)) = pruned_data cfg (ev_data (ss_log s ! nat n))"
            using rewritten(2,3,6) pruned_data_simps(2) [OF t'] by (simp add: nth_append nat_add_distrib)
        qed (use earlier in simp_all)
      qed
    qed
  qed
qed

text \<open>A pass as a whole, whatever happened to it.\<close>

lemma prune_session_each:
  assumes s: "session_ok s" and r: "replay (ss_log s) = Inr (st, reps, x)" and p: "prune_session env cfg s = (s', res)"
  obtains s0 r' where "session_ok s0" "ss_log s0 = ss_log s" "prune_each env cfg 0 (prune_candidates (ss_log s) (nodes st)) s0 = (s', r')"
    "res = (case r' of Inl err \<Rightarrow> Inl err
       | Inr entries \<Rightarrow> Inr (entries, sum_list (map (\<lambda>p. pe_before p - pe_after p) entries)))"
proof -
  obtain s1 where s1: "read_surface s = (s1, Inr (nodes st, replace_generation st))" "session_ok s1" "ss_log s1 = ss_log s"
    using read_surface_replay [OF s r] .
  obtain s0 es where e: "session_events s1 = (s0, es)" by fastforce
  note E = session_events_log [OF s1(2) e]
  show thesis
    using that [of s0 "snd (prune_each env cfg 0 (prune_candidates (ss_log s) (nodes st)) s0)"] E s1 e p
    by (auto simp: prune_session_def split: prod.splits sum.splits)
qed

lemma prune_session_effect:
  assumes s: "session_ok s" and r: "replay (ss_log s) = Inr (st, reps, x)" and p: "prune_session env cfg s = (s', res)"
  shows "pass_effect env cfg s [] (nodes st) s' (returns res)"
proof -
  obtain s0 r' where s0: "session_ok s0" "ss_log s0 = ss_log s"
    "prune_each env cfg 0 (prune_candidates (ss_log s) (nodes st)) s0 = (s', r')"
    and res: "res = (case r' of Inl err \<Rightarrow> Inl err
      | Inr entries \<Rightarrow> Inr (entries, sum_list (map (\<lambda>p. pe_before p - pe_after p) entries)))"
    using prune_session_each [OF assms] .
  have same: "returns res = returns r'" using res by (cases r') simp_all
  have "pass_effect env cfg s0 [] (nodes st) s' (returns r')"
    by (rule prune_each_effect [OF s0(1) _ _ _ _ s0(3), where xs = "[]"]) (use r s0(2) replay_nodes_less [OF r] in auto)
  then show ?thesis using s0(2) same by (simp add: pass_effect_def)
qed

text \<open>Pruning does not open or close a tool call.\<close>

lemma open_calls_data: "open_calls es ns = sum_list (map event_delta (surface_data es ns))"
  by (simp add: open_calls_def surface_data_def comp_def)

lemma pruned_prefix_delta:
  "map event_delta (map (pruned_data cfg) (take j ds) @ drop j ds) = map event_delta ds"
  by (simp add: pruned_data_kept comp_def flip: take_map drop_map)

lemma same_deltas_paired:
  assumes "map event_delta (surface_data es' ns') = map event_delta (surface_data es ns)"
  shows "well_paired es' ns' \<longleftrightarrow> well_paired es ns"
proof -
  have len: "length ns' = length ns" using arg_cong [OF assms, of length] by simp
  have "open_calls es' (take k ns') = open_calls es (take k ns)" for k
    using arg_cong [OF assms, of "take k"] by (simp add: open_calls_data take_map surface_data_def)
  then show ?thesis by (simp add: well_paired_iff len)
qed

text \<open>C29. Pruning keeps the accounts, even when the session refuses one of its events in the middle: the session stays
  well-formed, the surface keeps its length and its order, a prefix of it is pruned and the rest is
  untouched, no tool call loses its result, and a metered log stays metered.\<close>

theorem pruning_keeps_accounts:
  assumes "session_ok s" and "replay (ss_log s) = Inr (st, reps, x)" and "prune_session env cfg s = (s', res)"
  shows "session_ok s' \<and> (\<exists>st' reps' x' j. replay (ss_log s') = Inr (st', reps', x') \<and>
    surface_data (ss_log s') (nodes st') =
      map (pruned_data cfg) (take j (surface_data (ss_log s) (nodes st))) @ drop j (surface_data (ss_log s) (nodes st)) \<and>
    (well_paired (ss_log s') (nodes st') = well_paired (ss_log s) (nodes st)) \<and>
    (metered_log (pn_digits env) (ss_log s) \<longrightarrow> metered_log (pn_digits env) (ss_log s')))"
proof -
  obtain st' reps' x' j where e: "session_ok s'" "replay (ss_log s') = Inr (st', reps', x')"
    "surface_data (ss_log s') (nodes st') =
      map (pruned_data cfg) (take j (surface_data (ss_log s) (nodes st))) @ drop j (surface_data (ss_log s) (nodes st))"
    "metered_log (pn_digits env) (ss_log s) \<longrightarrow> metered_log (pn_digits env) (ss_log s')"
    using prune_session_effect [OF assms] unfolding pass_effect_def by auto
  have "well_paired (ss_log s') (nodes st') = well_paired (ss_log s) (nodes st)"
    by (rule same_deltas_paired) (simp only: e(3) pruned_prefix_delta)
  then show ?thesis using e by blast
qed

section \<open>A pass that is published succeeds\<close>

definition has_result_block :: "event_data \<Rightarrow> bool" where
  "has_result_block d =
     (case d of ToolResult _ _ m _ _ \<Rightarrow> (case msg_content m of ToolResultBlock _ _ _ # _ \<Rightarrow> True | _ \<Rightarrow> False) | _ \<Rightarrow> True)"

text \<open>What the session requires of every event it admits.\<close>

definition prunable :: "session_event \<Rightarrow> bool" where
  "prunable e \<longleftrightarrow> json_lossless (data_json (ev_data e)) \<and> has_result_block (ev_data e)"

lemma rewrite_result_returns:
  assumes "budget_ok cfg" and "has_result_block d"
  shows "rewrite_result cfg n d \<noteq> Inl err"
proof (cases "\<exists>turn step m err' meta. d = ToolResult turn step m err' meta")
  case True
  then obtain turn step m err' meta where d: "d = ToolResult turn step m err' meta" by blast
  then obtain i c f rest where m: "msg_content m = ToolResultBlock i c f # rest"
    using assms(2) by (auto simp: has_result_block_def split: list.splits content_block.splits)
  have "\<exists>o'. prune_content cfg c = Inr o'"
    using prune_content_over [OF assms(1), of c] prune_content_under [of c cfg] by (metis not_le)
  then show ?thesis using d m by (auto split: option.splits)
next
  case False
  then show ?thesis by (cases d) auto
qed

lemma prune_blocks_lossless:
  "list_all (\<lambda>b. json_lossless (block_json b)) bs \<Longrightarrow>
     list_all (\<lambda>b. json_lossless (block_json b)) (fst (prune_blocks a b c m bs))"
  by (induction a b c m bs rule: prune_blocks.induct) (simp_all add: Let_def)

lemma prune_content_lossless:
  "prune_content cfg bs = Inr (Some out) \<Longrightarrow> list_all (\<lambda>b. json_lossless (block_json b)) bs \<Longrightarrow>
     list_all (\<lambda>b. json_lossless (block_json b)) out"
  using prune_blocks_lossless [of bs "pr_head cfg" "measure_content bs - pr_tail cfg" 0 False]
  by (auto simp: prune_content_def Let_def split: if_splits prod.splits)

lemma all_values_update:
  "list_all (\<lambda>kv. P (snd kv)) kvs \<Longrightarrow> P w \<Longrightarrow> list_all (\<lambda>kv. P (snd kv)) (AList.update k w kvs)"
  by (induction kvs) auto

lemma obj_set_wf: "jv_wf v \<Longrightarrow> jv_wf w \<Longrightarrow> jv_wf (obj_set k w v)"
  by (cases v) (simp_all add: distinct_update all_values_update)

lemma tool_result_lossless:
  assumes "json_lossless (data_json (ToolResult turn step m err meta))"
  shows "list_all (\<lambda>b. json_lossless (block_json b)) (msg_content m)" "jv_wf (tool_result_rest (ToolResult turn step m err meta))"
    "\<And>bs. list_all (\<lambda>b. json_lossless (block_json b)) bs \<Longrightarrow>
       json_lossless (data_json (ToolResult turn step (m\<lparr>msg_content := bs\<rparr>) err meta))"
proof -
  have m: "json_lossless (message_json m)" using assms by simp
  show c: "list_all (\<lambda>b. json_lossless (block_json b)) (msg_content m)"
    using m by (simp add: message_json_def list_all_iff)
  show "json_lossless (data_json (ToolResult turn step (m\<lparr>msg_content := bs\<rparr>) err meta))"
    if "list_all (\<lambda>b. json_lossless (block_json b)) bs" for bs
    using assms that by (simp add: message_json_def list_all_iff)
  have "jv_wf (case msg_content m of b # _ \<Rightarrow> block_json b | [] \<Rightarrow> JObj [])"
    using c json_lossless_wf by (auto split: list.splits)
  then have "jv_wf (blank_result m)"
    unfolding blank_result_def using json_lossless_wf [OF m] by (intro obj_set_wf) (simp_all add: obj_set_wf)
  then show "jv_wf (tool_result_rest (ToolResult turn step m err meta))"
    using json_lossless_wf [OF assms] by (simp only: tool_result_rest.simps) (rule obj_set_wf)
qed

text \<open>The rewrite differs from its original in the content of the result only, as the surface demands.\<close>

lemma rewrite_accepted:
  assumes s: "session_ok s" and r: "replay (ss_log s) = Inr (st, reps, x)" and n: "n \<in> set (nodes st)" "safe_int n"
    and d: "rewrite_result cfg n (ev_data (ss_log s ! nat n)) = Inr (Some (m, d, entry))"
    and ok: "prunable (ss_log s ! nat n)"
  obtains s2 q where "append_event False True t d (Some (JArr [jint n]), Some (replace_op n n)) s = (s2, Inr q)"
proof -
  from d obtain turn step err meta i c fl rest c' where
    o': "ev_data (ss_log s ! nat n) = ToolResult turn step m err meta" "msg_content m = ToolResultBlock i c fl # rest"
    "prune_content cfg c = Inr (Some c')"
    "d = ToolResult turn step (m\<lparr>msg_content := [ToolResultBlock i c' fl]\<rparr>) err meta"
    by (rule rewrite_result_Some)
  have n': "0 \<le> n" "nat n < length (ss_log s)" using replay_nodes_less [OF r n(1)] by simp_all
  note L = tool_result_lossless [of turn step m err meta, folded o'(1), OF conjunct1 [OF ok [unfolded prunable_def]]]
  have "list_all (\<lambda>b. json_lossless (block_json b)) c" using L(1) o'(2) by (simp add: list_all_iff)
  then have "json_lossless (block_json (ToolResultBlock i c' fl))"
    using prune_content_lossless [OF o'(3)] by (cases fl) (simp_all add: list_all_iff)
  then have lossless: "json_lossless (data_json d)" unfolding o'(4) by (intro L(3)) simp
  have rest: "tool_result_rest d = tool_result_rest (ev_data (ss_log s ! nat n))"
    unfolding o'(1,4) by (simp add: o'(2) blank_result_def message_json_def)
  let ?q = "build_event (ss_log s) d (Some (JArr [jint n]), Some (replace_op n n)) t"
  have x: "x = int (length (ss_log s))" using fold_window_inv r by (fastforce simp: replay_def)
  obtain k where k: "k < length (nodes st)" "nodes st ! k = n" using n(1) by (auto simp: in_set_conv_nth)
  then have range: "replacement_range st n n = Inr (k, k, [n])"
    using index_of_nth [OF replay_distinct [OF r] k(1)] by (simp add: replacement_range_def slice_incl_def take_Suc_conv_app_nth)
  have op: "surface_op_of ?q = Inr (Some (OpReplace n n))"
    using n'(1) n(2) o'(4)
    by (simp add: surface_op_of_def build_event_def is_surface_eligible_type_def SURFACE_EVENT_TYPES_def replace_op_def
        append_op_def is_replace_op_def)
  have cited: "assert_provenance ?q [n] = Inr ()"
    using n' n(2) by (simp add: assert_provenance_def build_event_def cited_seqs_def)
  have rewrite: "assert_tool_result_rewrite ?q [n] (ss_log s) 0 = Inr ()"
    using n' o'(1,4) deep_equal_json_refl [OF L(2)] rest
    by (simp add: assert_tool_result_rewrite_def event_at_def build_event_def del: tool_result_rest.simps)
  have "returns (plan_surface_event st ?q x (ss_log s) 0)"
    using op range cited rewrite by (simp add: plan_surface_event_def x) (simp add: build_event_def)
  then have rt: "returns (replay (ss_log s @ [?q]))"
    using r by (auto simp: replay_def fold_window_snoc returns_iff surface_step_Inr)
  obtain m' res where v: "validate_next (ss_log s) ?q (ss_surface s) = (m', res)" by fastforce
  then have "res = None" using validate_next_ok(3) [OF s v] rt by auto
  then show thesis
    using that v lossless o'(4)
    by (simp add: append_event_def accept_event_def assert_supported_request_header_def opt_lossless_def replace_op_def)
qed

lemma rewrite_published:
  assumes s: "session_ok s" and r: "replay (ss_log s) = Inr (st, reps, x)" and ns: "nodes st = pre @ n # todo"
    and d: "rewrite_result cfg n (ev_data (ss_log s ! nat n)) = Inr (Some (m, d, entry))"
    and ok: "prunable (ss_log s ! nat n)" "safe_int n"
  obtains s1 y s2 q where
    "append_event False True tp (PluginEvent ''compaction/prune'' (prune_data n (estimate_message digits m))) (None, None) s =
       (s1, Inr y)"
    "append_event False True tq d (Some (JArr [jint n]), Some (replace_op n n)) s1 = (s2, Inr q)"
proof -
  let ?d = "prune_data n (estimate_message digits m)"
  let ?y = "build_event (ss_log s) (PluginEvent ''compaction/prune'' ?d) (None, None) tp"
  have "json_lossless ?d" "''compaction/prune'' \<notin> set SURFACE_EVENT_TYPES" "''compaction/prune'' \<noteq> ''request/header''"
    "''compaction/prune'' \<noteq> ''request/header-delta''"
    by (simp_all add: prune_data_def SURFACE_EVENT_TYPES_def)
  from plugin_append [OF s this, of tp] obtain s1 where
    s1: "append_event False True tp (PluginEvent ''compaction/prune'' ?d) (None, None) s = (s1, Inr ?y)"
      "ss_log s1 = ss_log s @ [?y]" "session_ok s1"
    by blast
  obtain st1 reps1 x1 where r1: "replay (ss_log s1) = Inr (st1, reps1, x1)" using session_replays [OF s1(3)] by blast
  have "\<not> is_surface_event ?y" by (simp add: is_surface_event_def build_event_def)
  then have "nodes st1 = nodes st" using replay_off_events [OF _ r, of "[?y]"] r1 s1(2) by simp
  then have n: "n \<in> set (nodes st1)" using ns by simp
  have "nat n < length (ss_log s)" using replay_nodes_less [OF r, of n] ns by simp
  then have e: "ss_log s1 ! nat n = ss_log s ! nat n" using s1(2) by (simp add: nth_append)
  obtain s2 q where "append_event False True tq d (Some (JArr [jint n]), Some (replace_op n n)) s1 = (s2, Inr q)"
    using rewrite_accepted [OF s1(3) r1 n ok(2) d [folded e] ok(1) [folded e]] .
  then show thesis using that s1(1) by blast
qed

lemma prune_each_returns:
  assumes "session_ok s" "replay (ss_log s) = Inr (st, reps, x)" "nodes st = pre @ todo"
    and "ss_log s = events @ xs"
    and "\<And>n. n \<in> set todo \<Longrightarrow> 0 \<le> n \<and> nat n < length events \<and> safe_int n \<and> prunable (events ! nat n)"
    and "budget_ok cfg" "\<And>k. pn_dispatch env k"
    and "prune_each env cfg k (prune_candidates events todo) s = (s', r)"
  shows "returns r"
  using assms(1-5,8)
proof (induction todo arbitrary: s st reps x pre xs k s' r)
  case (Cons n todo)
  let ?e = "events ! nat n"
  note s = Cons.prems(1) and r0 = Cons.prems(2) and ns = Cons.prems(3)
  have n: "0 \<le> n" "nat n < length events" "safe_int n" "prunable ?e" using Cons.prems(5) by auto
  have todo: "0 \<le> k \<and> nat k < length events \<and> safe_int k \<and> prunable (events ! nat k)" if "k \<in> set todo" for k
    using Cons.prems(5) that by auto
  have event: "ss_log s ! nat n = ?e" using n Cons.prems(4) by (simp add: nth_append)
  have skip: "returns r" if "prune_each env cfg k (prune_candidates events todo) s = (s', r)"
    by (rule Cons.IH [OF s r0 _ Cons.prems(4) todo that, of "pre @ [n]"]) (use ns in simp_all)
  obtain o' where o': "rewrite_result cfg n (ev_data ?e) = Inr o'"
    using rewrite_result_returns [OF assms(6)] n(4) by (metis prunable_def sum.exhaust)
  show ?case
  proof (cases o')
    case None
    then show ?thesis using skip Cons.prems(6) n o' by (cases "is_tool_result (ev_data ?e)") simp_all
  next
    case (Some t)
    then obtain m d entry where t: "rewrite_result cfg n (ev_data ?e) = Inr (Some (m, d, entry))" using o' by (cases t) simp
    then have tool: "is_tool_result (ev_data ?e)" by (cases "ev_data ?e") simp_all
    note t' = t [folded event] and ok = n(4) [folded event]
    obtain s1 y s2 q where a: "append_event False True (pn_clock env k)
        (PluginEvent ''compaction/prune'' (prune_data n (estimate_message (pn_digits env) m))) (None, None) s = (s1, Inr y)"
      "append_event False True (pn_clock env (k + 1)) d (Some (JArr [jint n]), Some (replace_op n n)) s1 = (s2, Inr q)"
      using rewrite_published [OF s r0 ns t' ok n(3)] .
    obtain st2 reps2 x2 where R: "session_ok s2" "ss_log s2 = ss_log s @ [y, q]"
      "replay (ss_log s2) = Inr (st2, reps2, x2)" "nodes st2 = pre @ [ev_seq q] @ todo"
      using rewrite_step [OF s r0 ns t' a] .
    obtain s3 u where u: "prune_each env cfg (k + 2) (prune_candidates events todo) s2 = (s3, u)" by fastforce
    have "returns u" by (rule Cons.IH [OF R(1,3) _ _ todo u, of "pre @ [ev_seq q]"]) (use R Cons.prems(4) in simp_all)
    then show ?thesis
      using Cons.prems(6) n tool t a u assms(7) by (auto simp: returns_iff)
  qed
qed (simp add: returns_iff)

text \<open>A pass that changes nothing.\<close>

lemma prune_each_none:
  "(\<And>n e. (n, e) \<in> set cs \<Longrightarrow> rewrite_result cfg n (ev_data e) = Inr None) \<Longrightarrow> prune_each env cfg k cs s = (s, Inr [])"
  by (induction cs arbitrary: k) auto

definition within_budget :: "prune_config \<Rightarrow> event_data \<Rightarrow> bool" where
  "within_budget cfg d = (rewrite_result cfg 0 d = Inr None)"

lemma within_budget_measure:
  "within_budget cfg (ToolResult turn step m err meta) \<longleftrightarrow>
     (case msg_content m of ToolResultBlock i c f # _ \<Rightarrow> measure_content c \<le> pr_threshold cfg | _ \<Rightarrow> False)"
  by (auto simp: within_budget_def prune_content_def Let_def split: list.splits content_block.splits sum.splits
      option.splits if_splits prod.splits)

lemma pruned_within_budget:
  assumes "budget_ok cfg" and "has_result_block d"
  shows "within_budget cfg (pruned_data cfg d)"
proof (cases "rewrite_result cfg 0 d")
  case (Inl err)
  then show ?thesis using rewrite_result_returns [OF assms] by blast
next
  case (Inr o')
  show ?thesis
  proof (cases o')
    case None
    then show ?thesis using Inr by (simp add: pruned_data_simps(1) within_budget_def)
  next
    case (Some t)
    then obtain m d' entry where t: "rewrite_result cfg 0 d = Inr (Some (m, d', entry))" using Inr by (cases t) simp
    then show ?thesis unfolding pruned_data_simps(2) [OF t]
      by (rule rewrite_result_Some) (simp add: within_budget_measure prune_content_Inr(2))
  qed
qed

lemma second_pass_empty:
  assumes s: "session_ok s" and r: "replay (ss_log s) = Inr (st, reps, x)"
    and w: "list_all (\<lambda>d. is_tool_result d \<longrightarrow> within_budget cfg d) (surface_data (ss_log s) (nodes st))"
    and p: "prune_session env cfg s = (s', res)"
  shows "res = Inr ([], 0)" "ss_log s' = ss_log s"
proof -
  obtain s0 r' where s0: "session_ok s0" "ss_log s0 = ss_log s"
    "prune_each env cfg 0 (prune_candidates (ss_log s) (nodes st)) s0 = (s', r')"
    and res: "res = (case r' of Inl err \<Rightarrow> Inl err
      | Inr entries \<Rightarrow> Inr (entries, sum_list (map (\<lambda>p. pe_before p - pe_after p) entries)))"
    using prune_session_each [OF s r p] .
  have "rewrite_result cfg n (ev_data e) = Inr None" if "(n, e) \<in> set (prune_candidates (ss_log s) (nodes st))" for n e
  proof -
    have "n \<in> set (nodes st)" "e = ss_log s ! nat n" "is_tool_result (ev_data e)"
      using that by (auto simp: prune_candidates_def List.map_filter_def event_at_def split: if_splits option.splits)
    then show ?thesis using w rewrite_result_seq(1) [of cfg n] by (auto simp: list_all_iff surface_data_def within_budget_def)
  qed
  then have "prune_each env cfg 0 (prune_candidates (ss_log s) (nodes st)) s0 = (s0, Inr [])" by (rule prune_each_none)
  then show "res = Inr ([], 0)" "ss_log s' = ss_log s" using s0(2,3) res by simp_all
qed

text \<open>C28. A pass whose events are published succeeds and settles the surface: under a resolved configuration every
  entry of the surface becomes its pruned form in place, afterwards every tool result is within
  budget, and a second pass appends nothing. The log's events are of the shapes a session admits.\<close>

theorem pruning_settles_surface:
  assumes s: "session_ok s" and r: "replay (ss_log s) = Inr (st, reps, x)"
    and config: "resolve_config config = Inr cfg" "safe_int (pr_threshold cfg)"
    and published: "\<And>k. pn_dispatch env k" and shapes: "list_all prunable (ss_log s)" "safe_int (int (length (ss_log s)))"
    and p: "prune_session env cfg s = (s', res)"
  shows "returns res \<and> (\<exists>st' reps' x'. replay (ss_log s') = Inr (st', reps', x') \<and>
    surface_data (ss_log s') (nodes st') = map (pruned_data cfg) (surface_data (ss_log s) (nodes st)) \<and>
    list_all (within_budget cfg) (surface_data (ss_log s') (nodes st')) \<and>
    ss_log (fst (prune_session env' cfg s')) = ss_log s' \<and> snd (prune_session env' cfg s') = Inr ([], 0))"
proof -
  have ok: "budget_ok cfg" by (rule resolve_config_ok [OF config])
  have named: "0 \<le> n \<and> nat n < length (ss_log s) \<and> safe_int n \<and> prunable (ss_log s ! nat n)" if "n \<in> set (nodes st)" for n
    using replay_nodes_less [OF r that] shapes by (auto simp: list_all_length safe_int_def max_safe_def)
  obtain s0 r' where s0: "session_ok s0" "ss_log s0 = ss_log s"
    "prune_each env cfg 0 (prune_candidates (ss_log s) (nodes st)) s0 = (s', r')"
    and res: "res = (case r' of Inl err \<Rightarrow> Inl err
      | Inr entries \<Rightarrow> Inr (entries, sum_list (map (\<lambda>p. pe_before p - pe_after p) entries)))"
    using prune_session_each [OF s r p] .
  have "returns r'"
    by (rule prune_each_returns [OF s0(1) r [folded s0(2)] _ _ named ok published s0(3), of "[]" "[]"]) (simp_all add: s0(2))
  then have ret: "returns res" using res by (cases r') (simp_all add: returns_iff)
  obtain st' reps' x' where e: "session_ok s'" "replay (ss_log s') = Inr (st', reps', x')"
    "surface_data (ss_log s') (nodes st') = map (pruned_data cfg) (surface_data (ss_log s) (nodes st))"
    using prune_session_effect [OF s r p] ret unfolding pass_effect_def by auto
  have within: "list_all (within_budget cfg) (surface_data (ss_log s') (nodes st'))"
    unfolding e(3) using pruned_within_budget [OF ok] named
    by (auto simp: list_all_iff surface_data_def prunable_def)
  obtain s'' res'' where p2: "prune_session env' cfg s' = (s'', res'')" by fastforce
  have "res'' = Inr ([], 0)" "ss_log s'' = ss_log s'"
    by (rule second_pass_empty [OF e(1,2) _ p2]; use within in \<open>auto simp: list_all_iff\<close>)+
  then show ?thesis using ret e within p2 by simp
qed

section \<open>Examples\<close>

definition example_budget :: jv where
  "example_budget = JObj [(''thresholdChars'', jint 50), (''headChars'', jint 3), (''tailChars'', jint 2)]"

definition example_output :: "content_block list" where
  "example_output = [TextBlock (''ab'' @ replicate 50 (CHR 0x2E)), ImageBlock (JStr ''i''), TextBlock ''..yz'']"

definition example_results :: session_obj where
  "example_results =
     append_all
       [(StepStart 1 1, (None, None)),
        (AssistantMessage 1 1 (example_reply ''m1'' [ToolCallBlock ''c1'' ''bash'' ''x'']) None False, (None, Some append_op)),
        (ToolResult 1 1 \<lparr>msg_id = ''m2'', msg_role = UserRole,
             msg_content = [ToolResultBlock ''c1'' example_output None], msg_source = ToolSource ''c1''\<rparr>
           None None, (None, Some append_op)),
        (UserMessage (example_prompt ''m3''), (None, Some append_op))]
       (blank_session (synthesized_header ''s1'' 1000))"

definition example_prune_env :: prune_env where
  "example_prune_env = \<lparr>pn_digits = (\<lambda>_. []), pn_clock = (\<lambda>k. 2000 + int k), pn_dispatch = (\<lambda>k. k < 4)\<rparr>"

lemma example_results_ok: "session_ok example_results"
  unfolding example_results_def by (intro append_all_ok session_ok_blank)

lemma example_results_replay: "replay (ss_log example_results) = Inr (\<lparr>nodes = [1, 2, 3], replace_generation = 0\<rparr>, [], 4)"
  by code_simp

lemma example_budget_resolved: "resolve_config example_budget = Inr \<lparr>pr_threshold = 50, pr_head = 3, pr_tail = 2\<rparr>"
  by code_simp

theorem pruned_content_keeps_ends_witness:
  "\<exists>out. prune_content \<lparr>pr_threshold = 50, pr_head = 3, pr_tail = 2\<rparr> example_output = Inr (Some out) \<and>
     content_text out = ''ab.'' @ PRUNE_MARKER @ ''yz'' \<and>
     filter (\<lambda>b. \<not> is_text_block b) out = [ImageBlock (JStr ''i'')]"
proof -
  have "measure_content example_output = 56" "safe_int 50" by code_simp+
  moreover have "take (nat 3) (content_text example_output) = ''ab.''" "drop (nat (56 - 2)) (content_text example_output) = ''yz''"
    "filter (\<lambda>b. \<not> is_text_block b) example_output = [ImageBlock (JStr ''i'')]"
    by code_simp+
  ultimately show ?thesis using pruned_content_keeps_ends [OF example_budget_resolved, of example_output] by auto
qed

theorem pruning_keeps_accounts_witness:
  "\<exists>s' res. prune_session (example_prune_env\<lparr>pn_dispatch := (\<lambda>k. k = 0)\<rparr>) \<lparr>pr_threshold = 50, pr_head = 3, pr_tail = 2\<rparr>
     example_results = (s', Inl res) \<and> metered_log (\<lambda>_. []) (ss_log s')"
proof -
  let ?env = "example_prune_env\<lparr>pn_dispatch := (\<lambda>k. k = 0)\<rparr>"
  let ?p = "prune_session ?env \<lparr>pr_threshold = 50, pr_head = 3, pr_tail = 2\<rparr> example_results"
  have f: "\<not> returns (snd ?p)" and m: "metered_log (pn_digits ?env) (ss_log example_results)" by code_simp+
  from pruning_keeps_accounts [OF example_results_ok example_results_replay prod.collapse [symmetric, of ?p]] m
  have "metered_log (pn_digits ?env) (ss_log (fst ?p))" by blast
  moreover have "pn_digits ?env = (\<lambda>_. [])" by (simp add: example_prune_env_def)
  ultimately show ?thesis using f by (metis prod.collapse returns_iff sum.exhaust)
qed

theorem pruning_settles_surface_witness:
  "\<exists>s' entries n. prune_session (example_prune_env\<lparr>pn_dispatch := (\<lambda>k. True)\<rparr>) \<lparr>pr_threshold = 50, pr_head = 3, pr_tail = 2\<rparr>
     example_results = (s', Inr (entries, n)) \<and>
   snd (prune_session example_prune_env \<lparr>pr_threshold = 50, pr_head = 3, pr_tail = 2\<rparr> s') = Inr ([], 0)"
proof -
  let ?env = "example_prune_env\<lparr>pn_dispatch := (\<lambda>k. True)\<rparr>"
  let ?cfg = "\<lparr>pr_threshold = 50, pr_head = 3, pr_tail = 2\<rparr>"
  let ?p = "prune_session ?env ?cfg example_results"
  have h: "safe_int (pr_threshold ?cfg)" "list_all prunable (ss_log example_results)"
    "safe_int (int (length (ss_log example_results)))" by code_simp+
  from pruning_settles_surface [OF example_results_ok example_results_replay example_budget_resolved h(1) _ h(2,3)
      prod.collapse [symmetric, of ?p], where env' = example_prune_env]
  have "returns (snd ?p)" "snd (prune_session example_prune_env ?cfg (fst ?p)) = Inr ([], 0)" by auto
  then show ?thesis by (metis prod.collapse returns_iff)
qed

end
