(* ===== verification/Compaction_Engine.thy ===== *)
theory Compaction_Engine
  imports Compaction_Config Compaction_Metering Result_Pruner
begin

text \<open>
  The compaction engine, \<^verbatim>\<open>packages/compaction/compaction-basic/src/index.ts\<close>: when a compaction runs,
  on which range and how often. Its entry points are the check before every step (\<open>agent/pre-step\<close>), the
  recovery from a request the provider refused as too long (\<open>agent/request-error\<close>) with its retry counter,
  and the manual command (\<open>compactNow\<close>). The lemmas show what each outcome of a pressure pass says about the
  session, that recovery is bounded and only retries a surface that changed, and, once for all entry points,
  what they keep of the log.

  The pruner, the threshold policy and the adapter's model information are arguments, as are what the rest of
  the program appends while the adapter answers, the environment of every transaction, and the abort signals.
\<close>

section \<open>The environment of a call\<close>

record model_info =
  mi_window :: "jnum option"
  mi_max_tokens :: "jnum option"

record engine_env =
  ee_digits :: "jnum \<Rightarrow> string"
  ee_pruner :: "(prune_env \<times> prune_config) option"
  ee_policy :: "policy_settings option"
  ee_model :: "string \<times> string \<Rightarrow> string + model_info"
  ee_meanwhile :: "(int \<times> event_data \<times> surface_intent) list"
  ee_regions :: "nat \<Rightarrow> region_env"

datatype engine_error =
    RegionFailed region_error
  | PruneFailed pruner_error
  | ModelInfoFailed string
  | TargetFault string capacity_fault
  | StillAbove jnum int

datatype trigger = Pressure | ContextOverflow | LoopDetection

text \<open>All prices come from the one meter.\<close>

definition attempt_env :: "engine_env \<Rightarrow> nat \<Rightarrow> region_env" where
  "attempt_env env k = (ee_regions env k)\<lparr>ce_digits := ee_digits env\<rparr>"

definition engine_measure :: "engine_env \<Rightarrow> paired_session \<Rightarrow> paired_session \<times> (engine_error + measurement)" where
  "engine_measure env w =
     (case region_measure (attempt_env env 0) w of
        (w', Inl f) \<Rightarrow> (w', Inl (RegionFailed (Fault f)))
      | (w', Inr m) \<Rightarrow> (w', Inr m))"

definition routed_target :: "paired_session \<Rightarrow> paired_session \<times> (string \<times> string) option" where
  "routed_target w =
     (case request_header (ps_session w) of
        (s, h) \<Rightarrow>
          (w\<lparr>ps_session := s\<rparr>,
           case h of
             None \<Rightarrow> None
           | Some header \<Rightarrow>
               if cfg_provider (hdr_config header) = [] \<or> cfg_model (hdr_config header) = [] then None
               else Some (cfg_provider (hdr_config header), cfg_model (hdr_config header))))"

definition target_key :: "string \<times> string \<Rightarrow> string" where
  "target_key target = fst target @ ''/'' @ snd target"

fun num_positive :: "jnum \<Rightarrow> bool" where
  "num_positive (NInt n) = (0 < n)"
| "num_positive (NFrac r) = (0 < r)"
| "num_positive NNegZero = False"
| "num_positive (NInf negative) = (\<not> negative)"

definition input_capacity :: "jnum \<Rightarrow> jnum option \<Rightarrow> capacity_fault + jnum" where
  "input_capacity window max_tokens =
     (case max_tokens of
        None \<Rightarrow> Inr window
      | Some (NInt n) \<Rightarrow>
          if \<not> safe_int n \<or> n \<le> 0 then Inl (InvalidMaxTokens (NInt n))
          else
            let available = num_minus window (NInt n) in
            if \<not> num_positive available then Inl (OutputReserved (NInt n)) else Inr available
      | Some n \<Rightarrow> Inl (InvalidMaxTokens n))"

text \<open>The budgets a pressure pass works with. \<open>max_tokens\<close> is the request's own output budget.\<close>

definition pressure_spec ::
  "compaction_config \<Rightarrow> string \<times> string \<Rightarrow> model_info \<Rightarrow> rat option \<Rightarrow> jnum option \<Rightarrow> capacity_fault + compact_spec" where
  "pressure_spec config target info ratio max_tokens =
     (let policy = resolve_target_policy config target in
      case mi_window info of
        None \<Rightarrow> Inl NoCapacity
      | Some window \<Rightarrow>
          and_then (input_capacity window (case max_tokens of Some n \<Rightarrow> Some n | None \<Rightarrow> mi_max_tokens info)) (\<lambda>input.
            case ratio of
              None \<Rightarrow> resolve_compact_spec policy input
            | Some q \<Rightarrow>
                and_then (resolve_compact_spec (policy_for_automatic_threshold policy q) input) (\<lambda>spec.
                  Inr (spec\<lparr>cs_threshold := min (floor_product window q) (cs_window spec)\<rparr>))))"

definition below :: "measurement \<Rightarrow> int \<Rightarrow> bool" where
  "below m threshold \<longleftrightarrow> \<not> at_least (me_total m) threshold"

section \<open>Pruning, then compacting\<close>

definition prune_with :: "engine_env \<Rightarrow> prune_env \<times> prune_config \<Rightarrow> paired_session \<Rightarrow> paired_session \<times> (engine_error + unit)" where
  "prune_with env pruner w =
     (case prune_session ((fst pruner)\<lparr>pn_digits := ee_digits env\<rparr>) (snd pruner) (ps_session w) of
        (s, Inl err) \<Rightarrow> (w\<lparr>ps_session := s\<rparr>, Inl (PruneFailed err))
      | (s, Inr _) \<Rightarrow> (w\<lparr>ps_session := s\<rparr>, Inr ()))"

text \<open>The optional model-free pass, and the measurement that is current after it.\<close>

definition prune_first ::
  "engine_env \<Rightarrow> measurement \<Rightarrow> paired_session \<Rightarrow> paired_session \<times> (engine_error + measurement)" where
  "prune_first env m w =
     (case ee_pruner env of
        None \<Rightarrow> (w, Inr m)
      | Some pruner \<Rightarrow>
          (case prune_with env pruner w of
             (w1, Inl err) \<Rightarrow> (w1, Inl err)
           | (w1, Inr _) \<Rightarrow> engine_measure env w1))"

definition CURRENT_TURN :: region_options where
  "CURRENT_TURN = \<lparr>ro_owner = CurrentTurn, ro_stability = WholeSurface, ro_flush = False, ro_command = None\<rparr>"

definition compact_region ::
  "engine_env \<Rightarrow> nat \<Rightarrow> int \<times> int \<Rightarrow> paired_session \<Rightarrow> paired_session \<times> (engine_error + compaction_result)" where
  "compact_region env k rg w =
     (case compact_surface_region (attempt_env env k) CURRENT_TURN (fst rg) (snd rg) w of
        (w', Inl err) \<Rightarrow> (w', Inl (RegionFailed err))
      | (w', Inr res) \<Rightarrow> (w', Inr res))"

definition select_range ::
  "measurement \<Rightarrow> int \<Rightarrow> paired_session \<Rightarrow> paired_session \<times> (engine_error + (int \<times> int) option)" where
  "select_range m retain w =
     (case select_compactable_range m retain w of
        (w', Inl f) \<Rightarrow> (w', Inl (RegionFailed (Fault f)))
      | (w', Inr rg) \<Rightarrow> (w', Inr rg))"

text \<open>The forced reduction after a provider refused the request, and after a loop was detected.\<close>

definition forced_pass ::
  "engine_env \<Rightarrow> measurement \<Rightarrow> paired_session \<Rightarrow> paired_session \<times> (engine_error + compaction_result option)" where
  "forced_pass env m w =
     (case prune_first env m w of
        (w1, Inl err) \<Rightarrow> (w1, Inl err)
      | (w1, Inr m1) \<Rightarrow>
          (case select_range m1 0 w1 of
             (w2, Inl err) \<Rightarrow> (w2, Inl err)
           | (w2, Inr None) \<Rightarrow> (w2, Inr None)
           | (w2, Inr (Some rg)) \<Rightarrow>
               (case compact_region env 0 rg w2 of
                  (w3, Inl err) \<Rightarrow> (w3, Inl err)
                | (w3, Inr res) \<Rightarrow> (w3, Inr (Some res)))))"

text \<open>
  The attempts of a pressure pass: \<open>k\<close> were made, \<open>n\<close> are left, and \<open>latest\<close> is what the latest produced.
\<close>

fun pressure_loop ::
  "engine_env \<Rightarrow> compact_spec \<Rightarrow> nat \<Rightarrow> nat \<Rightarrow> measurement \<Rightarrow> compaction_result option \<Rightarrow> paired_session
     \<Rightarrow> paired_session \<times> (engine_error + compaction_result option)" where
  "pressure_loop env spec k 0 m latest w = (w, Inl (StillAbove (me_total m) (cs_retries spec + 1)))"
| "pressure_loop env spec k (Suc n) m latest w =
     (case select_range m (cs_retain spec) w of
        (w1, Inl err) \<Rightarrow> (w1, Inl err)
      | (w1, Inr None) \<Rightarrow>
          (w1, if latest = None then Inr None else Inl (StillAbove (me_total m) (cs_retries spec + 1)))
      | (w1, Inr (Some rg)) \<Rightarrow>
          (case compact_region env k rg w1 of
             (w2, Inl err) \<Rightarrow> (w2, Inl err)
           | (w2, Inr res) \<Rightarrow>
               (case engine_measure env w2 of
                  (w3, Inl err) \<Rightarrow> (w3, Inl err)
                | (w3, Inr m') \<Rightarrow>
                    if below m' (cs_threshold spec) then (w3, Inr (Some res))
                    else pressure_loop env spec (Suc k) n m' (Some res) w3)))"

text \<open>The adapter is asked while others append; \<open>m\<close> is the measurement from before.\<close>

definition pressure_pass ::
  "compaction_config \<Rightarrow> engine_env \<Rightarrow> string \<times> string \<Rightarrow> measurement \<Rightarrow> paired_session
     \<Rightarrow> paired_session \<times> (engine_error + compaction_result option)" where
  "pressure_pass config env target m w =
     (let w1 = interleave (ee_meanwhile env) w in
      case ee_model env target of
        Inl msg \<Rightarrow> (w1, Inl (ModelInfoFailed msg))
      | Inr info \<Rightarrow>
          (case assert_no_active_compaction w1 of
             (w2, Inl err) \<Rightarrow> (w2, Inl (RegionFailed err))
           | (w2, Inr _) \<Rightarrow>
               (case request_header (ps_session w2) of
                  (s, h) \<Rightarrow>
                    let w3 = w2\<lparr>ps_session := s\<rparr> in
                    (case pressure_spec config target info (map_option (\<lambda>p. ratio_for p target) (ee_policy env))
                            (Option.bind h (\<lambda>header. cfg_max_tokens (hdr_config header))) of
                       Inl fault \<Rightarrow> (w3, Inl (TargetFault (target_key target) fault))
                     | Inr spec \<Rightarrow>
                         if below m (cs_threshold spec) then (w3, Inr None)
                         else
                           (case prune_first env m w3 of
                              (w4, Inl err) \<Rightarrow> (w4, Inl err)
                            | (w4, Inr m') \<Rightarrow>
                                if below m' (cs_threshold spec) then (w4, Inr None)
                                else pressure_loop env spec 0 (nat (cs_retries spec + 1)) m' None w4)))))"

definition compact_if_needed ::
  "compaction_config \<Rightarrow> engine_env \<Rightarrow> trigger \<Rightarrow> paired_session
     \<Rightarrow> paired_session \<times> (engine_error + compaction_result option)" where
  "compact_if_needed config env trigger w =
     (case routed_target w of
        (w1, None) \<Rightarrow> (w1, Inr None)
      | (w1, Some target) \<Rightarrow>
          (case engine_measure env w1 of
             (w2, Inl err) \<Rightarrow> (w2, Inl err)
           | (w2, Inr m) \<Rightarrow>
               if trigger = Pressure then pressure_pass config env target m w2 else forced_pass env m w2))"

section \<open>Entry points\<close>

text \<open>The check before a step. A misconfigured target is reported once.\<close>

datatype step_report = NoReport | Warned | Compacted compaction_result

definition pre_step ::
  "compaction_config \<Rightarrow> engine_env \<Rightarrow> bool \<Rightarrow> string list \<Rightarrow> paired_session
     \<Rightarrow> paired_session \<times> string list \<times> step_report" where
  "pre_step config env aborted warned w =
     (if aborted then (w, warned, NoReport)
      else case compact_if_needed config env Pressure w of
        (w', Inr None) \<Rightarrow> (w', warned, NoReport)
      | (w', Inr (Some res)) \<Rightarrow> (w', warned, Compacted res)
      | (w', Inl (TargetFault key fault)) \<Rightarrow>
          if key \<in> set warned then (w', warned, NoReport) else (w', key # warned, Warned)
      | (w', Inl err) \<Rightarrow> (w', warned, Warned))"

text \<open>
  The recovery state of one agent and its session: the overflow retries made, and whether the session is
  known to belong to the agent.
\<close>

record recovery =
  rc_retries :: "int option"
  rc_known :: bool

definition on_status :: "bool \<Rightarrow> recovery \<Rightarrow> recovery" where
  "on_status idle rc = (if idle then rc\<lparr>rc_retries := None\<rparr> else rc)"

definition on_session_event :: "session_event \<Rightarrow> recovery \<Rightarrow> recovery" where
  "on_session_event e rc = (if ev_type e = ''assistant/message'' \<and> rc_known rc then rc\<lparr>rc_retries := None\<rparr> else rc)"

text \<open>The events published since an earlier log.\<close>

definition on_published :: "paired_session \<Rightarrow> paired_session \<Rightarrow> recovery \<Rightarrow> recovery" where
  "on_published w w' rc =
     fold on_session_event (drop (length (ss_log (ps_session w))) (ss_log (ps_session w'))) rc"

definition surface_generation :: "paired_session \<Rightarrow> paired_session \<times> (surface_error + nat)" where
  "surface_generation w =
     (case read_surface (ps_session w) of
        (s, Inl err) \<Rightarrow> (w\<lparr>ps_session := s\<rparr>, Inl err)
      | (s, Inr (ns, g)) \<Rightarrow> (w\<lparr>ps_session := s\<rparr>, Inr g))"

text \<open>\<open>Raised\<close> is an error of reading the surface, which leaves the handler.\<close>

datatype decision = Retry | Pass | Raised surface_error

definition on_request_error ::
  "compaction_config \<Rightarrow> engine_env \<Rightarrow> bool \<Rightarrow> bool \<Rightarrow> bool \<Rightarrow> paired_session \<Rightarrow> recovery
     \<Rightarrow> paired_session \<times> recovery \<times> decision" where
  "on_request_error config env overflow aborted aborted' w rc =
     (if \<not> overflow \<or> aborted then (w, rc, Pass)
      else let rc1 = rc\<lparr>rc_known := True\<rparr> in
        case routed_target w of
          (w1, None) \<Rightarrow> (w1, rc1, Pass)
        | (w1, Some target) \<Rightarrow>
            let retries = given (rc_retries rc1) 0 in
            if tp_overflow (resolve_target_policy config target) \<le> retries then (w1, rc1, Pass)
            else
              (case surface_generation w1 of
                 (w2, Inl err) \<Rightarrow> (w2, rc1, Raised err)
               | (w2, Inr before) \<Rightarrow>
                   (case compact_if_needed config env ContextOverflow w2 of
                      (w3, outcome) \<Rightarrow>
                        let rc3 = on_published w w3 rc1 in
                        if aborted' then (w3, rc3, Pass)
                        else
                          (case surface_generation w3 of
                             (w4, Inl err) \<Rightarrow> (w4, rc3, Raised err)
                           | (w4, Inr after) \<Rightarrow>
                               if after \<le> before then (w4, rc3, Pass)
                               else (w4, rc3\<lparr>rc_retries := Some (retries + 1)\<rparr>, Retry)))))"

text \<open>
  The manual command. The agent runs it as maintenance, which it refuses while busy; the two signals are
  read at the start, inside, and when something failed.
\<close>

record command_signals =
  mt_aborted :: bool
  mt_admitted :: bool
  mt_started_aborted :: bool
  mt_agent_cancelled :: bool
  mt_failed_aborted :: bool

definition maintenance_failure :: "command_signals \<Rightarrow> engine_error \<Rightarrow> engine_error" where
  "maintenance_failure mt err =
     (if mt_agent_cancelled mt then RegionFailed (Manual ManualCancelled)
      else if mt_failed_aborted mt then RegionFailed (Fault AbortReason) else err)"

definition compact_now ::
  "engine_env \<Rightarrow> command_signals \<Rightarrow> string option \<Rightarrow> paired_session
     \<Rightarrow> paired_session \<times> (engine_error + compaction_result option)" where
  "compact_now env mt command w =
     (if mt_aborted mt then (w, Inl (RegionFailed (Fault AbortReason)))
      else if \<not> mt_admitted mt then (w, Inl (RegionFailed (Manual ManualBusy)))
      else
        let failed = (\<lambda>w' err. (w', Inl (maintenance_failure mt err))) in
        if mt_started_aborted mt then failed w (RegionFailed (Fault AbortReason))
        else case engine_measure env w of
          (w1, Inl err) \<Rightarrow> failed w1 err
        | (w1, Inr m) \<Rightarrow>
            (case select_range m 0 w1 of
               (w2, Inl err) \<Rightarrow> failed w2 err
             | (w2, Inr None) \<Rightarrow> (w2, Inr None)
             | (w2, Inr (Some rg)) \<Rightarrow>
                 (case compact_surface_region (attempt_env env 0)
                         \<lparr>ro_owner = Standalone, ro_stability = SelectedSpan, ro_flush = True, ro_command = command\<rparr>
                         (fst rg) (snd rg) w2 of
                    (w3, Inl err) \<Rightarrow> failed w3 (RegionFailed err)
                  | (w3, Inr res) \<Rightarrow> (w3, Inr (Some res)))))"


section \<open>A run of the engine\<close>

text \<open>One agent with its session and the engine, and what happens to them.\<close>

record engine_state =
  en_session :: paired_session
  en_recovery :: recovery
  en_warned :: "string list"

datatype engine_op =
    BeforeStep engine_env bool
  | RequestFailed engine_env bool bool bool
  | Command engine_env command_signals "string option"
  | StatusChanged bool
  | Appended bool bool int event_data surface_intent

fun engine_step :: "compaction_config \<Rightarrow> engine_op \<Rightarrow> engine_state \<Rightarrow> engine_state \<times> decision option" where
  "engine_step config (BeforeStep env aborted) st =
     (case pre_step config env aborted (en_warned st) (en_session st) of
        (w, warned, _) \<Rightarrow>
          (\<lparr>en_session = w, en_recovery = on_published (en_session st) w (en_recovery st), en_warned = warned\<rparr>, None))"
| "engine_step config (RequestFailed env overflow aborted aborted') st =
     (case on_request_error config env overflow aborted aborted' (en_session st) (en_recovery st) of
        (w, rc, d) \<Rightarrow> (st\<lparr>en_session := w, en_recovery := rc\<rparr>, Some d))"
| "engine_step config (Command env mt command) st =
     (case compact_now env mt command (en_session st) of
        (w, _) \<Rightarrow> (st\<lparr>en_session := w, en_recovery := on_published (en_session st) w (en_recovery st)\<rparr>, None))"
| "engine_step config (StatusChanged idle) st = (st\<lparr>en_recovery := on_status idle (en_recovery st)\<rparr>, None)"
| "engine_step config (Appended appending dispatch now d intent) st =
     (case append_event appending dispatch now d intent (ps_session (en_session st)) of
        (s, _) \<Rightarrow>
          let w = (en_session st)\<lparr>ps_session := s\<rparr> in
          (st\<lparr>en_session := w, en_recovery := on_published (en_session st) w (en_recovery st)\<rparr>, None))"

fun engine_run :: "compaction_config \<Rightarrow> engine_op list \<Rightarrow> engine_state \<Rightarrow> engine_state \<times> decision list" where
  "engine_run config [] st = (st, [])"
| "engine_run config (x # xs) st =
     (case engine_step config x st of
        (st1, d) \<Rightarrow>
          (case engine_run config xs st1 of (st2, ds) \<Rightarrow> (st2, (case d of None \<Rightarrow> ds | Some y \<Rightarrow> y # ds))))"

section \<open>What every step keeps\<close>

lemma retreat_log: "paired_ok w \<Longrightarrow> retreat ns k w = (w', r) \<Longrightarrow> same_log w w'"
proof (induction ns k w rule: retreat.induct)
  case (2 ns k w)
  obtain v q where q: "tool_pairing_balanced_before (ns ! Suc k) w = (v, q)" by fastforce
  have v: "same_log w v" using before_exact(1) [OF 2(2) _ q] paired_replays [OF 2(2)] by blast
  show ?case
  proof (cases "q = Inr False")
    case True
    then have "same_log v w'" using 2(1) [OF q [symmetric], of False] 2(3) q same_log_ok [OF v] by simp
    then show ?thesis using same_log_trans [OF v] by blast
  qed (use v 2(3) q in \<open>auto split: sum.splits bool.splits\<close>)
qed (simp add: same_log_refl)

lemma select_log:
  assumes ok: "paired_ok w" and s: "select_compactable_range m retain w = (w', r)"
  shows "same_log w w'"
proof -
  obtain st reps x where "replay (ss_log (ps_session w)) = Inr (st, reps, x)" using paired_replays [OF ok] by blast
  then obtain s1 where s1: "read_surface (ps_session w) = (s1, Inr (nodes st, replace_generation st))"
    "same_log w (w\<lparr>ps_session := s1\<rparr>)"
    using read_paired [OF ok] by blast
  have "w' = w \<or> w' = w\<lparr>ps_session := s1\<rparr> \<or>
      (\<exists>k r'. retreat (nodes st) (Suc k) (w\<lparr>ps_session := s1\<rparr>) = (w', r'))"
    using s s1(1) by (auto simp: select_compactable_range_def Let_def simp del: retreat.simps split: if_splits nat.splits prod.splits sum.splits)
  then show ?thesis
    using same_log_refl [OF ok] s1(2) retreat_log [OF same_log_ok [OF s1(2)]] same_log_trans by blast
qed

lemma cache_coherent_extends: "cache_coherent es c \<Longrightarrow> cache_coherent (es @ ys) c"
proof (induction ys rule: rev_induct)
  case (snoc y ys)
  then show ?case using cache_coherent_append [of "es @ ys" c y] by simp
qed simp

lemma prune_with_log:
  assumes ok: "paired_ok w" and p: "prune_with env pruner w = (w', r)"
  shows "paired_ok w'" "\<exists>ys. ss_log (ps_session w') = ss_log (ps_session w) @ ys"
    "metered_log (ee_digits env) (ss_log (ps_session w)) \<Longrightarrow> metered_log (ee_digits env) (ss_log (ps_session w'))"
proof -
  let ?env = "(fst pruner)\<lparr>pn_digits := ee_digits env\<rparr>"
  obtain s q where s: "prune_session ?env (snd pruner) (ps_session w) = (s, q)" by fastforce
  have w': "w' = w\<lparr>ps_session := s\<rparr>" using p s by (auto simp: prune_with_def split: sum.splits)
  obtain st reps x where r: "replay (ss_log (ps_session w)) = Inr (st, reps, x)" using paired_replays [OF ok] by blast
  obtain ys where ys: "session_ok s" "ss_log s = ss_log (ps_session w) @ ys"
    "metered_log (pn_digits ?env) (ss_log (ps_session w)) \<longrightarrow> metered_log (pn_digits ?env) (ss_log s)"
    using prune_session_effect [OF _ r s] ok unfolding pass_effect_def paired_ok_def by blast
  then show "paired_ok w'" "\<exists>ys. ss_log (ps_session w') = ss_log (ps_session w) @ ys"
    using ok cache_coherent_extends [of "ss_log (ps_session w)" "ps_cache w" ys] unfolding w' by (simp_all add: paired_ok_def)
  show "metered_log (ee_digits env) (ss_log (ps_session w'))" if "metered_log (ee_digits env) (ss_log (ps_session w))"
    using ys(3) that w' by simp
qed

lemma engine_measure_log:
  assumes "paired_ok w" and "engine_measure env w = (w', r)"
  shows "same_log w w'" "r = Inr m \<longleftrightarrow> meter_read (ee_digits env) None (ss_log (ps_session w)) = Inr m"
proof -
  obtain v q where q: "region_measure (attempt_env env 0) w = (v, q)" by fastforce
  have v: "w' = v" "r = (case q of Inl f \<Rightarrow> Inl (RegionFailed (Fault f)) | Inr m \<Rightarrow> Inr m)"
    using assms(2) q by (auto simp: engine_measure_def split: sum.splits)
  show "same_log w w'" unfolding v by (rule region_measure_log(1) [OF assms(1) q])
  show "r = Inr m \<longleftrightarrow> meter_read (ee_digits env) None (ss_log (ps_session w)) = Inr m"
    using region_measure_log(2) [OF assms(1) q, of m] v(2) by (cases q) (simp_all add: attempt_env_def)
qed

lemma select_range_log:
  assumes "paired_ok w" and "select_range m retain w = (w', r)"
  shows "same_log w w'"
proof -
  obtain v q where q: "select_compactable_range m retain w = (v, q)" by fastforce
  then have "w' = v" using assms(2) by (auto simp: select_range_def split: sum.splits)
  then show ?thesis using select_log [OF assms(1) q] by simp
qed

lemma request_header_log:
  assumes "paired_ok w" and "request_header (ps_session w) = (s, h)"
  shows "same_log w (w\<lparr>ps_session := s\<rparr>)" "h = fold_request_header (ss_log (ps_session w)) None"
  using request_header_fold [OF _ assms(2)] same_log_session [OF assms(1)] assms(1) by (auto simp: paired_ok_def)

lemma routed_target_log:
  assumes "paired_ok w" and "routed_target w = (w', t)"
  shows "same_log w w'"
  using assms request_header_log [OF assms(1)] by (auto simp: routed_target_def split: prod.splits)

lemma assert_inactive_log:
  assumes "paired_ok w" and "assert_no_active_compaction w = (w', r)"
  shows "same_log w w'"
  using assms(2) events_paired [OF assms(1)] by (auto simp: assert_no_active_compaction_def split: prod.splits)

lemma surface_generation_log:
  assumes "paired_ok w" and "surface_generation w = (w', r)" and "replay (ss_log (ps_session w)) = Inr (st, reps, x)"
  shows "same_log w w'" "r = Inr (replace_generation st)"
proof -
  obtain s where "read_surface (ps_session w) = (s, Inr (nodes st, replace_generation st))" "same_log w (w\<lparr>ps_session := s\<rparr>)"
    using read_paired [OF assms(1,3)] .
  then show "same_log w w'" "r = Inr (replace_generation st)" using assms(2) by (auto simp: surface_generation_def)
qed

text \<open>
  The contract of the engine's steps: a relation between the session before and after that holds of reads,
  of what others append, of a pass of the pruner and of a transaction, and composes, holds of every entry
  point, on every path.
\<close>

locale engine_steps =
  fixes allowed :: "engine_env \<Rightarrow> bool"
    and steps :: "engine_env \<Rightarrow> paired_session \<Rightarrow> paired_session \<Rightarrow> bool"
  assumes read: "same_log w w' \<Longrightarrow> steps env w w'"
    and compose: "steps env a b \<Longrightarrow> steps env b c \<Longrightarrow> steps env a c"
    and waited: "allowed env \<Longrightarrow> paired_ok w \<Longrightarrow> steps env w (interleave (ee_meanwhile env) w)"
    and pruned: "allowed env \<Longrightarrow> paired_ok w \<Longrightarrow> prune_with env pruner w = (w', r) \<Longrightarrow> steps env w w'"
    and compacted: "allowed env \<Longrightarrow> paired_ok w \<Longrightarrow>
      compact_surface_region (attempt_env env k) opts start end' w = (w', q) \<Longrightarrow> steps env w w'"
begin

lemma after_read: "same_log w w' \<Longrightarrow> paired_ok w' \<and> steps env w w'"
  using read same_log_ok by blast

lemma continued: "same_log a b \<Longrightarrow> paired_ok c \<and> steps env b c \<Longrightarrow> paired_ok c \<and> steps env a c"
  and then_read: "paired_ok b \<and> steps env a b \<Longrightarrow> same_log b c \<Longrightarrow> paired_ok c \<and> steps env a c"
  and chained: "paired_ok b \<and> steps env a b \<Longrightarrow> paired_ok c \<and> steps env b c \<Longrightarrow> paired_ok c \<and> steps env a c"
  using read compose same_log_ok by blast+

lemma prune_first_steps:
  assumes "allowed env" "paired_ok w" "prune_first env m w = (w', r)"
  shows "paired_ok w' \<and> steps env w w'"
proof (cases "ee_pruner env")
  case None
  then show ?thesis using assms after_read [OF same_log_refl] by (simp add: prune_first_def)
next
  case (Some pruner)
  obtain w1 q where q: "prune_with env pruner w = (w1, q)" by fastforce
  have 1: "paired_ok w1 \<and> steps env w w1" using prune_with_log(1) [OF assms(2) q] pruned [OF assms(1,2) q] by simp
  show ?thesis
  proof (cases q)
    case (Inr u)
    then have "engine_measure env w1 = (w', r)" using assms(3) Some q by (simp add: prune_first_def)
    then show ?thesis using then_read [OF 1] engine_measure_log(1) 1 by blast
  qed (use assms(3) Some q 1 in \<open>simp add: prune_first_def\<close>)
qed

lemma compact_region_steps:
  assumes "allowed env" "paired_ok w" "compact_region env k rg w = (w', r)"
  shows "paired_ok w' \<and> steps env w w'"
proof -
  obtain v q where q: "compact_surface_region (attempt_env env k) CURRENT_TURN (fst rg) (snd rg) w = (v, q)" by fastforce
  then have "w' = v" using assms(3) by (auto simp: compact_region_def split: sum.splits)
  then show ?thesis using compact_ok [OF assms(2) q] compacted [OF assms(1,2) q] by simp
qed

lemma forced_pass_steps:
  assumes "allowed env" "paired_ok w" "forced_pass env m w = (w', r)"
  shows "paired_ok w' \<and> steps env w w'"
proof -
  obtain w1 q where q: "prune_first env m w = (w1, q)" by fastforce
  note 1 = prune_first_steps [OF assms(1,2) q]
  show ?thesis
  proof (cases q)
    case (Inr m1)
    obtain w2 p where p: "select_range m1 0 w1 = (w2, p)" by fastforce
    note 2 = then_read [OF 1 select_range_log [OF conjunct1 [OF 1] p]]
    show ?thesis
    proof (cases "\<exists>rg. p = Inr (Some rg)")
      case True
      then obtain rg where rg: "p = Inr (Some rg)" by blast
      obtain w3 u where u: "compact_region env 0 rg w2 = (w3, u)" by fastforce
      have "w' = w3" using assms(3) q Inr p rg u by (auto simp: forced_pass_def split: sum.splits)
      then show ?thesis using chained [OF 2] compact_region_steps [OF assms(1) _ u] 2 by blast
    qed (use assms(3) q Inr p 2 in \<open>auto simp: forced_pass_def split: sum.splits option.splits\<close>)
  qed (use assms(3) q 1 in \<open>simp add: forced_pass_def\<close>)
qed

lemma pressure_loop_steps:
  assumes "allowed env"
  shows "paired_ok w \<Longrightarrow> pressure_loop env spec k n m latest w = (w', r) \<Longrightarrow> paired_ok w' \<and> steps env w w'"
proof (induction n arbitrary: k m latest w)
  case 0
  then show ?case using after_read [OF same_log_refl] by simp
next
  case (Suc n)
  obtain w1 p where p: "select_range m (cs_retain spec) w = (w1, p)" by fastforce
  note 1 = after_read [OF select_range_log [OF Suc.prems(1) p]]
  show ?case
  proof (cases "\<exists>rg. p = Inr (Some rg)")
    case True
    then obtain rg where rg: "p = Inr (Some rg)" by blast
    obtain w2 u where u: "compact_region env k rg w1 = (w2, u)" by fastforce
    have 2: "paired_ok w2 \<and> steps env w w2" using chained [OF 1] compact_region_steps [OF assms _ u] 1 by blast
    show ?thesis
    proof (cases u)
      case (Inr res)
      obtain w3 q where q: "engine_measure env w2 = (w3, q)" by fastforce
      note 3 = then_read [OF 2 engine_measure_log(1) [OF conjunct1 [OF 2] q]]
      show ?thesis
      proof (cases "\<exists>m'. q = Inr m' \<and> \<not> below m' (cs_threshold spec)")
        case True
        then obtain m' where "pressure_loop env spec (Suc k) n m' (Some res) w3 = (w', r)"
          using Suc.prems(2) p rg u Inr q by auto
        then show ?thesis using chained [OF 3] Suc.IH 3 by blast
      qed (use Suc.prems(2) p rg u Inr q 3 in \<open>auto split: sum.splits\<close>)
    qed (use Suc.prems(2) p rg u 2 in simp)
  qed (use Suc.prems(2) p 1 in \<open>auto split: sum.splits option.splits\<close>)
qed

lemma pressure_pass_steps:
  assumes "allowed env" "paired_ok w" "pressure_pass config env target m w = (w', r)"
  shows "paired_ok w' \<and> steps env w w'"
proof -
  let ?w = "interleave (ee_meanwhile env) w"
  have 1: "paired_ok ?w \<and> steps env w ?w" using interleave_log(1) [OF assms(2)] waited [OF assms(1,2)] by simp
  obtain w2 q where q: "assert_no_active_compaction ?w = (w2, q)" by fastforce
  note 2 = then_read [OF 1 assert_inactive_log [OF conjunct1 [OF 1] q]]
  obtain s h where h: "request_header (ps_session w2) = (s, h)" by fastforce
  let ?w3 = "w2\<lparr>ps_session := s\<rparr>"
  note 3 = then_read [OF 2 request_header_log(1) [OF conjunct1 [OF 2] h]]
  obtain w4 u where u: "prune_first env m ?w3 = (w4, u)" by fastforce
  have 4: "paired_ok w4 \<and> steps env w w4" using chained [OF 3] prune_first_steps [OF assms(1) _ u] 3 by blast
  show ?thesis
  proof (cases "\<exists>spec m'. pressure_loop env spec 0 (nat (cs_retries spec + 1)) m' None w4 = (w', r)")
    case True
    then show ?thesis using chained [OF 4] pressure_loop_steps [OF assms(1)] 4 by blast
  next
    case False
    then have "w' \<in> {?w, w2, ?w3, w4}"
      using assms(3) q h u by (auto simp: pressure_pass_def Let_def split: sum.splits if_splits)
    then show ?thesis using 1 2 3 4 by blast
  qed
qed

lemma entry_steps:
  assumes "allowed env" "paired_ok w" "compact_if_needed config env trigger w = (w', r)"
  shows "paired_ok w' \<and> steps env w w'"
proof -
  obtain w1 t where t: "routed_target w = (w1, t)" by fastforce
  note 1 = routed_target_log [OF assms(2) t]
  obtain w2 q where q: "engine_measure env w1 = (w2, q)" by fastforce
  note 2 = same_log_trans [OF 1 engine_measure_log(1) [OF same_log_ok [OF 1] q]]
  have "w' = w1 \<or> w' = w2 \<or> (\<exists>target m. pressure_pass config env target m w2 = (w', r)) \<or> (\<exists>m. forced_pass env m w2 = (w', r))"
    using assms(3) t q by (auto simp: compact_if_needed_def split: option.splits sum.splits if_splits)
  then show ?thesis
    using after_read [OF 1] after_read [OF 2] continued [OF 2] pressure_pass_steps [OF assms(1) same_log_ok [OF 2]]
      forced_pass_steps [OF assms(1) same_log_ok [OF 2]] by blast
qed

lemma command_steps:
  assumes "allowed env" "paired_ok w" "compact_now env mt command w = (w', r)"
  shows "paired_ok w' \<and> steps env w w'"
proof -
  obtain w1 q where q: "engine_measure env w = (w1, q)" by fastforce
  note 1 = engine_measure_log(1) [OF assms(2) q]
  have "w' = w \<or> w' = w1 \<or> (\<exists>m p. select_range m 0 w1 = (w', p)) \<or>
      (\<exists>m p w2 rg u. select_range m 0 w1 = (w2, p) \<and>
        compact_surface_region (attempt_env env 0) \<lparr>ro_owner = Standalone, ro_stability = SelectedSpan, ro_flush = True,
          ro_command = command\<rparr> (fst rg) (snd rg) w2 = (w', u))"
    using assms(3) q by (auto simp: compact_now_def Let_def split: sum.splits option.splits prod.splits if_splits)
  then show ?thesis
    using after_read [OF same_log_refl [OF assms(2)]] after_read [OF 1] same_log_trans [OF 1]
      select_range_log [OF same_log_ok [OF 1]] after_read continued compacted [OF assms(1)] compact_ok same_log_ok
    by metis
qed

end


section \<open>The log only grows, and its accounts are kept\<close>

lemma compact_extends:
  assumes "paired_ok w" and "compact_surface_region env opts start end' w = (w', r)"
  shows "\<exists>ys. ss_log (ps_session w') = ss_log (ps_session w) @ ys"
  using assms
proof (cases rule: compact_cases)
  case (opened v sel owner begun w1 w2 outcome ended final)
  have "paired_ok w2" "\<exists>ys. ss_log (ps_session w2) = ss_log (ps_session w1) @ ys"
    using opened(6,8) by (cases rule: transaction_body_cases; simp)+
  from this(1) opened(9) have "\<exists>ys. ss_log (ps_session w') = ss_log (ps_session w2) @ ys"
    by (cases rule: close_cases) (auto simp: same_log_eq)
  then show ?thesis using opened(7) \<open>\<exists>ys. ss_log (ps_session w2) = ss_log (ps_session w1) @ ys\<close> by auto
qed (simp add: same_log_eq)

interpretation log_grows: engine_steps "\<lambda>_. True"
  "\<lambda>env w w'. \<exists>ys. ss_log (ps_session w') = ss_log (ps_session w) @ ys"
proof
  show "\<exists>ys. ss_log (ps_session (interleave (ee_meanwhile env) w)) = ss_log (ps_session w) @ ys" if "paired_ok w" for env w
    using interleave_log(2) [OF that] by blast
qed (auto simp: same_log_eq dest: prune_with_log(2) compact_extends)

definition quiet_env :: "engine_env \<Rightarrow> bool" where
  "quiet_env env \<longleftrightarrow> list_all (\<lambda>(now, d, intent). quiet_append d (snd intent)) (ee_meanwhile env) \<and>
     (\<forall>k. list_all (\<lambda>(now, d, intent). quiet_append d (snd intent)) (ce_meanwhile (ee_regions env k)))"

interpretation accounts: engine_steps quiet_env
  "\<lambda>env w w'. metered_log (ee_digits env) (ss_log (ps_session w)) \<longrightarrow> metered_log (ee_digits env) (ss_log (ps_session w'))"
proof
  show "metered_log (ee_digits env) (ss_log (ps_session w)) \<longrightarrow>
      metered_log (ee_digits env) (ss_log (ps_session (interleave (ee_meanwhile env) w)))"
    if "quiet_env env" "paired_ok w" for env w
    using interleave_log(2) [OF that(2), of "ee_meanwhile env"] quiet_meanwhile [OF from_meanwhile_events] that(1) by (auto simp: quiet_env_def)
  show "metered_log (ee_digits env) (ss_log (ps_session w)) \<longrightarrow> metered_log (ee_digits env) (ss_log (ps_session w'))"
    if "quiet_env env" "paired_ok w" "compact_surface_region (attempt_env env k) opts start end' w = (w', q)"
    for env w k opts start end' w' q
    using compaction_keeps_metered [OF that(2,3)] that(1) by (simp add: quiet_env_def attempt_env_def)
qed (auto simp: same_log_eq dest: prune_with_log(3))

text \<open>What the recovery handler did.\<close>

lemma generation_grows:
  "replay es = Inr (st, reps, x) \<Longrightarrow> replay (es @ ys) = Inr (st', reps', x') \<Longrightarrow> replace_generation st \<le> replace_generation st'"
proof (induction ys arbitrary: st' reps' x' rule: rev_induct)
  case (snoc y ys)
  from snoc.prems(2) have "replay ((es @ ys) @ [y]) = Inr (st', reps', x')" by simp
  then obtain st1 reps1 x1 where "replay (es @ ys) = Inr (st1, reps1, x1)" "replace_generation st1 \<le> replace_generation st'"
    by (rule replay_snoc)
  then show ?case using snoc.IH [OF snoc.prems(1)] by fastforce
qed simp

lemma request_error_cases:
  assumes ok: "paired_ok w" and h: "on_request_error config env overflow aborted aborted' w rc = (w', rc', d)"
  obtains (passed) "same_log w w'" "d = Pass" "rc_retries rc' = rc_retries rc"
  | (tried) target w2 w3 outcome where "same_log w w2" "compact_if_needed config env ContextOverflow w2 = (w3, outcome)"
      "same_log w3 w'" "given (rc_retries rc) 0 < tp_overflow (resolve_target_policy config target)"
      "d = Pass \<and> rc' = on_published w2 w3 (rc\<lparr>rc_known := True\<rparr>) \<or>
       d = Retry \<and> rc_retries rc' = Some (given (rc_retries rc) 0 + 1) \<and>
         (\<exists>st reps x st' reps' x'. replay (ss_log (ps_session w)) = Inr (st, reps, x) \<and>
           replay (ss_log (ps_session w')) = Inr (st', reps', x') \<and> replace_generation st < replace_generation st')"
proof (cases "\<not> overflow \<or> aborted")
  case True
  then show thesis using passed h same_log_refl [OF ok] by (simp add: on_request_error_def)
next
  case False
  obtain w1 t where t: "routed_target w = (w1, t)" by fastforce
  note 1 = routed_target_log [OF ok t]
  show thesis
  proof (cases "\<exists>target. t = Some target \<and> given (rc_retries rc) 0 < tp_overflow (resolve_target_policy config target)")
    case none: False
    then have "w' = w1" "d = Pass" "rc_retries rc' = rc_retries rc"
      using False h t by (auto simp: on_request_error_def Let_def split: option.splits if_splits)
    then show thesis using passed 1 by simp
  next
    case True
    then obtain target where target: "t = Some target"
      "given (rc_retries rc) 0 < tp_overflow (resolve_target_policy config target)"
      by blast
    obtain st reps x where r: "replay (ss_log (ps_session w)) = Inr (st, reps, x)" using paired_replays [OF ok] by blast
    obtain w2 g where g: "surface_generation w1 = (w2, g)" by fastforce
    note G = surface_generation_log [OF same_log_ok [OF 1] g r [folded same_log_eq [OF 1]]]
    obtain w3 outcome where c: "compact_if_needed config env ContextOverflow w2 = (w3, outcome)" by fastforce
    have 3: "paired_ok w3" using log_grows.entry_steps [OF TrueI same_log_ok [OF G(1)] c] by blast
    obtain st' reps' x' where r': "replay (ss_log (ps_session w3)) = Inr (st', reps', x')" using paired_replays [OF 3] by blast
    obtain w4 g' where g': "surface_generation w3 = (w4, g')" by fastforce
    note G' = surface_generation_log [OF 3 g' r']
    note 2 = same_log_trans [OF 1 G(1)]
    have pub: "on_published w2 w3 rc = on_published w w3 rc" for rc using same_log_eq [OF 2] by (simp add: on_published_def)
    have "w' \<in> {w3, w4}" "d = Pass \<and> rc' = on_published w2 w3 (rc\<lparr>rc_known := True\<rparr>) \<or>
        d = Retry \<and> rc_retries rc' = Some (given (rc_retries rc) 0 + 1) \<and> replace_generation st < replace_generation st'"
      using False h t target g c g' G(2) G'(2) by (auto simp: on_request_error_def Let_def pub split: if_splits)
    then show thesis
      using tried [OF 2 c _ target(2)] same_log_refl [OF 3] G'(1) r r' same_log_eq [OF G'(1)] by fastforce
  qed
qed

context engine_steps
begin

lemma pre_step_steps:
  assumes "allowed env" "paired_ok w" "pre_step config env aborted warned w = (w', x)"
  shows "paired_ok w' \<and> steps env w w'"
proof (cases aborted)
  case True
  then show ?thesis using assms after_read [OF same_log_refl] by (simp add: pre_step_def)
next
  case False
  then have "\<exists>r. compact_if_needed config env Pressure w = (w', r)"
    using assms(3) by (auto simp: pre_step_def split: prod.splits sum.splits option.splits engine_error.splits if_splits)
  then show ?thesis using entry_steps [OF assms(1,2)] by blast
qed

lemma request_error_steps:
  assumes "allowed env" "paired_ok w" "on_request_error config env overflow aborted aborted' w rc = (w', rc', d)"
  shows "paired_ok w' \<and> steps env w w'"
  using assms(2,3)
proof (cases rule: request_error_cases)
  case (tried target w2 w3 outcome)
  then show ?thesis
    using then_read [OF continued [OF tried(1) entry_steps [OF assms(1) same_log_ok [OF tried(1)] tried(2)]] tried(3)] by blast
qed (simp add: after_read)

end

text \<open>One operation of a run. \<open>quiet_op\<close> is the case in which nobody else writes metering events or replacements.\<close>

fun quiet_op :: "(jnum \<Rightarrow> string) \<Rightarrow> engine_op \<Rightarrow> bool" where
  "quiet_op digits (BeforeStep env aborted) = (ee_digits env = digits \<and> quiet_env env)"
| "quiet_op digits (RequestFailed env overflow aborted aborted') = (ee_digits env = digits \<and> quiet_env env)"
| "quiet_op digits (Command env mt command) = (ee_digits env = digits \<and> quiet_env env)"
| "quiet_op digits (StatusChanged idle) = True"
| "quiet_op digits (Appended appending dispatch now d intent) = quiet_append d (snd intent)"

lemma engine_step_keeps:
  assumes ok: "paired_ok (en_session st)" and s: "engine_step config x st = (st', d)"
  shows "paired_ok (en_session st') \<and> (\<exists>ys. ss_log (ps_session (en_session st')) = ss_log (ps_session (en_session st)) @ ys) \<and>
    (quiet_op digits x \<and> metered_log digits (ss_log (ps_session (en_session st))) \<longrightarrow>
       metered_log digits (ss_log (ps_session (en_session st'))))"
proof (cases x)
  case (BeforeStep env aborted)
  then obtain y where "pre_step config env aborted (en_warned st) (en_session st) = (en_session st', y)"
    using s by (auto split: prod.splits)
  note log_grows.pre_step_steps [OF TrueI ok this] accounts.pre_step_steps [OF _ ok this]
  then show ?thesis using BeforeStep by auto
next
  case (RequestFailed env overflow aborted aborted')
  then obtain rc e where
    "on_request_error config env overflow aborted aborted' (en_session st) (en_recovery st) = (en_session st', rc, e)"
    using s by (auto split: prod.splits)
  note log_grows.request_error_steps [OF TrueI ok this] accounts.request_error_steps [OF _ ok this]
  then show ?thesis using RequestFailed by auto
next
  case (Command env mt command)
  then obtain y where "compact_now env mt command (en_session st) = (en_session st', y)"
    using s by (auto split: prod.splits)
  note log_grows.command_steps [OF TrueI ok this] accounts.command_steps [OF _ ok this]
  then show ?thesis using Command by auto
next
  case (StatusChanged idle)
  then show ?thesis using s ok by auto
next
  case (Appended appending dispatch now data intent)
  obtain t r where a: "append_event appending dispatch now data intent (ps_session (en_session st)) = (t, r)" by fastforce
  have st': "en_session st' = (en_session st)\<lparr>ps_session := t\<rparr>" using s Appended a by (auto simp: Let_def)
  have "ss_log t = ss_log (ps_session (en_session st)) \<or>
      (\<exists>e. ss_log t = ss_log (ps_session (en_session st)) @ [e] \<and> ev_data e = data \<and> ev_surface_op e = snd intent)"
    using a by (cases rule: append_event_cases) (auto simp: push_event_def)
  then show ?thesis using paired_ok_append [OF ok a] st' Appended quiet_metered by auto
qed

lemma engine_run_keeps:
  assumes "paired_ok (en_session st)" and "engine_run config ops st = (st', ds)"
  shows "paired_ok (en_session st') \<and> (\<exists>ys. ss_log (ps_session (en_session st')) = ss_log (ps_session (en_session st)) @ ys) \<and>
    (list_all (quiet_op digits) ops \<and> metered_log digits (ss_log (ps_session (en_session st))) \<longrightarrow>
       metered_log digits (ss_log (ps_session (en_session st'))))"
  using assms
proof (induction ops arbitrary: st ds)
  case (Cons x xs)
  obtain st1 d where s: "engine_step config x st = (st1, d)" by fastforce
  obtain ds1 where run: "engine_run config xs st1 = (st', ds1)" using Cons.prems(2) s by (auto split: prod.splits)
  note 1 = engine_step_keeps [OF Cons.prems(1) s, of digits]
  note 2 = Cons.IH [OF conjunct1 [OF 1] run]
  then show ?case using 1 by auto
qed simp

text \<open>C18. Whatever the engine goes through, in any order and on every path - checks before steps, recoveries, manual
  commands, pruning passes and compactions that succeed, fail or are refused, between anything others append - the
  session stays well-formed and its log is only extended; and if nobody else writes metering events or
  replacements, the status display stays exact: a metered log remains metered.\<close>

theorem engine_keeps_accounts:
  assumes "paired_ok (en_session st)" and "engine_run config ops st = (st', ds)"
  shows "paired_ok (en_session st') \<and> (\<exists>ys. ss_log (ps_session (en_session st')) = ss_log (ps_session (en_session st)) @ ys) \<and>
    (list_all (quiet_op digits) ops \<and> metered_log digits (ss_log (ps_session (en_session st))) \<longrightarrow>
       metered_log digits (ss_log (ps_session (en_session st'))))"
  by (rule engine_run_keeps [OF assms])

section \<open>Recovery is bounded\<close>

definition overflow_bound :: "compaction_config \<Rightarrow> int" where
  "overflow_bound config = foldr max (List.map_filter pf_overflow (cc_policies config)) (cc_overflow config)"

lemma foldr_max: "x \<in> set xs \<Longrightarrow> (x :: int) \<le> foldr max xs b" "b \<le> foldr max xs b"
  by (induction xs) auto

lemma overflow_bounded: "tp_overflow (resolve_target_policy config target) \<le> overflow_bound config"
proof -
  have "n \<le> overflow_bound config" if "matching_policy config target = Some p" "pf_overflow p = Some n" for p n
  proof -
    have "p \<in> set (cc_policies config)" using that(1) by (auto simp: matching_policy_def find_Some_iff)
    then have "n \<in> set (List.map_filter pf_overflow (cc_policies config))"
      using that(2) by (force simp: List.map_filter_def)
    then show ?thesis unfolding overflow_bound_def by (rule foldr_max)
  qed
  moreover have "cc_overflow config \<le> overflow_bound config" unfolding overflow_bound_def by (rule foldr_max)
  ultimately show ?thesis by (auto simp: resolve_target_policy_def given_def split: option.splits)
qed

definition answers :: "session_event list \<Rightarrow> bool" where
  "answers es \<longleftrightarrow> list_ex (\<lambda>e. ev_type e = ''assistant/message'') es"

lemma published_retries:
  assumes "ss_log (ps_session w') = ss_log (ps_session w) @ ys" and "\<not> answers ys"
  shows "on_published w w' rc = rc"
proof -
  have "fold on_session_event ys rc = rc"
    using assms(2) by (induction ys) (auto simp: answers_def on_session_event_def)
  then show ?thesis using assms(1) by (simp add: on_published_def)
qed

definition retries_of :: "engine_state \<Rightarrow> int" where
  "retries_of st = given (rc_retries (en_recovery st)) 0"

definition generation_of :: "engine_state \<Rightarrow> nat" where
  "generation_of st =
     (case replay (ss_log (ps_session (en_session st))) of Inr (s, _) \<Rightarrow> replace_generation s | Inl _ \<Rightarrow> 0)"

lemma engine_step_recovery:
  assumes ok: "paired_ok (en_session st)" and s: "engine_step config x st = (st', d)" and idle: "x \<noteq> StatusChanged True"
    and log: "ss_log (ps_session (en_session st')) = ss_log (ps_session (en_session st)) @ ys" "\<not> answers ys"
  shows "(if d = Some Retry
      then retries_of st' = retries_of st + 1 \<and> retries_of st < overflow_bound config \<and> generation_of st < generation_of st'
      else retries_of st' = retries_of st \<and> generation_of st \<le> generation_of st')"
proof -
  have ok': "paired_ok (en_session st')" using engine_step_keeps [OF ok s] by blast
  obtain a reps x0 where r: "replay (ss_log (ps_session (en_session st))) = Inr (a, reps, x0)" using paired_replays [OF ok] by blast
  obtain a' reps' x0' where r': "replay (ss_log (ps_session (en_session st'))) = Inr (a', reps', x0')"
    using paired_replays [OF ok'] by blast
  have mono: "generation_of st \<le> generation_of st'"
    using generation_grows [OF r r' [unfolded log(1)]] r r' by (simp add: generation_of_def)
  note quiet = published_retries [OF log]
  show ?thesis
  proof (cases x)
    case (RequestFailed env overflow aborted aborted')
    let ?w = "en_session st" and ?w' = "en_session st'" and ?rc = "en_recovery st"
    obtain rc' e where h: "on_request_error config env overflow aborted aborted' ?w ?rc = (?w', rc', e)"
      "en_recovery st' = rc'" "d = Some e"
      using s RequestFailed by (auto split: prod.splits)
    from ok h(1) show ?thesis
    proof (cases rule: request_error_cases)
      case passed
      then show ?thesis using h mono by (simp add: retries_of_def)
    next
      case (tried target w2 w3 outcome)
      have "ss_log (ps_session w3) = ss_log (ps_session w2) @ ys"
        using log(1) same_log_eq [OF tried(1)] same_log_eq [OF tried(3)] by simp
      from published_retries [OF this log(2)] show ?thesis
        using tried(4,5) overflow_bounded [of config target] h(2,3) mono r r' by (auto simp: retries_of_def generation_of_def given_def)
    qed
  qed (use s idle quiet mono in \<open>auto simp: retries_of_def Let_def on_status_def split: prod.splits\<close>)
qed

text \<open>C17. Overflow recovery ends: as long as the agent neither becomes idle nor gets an answer, the number of requests the
  engine sends again is at most the largest retry count configured for any model, counted from the retries
  already made; and it never sends the same conversation twice, since every retry follows a replacement on the
  surface.\<close>

theorem overflow_recovery_ends:
  assumes "paired_ok (en_session st)" and "engine_run config ops st = (st', ds)"
    and "StatusChanged True \<notin> set ops"
    and "ss_log (ps_session (en_session st')) = ss_log (ps_session (en_session st)) @ ys" "\<not> answers ys"
  shows "retries_of st + int (count_list ds Retry) \<le> max (retries_of st) (overflow_bound config) \<and>
    generation_of st + count_list ds Retry \<le> generation_of st'"
  using assms
proof (induction ops arbitrary: st ds ys)
  case (Cons x xs)
  obtain st1 d where s: "engine_step config x st = (st1, d)" by fastforce
  obtain ds1 where run: "engine_run config xs st1 = (st', ds1)" "ds = (case d of None \<Rightarrow> ds1 | Some y \<Rightarrow> y # ds1)"
    using Cons.prems(2) s by (auto split: prod.splits)
  obtain ys1 where ys1: "paired_ok (en_session st1)"
    "ss_log (ps_session (en_session st1)) = ss_log (ps_session (en_session st)) @ ys1"
    using engine_step_keeps [OF Cons.prems(1) s] by blast
  obtain ys2 where ys2: "ss_log (ps_session (en_session st')) = ss_log (ps_session (en_session st1)) @ ys2"
    using engine_run_keeps [OF ys1(1) run(1)] by blast
  have ys: "\<not> answers ys1" "\<not> answers ys2" using Cons.prems(4,5) ys1(2) ys2 by (auto simp: answers_def)
  note 1 = engine_step_recovery [OF Cons.prems(1) s _ ys1(2) ys(1)]
  note 2 = Cons.IH [OF ys1(1) run(1) _ ys2 ys(2)]
  have "x \<noteq> StatusChanged True" "StatusChanged True \<notin> set xs" using Cons.prems(3) by auto
  then show ?case
    using 1 2 run(2) by (cases "d = Some Retry") (auto split: option.splits if_splits)
qed simp


section \<open>The outcomes of a pressure pass\<close>

definition fresh :: "engine_env \<Rightarrow> paired_session \<Rightarrow> measurement \<Rightarrow> bool" where
  "fresh env w m \<longleftrightarrow> meter_read (ee_digits env) None (ss_log (ps_session w)) = Inr m"

lemma fresh_log: "same_log w w' \<Longrightarrow> fresh env w' m = fresh env w m"
  by (simp add: fresh_def same_log_eq)

lemma fresh_measured: "paired_ok w \<Longrightarrow> engine_measure env w = (w', Inr m) \<Longrightarrow> same_log w w' \<and> fresh env w' m"
  using engine_measure_log(1) [of w env w' "Inr m"] engine_measure_log(2) [of w env w' "Inr m" m]
  by (simp add: fresh_def same_log_eq)

lemma compact_region_ok: "paired_ok w \<Longrightarrow> compact_region env k rg w = (w', r) \<Longrightarrow> paired_ok w'"
  using log_grows.compact_region_steps [OF TrueI] by blast

lemma prune_first_fresh:
  assumes "paired_ok w" and "prune_first env m w = (w', Inr m')" and "fresh env w m"
  shows "fresh env w' m'"
proof (cases "ee_pruner env")
  case None
  then show ?thesis using assms by (simp add: prune_first_def)
next
  case (Some pruner)
  obtain w1 q where q: "prune_with env pruner w = (w1, q)" by fastforce
  then have "engine_measure env w1 = (w', Inr m')" using assms(2) Some by (auto simp: prune_first_def split: sum.splits)
  then show ?thesis using fresh_measured [OF prune_with_log(1) [OF assms(1) q]] by blast
qed

lemma prune_first_error: "prune_first env m w = (w', Inl err) \<Longrightarrow> err \<noteq> StillAbove t a"
  by (auto simp: prune_first_def prune_with_def engine_measure_def split: option.splits prod.splits sum.splits)

lemma later_pass_reports: "pressure_loop env spec k n m (Some res) w = (w', r) \<Longrightarrow> r \<noteq> Inr None"
  by (induction n arbitrary: k m res w) (auto split: prod.splits sum.splits option.splits if_splits)

lemma pressure_loop_outcome:
  assumes "paired_ok w" and "pressure_loop env spec k n m latest w = (w', r)"
    and "n = 0 \<or> latest \<noteq> None \<Longrightarrow> fresh env w m \<and> \<not> below m (cs_threshold spec)"
  shows "(\<forall>res. r = Inr (Some res) \<longrightarrow> (\<exists>m'. fresh env w' m' \<and> below m' (cs_threshold spec))) \<and>
    (\<forall>t a. r = Inl (StillAbove t a) \<longrightarrow> a = cs_retries spec + 1 \<and>
       (\<exists>m'. fresh env w' m' \<and> me_total m' = t \<and> \<not> below m' (cs_threshold spec))) \<and>
    (r = Inr None \<longrightarrow> same_log w w' \<and> snd (select_range m (cs_retain spec) w) = Inr None)"
  using assms
proof (induction n arbitrary: k m latest w)
  case 0
  then show ?case by auto
next
  case (Suc n)
  obtain w1 p where p: "select_range m (cs_retain spec) w = (w1, p)" by fastforce
  note 1 = select_range_log [OF Suc.prems(1) p]
  consider (error) err where "p = Inl err" | (none) "p = Inr None" | (chosen) rg where "p = Inr (Some rg)"
    by (metis sum.exhaust option.exhaust)
  then show ?case
  proof cases
    case error
    have "err \<noteq> StillAbove t a" for t a
      using p error by (auto simp: select_range_def split: prod.splits sum.splits)
    then show ?thesis using Suc.prems(2) p error by auto
  next
    case none
    then show ?thesis using Suc.prems(2,3) p 1 fresh_log [OF 1] by (auto split: if_splits)
  next
    case chosen
    obtain w2 u where u: "compact_region env k rg w1 = (w2, u)" by fastforce
    note ok2 = compact_region_ok [OF same_log_ok [OF 1] u]
    obtain w3 q where q: "engine_measure env w2 = (w3, q)" by fastforce
    have errors: "u \<noteq> Inl (StillAbove t a)" "q \<noteq> Inl (StillAbove t a)" for t a
      using u q by (auto simp: compact_region_def engine_measure_def split: prod.splits sum.splits)
    show ?thesis
    proof (cases "\<exists>res m'. u = Inr res \<and> q = Inr m'")
      case True
      then obtain res m' where ok: "u = Inr res" "q = Inr m'" by blast
      have F: "same_log w2 w3" "fresh env w3 m'" using fresh_measured [OF ok2] q ok(2) by blast+
      show ?thesis
      proof (cases "below m' (cs_threshold spec)")
        case True
        then show ?thesis using Suc.prems(2) p chosen u ok q F(2) by auto
      next
        case False
        then have "pressure_loop env spec (Suc k) n m' (Some res) w3 = (w', r)"
          using Suc.prems(2) p chosen u ok q by simp
        from Suc.IH [OF same_log_ok [OF F(1)] this] False F(2) have IH:
          "(\<forall>res. r = Inr (Some res) \<longrightarrow> (\<exists>m'. fresh env w' m' \<and> below m' (cs_threshold spec))) \<and>
           (\<forall>t a. r = Inl (StillAbove t a) \<longrightarrow> a = cs_retries spec + 1 \<and>
             (\<exists>m'. fresh env w' m' \<and> me_total m' = t \<and> \<not> below m' (cs_threshold spec)))"
          by blast
        have "r \<noteq> Inr None"
          using \<open>pressure_loop env spec (Suc k) n m' (Some res) w3 = (w', r)\<close>
          by (rule later_pass_reports)
        then show ?thesis using IH by blast
      qed
    next
      case False
      then have "(\<exists>err. u = Inl err \<and> r = Inl err) \<or> (\<exists>err. q = Inl err \<and> r = Inl err)"
        using Suc.prems(2) p chosen u q by (auto split: sum.splits)
      then obtain err where "r = Inl err" "\<forall>t a. err \<noteq> StillAbove t a" using errors by metis
      then show ?thesis by simp
    qed
  qed
qed

text \<open>
  The budgets that apply when a pass decides: the header is the one of the moment the adapter answered, and
  \<open>v\<close> is the session after the reads before.
\<close>

definition budgeted :: "compaction_config \<Rightarrow> engine_env \<Rightarrow> paired_session \<Rightarrow> compact_spec \<Rightarrow> bool" where
  "budgeted config env w spec \<longleftrightarrow>
     (\<exists>v target info. same_log w v \<and> snd (routed_target w) = Some target \<and> ee_model env target = Inr info \<and>
        pressure_spec config target info (map_option (\<lambda>p. ratio_for p target) (ee_policy env))
          (Option.bind (fold_request_header (ss_log (ps_session (interleave (ee_meanwhile env) v))) None)
            (\<lambda>header. cfg_max_tokens (hdr_config header))) = Inr spec)"

lemma resolved_spec_retries: "resolve_compact_spec policy window = Inr spec \<Longrightarrow> cs_retries spec = tp_retries policy"
  by (auto simp: resolve_compact_spec_def Let_def split: option.splits if_splits)

lemma automatic_threshold_retries [simp]: "tp_retries (policy_for_automatic_threshold policy q) = tp_retries policy"
  by (simp add: policy_for_automatic_threshold_def split: retention.splits)

lemma pressure_spec_retries:
  assumes "pressure_spec config target info ratio max_tokens = Inr spec"
  shows "cs_retries spec = tp_retries (resolve_target_policy config target)"
proof -
  obtain policy input spec0 where "resolve_compact_spec policy input = Inr spec0" "cs_retries spec = cs_retries spec0"
    "tp_retries policy = tp_retries (resolve_target_policy config target)"
    using assms by (auto simp: pressure_spec_def result_simps Let_def split: option.splits)
  then show ?thesis using resolved_spec_retries by simp
qed

text \<open>Where a pass can end, and what it measured last.\<close>

lemma pressure_pass_cases:
  assumes ok: "paired_ok w" and p: "pressure_pass config env target m w = (w', r)" and m: "fresh env w m"
  obtains (failed) err where "r = Inl err" "\<And>t a. err \<noteq> StillAbove t a"
  | (idle) info spec m' where "ee_model env target = Inr info"
      "pressure_spec config target info (map_option (\<lambda>p. ratio_for p target) (ee_policy env))
        (Option.bind (fold_request_header (ss_log (ps_session (interleave (ee_meanwhile env) w))) None)
          (\<lambda>header. cfg_max_tokens (hdr_config header))) = Inr spec"
      "r = Inr None" "ee_meanwhile env = [] \<Longrightarrow> fresh env w' m'" "below m' (cs_threshold spec)"
  | (looped) info spec m' w4 where "ee_model env target = Inr info"
      "pressure_spec config target info (map_option (\<lambda>p. ratio_for p target) (ee_policy env))
        (Option.bind (fold_request_header (ss_log (ps_session (interleave (ee_meanwhile env) w))) None)
          (\<lambda>header. cfg_max_tokens (hdr_config header))) = Inr spec"
      "pressure_loop env spec 0 (nat (cs_retries spec + 1)) m' None w4 = (w', r)" "paired_ok w4"
      "ee_meanwhile env = [] \<Longrightarrow> fresh env w4 m'" "\<not> below m' (cs_threshold spec)"
proof -
  let ?w = "interleave (ee_meanwhile env) w"
  note ok1 = interleave_log(1) [OF ok]
  obtain w2 q where q: "assert_no_active_compaction ?w = (w2, q)" by fastforce
  note 2 = assert_inactive_log [OF ok1 q]
  obtain s h where h: "request_header (ps_session w2) = (s, h)" by fastforce
  let ?w3 = "w2\<lparr>ps_session := s\<rparr>"
  note H = request_header_log [OF same_log_ok [OF 2] h]
  note 3 = same_log_trans [OF 2 H(1)]
  note header = H(2) [unfolded same_log_eq [OF 2]]
  have fresh3: "fresh env ?w3 m" if "ee_meanwhile env = []"
    using m fresh_log [OF 3] that by simp
  have q': "q \<noteq> Inl (Fault g)" for g using q by (auto simp: assert_no_active_compaction_def split: prod.splits if_splits)
  show thesis
  proof (cases "\<exists>info. ee_model env target = Inr info \<and> q = Inr ()")
    case False
    then have "\<exists>err. r = Inl err \<and> (\<forall>t a. err \<noteq> StillAbove t a)"
      using p q by (auto simp: pressure_pass_def Let_def split: sum.splits)
    then show thesis using failed by blast
  next
    case True
    then obtain info where info: "ee_model env target = Inr info" "q = Inr ()" by blast
    let ?spec = "pressure_spec config target info (map_option (\<lambda>p. ratio_for p target) (ee_policy env))
        (Option.bind h (\<lambda>header. cfg_max_tokens (hdr_config header)))"
    show thesis
    proof (cases ?spec)
      case (Inl fault)
      then show thesis using failed p q info h by (auto simp: pressure_pass_def Let_def)
    next
      case (Inr spec)
      obtain w4 u where u: "prune_first env m ?w3 = (w4, u)" by fastforce
      have ok4: "paired_ok w4" using log_grows.prune_first_steps [OF TrueI same_log_ok [OF 3] u] by blast
      have pruned: "fresh env w4 m'" if "u = Inr m'" "ee_meanwhile env = []" for m'
        using prune_first_fresh [OF same_log_ok [OF 3] u [unfolded that(1)] fresh3 [OF that(2)]] .
      have out: "(w', r) = (if below m (cs_threshold spec) then (?w3, Inr None)
          else case u of Inl err \<Rightarrow> (w4, Inl err)
            | Inr m' \<Rightarrow> if below m' (cs_threshold spec) then (w4, Inr None)
                else pressure_loop env spec 0 (nat (cs_retries spec + 1)) m' None w4)"
        using p [symmetric] q info h Inr u by (cases u) (simp_all add: pressure_pass_def Let_def)
      show thesis
      proof (cases "below m (cs_threshold spec)")
        case True
        then show thesis using out fresh3 by (intro idle [OF info(1) Inr [unfolded header] _ _ True]) simp_all
      next
        case above: False
        show thesis
        proof (cases u)
          case (Inl err)
          then show thesis using failed [of err] out above prune_first_error [OF u [unfolded Inl]] by simp
        next
          case u': (Inr m')
          show thesis
          proof (cases "below m' (cs_threshold spec)")
            case True
            then show thesis using out above u' pruned [OF u']
              by (intro idle [OF info(1) Inr [unfolded header] _ _ True]) simp_all
          next
            case False
            then show thesis using out above u' pruned [OF u']
              by (intro looped [OF info(1) Inr [unfolded header] _ ok4 _ False]) simp_all
          qed
        qed
      qed
    qed
  qed
qed


text \<open>A pass that finds nothing to compact, in terms of the surface.\<close>

lemma no_cut_left:
  assumes ok: "paired_ok w" and m: "fresh env w m"
    and none: "same_log w w' \<and> snd (select_range m retain w) = Inr None"
    and r: "replay (ss_log (ps_session w')) = Inr (st, reps, x)" and wp: "well_paired (ss_log (ps_session w')) (nodes st)"
  shows "best_cut (ss_log (ps_session w')) (me_nodes m) retain (nodes st) = None \<and> fresh env w' m"
proof -
  note log = same_log_eq [OF conjunct1 [OF none]]
  obtain w1 p where p: "select_compactable_range m retain w = (w1, p)" by fastforce
  have none': "p = Inr None" using none p by (auto simp: select_range_def split: sum.splits)
  have "me_nodes m = priced_nodes (ee_digits env) (ss_log (ps_session w)) (nodes st)"
    using meter_read_surface [OF m [unfolded fresh_def]] r log by simp
  then have "p = Inr (map_option (\<lambda>k. (nodes st ! 0, nodes st ! (k - 1)))
      (best_cut (ss_log (ps_session w)) (me_nodes m) retain (nodes st)))"
    by (intro select_exact(2) [OF ok _ _ _ _ p])
      (use r wp log in \<open>auto simp: priced_nodes_def event_tokens_nonneg comp_def\<close>)
  then show ?thesis using none' m log by (simp add: fresh_def)
qed

text \<open>C16. A pressure pass tells the truth about the session. If it returns a compaction, a fresh measurement of the
  session is below the threshold of the routed model's budget; if it gives up, a fresh measurement is still at
  the threshold or above, and it says how many attempts were allowed; and if it does nothing although nobody
  interfered, the model is unknown, the session is below the threshold, or there is no cut behind which the
  retained budget fits.\<close>

theorem pressure_pass_outcomes:
  assumes ok: "paired_ok w" and config: "resolve_compaction_config raw = Inr config"
    and c: "compact_if_needed config env Pressure w = (w', r)"
    and r': "replay (ss_log (ps_session w')) = Inr (st', reps', x')"
  shows "(\<forall>res. r = Inr (Some res) \<longrightarrow> (\<exists>spec m. budgeted config env w spec \<and> fresh env w' m \<and> below m (cs_threshold spec))) \<and>
    (\<forall>t a. r = Inl (StillAbove t a) \<longrightarrow> (\<exists>spec m. budgeted config env w spec \<and> fresh env w' m \<and>
       \<not> below m (cs_threshold spec) \<and> me_total m = t \<and> a = cs_retries spec + 1)) \<and>
    (r = Inr None \<and> ee_meanwhile env = [] \<and> well_paired (ss_log (ps_session w')) (nodes st') \<longrightarrow>
       snd (routed_target w) = None \<or> (\<exists>spec m. budgeted config env w spec \<and> fresh env w' m \<and>
         (below m (cs_threshold spec) \<or>
          best_cut (ss_log (ps_session w')) (me_nodes m) (cs_retain spec) (nodes st') = None)))"
proof -
  obtain w1 t where t: "routed_target w = (w1, t)" by fastforce
  note 1 = routed_target_log [OF ok t]
  obtain w2 q where q: "engine_measure env w1 = (w2, q)" by fastforce
  note 2 = same_log_trans [OF 1 engine_measure_log(1) [OF same_log_ok [OF 1] q]]
  show ?thesis
  proof (cases "\<exists>target m. t = Some target \<and> q = Inr m")
    case False
    have "q \<noteq> Inl (StillAbove a b)" for a b
      using q by (auto simp: engine_measure_def split: prod.splits sum.splits)
    then show ?thesis using c t q False by (auto simp: compact_if_needed_def split: option.splits sum.splits)
  next
    case True
    then obtain target m where tm: "t = Some target" "q = Inr m" by blast
    have pass: "pressure_pass config env target m w2 = (w', r)" using c t q tm by (simp add: compact_if_needed_def)
    have m: "fresh env w2 m" using fresh_measured [OF same_log_ok [OF 1]] q tm(2) by blast
    from same_log_ok [OF 2] pass m show ?thesis
    proof (cases rule: pressure_pass_cases)
      case (failed err)
      then show ?thesis by auto
    next
      case (idle info spec m')
      have "budgeted config env w spec" unfolding budgeted_def using 2 t tm(1) idle(1,2) by auto
      then show ?thesis using idle(3-5) by auto
    next
      case (looped info spec m' w4)
      have b: "budgeted config env w spec" unfolding budgeted_def using 2 t tm(1) looped(1,2) by auto
      have "0 < nat (cs_retries spec + 1)"
        using pressure_spec_retries [OF looped(2)] resolved_retries [OF config, of target] by simp
      then have L: "(\<forall>res. r = Inr (Some res) \<longrightarrow> (\<exists>m'. fresh env w' m' \<and> below m' (cs_threshold spec))) \<and>
          (\<forall>t a. r = Inl (StillAbove t a) \<longrightarrow> a = cs_retries spec + 1 \<and>
            (\<exists>m'. fresh env w' m' \<and> me_total m' = t \<and> \<not> below m' (cs_threshold spec))) \<and>
          (r = Inr None \<longrightarrow> same_log w4 w' \<and> snd (select_range m' (cs_retain spec) w4) = Inr None)"
        by (intro pressure_loop_outcome [OF looped(4,3)]) simp
      have "best_cut (ss_log (ps_session w')) (me_nodes m') (cs_retain spec) (nodes st') = None \<and> fresh env w' m'"
        if "r = Inr None" "ee_meanwhile env = []" "well_paired (ss_log (ps_session w')) (nodes st')"
        using L no_cut_left [OF looped(4) looped(5) _ r'] that by blast
      then show ?thesis using L b by blast
    qed
  qed
qed


section \<open>Examples\<close>

text \<open>A turn with one long prompt, under a model with a small window.\<close>

definition example_engine_session :: paired_session where
  "example_engine_session =
     \<lparr>ps_session = append_all
        [(TurnStart 1, (None, None)),
         (RequestHeader (example_header None) ''r0'', (None, None)),
         (UserMessage \<lparr>msg_id = ''m0'', msg_role = UserRole, msg_content = [TextBlock (replicate 240 (CHR 0xE9))],
              msg_source = UserSource\<rparr>, (None, Some append_op)),
         (UserMessage (example_prompt ''m1''), (None, Some append_op))]
        (blank_session (synthesized_header ''s1'' 1000)),
      ps_cache = None\<rparr>"

definition example_engine_config :: jv where
  "example_engine_config = JObj [(''thresholdRatio'', JNum (NFrac (1 / 2))), (''retainTokens'', jint 1)]"

definition example_engine_env :: engine_env where
  "example_engine_env =
     \<lparr>ee_digits = (\<lambda>_. []), ee_pruner = None, ee_policy = None,
      ee_model = (\<lambda>_. Inr \<lparr>mi_window = Some (NInt 500), mi_max_tokens = None\<rparr>), ee_meanwhile = [],
      ee_regions = (\<lambda>k. example_env\<lparr>ce_meanwhile := []\<rparr>)\<rparr>"


definition example_engine_state :: engine_state where
  "example_engine_state =
     \<lparr>en_session = example_engine_session, en_recovery = \<lparr>rc_retries = None, rc_known = False\<rparr>, en_warned = []\<rparr>"

definition example_maintenance :: command_signals where
  "example_maintenance =
     \<lparr>mt_aborted = False, mt_admitted = True, mt_started_aborted = False, mt_agent_cancelled = False,
      mt_failed_aborted = False\<rparr>"

lemma example_engine_ok: "paired_ok example_engine_session"
proof -
  have "session_ok (ps_session example_engine_session)"
    unfolding example_engine_session_def paired_session.simps by (intro append_all_ok session_ok_blank)
  then show ?thesis by (simp add: paired_ok_def cache_coherent_def example_engine_session_def)
qed

theorem pressure_pass_outcomes_witness:
  "\<exists>config w' res m. resolve_compaction_config example_engine_config = Inr config \<and>
     compact_if_needed config example_engine_env Pressure example_engine_session = (w', Inr (Some res)) \<and>
     fresh example_engine_env w' m"
proof -
  have "case resolve_compaction_config example_engine_config of
      Inr config \<Rightarrow> (case snd (compact_if_needed config example_engine_env Pressure example_engine_session) of
         Inr (Some _) \<Rightarrow> True | _ \<Rightarrow> False)
    | Inl _ \<Rightarrow> False" by code_simp
  then obtain config res where config: "resolve_compaction_config example_engine_config = Inr config"
    and "snd (compact_if_needed config example_engine_env Pressure example_engine_session) = Inr (Some res)"
    by (auto split: sum.splits option.splits)
  then obtain w' where c: "compact_if_needed config example_engine_env Pressure example_engine_session = (w', Inr (Some res))"
    by (metis prod.collapse)
  have "paired_ok w'" using log_grows.entry_steps [OF TrueI example_engine_ok c] by blast
  then obtain st reps x where "replay (ss_log (ps_session w')) = Inr (st, reps, x)" using paired_replays by blast
  from pressure_pass_outcomes [OF example_engine_ok config c this] show ?thesis using config c by blast
qed

definition example_engine_run :: "engine_op list \<Rightarrow> engine_state \<times> decision list" where
  "example_engine_run ops =
     (case resolve_compaction_config example_engine_config of
        Inr config \<Rightarrow> engine_run config ops example_engine_state
      | Inl _ \<Rightarrow> (example_engine_state, []))"

lemma example_engine_run_config:
  obtains config where "\<forall>ops. example_engine_run ops = engine_run config ops example_engine_state" "overflow_bound config = 1"
proof -
  have "case resolve_compaction_config example_engine_config of Inr config \<Rightarrow> overflow_bound config = 1 | Inl _ \<Rightarrow> False"
    by code_simp
  then obtain config where "resolve_compaction_config example_engine_config = Inr config" "overflow_bound config = 1"
    by (auto split: sum.splits)
  then show thesis by (intro that) (simp_all add: example_engine_run_def)
qed

theorem overflow_recovery_ends_witness:
  "count_list (snd (example_engine_run (replicate 2 (RequestFailed example_engine_env True False False)))) Retry \<le> 1 \<and>
   length (snd (example_engine_run (replicate 2 (RequestFailed example_engine_env True False False)))) = 2"
proof -
  let ?ops = "replicate 2 (RequestFailed example_engine_env True False False)"
  let ?log = "\<lambda>st. ss_log (ps_session (en_session st))"
  let ?ys = "drop (length (?log example_engine_state)) (?log (fst (example_engine_run ?ops)))"
  obtain config where c: "\<forall>ops. example_engine_run ops = engine_run config ops example_engine_state" "overflow_bound config = 1"
    using example_engine_run_config .
  have len: "length (snd (example_engine_run ?ops)) = 2" "\<not> answers ?ys" by code_simp+
  have ok: "paired_ok (en_session example_engine_state)" using example_engine_ok by (simp add: example_engine_state_def)
  obtain st' ds where run: "engine_run config ?ops example_engine_state = (st', ds)" by fastforce
  have "\<exists>ys. ?log st' = ?log example_engine_state @ ys" using engine_run_keeps [OF ok run] by blast
  then have "?log st' = ?log example_engine_state @ ?ys" using c(1) run by auto
  from overflow_recovery_ends [OF ok run _ this len(2)] have "count_list ds Retry \<le> 1"
    using c(2) by (simp add: retries_of_def example_engine_state_def given_def)
  then show ?thesis using len(1) c(1) run by simp
qed

theorem engine_keeps_accounts_witness:
  "metered_log (\<lambda>_. []) (ss_log (ps_session (en_session (fst (example_engine_run
     [Appended False True 1500 (UserMessage (example_prompt ''m7'')) (None, Some append_op),
      BeforeStep example_engine_env False, Command example_engine_env example_maintenance None])))))"
proof -
  let ?ops = "[Appended False True 1500 (UserMessage (example_prompt ''m7'')) (None, Some append_op),
      BeforeStep example_engine_env False, Command example_engine_env example_maintenance None]"
  obtain config where "\<forall>ops. example_engine_run ops = engine_run config ops example_engine_state"
    using example_engine_run_config by metis
  then have c: "example_engine_run ops = engine_run config ops example_engine_state" for ops by simp
  have ok: "paired_ok (en_session example_engine_state)" using example_engine_ok by (simp add: example_engine_state_def)
  have m: "metered_log (\<lambda>_. []) (ss_log (ps_session (en_session example_engine_state)))" by code_simp
  have q: "list_all (quiet_op (\<lambda>_. [])) ?ops"
    by (simp add: quiet_env_def example_engine_env_def quiet_append_def)
  show ?thesis unfolding c using engine_keeps_accounts [OF ok prod.collapse [symmetric], of config ?ops "\<lambda>_. []"] m q by blast
qed

end
