(* ===== verification/Spec2Isabelle.thy ===== *)
theory Spec2Isabelle
  imports Chunk_Rows Session_Store Goal_Service Schedule_Service Compaction_Trace Compaction_Engine
begin

text \<open>
  A model of the event-sourced core of the agent harness: the session log and everything that is
  computed from it. All sources are under \<^verbatim>\<open>src/packages\<close>, in TypeScript.

  \<^bold>\<open>The program.\<close> A conversation is a \<^emph>\<open>session\<close>: an append-only log of events. Some events
  (user messages, assistant messages, tool results) are on the \<^emph>\<open>surface\<close>, the ordered list the
  model sees; a replacement event shadows a span of the surface by a summary. Everything else is a fold
  of the log: the message history and the header of the next request, the turn and step numbering, the
  goal of the session with its round counter, the reminders, the token prices of the surface, the balance
  of tool calls, the lock of a running compaction. The components keep such folds in caches beside the
  log and catch up when they are read, and they write to the log only through the session's append.
  Compaction ties them together: it selects a range of the surface by token price and tool balance, has
  it summarized while other parts of the program keep appending, checks that the range is unchanged and
  replaces it. The compaction engine decides when that happens: before a step when the measured pressure
  reaches the threshold of the routed model, after the provider refused a request as too long, or on the
  user's command; long tool results are cut first, without a model. A log that ended in a crash is repaired by synthetic closing events, a stored log is
  decoded from packed rows, and a fork copies a closed prefix of a log into a new session.

  \<^bold>\<open>Theories and sources.\<close>
  \<^item> \<open>Prelude\<close>, \<open>Js_Values\<close>, \<open>Js_Strings\<close>: results with exceptions, insertion-ordered maps,
    doubles with 53-bit rounding, JSON trees, string operations, the text \<open>JSON.stringify\<close> prints.
  \<^item> \<open>Session_Types\<close>, \<open>Request_Header\<close>: events, messages, headers and their JSON form
    (\<^verbatim>\<open>core/session/src/types.ts\<close>, \<^verbatim>\<open>request-header.ts\<close>, \<^verbatim>\<open>llm/llm/src\<close>).
  \<^item> \<open>Session_Surface\<close> (\<^verbatim>\<open>surface.ts\<close>): the replay fold of the surface and the incremental
    manager that plans an event before it enters the log.
  \<^item> \<open>Session_Trace\<close> (\<^verbatim>\<open>invariant.ts\<close>), \<open>Session_Repair\<close> (\<^verbatim>\<open>repair.ts\<close>): the checks of
    turns, steps and tool calls, and the closers of an interrupted log.
  \<^item> \<open>Chunk_Rows\<close> (\<^verbatim>\<open>chunk-rows.ts\<close>), \<open>Session_Seed\<close> (first part of \<^verbatim>\<open>index.ts\<close>): the row
    codec, and the validation of headers, envelopes and messages from outside.
  \<^item> \<open>Session_Log\<close>, \<open>Session_Store\<close> (\<^verbatim>\<open>core/session/src/index.ts\<close>): class \<open>Session\<close> as a record
    with its three caches; class \<open>SessionStore\<close> with sessions and entries in heaps, so that two names
    of one session alias, and listeners as arbitrary operations between the two halves of a publication.
  \<^item> \<open>Goal_Fold\<close>, \<open>Goal_Service\<close> (\<^verbatim>\<open>goal/goal/src\<close>): the strict decoder and fold of goal changes,
    the display projection, and the service with its compare-and-set refs and its activation.
  \<^item> \<open>Calendar\<close>, \<open>Schedule_Times\<close>, \<open>Schedule_Domain\<close>, \<open>Schedule_Service\<close>
    (\<^verbatim>\<open>schedule/schedule/src\<close>): calendar arithmetic, offsets and time zones, the reminder stream,
    the three tools and the drive of the scheduler.
  \<^item> \<open>Block_Assembler\<close> (\<^verbatim>\<open>llm/llm/src/assembler.ts\<close>): from stream chunks to content blocks.
  \<^item> \<open>Token_Surface\<close>, \<open>Token_Meter\<close>, \<open>Token_Projections\<close> (\<^verbatim>\<open>llm/token-meter/src\<close>): prices, the priced
    surface, the meter with its cache and the usage anchor, and the three projections a status display
    reads.
  \<^item> \<open>Tool_Pairing\<close> (\<^verbatim>\<open>compaction/compaction/src/tool-pairing.ts\<close>), \<open>Compaction_Region\<close>,
    \<open>Compaction_Transaction\<close> (\<^verbatim>\<open>compaction/compaction-basic/src/region.ts\<close> and
    \<^verbatim>\<open>summarizer.ts\<close>), \<open>Compaction_Trace\<close> (\<^verbatim>\<open>compaction/compaction/src/invariant.ts\<close>): the
    balance cache, range selection and the durable lock, the transaction on all its paths, and the
    independent checks of its events.
  \<^item> \<open>Compaction_Metering\<close>: compaction and the projections together. \<open>Result_Pruner\<close>
    (\<^verbatim>\<open>compaction/compaction-tool-result-pruner/src\<close>): cutting long tool results on the surface.
  \<^item> \<open>Compaction_Config\<close>, \<open>Compaction_Engine\<close> (\<^verbatim>\<open>compaction/compaction-basic/src/config.ts\<close>,
    \<^verbatim>\<open>index.ts\<close>, \<^verbatim>\<open>compaction/compaction-policy/src\<close>): the validated policy of every model, and the engine
    over pruner, meter and transaction: the pressure pass, overflow recovery, the manual command.

  A class is a record of its fields, a method a function from the state to the state and its result, a
  throw an \<open>Inl\<close> of an error datatype with one constructor per throwing place, a tagged union a
  \<open>datatype\<close>, a \<open>Map\<close> an association list in insertion order. Values the code reads as
  \<open>unknown\<close> stay JSON trees (\<open>jv\<close>). What comes from outside is an argument: the clock, fresh
  identifiers, cancellation, outcomes of checkpoints and of publication, the summarizer's answer, the
  zone data of \<open>Intl\<close>, the decimal text of a fractional number. Interleavings are explicit: histories
  are lists of operations, or step relations where listeners act.

  \<^bold>\<open>What the lemmas show.\<close>
  \<^item> Caches are invisible: every cached read (messages, header, goal, meter, tool balance) equals a
    fold of the whole log after any history, failures included (\<open>incremental_fold\<close>).
  \<^item> Invariants hold of every reachable state: of a session, of the store, of the goal service, of the
    reminder stream; a rejected operation leaves the log as it was, and the reasons for a rejection are exact for
    the session's append and the create tool.
  \<^item> Independent readings of one log agree: the surface manager with the replay, the light goal
    projection with the strict fold, the compaction checks with the compaction lock, the incremental
    assembler with a declarative reading of the stream.
  \<^item> Round trips: packed rows, goal changes, calendar instants, reopening a session from its log.
  \<^item> Error paths and liveness: the compaction lock is released on every path on which events can be
    published, a failed compaction keeps the conversation and adds no event but its bracket, a successful one
    never separates a call from its result, a deferred detach happens, a scheduler run hands over each due
    reminder in exactly one message, a malformed event is never half applied; overflow recovery ends and never repeats a request
    unchanged, and a pressure pass that reports success left the session below its threshold.
  \<^item> Composition: whatever the engine, the pruner and transactions do, on every path, the log is only
    extended and the projections stay exact (\<open>engine_steps\<close>).
  \<^item> Bounds: the latest due occurrence of a fixed rate in double arithmetic, the price a usage report
    can never push the pressure below, and the one sequence number the row decoder lets through
    although it is not a safe integer.

  The shared interfaces are locales: \<open>ordered_map\<close>, \<open>incremental_fold\<close>, \<open>codec\<close> and
  \<open>numbered_names\<close> of \<open>Prelude\<close>, each interpreted on the operations of the component that
  provides it; and \<open>engine_steps\<close> of \<open>Compaction_Engine\<close>, the laws of a relation all steps of the engine
  keep, interpreted once for the growth of the log and once for its accounts.

  \<^bold>\<open>Bounds.\<close> Numbers that pass \<open>Number.isSafeInteger\<close> are integers; sums of other integers are
  rounded to 53 significant bits. Prices of text are far below \<open>2^53\<close> and are exact integers. Strings
  hold code units below 256. Ratios are rational values of doubles; products are rounded. All recursions terminate by structure or a
  measure; there is no fuel. The attempts of a pressure pass are counted down from the configured retries, as in the code.

  \<^bold>\<open>Not modelled.\<close> Persistence, query and export (file and database access around the modelled
  codec); the asynchronous agent loop and the goal driver, which call the modelled
  operations from promise chains; the model call that writes a summary, an input of the transaction; the traversal of live JavaScript objects that yields a JSON tree, and
  freezing, which protects against aliasing the model does not have; installation of plugins and
  listeners; provider protocols, tools with operating-system access, the host, the client and the
  type generator, which are I/O, rendering and build tooling.
\<close>

end
